(* ===== verification/Py_Prelude.thy ===== *)
theory Py_Prelude
  imports Main "HOL-Library.Multiset" "HOL-Library.Sublist" "HOL-Library.Char_ord" "HOL-Library.List_Lexorder"
begin

text \<open>
  Shared base of the development: the parts of the Python language and of its standard
  library that the modelled modules use.
  \<^item> exceptions as values (\<open>'a res\<close>), sequencing (\<open>try_bind\<close>), asserts and exception-aware
    \<open>for\<close> loops (\<open>for_each\<close>);
  \<^item> \<open>str\<close> operations: whitespace stripping and splitting, splitting on a separator, joining,
    substring test, decimal printing and parsing of integers;
  \<^item> ordered dictionaries as association lists without duplicate keys;
  \<^item> the two-way merge that \<open>heapq.merge\<close> performs.
  Exception messages are not modelled, only the exception class. \<open>Diverges\<close> is not an exception:
  it stands for a \<open>while\<close> loop that has used up the number of rounds the model gives it, and the
  theorems on such loops show that it does not occur.
\<close>

named_theorems strip_defs \<open>the definitions of stripping white space, unfolded on demand\<close>

section \<open>Exceptions as values\<close>

datatype py_error =
    AssertionError | ValueError | KeyError | IndexError | TypeError | RuntimeError
  | AttributeError | NotImplementedError | StructError | OSError | ZeroDivisionError | NameError
  | OverflowError | ExternalError | SystemExit nat | Diverges

type_synonym 'a res = "py_error + 'a"

definition try_bind :: "'a res \<Rightarrow> ('a \<Rightarrow> 'b res) \<Rightarrow> 'b res" where
  "try_bind m f = (case m of Inl e \<Rightarrow> Inl e | Inr x \<Rightarrow> f x)"

lemma try_bind_simps [simp]:
  "try_bind (Inl e) f = Inl e"
  "try_bind (Inr x) f = f x"
  by (simp_all add: try_bind_def)

lemma try_bind_Inr_iff: "try_bind m f = Inr y \<longleftrightarrow> (\<exists>x. m = Inr x \<and> f x = Inr y)"
  by (cases m) auto

lemma try_bind_InrE [elim!]:
  assumes "try_bind m f = Inr y"
  obtains x where "m = Inr x" "f x = Inr y"
  using assms by (auto simp: try_bind_Inr_iff)

lemma try_bind_cong [fundef_cong]:
  assumes "m = m'" and "\<And>x. m' = Inr x \<Longrightarrow> f x = f' x"
  shows "try_bind m f = try_bind m' f'"
  using assms by (cases m') auto

text \<open>The statement \<open>assert b\<close>.\<close>

definition py_assert :: "bool \<Rightarrow> unit res" where
  "py_assert b = (if b then Inr () else Inl AssertionError)"

lemma py_assert_simps [simp]:
  "py_assert True = Inr ()" "py_assert False = Inl AssertionError"
  "py_assert b = Inr u \<longleftrightarrow> b"
  by (auto simp: py_assert_def)

text \<open>A \<open>for\<close> loop whose body may raise: the first exception ends the loop.\<close>

fun for_each :: "('s \<Rightarrow> 'a \<Rightarrow> 's res) \<Rightarrow> 's \<Rightarrow> 'a list \<Rightarrow> 's res" where
  "for_each f s [] = Inr s"
| "for_each f s (x # xs) = try_bind (f s x) (\<lambda>s'. for_each f s' xs)"

lemma for_each_append:
  "for_each f s (xs @ ys) = try_bind (for_each f s xs) (\<lambda>s'. for_each f s' ys)"
  by (induction xs arbitrary: s) (auto simp: try_bind_def split: sum.splits)

text \<open>Loop rule: an invariant indexed by the iterations already done, with progress.\<close>

lemma for_each_invariant:
  assumes "P [] s"
    and "\<And>ys x zs s. xs = ys @ x # zs \<Longrightarrow> P ys s \<Longrightarrow> \<exists>s'. f s x = Inr s' \<and> P (ys @ [x]) s'"
  shows "\<exists>s'. for_each f s xs = Inr s' \<and> P xs s'"
proof -
  have "\<exists>s'. for_each f s ys = Inr s' \<and> P ys s'" if "xs = ys @ zs" for ys zs
    using that
  proof (induction ys arbitrary: zs rule: rev_induct)
    case Nil
    then show ?case using assms(1) by simp
  next
    case (snoc x ys)
    then obtain s1 where s1: "for_each f s ys = Inr s1" "P ys s1" by force
    with snoc.prems assms(2)[of ys x zs s1] obtain s2 where "f s1 x = Inr s2" "P (ys @ [x]) s2"
      by auto
    with s1 show ?case by (simp add: for_each_append)
  qed
  then show ?thesis by simp
qed

lemma for_each_partial_invariant:
  assumes "for_each f s xs = Inr s'" "P s"
    and "\<And>x s s'. x \<in> set xs \<Longrightarrow> P s \<Longrightarrow> f s x = Inr s' \<Longrightarrow> P s'"
  shows "P s'"
  using assms by (induction xs arbitrary: s) auto

text \<open>A loop that only adds to a set-valued view of its state.\<close>

lemma for_each_accumulate:
  assumes "I s" and "\<And>s x. x \<in> set xs \<Longrightarrow> I s \<Longrightarrow> \<exists>s'. f s x = Inr s' \<and> I s' \<and> view s' = view s \<union> g x"
  shows "\<exists>s'. for_each f s xs = Inr s' \<and> I s' \<and> view s' = view s \<union> (\<Union>x\<in>set xs. g x)"
  using assms
proof (induction xs arbitrary: s)
  case (Cons x xs)
  obtain s1 where s1: "f s x = Inr s1" "I s1" "view s1 = view s \<union> g x"
    using Cons.prems by fastforce
  then obtain s2 where "for_each f s1 xs = Inr s2" "I s2" "view s2 = view s1 \<union> (\<Union>x\<in>set xs. g x)"
    using Cons.IH[of s1] Cons.prems(2) by auto
  with s1 show ?case by (auto simp: Un_assoc)
qed simp

text \<open>The list comprehension \<open>[f(x) for x in xs]\<close> with a raising \<open>f\<close>.\<close>

fun map_res :: "('a \<Rightarrow> 'b res) \<Rightarrow> 'a list \<Rightarrow> 'b list res" where
  "map_res f [] = Inr []"
| "map_res f (x # xs) = try_bind (f x) (\<lambda>y. try_bind (map_res f xs) (\<lambda>ys. Inr (y # ys)))"

lemma map_res_Inr: "(\<And>x. x \<in> set xs \<Longrightarrow> f x = Inr (g x)) \<Longrightarrow> map_res f xs = Inr (map g xs)"
  by (induction xs) auto

lemma map_res_length: "map_res f xs = Inr ys \<Longrightarrow> length ys = length xs"
  by (induction xs arbitrary: ys) auto

lemma map_res_cong [fundef_cong]:
  assumes "xs = ys" and "\<And>x. x \<in> set ys \<Longrightarrow> f x = g x"
  shows "map_res f xs = map_res g ys"
  using assms(2) unfolding assms(1) by (induction ys) auto

text \<open>Python sequence indexing: negative indices count from the end, out of range raises.\<close>

definition py_index :: "'a list \<Rightarrow> int \<Rightarrow> nat res" where
  "py_index xs i = (let n = int (length xs); j = (if i < 0 then n + i else i)
                    in if 0 \<le> j \<and> j < n then Inr (nat j) else Inl IndexError)"

definition py_get :: "'a list \<Rightarrow> int \<Rightarrow> 'a res" where
  "py_get xs i = try_bind (py_index xs i) (\<lambda>j. Inr (xs ! j))"

definition py_set :: "'a list \<Rightarrow> int \<Rightarrow> 'a \<Rightarrow> 'a list res" where
  "py_set xs i v = try_bind (py_index xs i) (\<lambda>j. Inr (xs[j := v]))"

lemma py_index_nonneg [simp]:
  "0 \<le> i \<Longrightarrow> i < int (length xs) \<Longrightarrow> py_index xs i = Inr (nat i)"
  by (simp add: py_index_def)

lemma py_get_nonneg [simp]:
  "0 \<le> i \<Longrightarrow> i < int (length xs) \<Longrightarrow> py_get xs i = Inr (xs ! nat i)"
  by (simp add: py_get_def)

lemma py_set_nonneg [simp]:
  "0 \<le> i \<Longrightarrow> i < int (length xs) \<Longrightarrow> py_set xs i v = Inr (xs[nat i := v])"
  by (simp add: py_set_def)

text \<open>Slices \<open>xs[a:b]\<close>: negative bounds count from the end, all bounds are clamped.\<close>

definition slice_bound :: "'a list \<Rightarrow> int \<Rightarrow> nat" where
  "slice_bound xs i = nat (max 0 (min (int (length xs)) (if i < 0 then int (length xs) + i else i)))"

definition py_slice :: "'a list \<Rightarrow> int \<Rightarrow> int \<Rightarrow> 'a list" where
  "py_slice xs a b = take (slice_bound xs b - slice_bound xs a) (drop (slice_bound xs a) xs)"

lemma py_slice_inside:
  assumes "0 \<le> a" "a \<le> b" "b \<le> int (length xs)"
  shows "py_slice xs a b = take (nat b - nat a) (drop (nat a) xs)"
  using assms by (simp add: py_slice_def slice_bound_def)

lemma length_py_slice:
  assumes "0 \<le> a" "a \<le> b" "b \<le> int (length xs)"
  shows "int (length (py_slice xs a b)) = b - a"
  using assms by (simp add: py_slice_inside)

lemma py_slice_append:
  assumes "0 \<le> a" "a \<le> b" "b \<le> c" "c \<le> int (length xs)"
  shows "py_slice xs a b @ py_slice xs b c = py_slice xs a c"
proof -
  have "take (nat b - nat a) ys @ take (nat c - nat b) (drop (nat b - nat a) ys) = take (nat c - nat a) ys" for ys :: "'a list"
    using take_add[of "nat b - nat a" "nat c - nat b" ys] assms by (simp add: nat_diff_distrib')
  from this[of "drop (nat a) xs"] show ?thesis using assms by (simp add: py_slice_inside)
qed

text \<open>The integers of \<open>range(s, e)\<close>.\<close>

abbreviation py_range :: "int \<Rightarrow> int \<Rightarrow> int list" where
  "py_range s e \<equiv> [s..e - 1]"

lemma atLeastAtMost_minus_one [simp]: "{s..e - 1} = {s..<e}" for s e :: int
  by auto

section \<open>Strings\<close>

text \<open>The characters \<open>str.isspace\<close> accepts among the code points below 256.\<close>

definition is_space :: "char \<Rightarrow> bool" where
  "is_space c = (of_char c \<in> {9, 10, 11, 12, 13, 28, 29, 30, 31, 32, 133, 160 :: nat})"

definition lstrip :: "string \<Rightarrow> string" where
  [strip_defs]: "lstrip s = dropWhile is_space s"

definition rstrip :: "string \<Rightarrow> string" where
  [strip_defs]: "rstrip s = rev (dropWhile is_space (rev s))"

definition strip :: "string \<Rightarrow> string" where
  [strip_defs]: "strip s = rstrip (lstrip s)"

lemma strip_no_space: "(\<And>c. c \<in> set s \<Longrightarrow> \<not> is_space c) \<Longrightarrow> strip s = s"
  unfolding strip_defs
  by (metis dropWhile_eq_self_iff hd_in_set rev_rev_ident set_rev)

text \<open>\<open>s.split()\<close>: the maximal runs of non-space characters. The first argument is the word
  being read.\<close>

fun split_ws_from :: "string \<Rightarrow> string \<Rightarrow> string list" where
  "split_ws_from w [] = (if w = [] then [] else [w])"
| "split_ws_from w (c # cs) =
     (if is_space c then (if w = [] then split_ws_from [] cs else w # split_ws_from [] cs)
      else split_ws_from (w @ [c]) cs)"

definition split_ws :: "string \<Rightarrow> string list" where
  "split_ws s = split_ws_from [] s"

text \<open>\<open>s.split(sep)\<close> for a one-character separator.\<close>

fun split_on :: "char \<Rightarrow> string \<Rightarrow> string list" where
  "split_on sep [] = [[]]"
| "split_on sep (c # cs) =
     (if c = sep then [] # split_on sep cs
      else case split_on sep cs of w # ws \<Rightarrow> (c # w) # ws | [] \<Rightarrow> [[c]])"

text \<open>\<open>sep.join(ws)\<close>.\<close>

fun join :: "string \<Rightarrow> string list \<Rightarrow> string" where
  "join sep [] = []"
| "join sep [w] = w"
| "join sep (w # v # ws) = w @ sep @ join sep (v # ws)"

text \<open>The substring test \<open>p in s\<close>.\<close>

fun str_in :: "string \<Rightarrow> string \<Rightarrow> bool" where
  "str_in p [] = (p = [])"
| "str_in p (c # cs) = (prefix p (c # cs) \<or> str_in p cs)"

lemma str_in_iff: "str_in p s \<longleftrightarrow> (\<exists>a b. s = a @ p @ b)"
proof (induction s)
  case Nil
  then show ?case by auto
next
  case (Cons c cs)
  have "(\<exists>a b. c # cs = a @ p @ b) \<longleftrightarrow> prefix p (c # cs) \<or> (\<exists>a b. cs = a @ p @ b)"
    by (metis append_Cons append_Nil list.inject neq_Nil_conv prefix_def)
  with Cons show ?case by simp
qed

lemma split_on_no_sep: "sep \<notin> set w \<Longrightarrow> split_on sep w = [w]"
  by (induction w) auto

lemma split_on_append_sep:
  "sep \<notin> set w \<Longrightarrow> split_on sep (w @ sep # s) = w # split_on sep s"
  by (induction w) auto

lemma split_on_join:
  "ws \<noteq> [] \<Longrightarrow> (\<And>w. w \<in> set ws \<Longrightarrow> sep \<notin> set w) \<Longrightarrow> split_on sep (join [sep] ws) = ws"
proof (induction ws rule: induct_list012)
  case (3 w v ws)
  then show ?case by (simp add: split_on_append_sep)
qed (auto simp: split_on_no_sep)

lemma split_ws_from_word:
  "(\<And>c. c \<in> set v \<Longrightarrow> \<not> is_space c) \<Longrightarrow> split_ws_from w (v @ s) = split_ws_from (w @ v) s"
  by (induction v arbitrary: w) auto

lemma split_ws_join:
  "(\<And>w. w \<in> set ws \<Longrightarrow> w \<noteq> [] \<and> (\<forall>c\<in>set w. \<not> is_space c)) \<Longrightarrow> split_ws (join '' '' ws) = ws"
proof (induction ws rule: induct_list012)
  case 1
  then show ?case by (simp add: split_ws_def)
next
  case (2 w)
  then show ?case using split_ws_from_word[of w "[]" "[]"] by (auto simp: split_ws_def)
next
  case (3 w v ws)
  have "split_ws (join '' '' (w # v # ws)) = w # split_ws (join '' '' (v # ws))"
    using 3(3)[of w] split_ws_from_word[of w "[]" "'' '' @ join '' '' (v # ws)"]
    by (auto simp: split_ws_def is_space_def)
  also have "split_ws (join '' '' (v # ws)) = v # ws"
    by (rule "3.IH"(2)) (use "3.prems" in auto)
  finally show ?case .
qed

section \<open>Decimal integers\<close>

text \<open>\<open>str(n)\<close> for an integer.\<close>

fun str_nat :: "nat \<Rightarrow> string" where
  "str_nat n = (if n < 10 then [char_of (48 + n)]
                else str_nat (n div 10) @ [char_of (48 + n mod 10)])"

declare str_nat.simps [simp del]

definition str_int :: "int \<Rightarrow> string" where
  "str_int i = (if i < 0 then CHR ''-'' # str_nat (nat (- i)) else str_nat (nat i))"

definition is_digit :: "char \<Rightarrow> bool" where
  "is_digit c = (48 \<le> (of_char c :: nat) \<and> of_char c \<le> (57 :: nat))"

definition digit_val :: "char \<Rightarrow> nat" where
  "digit_val c = of_char c - 48"

text \<open>\<open>int(s)\<close> in base ten: surrounding whitespace, an optional sign, digits with single
  underscores between them; anything else raises \<open>ValueError\<close>.\<close>

fun parse_digits :: "nat \<Rightarrow> string \<Rightarrow> nat option" where
  "parse_digits acc [] = Some acc"
| "parse_digits acc (c # cs) =
     (if is_digit c then parse_digits (acc * 10 + digit_val c) cs
      else if c = CHR ''_'' then
        (case cs of [] \<Rightarrow> None
         | c' # cs' \<Rightarrow> if is_digit c' then parse_digits (acc * 10 + digit_val c') cs' else None)
      else None)"

definition parse_nat :: "string \<Rightarrow> nat option" where
  "parse_nat s = (case s of [] \<Rightarrow> None | c # _ \<Rightarrow> if is_digit c then parse_digits 0 s else None)"

definition py_int :: "string \<Rightarrow> int res" where
  "py_int s = (case strip s of
       [] \<Rightarrow> Inl ValueError
     | c # cs \<Rightarrow>
         (case (if c = CHR ''-'' \<or> c = CHR ''+'' then parse_nat cs else parse_nat (c # cs)) of
            None \<Rightarrow> Inl ValueError
          | Some n \<Rightarrow> Inr (if c = CHR ''-'' then - int n else int n)))"

lemma is_digit_char_of: "n < 10 \<Longrightarrow> is_digit (char_of (48 + n)) \<and> digit_val (char_of (48 + n)) = n"
  by (simp add: is_digit_def digit_val_def)

lemma digit_not_special:
  "is_digit c \<Longrightarrow> \<not> is_space c \<and> c \<noteq> CHR ''-'' \<and> c \<noteq> CHR ''+'' \<and> c \<noteq> CHR '','' \<and> c \<noteq> CHR ''_'' \<and> c \<noteq> CHR '':''"
  by (auto simp: is_digit_def is_space_def)

lemma str_nat_digits: "c \<in> set (str_nat n) \<Longrightarrow> is_digit c"
proof (induction n rule: str_nat.induct)
  case (1 n)
  then show ?case
    by (subst (asm) (2) str_nat.simps) (auto simp: is_digit_char_of split: if_splits)
qed

lemma str_nat_nonempty [simp]: "str_nat n \<noteq> []"
  by (subst str_nat.simps) simp

lemma parse_digits_append:
  "(\<And>c. c \<in> set s \<Longrightarrow> is_digit c) \<Longrightarrow>
   parse_digits acc (s @ t) = (case parse_digits acc s of None \<Rightarrow> None | Some a \<Rightarrow> parse_digits a t)"
  by (induction s arbitrary: acc) auto

lemma parse_digits_str_nat: "parse_digits 0 (str_nat n) = Some n"
proof (induction n rule: str_nat.induct)
  case (1 n)
  show ?case
  proof (cases "n < 10")
    case True
    then show ?thesis by (subst str_nat.simps) (simp add: is_digit_char_of)
  next
    case False
    have "parse_digits 0 (str_nat n) = parse_digits 0 (str_nat (n div 10) @ [char_of (48 + n mod 10)])"
      using False by (subst str_nat.simps) simp
    also have "\<dots> = parse_digits (n div 10) [char_of (48 + n mod 10)]"
      using 1[OF False] by (subst parse_digits_append) (auto simp: str_nat_digits)
    finally show ?thesis by (simp add: is_digit_char_of)
  qed
qed

lemma parse_nat_str_nat [simp]: "parse_nat (str_nat n) = Some n"
  using str_nat_digits[of "hd (str_nat n)" n] parse_digits_str_nat[of n]
  by (cases "str_nat n") (auto simp: parse_nat_def)

lemma str_int_chars: "c \<in> set (str_int i) \<Longrightarrow> c = CHR ''-'' \<or> is_digit c"
  by (auto simp: str_int_def dest: str_nat_digits split: if_splits)

text \<open>Printing and parsing are inverse.\<close>

lemma py_int_str_int [simp]: "py_int (str_int i) = Inr i"
proof -
  have ns: "strip (str_int i) = str_int i"
    by (rule strip_no_space) (use str_int_chars digit_not_special in \<open>fastforce simp: is_space_def\<close>)
  show ?thesis
  proof (cases "i < 0")
    case True
    then show ?thesis using ns by (simp add: py_int_def str_int_def)
  next
    case False
    obtain c cs where c: "str_nat (nat i) = c # cs" by (cases "str_nat (nat i)") auto
    then have "is_digit c" using str_nat_digits[of c "nat i"] by simp
    then show ?thesis using ns False parse_nat_str_nat[of "nat i"] c
      by (auto simp: py_int_def str_int_def dest: digit_not_special)
  qed
qed

lemma str_int_nonneg_chars: "0 \<le> i \<Longrightarrow> c \<in> set (str_int i) \<Longrightarrow> is_digit c"
  by (auto simp: str_int_def intro: str_nat_digits)

lemma str_int_nonempty [simp]: "str_int i \<noteq> []"
  by (simp add: str_int_def)

section \<open>Ordered dictionaries\<close>

text \<open>
  A \<open>dict\<close> (insertion ordered, as \<open>OrderedDict\<close>) is an association list with distinct keys:
  assignment to a present key keeps its position, a new key goes to the end.
\<close>

type_synonym ('k, 'v) odict = "('k \<times> 'v) list"

abbreviation keys :: "('k, 'v) odict \<Rightarrow> 'k list" where
  "keys d \<equiv> map fst d"

definition kset :: "('k, 'v) odict \<Rightarrow> 'k set" where
  "kset d = fst ` set d"

fun dict_set :: "'k \<Rightarrow> 'v \<Rightarrow> ('k, 'v) odict \<Rightarrow> ('k, 'v) odict" where
  "dict_set k v [] = [(k, v)]"
| "dict_set k v ((k', v') # d) = (if k' = k then (k, v) # d else (k', v') # dict_set k v d)"

definition dict_del :: "'k \<Rightarrow> ('k, 'v) odict \<Rightarrow> ('k, 'v) odict" where
  "dict_del k d = filter (\<lambda>(k', _). k' \<noteq> k) d"

text \<open>\<open>d[k]\<close>, raising \<open>KeyError\<close>.\<close>

definition dict_get :: "('k, 'v) odict \<Rightarrow> 'k \<Rightarrow> 'v res" where
  "dict_get d k = (case map_of d k of None \<Rightarrow> Inl KeyError | Some v \<Rightarrow> Inr v)"

text \<open>\<open>del d[k]\<close>, raising \<open>KeyError\<close>.\<close>

definition py_del :: "('k, 'v) odict \<Rightarrow> 'k \<Rightarrow> ('k, 'v) odict res" where
  "py_del d k = (if k \<in> kset d then Inr (dict_del k d) else Inl KeyError)"

lemma map_of_dict_set [simp]: "map_of (dict_set k v d) = (map_of d)(k \<mapsto> v)"
  by (induction d) auto

lemma kset_simps [simp]: "kset [] = {}" "kset ((k, v) # d) = insert k (kset d)" "kset (d @ d') = kset d \<union> kset d'"
  by (auto simp: kset_def)

lemma kset_iff: "k \<in> kset d \<longleftrightarrow> k \<in> set (keys d)"
  by (simp add: kset_def)

lemma kset_dom: "kset d = dom (map_of d)"
  by (simp add: kset_def dom_map_of_conv_image_fst)

lemma finite_kset [simp]: "finite (kset d)"
  by (simp add: kset_def)

lemma kset_empty_iff [simp]: "kset d = {} \<longleftrightarrow> d = []"
  by (simp add: kset_def)

lemma kset_dict_set [simp]: "kset (dict_set k v d) = insert k (kset d)"
proof (induction d)
  case (Cons a d)
  then show ?case by (cases a) (simp add: insert_commute)
qed simp

lemma distinct_dict_set [simp]: "distinct (keys d) \<Longrightarrow> distinct (keys (dict_set k v d))"
proof (induction d)
  case (Cons a d)
  have "set (keys (dict_set k v d)) = insert k (set (keys d))"
    using kset_dict_set[of k v d] by (simp add: kset_def)
  with Cons show ?case by (cases a) auto
qed simp

lemma set_dict_set: "set (dict_set k v d) \<subseteq> insert (k, v) (set d)"
  by (induction d) (auto split: if_splits)

lemma map_of_dict_del [simp]: "map_of (dict_del k d) = (map_of d)(k := None)"
  by (induction d) (auto simp: dict_del_def fun_eq_iff)

lemma kset_dict_del [simp]: "kset (dict_del k d) = kset d - {k}"
  by (induction d) (auto simp: dict_del_def kset_def)

lemma distinct_dict_del [simp]: "distinct (keys d) \<Longrightarrow> distinct (keys (dict_del k d))"
  by (induction d) (auto simp: dict_del_def)

text \<open>An ordered set is the list of the keys of such a dictionary.\<close>

definition oset_add :: "'k list \<Rightarrow> 'k \<Rightarrow> 'k list" where
  "oset_add ks k = (if k \<in> set ks then ks else ks @ [k])"

lemma set_oset_add [simp]: "set (oset_add ks k) = insert k (set ks)"
  by (auto simp: oset_add_def)

lemma distinct_oset_add [simp]: "distinct ks \<Longrightarrow> distinct (oset_add ks k)"
  by (simp add: oset_add_def)

lemma foldl_oset_add [simp]:
  "set (foldl oset_add ks ks') = set ks \<union> set ks'"
  "distinct ks \<Longrightarrow> distinct (foldl oset_add ks ks')"
  by (induction ks' arbitrary: ks) auto

section \<open>Sequences of disjoint sets\<close>

fun disjoint_seq :: "'a set \<Rightarrow> 'a set list \<Rightarrow> bool" where
  "disjoint_seq A [] = True"
| "disjoint_seq A (B # Bs) = (A \<inter> B = {} \<and> disjoint_seq (A \<union> B) Bs)"

lemma disjoint_seq_Un:
  "disjoint_seq A Bs \<longleftrightarrow> A \<inter> \<Union> (set Bs) = {} \<and> disjoint_seq {} Bs"
proof (induction Bs arbitrary: A)
  case (Cons B Bs)
  show ?case using Cons[of "A \<union> B"] Cons[of B] by auto
qed simp

lemma disjoint_seq_append:
  "disjoint_seq A (Bs @ Cs) \<longleftrightarrow> disjoint_seq A Bs \<and> disjoint_seq (A \<union> \<Union> (set Bs)) Cs"
  by (induction Bs arbitrary: A) (auto simp: Un_assoc)

lemma disjoint_seq_nth:
  "disjoint_seq {} Bs \<Longrightarrow> i < length Bs \<Longrightarrow> j < length Bs \<Longrightarrow> i \<noteq> j \<Longrightarrow> Bs ! i \<inter> Bs ! j = {}"
proof (induction Bs arbitrary: i j)
  case (Cons B Bs)
  then have B: "B \<inter> \<Union> (set Bs) = {}" "disjoint_seq {} Bs" using disjoint_seq_Un[of B Bs] by auto
  show ?case
  proof (cases i; cases j)
    fix i' j' assume "i = Suc i'" "j = Suc j'"
    then show ?thesis using Cons B(2) by auto
  next
    fix j' assume "i = 0" "j = Suc j'"
    then show ?thesis using Cons.prems B(1) nth_mem[of j' Bs] by force
  next
    fix i' assume "i = Suc i'" "j = 0"
    then show ?thesis using Cons.prems B(1) nth_mem[of i' Bs] by force
  qed (use Cons.prems in auto)
qed simp

lemma disjoint_seq_iff:
  "disjoint_seq {} Bs \<longleftrightarrow> (\<forall>i<length Bs. \<forall>j<length Bs. i \<noteq> j \<longrightarrow> Bs ! i \<inter> Bs ! j = {})" (is "?L \<longleftrightarrow> ?R Bs")
proof
  assume "?R Bs"
  then show ?L
  proof (induction Bs rule: rev_induct)
    case (snoc B Bs)
    have pair: "(Bs @ [B]) ! i \<inter> (Bs @ [B]) ! j = {}" if "i < Suc (length Bs)" "j < Suc (length Bs)" "i \<noteq> j" for i j
      using snoc.prems that by simp
    have "?R Bs"
    proof (intro allI impI)
      fix i j assume "i < length Bs" "j < length Bs" "i \<noteq> j"
      then show "Bs ! i \<inter> Bs ! j = {}" using pair[of i j] by (simp add: nth_append)
    qed
    then have "disjoint_seq {} Bs" by (rule snoc.IH)
    moreover have "Bs ! i \<inter> B = {}" if "i < length Bs" for i
      using pair[of i "length Bs"] that by (simp add: nth_append)
    then have "\<Union> (set Bs) \<inter> B = {}" by (fastforce simp: set_conv_nth)
    ultimately show ?case by (simp add: disjoint_seq_append)
  qed simp
next
  assume "?L"
  then show "?R Bs" by (intro allI impI disjoint_seq_nth)
qed

section \<open>Merging two ordered streams\<close>

text \<open>
  \<open>heapq.merge(xs, ys)\<close> on two iterables: repeatedly the smaller head, the first stream on a tie.
\<close>

fun merge2 :: "('a::linorder) list \<Rightarrow> 'a list \<Rightarrow> 'a list" where
  "merge2 [] ys = ys"
| "merge2 xs [] = xs"
| "merge2 (x # xs) (y # ys) = (if x \<le> y then x # merge2 xs (y # ys) else y # merge2 (x # xs) ys)"

lemma merge2_Nil2 [simp]: "merge2 xs [] = xs"
  by (cases xs) auto

lemma mset_merge2: "mset (merge2 xs ys) = mset xs + mset ys"
  by (induction xs ys rule: merge2.induct) auto

lemma set_merge2 [simp]: "set (merge2 xs ys) = set xs \<union> set ys"
  by (induction xs ys rule: merge2.induct) auto

lemma sorted_merge2 [simp]: "sorted xs \<Longrightarrow> sorted ys \<Longrightarrow> sorted (merge2 xs ys)"
  by (induction xs ys rule: merge2.induct) auto

end
