(* ===== verification/RangeLib.thy ===== *)
theory RangeLib
  imports Py_Prelude "HOL-Library.Product_Lexorder"
begin

text \<open>
  Model of \<open>tools/releasetools/rangelib.py\<close>: the class \<open>RangeSet\<close>, a set of block numbers kept
  as the flat tuple of the boundaries of its half-open ranges. Every method is one definition,
  in the order of the source. The theory then gives the abstraction \<open>blocks\<close> to sets of
  integers, the class invariant \<open>wf_rs\<close>, the locale \<open>block_set\<close> that states the contract of the
  class for its clients, and its interpretation on the definitions below.
\<close>

section \<open>The class\<close>

text \<open>
  The attribute \<open>_extra\<close> is a dictionary for the callers; the values they store are strings
  (\<open>text_str\<close>), flags (\<open>incomplete\<close>) and other RangeSets (\<open>uses_shared_blocks\<close>).
\<close>

datatype range_set =
    RangeSet (rs_data: "int list") (rs_monotonic: bool) (rs_extra: "(string \<times> extra_val) list")
and extra_val = Extra_str string | Extra_bool bool | Extra_rs range_set

fun remove_pairs_from :: "int option \<Rightarrow> int list \<Rightarrow> int list" where
  "remove_pairs_from lst [] = (case lst of None \<Rightarrow> [] | Some l \<Rightarrow> [l])"
| "remove_pairs_from lst (i # is) =
     (if lst = Some i then remove_pairs_from None is
      else (case lst of None \<Rightarrow> [] | Some l \<Rightarrow> [l]) @ remove_pairs_from (Some i) is)"

definition remove_pairs :: "int list \<Rightarrow> int list" where
  "remove_pairs source = remove_pairs_from None source"

definition increasing :: "int list \<Rightarrow> bool" where
  "increasing ds = list_all (\<lambda>(x, y). x < y) (zip ds (tl ds))"

text \<open>\<open>__init__\<close> on a list. \<open>rs_of_data\<close> is the body without the assertion on the parity of the
  length; the operations below call it on lists for which the assertion provably holds
  (\<open>init_sweep_ok\<close> and its corollaries).\<close>

definition rs_of_data :: "int list \<Rightarrow> range_set" where
  "rs_of_data data =
     (if data = [] then RangeSet [] False []
      else RangeSet (remove_pairs data) (increasing (remove_pairs data)) [])"

definition RangeSet_init :: "int list \<Rightarrow> range_set res" where
  "RangeSet_init data =
     (if data = [] then Inr (rs_of_data data)
      else try_bind (py_assert (length data mod 2 = 0)) (\<lambda>_. Inr (rs_of_data data)))"

definition rs_empty :: range_set where
  "rs_empty = RangeSet [] False []"

text \<open>\<open>__iter__\<close>: the pairs of boundaries. The length is even for every object the constructors
  build, so the last equation is never reached.\<close>

fun pairs :: "int list \<Rightarrow> (int \<times> int) list" where
  "pairs [] = []"
| "pairs (s # e # r) = (s, e) # pairs r"
| "pairs [_] = []"

definition rs_iter :: "range_set \<Rightarrow> (int \<times> int) list" where
  "rs_iter rs = pairs (rs_data rs)"

definition rs_eq :: "range_set \<Rightarrow> range_set \<Rightarrow> bool" where
  "rs_eq a b = (rs_data a = rs_data b)"

definition rs_bool :: "range_set \<Rightarrow> bool" where
  "rs_bool rs = (rs_data rs \<noteq> [])"

text \<open>\<open>_parse_internal\<close>: the loop state is \<open>(data, lst, monotonic)\<close>.\<close>

definition parse_word :: "int list \<times> int \<times> bool \<Rightarrow> string \<Rightarrow> (int list \<times> int \<times> bool) res" where
  "parse_word st p = (case st of (data, lst, monotonic) \<Rightarrow>
     if CHR ''-'' \<in> set p then
       (case split_on CHR ''-'' p of
          [a, b] \<Rightarrow> try_bind (py_int a) (\<lambda>s. try_bind (py_int b) (\<lambda>e.
             Inr (data @ [s, e + 1],
                  if lst \<le> s \<and> s \<le> e then e else lst,
                  if lst \<le> s \<and> s \<le> e then monotonic else False)))
        | _ \<Rightarrow> Inl ValueError)
     else
       try_bind (py_int p) (\<lambda>s.
         Inr (data @ [s, s + 1],
              if lst \<le> s then s + 1 else lst,
              if lst \<le> s then monotonic else False)))"

definition rs_parse :: "string \<Rightarrow> range_set res" where
  "rs_parse text =
     try_bind (for_each parse_word ([], -1, True) (split_ws text))
       (\<lambda>(data, lst, monotonic). Inr (RangeSet (remove_pairs (sort data)) monotonic []))"

definition range_word :: "int \<times> int \<Rightarrow> string" where
  "range_word = (\<lambda>(s, e). if e = s + 1 then str_int s else str_int s @ ''-'' @ str_int (e - 1))"

definition rs_to_string :: "range_set \<Rightarrow> string" where
  "rs_to_string rs = join '' '' (map range_word (rs_iter rs))"

definition rs_str :: "range_set \<Rightarrow> string" where
  "rs_str rs = (if rs_data rs = [] then ''empty'' else rs_to_string rs)"

definition rs_to_string_raw :: "range_set \<Rightarrow> string res" where
  "rs_to_string_raw rs =
     try_bind (py_assert (rs_data rs \<noteq> [])) (\<lambda>_.
       Inr (str_int (int (length (rs_data rs))) @ '','' @ join '','' (map str_int (rs_data rs))))"

definition rs_parse_raw :: "string \<Rightarrow> range_set res" where
  "rs_parse_raw text =
     try_bind (map_res py_int (split_on CHR '','' text)) (\<lambda>raw.
       try_bind (py_get raw 0) (\<lambda>n.
         try_bind (py_assert (n = int (length (tl raw)))) (\<lambda>_. RangeSet_init (tl raw))))"

text \<open>\<open>zip(data, itertools.cycle((d, d')))\<close>.\<close>

fun alt :: "int \<Rightarrow> int \<Rightarrow> int list \<Rightarrow> (int \<times> int) list" where
  "alt d d' [] = []"
| "alt d d' (p # ps) = (p, d) # alt d' d ps"

text \<open>The loop of \<open>union\<close>, \<open>intersect\<close> and \<open>subtract\<close>: \<open>z\<close> counts the open ranges; a boundary is
  emitted when \<open>z\<close> leaves \<open>lo\<close> upwards or \<open>hi\<close> downwards.\<close>

fun sweep :: "int \<Rightarrow> int \<Rightarrow> int \<Rightarrow> (int \<times> int) list \<Rightarrow> int list" where
  "sweep lo hi z [] = []"
| "sweep lo hi z ((p, d) # es) =
     (if (z = lo \<and> d = 1) \<or> (z = hi \<and> d = -1) then [p] else []) @ sweep lo hi (z + d) es"

definition rs_union :: "range_set \<Rightarrow> range_set \<Rightarrow> range_set" where
  "rs_union a b =
     rs_of_data (sweep 0 1 0 (merge2 (alt 1 (-1) (rs_data a)) (alt 1 (-1) (rs_data b))))"

definition rs_intersect :: "range_set \<Rightarrow> range_set \<Rightarrow> range_set" where
  "rs_intersect a b =
     rs_of_data (sweep 1 2 0 (merge2 (alt 1 (-1) (rs_data a)) (alt 1 (-1) (rs_data b))))"

definition rs_subtract :: "range_set \<Rightarrow> range_set \<Rightarrow> range_set" where
  "rs_subtract a b =
     rs_of_data (sweep 0 1 0 (merge2 (alt 1 (-1) (rs_data a)) (alt (-1) 1 (rs_data b))))"

fun sweep_any :: "int \<Rightarrow> int \<Rightarrow> int \<Rightarrow> (int \<times> int) list \<Rightarrow> bool" where
  "sweep_any lo hi z [] = False"
| "sweep_any lo hi z ((p, d) # es) =
     (if (z = lo \<and> d = 1) \<or> (z = hi \<and> d = -1) then True else sweep_any lo hi (z + d) es)"

definition rs_overlaps :: "range_set \<Rightarrow> range_set \<Rightarrow> bool" where
  "rs_overlaps a b = sweep_any 1 2 0 (merge2 (alt 1 (-1) (rs_data a)) (alt 1 (-1) (rs_data b)))"

fun size_from :: "bool \<Rightarrow> int list \<Rightarrow> int" where
  "size_from odd_i [] = 0"
| "size_from odd_i (p # ps) = (if odd_i then p else - p) + size_from (\<not> odd_i) ps"

definition rs_size :: "range_set \<Rightarrow> int" where
  "rs_size rs = size_from False (rs_data rs)"

text \<open>\<open>map_within\<close>: the loop state is \<open>(offset, start)\<close>; arithmetic on \<open>start = None\<close> raises.\<close>

fun map_within_loop :: "int \<Rightarrow> int option \<Rightarrow> (int \<times> int) list \<Rightarrow> int list res" where
  "map_within_loop offset start [] = Inr []"
| "map_within_loop offset start ((p, d) # es) =
     (if d = -5 then map_within_loop offset (Some p) es
      else case start of
        None \<Rightarrow> Inl TypeError
      | Some st \<Rightarrow>
          if d = 5 then map_within_loop (offset + (p - st)) None es
          else try_bind (map_within_loop offset start es) (\<lambda>out. Inr ((offset + p - st) # out)))"

definition rs_map_within :: "range_set \<Rightarrow> range_set \<Rightarrow> range_set res" where
  "rs_map_within a b =
     try_bind (map_within_loop 0 None (merge2 (alt (-5) 5 (rs_data a)) (alt (-1) 1 (rs_data b))))
       RangeSet_init"

definition rs_extend :: "range_set \<Rightarrow> int \<Rightarrow> range_set res" where
  "rs_extend rs n =
     for_each (\<lambda>out (s, e).
        let s1 = max 0 (s - n); e1 = e + n in
        try_bind (rs_parse (str_int s1 @ ''-'' @ str_int (e1 - 1))) (\<lambda>r. Inr (rs_union out r)))
       rs (rs_iter rs)"

fun first_from :: "int \<Rightarrow> (int \<times> int) list \<Rightarrow> int list" where
  "first_from n [] = []"
| "first_from n ((s, e) # ps) =
     (if e - s \<ge> n then [s, s + n] else s # e # first_from (n - (e - s)) ps)"

definition rs_first :: "range_set \<Rightarrow> int \<Rightarrow> range_set" where
  "rs_first rs n = (if rs_size rs \<le> n then rs else rs_of_data (first_from n (rs_iter rs)))"

definition rs_next_item :: "range_set \<Rightarrow> int list" where
  "rs_next_item rs = concat (map (\<lambda>(s, e). py_range s e) (rs_iter rs))"

section \<open>Abstraction and invariant\<close>

text \<open>A block is a member when an odd number of boundaries lie at or below it.\<close>

definition par :: "int list \<Rightarrow> int \<Rightarrow> bool" where
  "par ds x = odd (length (filter (\<lambda>p. p \<le> x) ds))"

definition blocks :: "range_set \<Rightarrow> int set" where
  "blocks rs = {x. par (rs_data rs) x}"

definition wf_data :: "int list \<Rightarrow> bool" where
  "wf_data ds = (sorted_wrt (<) ds \<and> even (length ds))"

definition wf_rs :: "range_set \<Rightarrow> bool" where
  "wf_rs rs = wf_data (rs_data rs)"

lemma par_simps [simp]:
  "par [] x = False"
  "par (p # ps) x = (if p \<le> x then \<not> par ps x else par ps x)"
  by (auto simp: par_def)

lemma par_Nil_empty [simp]: "Collect (par []) = {}"
  by auto

lemma par_above: "\<forall>p\<in>set ds. x < p \<Longrightarrow> \<not> par ds x"
  by (induction ds) auto

lemma par_below: "\<forall>p\<in>set ds. p \<le> x \<Longrightarrow> par ds x = odd (length ds)"
  by (induction ds) auto

lemma increasing_iff: "increasing ds \<longleftrightarrow> sorted_wrt (<) ds"
  unfolding increasing_def
proof (induction ds rule: induct_list012)
  case (3 x y zs)
  then show ?case by (auto dest: less_trans)
qed auto

subsection \<open>The pairs of a well-formed tuple\<close>

lemma wf_data_Cons2: "wf_data (s # e # r) \<longleftrightarrow> s < e \<and> wf_data r \<and> (\<forall>p\<in>set r. e < p)"
  by (auto simp: wf_data_def)

lemma wf_data_Nil [simp]: "wf_data []"
  by (simp add: wf_data_def)

lemma wf_data_single [simp]: "\<not> wf_data [x]"
  by (simp add: wf_data_def)

lemma par_Cons2:
  "wf_data (s # e # r) \<Longrightarrow> par (s # e # r) x \<longleftrightarrow> s \<le> x \<and> x < e \<or> par r x"
  using par_above[of r x] by (force simp: wf_data_Cons2)

lemma par_iff_pairs: "wf_data ds \<Longrightarrow> par ds x \<longleftrightarrow> (\<exists>(s, e)\<in>set (pairs ds). s \<le> x \<and> x < e)"
  by (induction ds rule: pairs.induct) (auto simp: par_Cons2 wf_data_Cons2 simp del: par_simps(2))

lemma pairs_bounds: "wf_data ds \<Longrightarrow> (s, e) \<in> set (pairs ds) \<Longrightarrow> s < e \<and> s \<in> set ds \<and> e \<in> set ds"
  by (induction ds rule: pairs.induct) (auto simp: wf_data_Cons2)

lemma concat_pairs: "even (length ds) \<Longrightarrow> concat (map (\<lambda>(s, e). [s, e]) (pairs ds)) = ds"
  by (induction ds rule: pairs.induct) auto

text \<open>The recursion every statement about the members uses.\<close>

lemma members_Cons2:
  assumes "wf_data (s # e # r)"
  shows "{x. par (s # e # r) x} = {s..<e} \<union> {x. par r x}" and "{s..<e} \<inter> {x. par r x} = {}"
proof -
  show "{x. par (s # e # r) x} = {s..<e} \<union> {x. par r x}"
    using assms by (auto simp: par_Cons2 simp del: par_simps)
  show "{s..<e} \<inter> {x. par r x} = {}"
    using assms par_above[of r] by (auto simp: wf_data_Cons2) (meson less_trans)
qed

lemma finite_members: "wf_data ds \<Longrightarrow> finite {x. par ds x}"
proof (induction ds rule: pairs.induct)
  case (2 s e r)
  then show ?case unfolding members_Cons2(1)[OF "2.prems"] by (simp add: wf_data_Cons2)
qed auto

lemma members_nonempty: "wf_data ds \<Longrightarrow> ds \<noteq> [] \<Longrightarrow> {x. par ds x} \<noteq> {}"
proof (induction ds rule: pairs.induct)
  case (2 s e r)
  have "s \<in> {s..<e}" using "2.prems" by (simp add: wf_data_Cons2)
  then show ?case unfolding members_Cons2(1)[OF "2.prems"(1)] by blast
qed auto

lemma size_from_card: "wf_data ds \<Longrightarrow> size_from False ds = int (card {x. par ds x})"
proof (induction ds rule: pairs.induct)
  case (2 s e r)
  have "card {x. par (s # e # r) x} = card {s..<e} + card {x. par r x}"
    unfolding members_Cons2(1)[OF "2.prems"]
    using "2.prems" by (intro card_Un_disjoint) (auto simp: finite_members members_Cons2(2) wf_data_Cons2)
  with 2 show ?case by (auto simp: wf_data_Cons2)
qed auto

subsection \<open>Removing pairs of equal boundaries\<close>

lemma par_remove_pairs_from:
  "par (remove_pairs_from lst ds) x =
     (case lst of None \<Rightarrow> par ds x | Some l \<Rightarrow> par (l # ds) x)"
  by (induction lst ds rule: remove_pairs_from.induct) (auto split: option.splits)

lemma par_remove_pairs [simp]: "par (remove_pairs ds) x = par ds x"
  by (simp add: remove_pairs_def par_remove_pairs_from)

lemma length_remove_pairs_from:
  "even (length (remove_pairs_from lst ds)) =
     (case lst of None \<Rightarrow> even (length ds) | Some l \<Rightarrow> odd (length ds))"
  by (induction lst ds rule: remove_pairs_from.induct) (auto split: option.splits)

lemma length_remove_pairs [simp]: "even (length (remove_pairs ds)) = even (length ds)"
  by (simp add: remove_pairs_def length_remove_pairs_from)

lemma set_remove_pairs_from:
  "set (remove_pairs_from lst ds) \<subseteq> (case lst of None \<Rightarrow> set ds | Some l \<Rightarrow> insert l (set ds))"
  by (induction lst ds rule: remove_pairs_from.induct) (auto split: option.splits if_splits)

lemma sorted_remove_pairs_from:
  "sorted ds \<Longrightarrow> (case lst of None \<Rightarrow> True | Some l \<Rightarrow> \<forall>p\<in>set ds. l \<le> p) \<Longrightarrow>
   sorted_wrt (<) (remove_pairs_from lst ds)"
proof (induction lst ds rule: remove_pairs_from.induct)
  case (2 lst i "is")
  show ?case
  proof (cases "lst = Some i")
    case True
    with 2 show ?thesis by simp
  next
    case False
    have rest: "sorted_wrt (<) (remove_pairs_from (Some i) is)"
      using False 2 by auto
    have "\<forall>l. lst = Some l \<longrightarrow> (\<forall>p\<in>set (remove_pairs_from (Some i) is). l < p)"
      using set_remove_pairs_from[of "Some i" "is"] False 2(3,4) by (force split: option.splits)
    with rest False show ?thesis by (auto split: option.splits)
  qed
qed (auto split: option.splits)

lemma sorted_remove_pairs: "sorted ds \<Longrightarrow> sorted_wrt (<) (remove_pairs ds)"
  by (simp add: remove_pairs_def sorted_remove_pairs_from)

lemma remove_pairs_id: "sorted_wrt (<) ds \<Longrightarrow> remove_pairs ds = ds"
proof -
  have "remove_pairs_from lst ds = (case lst of None \<Rightarrow> ds | Some l \<Rightarrow> l # ds)"
    if "sorted_wrt (<) ds" "case lst of None \<Rightarrow> True | Some l \<Rightarrow> \<forall>p\<in>set ds. l < p" for lst
    using that
  proof (induction ds arbitrary: lst)
    case (Cons d ds)
    have "remove_pairs_from (Some d) ds = d # ds" using Cons.IH[of "Some d"] Cons.prems(1) by simp
    then show ?case using Cons.prems(2) by (auto split: option.splits)
  qed (auto split: option.splits)
  then show "sorted_wrt (<) ds \<Longrightarrow> remove_pairs ds = ds" by (simp add: remove_pairs_def)
qed

lemma rs_of_data_data [simp]: "rs_data (rs_of_data ds) = remove_pairs ds"
  by (simp add: rs_of_data_def remove_pairs_def)

lemma blocks_rs_of_data [simp]: "blocks (rs_of_data ds) = {x. par ds x}"
  by (simp add: blocks_def)

lemma wf_rs_of_data: "sorted ds \<Longrightarrow> even (length ds) \<Longrightarrow> wf_rs (rs_of_data ds)"
  by (simp add: wf_rs_def wf_data_def sorted_remove_pairs)

lemma rs_empty_simps [simp]: "wf_rs rs_empty" "blocks rs_empty = {}" "rs_data rs_empty = []"
  by (simp_all add: wf_rs_def rs_empty_def blocks_def)

subsection \<open>The sweep over merged boundaries\<close>

text \<open>The number of open ranges at a block.\<close>

definition depth :: "(int \<times> int) list \<Rightarrow> int \<Rightarrow> int" where
  "depth es x = sum_list (map snd (filter (\<lambda>(p, _). p \<le> x) es))"

lemma depth_simps [simp]:
  "depth [] x = 0"
  "depth ((p, d) # es) x = (if p \<le> x then d + depth es x else depth es x)"
  by (simp_all add: depth_def)

lemma depth_above: "\<forall>(p, _)\<in>set es. x < p \<Longrightarrow> depth es x = 0"
  by (induction es) auto

lemma depth_merge2: "depth (merge2 es es') x = depth es x + depth es' x"
proof (induction es es' rule: merge2.induct)
  case (3 e es e' es')
  then show ?case by (cases e; cases e') simp
qed simp_all

lemma depth_alt: "sorted ds \<Longrightarrow> depth (alt d (- d) ds) x = (if par ds x then d else 0)"
proof (induction ds arbitrary: d)
  case (Cons p ps)
  show ?case
  proof (cases "p \<le> x")
    case True
    then show ?thesis using Cons.IH[of "- d"] Cons.prems by simp
  next
    case False
    then have "\<forall>q\<in>set ps. x < q" using Cons.prems by auto
    then show ?thesis using False Cons.IH[of "- d"] Cons.prems par_above[of ps x] by simp
  qed
qed simp

lemma set_alt: "set (alt d d' ds) \<subseteq> set ds \<times> {d, d'}"
  by (induction d d' ds rule: alt.induct) auto

lemma map_fst_alt [simp]: "map fst (alt d d' ds) = ds"
  by (induction d d' ds rule: alt.induct) auto

lemma sorted_alt: "sorted_wrt (<) ds \<Longrightarrow> sorted (alt d d' ds)"
proof (induction d d' ds rule: alt.induct)
  case (2 d d' p ps)
  have "(p, d) \<le> e" if "e \<in> set (alt d' d ps)" for e
    using that set_alt[of d' d ps] "2.prems" by (cases e) auto
  with 2 show ?case by simp
qed simp

lemma sorted_events: "sorted es \<Longrightarrow> sorted (map fst es)" for es :: "(int \<times> int) list"
  by (induction es) (force simp: less_eq_prod_def)+

text \<open>Emitting at each crossing of the threshold keeps the parity in step with the depth.\<close>

lemma par_sweep:
  assumes "sorted (map fst es)" "snd ` set es \<subseteq> {1, -1}"
  shows "par (sweep (t - 1) t z es) x \<longleftrightarrow> (t \<le> z + depth es x) \<noteq> (t \<le> z)"
  using assms
proof (induction es arbitrary: z)
  case (Cons e es)
  obtain p d where e: "e = (p, d)" by (cases e)
  have d: "d = 1 \<or> d = -1" using Cons.prems e by auto
  show ?case
  proof (cases "p \<le> x")
    case True
    then show ?thesis using Cons d e by auto
  next
    case False
    then have above: "\<forall>(q, _)\<in>set es. x < q" using Cons.prems(1) e by fastforce
    have "\<not> par (sweep (t - 1) t (z + d) es) x"
      using Cons.IH[of "z + d"] Cons.prems depth_above[OF above] by simp
    then show ?thesis using False above depth_above[OF above] e by simp
  qed
qed simp

lemma set_sweep: "set (sweep lo hi z es) \<subseteq> fst ` set es"
  by (induction lo hi z es rule: sweep.induct) auto

lemma sorted_sweep: "sorted (map fst es) \<Longrightarrow> sorted (sweep lo hi z es)"
proof (induction lo hi z es rule: sweep.induct)
  case (2 lo hi z p d es)
  then show ?case using set_sweep[of lo hi "z + d" es] by (fastforce simp: sorted_append)
qed simp

lemma even_length_sweep:
  assumes "snd ` set es \<subseteq> {1, -1}"
  shows "even (length (sweep (t - 1) t z es)) \<longleftrightarrow> (t \<le> z + sum_list (map snd es)) = (t \<le> z)"
  using assms
proof (induction es arbitrary: z)
  case (Cons e es)
  obtain p d where e: "e = (p, d)" by (cases e)
  have d: "d = 1 \<or> d = -1" using Cons.prems e by auto
  have "even (length (sweep (t - 1) t (z + d) es)) \<longleftrightarrow>
      (t \<le> z + d + sum_list (map snd es)) = (t \<le> z + d)"
    using Cons by simp
  then show ?case using d e by (auto simp: algebra_simps)
qed simp

lemma sum_alt: "even (length ds) \<Longrightarrow> sum_list (map snd (alt d (- d) ds)) = 0"
  by (induction ds arbitrary: d rule: pairs.induct) auto

lemma sum_merge2: "sum_list (map snd (merge2 es es')) = sum_list (map snd es) + sum_list (map snd es')"
  for es es' :: "(int \<times> int) list"
  by (induction es es' rule: merge2.induct) auto

text \<open>The constructor's assertion never fires for the operations, whatever the order of the
  boundaries: both argument lengths are even.\<close>

lemma even_sweep_merge:
  assumes "even (length ds)" "even (length ds')" "d = 1 \<or> d = -1" "d' = 1 \<or> d' = -1" "t \<ge> 1"
  shows "even (length (sweep (t - 1) t 0 (merge2 (alt d (- d) ds) (alt d' (- d') ds'))))"
proof -
  have "snd ` set (merge2 (alt d (- d) ds) (alt d' (- d') ds')) \<subseteq> {1, -1}"
    using set_alt[of d "- d" ds] set_alt[of d' "- d'" ds'] assms(3,4) by fastforce
  then show ?thesis
    using assms by (simp add: even_length_sweep sum_merge2 sum_alt)
qed

lemma RangeSet_init_even: "even (length ds) \<Longrightarrow> RangeSet_init ds = Inr (rs_of_data ds)"
  by (auto simp: RangeSet_init_def)

text \<open>The common specification of the sweeping operations.\<close>

lemma sweep_spec:
  assumes "wf_data ds" "wf_data ds'" "d' = 1 \<or> d' = -1" "t \<ge> 1"
  shows "wf_rs (rs_of_data (sweep (t - 1) t 0 (merge2 (alt 1 (-1) ds) (alt d' (- d') ds'))))"
    and "x \<in> blocks (rs_of_data (sweep (t - 1) t 0 (merge2 (alt 1 (-1) ds) (alt d' (- d') ds')))) \<longleftrightarrow>
      t \<le> (if par ds x then 1 else 0) + (if par ds' x then d' else 0)"
proof -
  let ?es = "merge2 (alt 1 (-1) ds) (alt d' (- d') ds')"
  have st: "sorted ds" "sorted ds'" and ev: "even (length ds)" "even (length ds')"
    using assms(1,2) by (auto simp: wf_data_def strict_sorted_iff)
  have so: "sorted (map fst ?es)"
    using assms(1,2) by (intro sorted_events sorted_merge2 sorted_alt) (auto simp: wf_data_def)
  have sg: "snd ` set ?es \<subseteq> {1, -1}"
    using set_alt[of 1 "-1" ds] set_alt[of d' "- d'" ds'] assms(3) by fastforce
  show "wf_rs (rs_of_data (sweep (t - 1) t 0 ?es))"
    using even_sweep_merge[OF ev, of 1 d' t] assms(3,4) by (intro wf_rs_of_data sorted_sweep so) auto
  have "depth ?es x = (if par ds x then 1 else 0) + (if par ds' x then d' else 0)"
    using depth_alt[OF st(1), of 1 x] depth_alt[OF st(2), of d' x] by (simp add: depth_merge2)
  then show "x \<in> blocks (rs_of_data (sweep (t - 1) t 0 ?es)) \<longleftrightarrow>
      t \<le> (if par ds x then 1 else 0) + (if par ds' x then d' else 0)"
    using par_sweep[OF so sg, of t 0 x] assms(4) by simp
qed

lemma wf_union [simp]: "wf_rs a \<Longrightarrow> wf_rs b \<Longrightarrow> wf_rs (rs_union a b)"
  using sweep_spec(1)[of "rs_data a" "rs_data b" 1 1] by (simp add: rs_union_def wf_rs_def)

lemma blocks_union [simp]: "wf_rs a \<Longrightarrow> wf_rs b \<Longrightarrow> blocks (rs_union a b) = blocks a \<union> blocks b"
  using sweep_spec(2)[of "rs_data a" "rs_data b" 1 1] by (auto simp: rs_union_def wf_rs_def blocks_def)

lemma wf_intersect [simp]: "wf_rs a \<Longrightarrow> wf_rs b \<Longrightarrow> wf_rs (rs_intersect a b)"
  using sweep_spec(1)[of "rs_data a" "rs_data b" 1 2] by (simp add: rs_intersect_def wf_rs_def)

lemma blocks_intersect [simp]: "wf_rs a \<Longrightarrow> wf_rs b \<Longrightarrow> blocks (rs_intersect a b) = blocks a \<inter> blocks b"
  using sweep_spec(2)[of "rs_data a" "rs_data b" 1 2] by (auto simp: rs_intersect_def wf_rs_def blocks_def)

lemma wf_subtract [simp]: "wf_rs a \<Longrightarrow> wf_rs b \<Longrightarrow> wf_rs (rs_subtract a b)"
  using sweep_spec(1)[of "rs_data a" "rs_data b" "-1" 1] by (simp add: rs_subtract_def wf_rs_def)

lemma blocks_subtract [simp]: "wf_rs a \<Longrightarrow> wf_rs b \<Longrightarrow> blocks (rs_subtract a b) = blocks a - blocks b"
  using sweep_spec(2)[of "rs_data a" "rs_data b" "-1" 1] by (auto simp: rs_subtract_def wf_rs_def blocks_def)

lemma finite_blocks [simp]: "wf_rs rs \<Longrightarrow> finite (blocks rs)"
  by (simp add: blocks_def wf_rs_def finite_members)

lemma rs_bool_blocks: "wf_rs rs \<Longrightarrow> rs_bool rs \<longleftrightarrow> blocks rs \<noteq> {}"
  using members_nonempty[of "rs_data rs"] by (auto simp: rs_bool_def blocks_def wf_rs_def)

lemma rs_size_card: "wf_rs rs \<Longrightarrow> rs_size rs = int (card (blocks rs))"
  by (simp add: rs_size_def wf_rs_def blocks_def size_from_card)

lemma rs_iter_blocks: "wf_rs rs \<Longrightarrow> x \<in> blocks rs \<longleftrightarrow> (\<exists>(s, e)\<in>set (rs_iter rs). s \<le> x \<and> x < e)"
  by (simp add: rs_iter_def blocks_def wf_rs_def par_iff_pairs)

subsection \<open>Overlap test\<close>

lemma sweep_any_iff: "sweep_any lo hi z es \<longleftrightarrow> sweep lo hi z es \<noteq> []"
  by (induction lo hi z es rule: sweep_any.induct) auto

lemma depth_after_open:
  assumes "sorted ((p, 1) # es)" "snd ` set es \<subseteq> {1, -1}"
  shows "0 \<le> depth es p"
  using assms by (induction es) auto

lemma sweep_nonempty_deep:
  assumes "sorted es" "snd ` set es \<subseteq> {1, -1}" "z < 2" "sweep 1 2 z es \<noteq> []"
  shows "\<exists>x. 2 \<le> z + depth es x"
  using assms
proof (induction es arbitrary: z)
  case (Cons e es)
  obtain p d where e: "e = (p, d)" by (cases e)
  show ?case
  proof (cases "z = 1 \<and> d = 1")
    case True
    then have "0 \<le> depth es p" using depth_after_open[of p es] Cons.prems e by auto
    with True e show ?thesis by (intro exI[of _ p]) simp
  next
    case False
    have d: "d = 1 \<or> d = -1" using Cons.prems e by auto
    have "\<exists>x. 2 \<le> (z + d) + depth es x"
      using False d Cons.prems e by (intro Cons.IH) auto
    then obtain x where x: "2 \<le> (z + d) + depth es x" by blast
    have "p \<le> x"
    proof (rule ccontr)
      assume "\<not> p \<le> x"
      then have "\<forall>(q, _)\<in>set es. x < q" using Cons.prems(1) e by fastforce
      then have "depth es x = 0" by (rule depth_above)
      with x False d Cons.prems(3) show False by auto
    qed
    with x e show ?thesis by (intro exI[of _ x]) simp
  qed
qed simp

lemma rs_overlaps_iff:
  assumes "wf_rs a" "wf_rs b"
  shows "rs_overlaps a b \<longleftrightarrow> blocks a \<inter> blocks b \<noteq> {}"
proof -
  let ?es = "merge2 (alt 1 (-1) (rs_data a)) (alt 1 (-1) (rs_data b))"
  have "rs_overlaps a b \<longleftrightarrow> sweep 1 2 0 ?es \<noteq> []"
    by (simp add: rs_overlaps_def sweep_any_iff)
  also have "\<dots> \<longleftrightarrow> (\<exists>x. 2 \<le> depth ?es x)"
  proof
    assume "sweep 1 2 0 ?es \<noteq> []"
    moreover have "snd ` set ?es \<subseteq> {1, -1}"
      using set_alt[of 1 "-1" "rs_data a"] set_alt[of 1 "-1" "rs_data b"] by fastforce
    moreover have "sorted ?es"
      using assms by (intro sorted_merge2 sorted_alt) (auto simp: wf_rs_def wf_data_def)
    ultimately show "\<exists>x. 2 \<le> depth ?es x"
      using sweep_nonempty_deep[of ?es 0] by simp
  next
    assume "\<exists>x. 2 \<le> depth ?es x"
    then obtain x where "2 \<le> depth ?es x" ..
    moreover have "snd ` set ?es \<subseteq> {1, -1}" "sorted (map fst ?es)"
      using set_alt[of 1 "-1" "rs_data a"] set_alt[of 1 "-1" "rs_data b"] assms
      by (fastforce, intro sorted_events sorted_merge2 sorted_alt) (auto simp: wf_rs_def wf_data_def)
    ultimately have "par (sweep 1 2 0 ?es) x" using par_sweep[of ?es 2 0 x] by simp
    then show "sweep 1 2 0 ?es \<noteq> []" by auto
  qed
  also have "\<dots> \<longleftrightarrow> blocks a \<inter> blocks b \<noteq> {}"
    using assms depth_alt[of "rs_data a" 1] depth_alt[of "rs_data b" 1]
    by (auto simp: depth_merge2 blocks_def wf_rs_def wf_data_def strict_sorted_iff)
  finally show ?thesis .
qed

subsection \<open>The first blocks\<close>

text \<open>\<open>fs\<close> lists the boundaries of the \<open>n\<close> least members of \<open>ds\<close>.\<close>

definition first_ok :: "int list \<Rightarrow> int \<Rightarrow> int list \<Rightarrow> bool" where
  "first_ok ds n fs \<longleftrightarrow> sorted fs \<and> even (length fs) \<and> set fs \<subseteq> {p. \<exists>d\<in>set ds. d \<le> p} \<and>
     {x. par fs x} \<subseteq> {x. par ds x} \<and> int (card {x. par fs x}) = n \<and>
     (\<forall>x\<in>{x. par fs x}. \<forall>y\<in>{x. par ds x} - {x. par fs x}. x < y)"

lemma first_ok_one:
  assumes "wf_data (s # e # r)" "0 \<le> n" "n \<le> e - s"
  shows "first_ok (s # e # r) n [s, s + n]"
proof -
  have one: "{x. par [s, s + n] x} = {s..<s + n}" using assms(2) by auto
  have "e < y" if "par r y" for y
    using that assms(1) par_above[of r y] by (auto simp: wf_data_Cons2) (meson less_le_trans not_le)
  then show ?thesis
    unfolding first_ok_def one members_Cons2(1)[OF assms(1)] using assms(2,3) by fastforce
qed

lemma first_ok_more:
  assumes "wf_data (s # e # r)" "first_ok r (n - (e - s)) fs"
  shows "first_ok (s # e # r) n (s # e # fs)"
proof -
  have se: "s < e" "wf_data r" "\<forall>p\<in>set r. e < p" using assms(1) by (auto simp: wf_data_Cons2)
  have IH: "sorted fs" "even (length fs)" "set fs \<subseteq> {p. \<exists>d\<in>set r. d \<le> p}"
    "{x. par fs x} \<subseteq> {x. par r x}" "int (card {x. par fs x}) = n - (e - s)"
    "\<forall>x\<in>{x. par fs x}. \<forall>y\<in>{x. par r x} - {x. par fs x}. x < y"
    using assms(2) by (auto simp: first_ok_def)
  have above: "e < y" if "par r y" for y
    using that se(3) par_above[of r y] by (meson less_le_trans not_le)
  have efs: "\<forall>p\<in>set fs. e < p" using IH(3) se(3) by fastforce
  have fs: "{x. par (s # e # fs) x} = {s..<e} \<union> {x. par fs x}"
  proof -
    have "par (s # e # fs) x \<longleftrightarrow> s \<le> x \<and> x < e \<or> par fs x" for x
      using above[of x] IH(4) se(1) by (cases "par fs x") auto
    then have "{x. par (s # e # fs) x} = {x. s \<le> x \<and> x < e \<or> par fs x}" by (intro Collect_cong)
    then show ?thesis unfolding Collect_disj_eq atLeastLessThan_def lessThan_def atLeast_def Collect_conj_eq .
  qed
  have fin: "finite {x. par fs x}" by (rule finite_subset[OF IH(4) finite_members[OF se(2)]])
  have dj: "{s..<e} \<inter> {x. par fs x} = {}" using IH(4) above by fastforce
  have card: "int (card ({s..<e} \<union> {x. par fs x})) = n"
    using fin dj se(1) IH(5) by (simp add: card_Un_disjoint)
  have sep: "x < y" if "x \<in> {s..<e} \<union> {x. par fs x}" "y \<in> {s..<e} \<union> {x. par r x} - ({s..<e} \<union> {x. par fs x})" for x y
    using that IH(6) above[of y] by auto
  have srt: "sorted (s # e # fs)" using IH(1) efs se(1) by auto
  have sub: "set (s # e # fs) \<subseteq> {p. \<exists>d\<in>set (s # e # r). d \<le> p}" using IH(3) by auto
  have mem: "{s..<e} \<union> {x. par fs x} \<subseteq> {s..<e} \<union> {x. par r x}" using IH(4) by blast
  show ?thesis
    unfolding first_ok_def fs members_Cons2(1)[OF assms(1)]
    using srt sub IH(2) mem card sep by (intro conjI ballI) simp_all
qed

lemma first_from_ok:
  "wf_data ds \<Longrightarrow> 0 \<le> n \<Longrightarrow> n \<le> size_from False ds \<Longrightarrow> first_ok ds n (first_from n (pairs ds))"
proof (induction ds arbitrary: n rule: pairs.induct)
  case (2 s e r)
  show ?case
  proof (cases "e - s \<ge> n")
    case True
    then show ?thesis using 2 first_ok_one[of s e r n] by simp
  next
    case False
    then have "first_ok r (n - (e - s)) (first_from (n - (e - s)) (pairs r))"
      using 2 by (intro "2.IH") (auto simp: wf_data_Cons2)
    then show ?thesis using False first_ok_more[OF "2.prems"(1)] by simp
  qed
qed (auto simp: first_ok_def)

lemma rs_first_spec:
  assumes "wf_rs rs" "0 \<le> n"
  shows "wf_rs (rs_first rs n)" and "blocks (rs_first rs n) \<subseteq> blocks rs"
    and "rs_size (rs_first rs n) = min n (rs_size rs)"
    and "x \<in> blocks (rs_first rs n) \<Longrightarrow> y \<in> blocks rs - blocks (rs_first rs n) \<Longrightarrow> x < y"
proof -
  let ?fs = "first_from n (pairs (rs_data rs))"
  have "(wf_rs (rs_first rs n) \<and> blocks (rs_first rs n) \<subseteq> blocks rs \<and>
      rs_size (rs_first rs n) = min n (rs_size rs)) \<and>
      (x \<in> blocks (rs_first rs n) \<longrightarrow> y \<in> blocks rs - blocks (rs_first rs n) \<longrightarrow> x < y)"
  proof (cases "rs_size rs \<le> n")
    case True
    then show ?thesis using assms by (simp add: rs_first_def)
  next
    case False
    then have spec: "sorted ?fs" "even (length ?fs)" "\<forall>x. par ?fs x \<longrightarrow> par (rs_data rs) x"
      "int (card {x. par ?fs x}) = n"
      "\<forall>x y. par ?fs x \<longrightarrow> par (rs_data rs) y \<longrightarrow> \<not> par ?fs y \<longrightarrow> x < y"
      using first_from_ok[of "rs_data rs" n] assms by (auto simp: first_ok_def wf_rs_def rs_size_def)
    have eq: "rs_first rs n = rs_of_data ?fs" using False by (simp add: rs_first_def rs_iter_def)
    have wf: "wf_rs (rs_first rs n)" unfolding eq using spec by (intro wf_rs_of_data)
    moreover have "rs_size (rs_first rs n) = n" using rs_size_card[OF wf] spec(4) by (simp add: eq)
    ultimately show ?thesis using False spec(3,5) unfolding eq by (auto simp: blocks_def)
  qed
  then show "wf_rs (rs_first rs n)" "blocks (rs_first rs n) \<subseteq> blocks rs"
    "rs_size (rs_first rs n) = min n (rs_size rs)"
    "x \<in> blocks (rs_first rs n) \<Longrightarrow> y \<in> blocks rs - blocks (rs_first rs n) \<Longrightarrow> x < y"
    by auto
qed

subsection \<open>Iteration over the single blocks\<close>

lemma next_item_pairs:
  assumes "wf_data ds"
  shows "sorted_wrt (<) (concat (map (\<lambda>(s, e). py_range s e) (pairs ds))) \<and>
         set (concat (map (\<lambda>(s, e). py_range s e) (pairs ds))) = {x. par ds x}"
  using assms
proof (induction ds rule: pairs.induct)
  case (2 s e r)
  have r: "wf_data r" "\<forall>p\<in>set r. e < p" using "2.prems" by (auto simp: wf_data_Cons2)
  have "x < y" if "par r y" "x < e" for x y
    using that r(2) par_above[of r y] by (meson less_le_trans less_trans not_le)
  then show ?case
    using "2.IH"[OF r(1)] members_Cons2(1)[OF "2.prems"]
    by (auto simp: sorted_wrt_append simp del: par_simps(2))
qed auto

lemma rs_next_item_eq: "wf_rs rs \<Longrightarrow> rs_next_item rs = sorted_list_of_set (blocks rs)"
  using next_item_pairs[of "rs_data rs"] finite_blocks[of rs]
  by (auto simp: rs_next_item_def rs_iter_def wf_rs_def blocks_def
      intro!: sorted_list_of_set.idem_if_sorted_distinct[symmetric] sorted_distinct_set_unique
        simp: strict_sorted_iff)

subsection \<open>Printing and parsing\<close>

lemma digits_no_dash: "0 \<le> i \<Longrightarrow> CHR ''-'' \<notin> set (str_int i)"
  using str_int_nonneg_chars digit_not_special by blast

lemma parse_word_range:
  assumes "0 \<le> s" "0 \<le> e"
  shows "parse_word (data, lst, m) (str_int s @ ''-'' @ str_int e) =
    Inr (data @ [s, e + 1], if lst \<le> s \<and> s \<le> e then e else lst,
         if lst \<le> s \<and> s \<le> e then m else False)"
  using assms by (simp add: parse_word_def split_on_append_sep split_on_no_sep digits_no_dash)

lemma parse_word_single:
  assumes "0 \<le> s"
  shows "parse_word (data, lst, m) (str_int s) =
    Inr (data @ [s, s + 1], if lst \<le> s then s + 1 else lst, if lst \<le> s then m else False)"
  using assms by (simp add: parse_word_def digits_no_dash)

lemma parse_words_roundtrip:
  assumes "wf_data ds" "\<forall>p\<in>set ds. 0 \<le> p \<and> lst \<le> p"
  shows "\<exists>lst'. for_each parse_word (data, lst, m) (map range_word (pairs ds)) = Inr (data @ ds, lst', m)"
  using assms
proof (induction ds arbitrary: data lst rule: pairs.induct)
  case (2 s e r)
  have se: "s < e" "wf_data r" "\<forall>p\<in>set r. e < p" "0 \<le> s" "lst \<le> s"
    using "2.prems" by (auto simp: wf_data_Cons2)
  define l where "l = (if e = s + 1 then s + 1 else e - 1)"
  have "parse_word (data, lst, m) (range_word (s, e)) = Inr (data @ [s, e], l, m)"
    using se parse_word_range[of s "e - 1" data lst m] parse_word_single[of s data lst m]
    by (auto simp: range_word_def l_def)
  moreover have "\<forall>p\<in>set r. 0 \<le> p \<and> l \<le> p" using se by (auto simp: l_def)
  ultimately show ?case using "2.IH"[OF se(2), of l "data @ [s, e]"] by simp
qed auto

lemma range_word_chars:
  assumes "0 \<le> s" "s < e" "c \<in> set (range_word (s, e))"
  shows "\<not> is_space c"
proof -
  have "is_digit c \<or> c = CHR ''-''"
    using assms str_int_nonneg_chars[of s c] str_int_nonneg_chars[of "e - 1" c]
    by (auto simp: range_word_def split: if_splits)
  then show ?thesis using digit_not_special by (auto simp: is_space_def)
qed

lemma range_word_nonempty [simp]: "range_word pr \<noteq> []"
  by (cases pr) (simp add: range_word_def)

text \<open>Parsing the printed form gives the same ranges back, marked monotonic.\<close>

lemma rs_parse_to_string:
  assumes "wf_rs rs" "\<forall>p\<in>set (rs_data rs). 0 \<le> p"
  shows "rs_parse (rs_to_string rs) = Inr (RangeSet (rs_data rs) True [])"
proof -
  let ?ws = "map range_word (pairs (rs_data rs))"
  have wf: "wf_data (rs_data rs)" using assms(1) by (simp add: wf_rs_def)
  have "split_ws (rs_to_string rs) = ?ws"
    unfolding rs_to_string_def rs_iter_def
  proof (rule split_ws_join)
    fix w assume "w \<in> set ?ws"
    then obtain s e where "(s, e) \<in> set (pairs (rs_data rs))" "w = range_word (s, e)" by auto
    then show "w \<noteq> [] \<and> (\<forall>c\<in>set w. \<not> is_space c)"
      using pairs_bounds[OF wf, of s e] assms(2) range_word_chars[of s e] by auto
  qed
  moreover obtain lst' where "for_each parse_word ([], -1, True) ?ws = Inr ([] @ rs_data rs, lst', True)"
    using parse_words_roundtrip[OF wf, of "-1" "[]" True] assms(2) by fastforce
  moreover have "remove_pairs (sort (rs_data rs)) = rs_data rs"
    using wf by (simp add: wf_data_def remove_pairs_id strict_sorted_iff sort_key_id_if_sorted)
  ultimately show ?thesis by (simp add: rs_parse_def)
qed

lemma rs_parse_raw_to_string_raw:
  assumes "wf_rs rs" "rs_data rs \<noteq> []"
  shows "try_bind (rs_to_string_raw rs) rs_parse_raw = Inr (RangeSet (rs_data rs) True [])"
proof -
  let ?ds = "rs_data rs"
  have nocomma: "CHR '','' \<notin> set (str_int i)" for i
    using str_int_chars digit_not_special by fastforce
  have "split_on CHR '','' (str_int (int (length ?ds)) @ '','' @ join '','' (map str_int ?ds)) =
      str_int (int (length ?ds)) # map str_int ?ds"
    using assms(2) nocomma split_on_join[of "map str_int ?ds" "CHR '',''"]
    by (auto simp: split_on_append_sep)
  moreover have "map_res py_int (map str_int ds) = Inr ds" for ds
    by (induction ds) auto
  ultimately show ?thesis
    using assms by (auto simp: rs_to_string_raw_def rs_parse_raw_def wf_rs_def wf_data_def
        RangeSet_init_def rs_of_data_def remove_pairs_id increasing_iff)
qed

text \<open>Whatever the text, a parsed RangeSet satisfies the class invariant.\<close>

lemma rs_parse_wf: "rs_parse text = Inr rs \<Longrightarrow> wf_rs rs"
proof -
  assume "rs_parse text = Inr rs"
  then obtain data lst m where loop: "for_each parse_word ([], -1, True) (split_ws text) = Inr (data, lst, m)"
    and rs: "rs = RangeSet (remove_pairs (sort data)) m []"
    by (auto simp: rs_parse_def)
  have "even (length (fst (data, lst, m)))"
    by (rule for_each_partial_invariant[OF loop, where P = "\<lambda>st. even (length (fst st))"])
      (auto simp: parse_word_def split: if_splits list.splits)
  then show "wf_rs rs" using rs by (simp add: wf_rs_def wf_data_def sorted_remove_pairs)
qed

lemma rs_parse_range:
  assumes "0 \<le> s" "s \<le> e"
  shows "rs_parse (str_int s @ ''-'' @ str_int e) = Inr (RangeSet [s, e + 1] True [])"
proof -
  have "split_ws (join '' '' [str_int s @ ''-'' @ str_int e]) = [str_int s @ ''-'' @ str_int e]"
    using assms str_int_nonneg_chars[of s] str_int_nonneg_chars[of e] digit_not_special
    by (intro split_ws_join) (auto simp: is_space_def)
  then have "rs_parse (str_int s @ ''-'' @ str_int e) =
      try_bind (for_each parse_word ([], -1, True) [str_int s @ ''-'' @ str_int e])
       (\<lambda>(data, lst, monotonic). Inr (RangeSet (remove_pairs (sort data)) monotonic []))"
    by (simp add: rs_parse_def)
  then show ?thesis
    using assms parse_word_range[of s e "[]" "-1" True] by (simp add: remove_pairs_def)
qed

subsection \<open>Extension\<close>

lemma rs_extend_spec:
  assumes "wf_rs rs" "\<forall>p\<in>set (rs_data rs). 0 \<le> p" "0 \<le> n"
  shows "\<exists>r. rs_extend rs n = Inr r \<and> wf_rs r \<and>
           blocks r = {y. 0 \<le> y \<and> (\<exists>x\<in>blocks rs. \<bar>x - y\<bar> \<le> n)}"
proof -
  have wf: "wf_data (rs_data rs)" using assms(1) by (simp add: wf_rs_def)
  define P where "P = (\<lambda>ys out. wf_rs out \<and>
    blocks out = blocks rs \<union> (\<Union>(s, e)\<in>set ys. {max 0 (s - n)..<e + n}))"
  have "\<exists>r. rs_extend rs n = Inr r \<and> P (rs_iter rs) r"
    unfolding rs_extend_def
  proof (rule for_each_invariant)
    show "P [] rs" using assms(1) by (simp add: P_def)
  next
    fix ys pr zs out
    assume split: "rs_iter rs = ys @ pr # zs" and inv: "P ys out"
    obtain s e where pr: "pr = (s, e)" by (cases pr)
    have "(s, e) \<in> set (rs_iter rs)" using split pr by simp
    then have se: "s < e" "0 \<le> s" using pairs_bounds[OF wf] assms(2) by (auto simp: rs_iter_def)
    let ?r = "RangeSet [max 0 (s - n), e + n] True []"
    have parse: "rs_parse (str_int (max 0 (s - n)) @ ''-'' @ str_int (e + n - 1)) = Inr ?r"
      using rs_parse_range[of "max 0 (s - n)" "e + n - 1"] se assms(3) by simp
    have r: "wf_rs ?r" "blocks ?r = {max 0 (s - n)..<e + n}"
      using se assms(3) by (auto simp: wf_rs_def wf_data_def blocks_def)
    show "\<exists>s'. (case pr of (s, e) \<Rightarrow> let s1 = max 0 (s - n); e1 = e + n in
        try_bind (rs_parse (str_int s1 @ ''-'' @ str_int (e1 - 1))) (\<lambda>r. Inr (rs_union out r))) = Inr s' \<and>
        P (ys @ [pr]) s'"
      using inv r parse pr by (auto simp: P_def Let_def)
  qed
  then obtain r where r: "rs_extend rs n = Inr r" "wf_rs r"
    and b: "blocks r = blocks rs \<union> (\<Union>(s, e)\<in>set (rs_iter rs). {max 0 (s - n)..<e + n})"
    by (auto simp: P_def)
  have in_range: "y \<in> {max 0 (s - n)..<e + n} \<longleftrightarrow> 0 \<le> y \<and> (\<exists>x\<in>{s..<e}. \<bar>x - y\<bar> \<le> n)"
    if "(s, e) \<in> set (rs_iter rs)" for s e y
  proof -
    have "s < e" "0 \<le> s" using that pairs_bounds[OF wf] assms(2) by (auto simp: rs_iter_def)
    then show ?thesis using assms(3)
      by (auto intro!: bexI[of _ "max s (min (e - 1) y)"])
  qed
  have "blocks r = {y. 0 \<le> y \<and> (\<exists>x\<in>blocks rs. \<bar>x - y\<bar> \<le> n)}"
  proof (intro set_eqI)
    fix y
    have "y \<in> blocks rs \<longrightarrow> 0 \<le> y"
      using rs_iter_blocks[OF assms(1), of y] pairs_bounds[OF wf] assms(2) by (fastforce simp: rs_iter_def)
    then show "y \<in> blocks r \<longleftrightarrow> y \<in> {y. 0 \<le> y \<and> (\<exists>x\<in>blocks rs. \<bar>x - y\<bar> \<le> n)}"
      using in_range[of _ _ y] rs_iter_blocks[OF assms(1)] assms(3) unfolding b by fastforce
  qed
  with r show ?thesis by blast
qed

subsection \<open>Translation into a contiguous numbering\<close>

text \<open>The number of members below a position, for the boundaries still to come.\<close>

definition rank_of :: "int list \<Rightarrow> int \<Rightarrow> int" where
  "rank_of ds p = int (card {y. par ds y \<and> y < p})"

definition opened :: "int option \<Rightarrow> int list \<Rightarrow> int list" where
  "opened start ds = (case start of None \<Rightarrow> ds | Some st \<Rightarrow> st # ds)"

text \<open>A boundary with its sign lies within one range of \<open>ds\<close>.\<close>

definition covered :: "int list \<Rightarrow> int \<times> int \<Rightarrow> bool" where
  "covered ds = (\<lambda>(p, d). \<exists>(s, e)\<in>set (pairs ds).
     s \<le> p \<and> p \<le> e \<and> (d = -1 \<longrightarrow> p < e) \<and> (d \<noteq> -1 \<longrightarrow> s < p))"

lemma rank_of_inside:
  assumes "wf_data (st # a # as)" "st \<le> p" "p \<le> a"
  shows "rank_of (st # a # as) p = p - st"
proof -
  have "{y. par (st # a # as) y \<and> y < p} = {st..<p}"
    using assms par_above[of as] by (auto simp: par_Cons2 wf_data_Cons2 simp del: par_simps(2))
      (meson less_trans not_le order.strict_trans1)
  then show ?thesis using assms(2) by (simp add: rank_of_def)
qed

lemma rank_of_beyond:
  assumes "wf_data (st # a # as)" "a \<le> p"
  shows "rank_of (st # a # as) p = (a - st) + rank_of as p"
proof -
  have wf: "st < a" "wf_data as" using assms(1) by (auto simp: wf_data_Cons2)
  have "{y. par (st # a # as) y \<and> y < p} = {st..<a} \<union> {y. par as y \<and> y < p}"
    using assms wf by (auto simp: par_Cons2 simp del: par_simps(2))
  moreover have "{st..<a} \<inter> {y. par as y \<and> y < p} = {}" using members_Cons2(2)[OF assms(1)] by blast
  moreover have "finite {y. par as y \<and> y < p}"
    by (rule finite_subset[OF _ finite_members[OF wf(2)]]) auto
  ultimately show ?thesis using wf(1) by (simp add: rank_of_def card_Un_disjoint)
qed

lemma map_within_loop_done:
  assumes "start = None \<Longrightarrow> d = -5" "start \<noteq> None \<Longrightarrow> d = 5"
  shows "map_within_loop offset start (alt d (- d) as) = Inr []"
  using assms
proof (induction as arbitrary: offset start d)
  case (Cons a as)
  then show ?case using Cons.IH[of None "- 5"] by (cases start) auto
qed simp

lemma map_within_loop_merge:
  assumes "wf_data (opened start as)" "sorted_wrt (<) bs" "y = 1 \<or> y = -1"
    "d = (if start = None then -5 else 5)"
    "\<And>st b. start = Some st \<Longrightarrow> b \<in> set bs \<Longrightarrow> st \<le> b"
    "\<And>ev. ev \<in> set (alt y (- y) bs) \<Longrightarrow> covered (opened start as) ev"
  shows "map_within_loop offset start (merge2 (alt d (- d) as) (alt y (- y) bs)) =
    Inr (map (\<lambda>p. offset + rank_of (opened start as) p) bs)"
  using assms
proof (induction "length as + length bs" arbitrary: as bs offset start d y rule: less_induct)
  case less
  show ?case
  proof (cases bs)
    case Nil
    then show ?thesis using less.prems(4) by (simp add: map_within_loop_done)
  next
    case bs: (Cons b bs')
    have cov: "covered (opened start as) (b, y)" using less.prems(6) bs by simp
    show ?thesis
    proof (cases as)
      case Nil
      then show ?thesis using cov by (cases start) (auto simp: covered_def opened_def)
    next
      case as: (Cons a as')
      show ?thesis
      proof (cases start)
        case None
        have "a \<le> b" using cov less.prems(1) as None pairs_bounds[of "a # as'"]
          by (fastforce simp: covered_def opened_def wf_data_def)
        moreover have "d = -5" using None less.prems(4) by simp
        ultimately have first: "(a, d) \<le> (b, y)" using less.prems(3) by auto
        have "map_within_loop offset (Some a) (merge2 (alt 5 (- 5) as') (alt y (- y) bs)) =
            Inr (map (\<lambda>p. offset + rank_of (opened (Some a) as') p) bs)"
          using less.prems None as bs \<open>a \<le> b\<close> by (intro less.hyps) (auto simp: opened_def)
        then show ?thesis using first None as bs \<open>d = -5\<close> by (simp add: opened_def)
      next
        case (Some st)
        have d: "d = 5" using Some less.prems(4) by simp
        have wf: "wf_data (st # a # as')" using less.prems(1) as Some by (simp add: opened_def)
        have stb: "st \<le> b" using less.prems(5)[OF Some] bs by simp
        show ?thesis
        proof (cases "b \<le> a")
          case True
          then have second: "\<not> (a, d) \<le> (b, y)" using d less.prems(3) by auto
          have "map_within_loop offset (Some st) (merge2 (alt d (- d) as) (alt (- y) (- (- y)) bs')) =
              Inr (map (\<lambda>p. offset + rank_of (opened (Some st) as) p) bs')"
            using less.prems Some bs by (intro less.hyps) auto
          moreover have "rank_of (st # a # as') b = b - st" by (rule rank_of_inside[OF wf stb True])
          ultimately show ?thesis using second Some as bs less.prems(3) by (auto simp: opened_def)
        next
          case False
          then have first: "(a, d) \<le> (b, y)" by simp
          have after: "a < p" if "p \<in> set bs" for p using that False less.prems(2) bs by auto
          have "map_within_loop (offset + (a - st)) None (merge2 (alt (- 5) (- (- 5)) as') (alt y (- y) bs)) =
              Inr (map (\<lambda>p. offset + (a - st) + rank_of (opened None as') p) bs)"
          proof (rule less.hyps)
            fix ev assume ev: "ev \<in> set (alt y (- y) bs)"
            then have "a < fst ev" using after set_alt[of y "- y" bs] by auto
            then show "covered (opened None as') ev"
              using less.prems(6)[OF ev] as Some by (cases ev) (auto simp: covered_def opened_def)
          qed (use less.prems as wf in \<open>auto simp: opened_def wf_data_Cons2\<close>)
          moreover have "rank_of (st # a # as') p = (a - st) + rank_of as' p" if "p \<in> set bs" for p
            using rank_of_beyond[OF wf, of p] after[OF that] by simp
          ultimately show ?thesis using first Some as bs d by (simp add: opened_def)
        qed
      qed
    qed
  qed
qed

lemma alt_pairs:
  assumes "even (length ds)"
  shows "(p, -1) \<in> set (alt (-1) 1 ds) \<Longrightarrow> \<exists>e. (p, e) \<in> set (pairs ds)"
    and "(p, 1) \<in> set (alt (-1) 1 ds) \<Longrightarrow> \<exists>s. (s, p) \<in> set (pairs ds)"
  using assms by (induction ds rule: pairs.induct) auto

lemma covered_subset:
  assumes "wf_rs a" "wf_rs b" "blocks b \<subseteq> blocks a" "ev \<in> set (alt (-1) 1 (rs_data b))"
  shows "covered (rs_data a) ev"
proof -
  have wfb: "wf_data (rs_data b)" using assms(2) by (simp add: wf_rs_def)
  have in_a: "\<exists>(s, e)\<in>set (pairs (rs_data a)). s \<le> x \<and> x < e" if "x \<in> blocks b" for x
    using that assms(3) rs_iter_blocks[OF assms(1), of x] by (auto simp: rs_iter_def)
  obtain p d where ev: "ev = (p, d)" by (cases ev)
  have "d = -1 \<or> d = 1" using set_alt[of "-1" 1 "rs_data b"] assms(4) ev by auto
  then show ?thesis
  proof
    assume d: "d = -1"
    then obtain e where "(p, e) \<in> set (pairs (rs_data b))"
      using alt_pairs(1)[of "rs_data b" p] assms(4) wfb ev by (auto simp: wf_data_def)
    then have "p \<in> blocks b"
      using pairs_bounds[OF wfb] rs_iter_blocks[OF assms(2), of p] by (force simp: rs_iter_def)
    from in_a[OF this] obtain s e' where "(s, e') \<in> set (pairs (rs_data a))" "s \<le> p" "p < e'" by auto
    then show ?thesis using ev d by (auto simp: covered_def intro!: bexI[of _ "(s, e')"])
  next
    assume d: "d = 1"
    then obtain s where s: "(s, p) \<in> set (pairs (rs_data b))"
      using alt_pairs(2)[of "rs_data b" p] assms(4) wfb ev by (auto simp: wf_data_def)
    moreover have "s < p" using pairs_bounds[OF wfb s] by simp
    ultimately have "p - 1 \<in> blocks b"
      using rs_iter_blocks[OF assms(2), of "p - 1"] by (force simp: rs_iter_def)
    from in_a[OF this] obtain s' e' where "(s', e') \<in> set (pairs (rs_data a))" "s' \<le> p - 1" "p - 1 < e'" by auto
    then show ?thesis using ev d by (auto simp: covered_def intro!: bexI[of _ "(s', e')"])
  qed
qed

lemma rank_of_mono: "wf_data ds \<Longrightarrow> p \<le> q \<Longrightarrow> rank_of ds p \<le> rank_of ds q"
  unfolding rank_of_def
  by (intro of_nat_le_iff[THEN iffD2] card_mono finite_subset[OF _ finite_members]) auto

lemma rank_of_member_less: "wf_data ds \<Longrightarrow> par ds x \<Longrightarrow> x < p \<Longrightarrow> rank_of ds x < rank_of ds p"
  unfolding rank_of_def
  by (intro of_nat_less_iff[THEN iffD2] psubset_card_mono finite_subset[OF _ finite_members]) auto

lemma rank_of_surj:
  assumes "wf_data ds" "0 \<le> k" "k < int (card {x. par ds x})"
  obtains x where "par ds x" "rank_of ds x = k"
proof -
  let ?A = "{x. par ds x}"
  have fin: "finite ?A" by (rule finite_members[OF assms(1)])
  have "inj_on (rank_of ds) ?A"
    using rank_of_member_less[OF assms(1)] by (intro linorder_inj_onI) fastforce+
  then have "card (rank_of ds ` ?A) = card ?A" by (rule card_image)
  moreover have "rank_of ds ` ?A \<subseteq> {0..<int (card ?A)}"
    using fin by (auto simp: rank_of_def intro!: psubset_card_mono)
  ultimately have "rank_of ds ` ?A = {0..<int (card ?A)}"
    by (intro card_subset_eq) auto
  then have "k \<in> rank_of ds ` ?A" using assms(2,3) by simp
  then show ?thesis using that by blast
qed

lemma par_map_rank:
  assumes "wf_data as" "even (length bs)" "\<forall>x. par bs x \<longrightarrow> par as x"
  shows "{k. par (map (rank_of as) bs) k} = rank_of as ` {x. par bs x}"
proof -
  have eq: "par (map (rank_of as) bs') (rank_of as x) = par bs' x" if "par as x" for x bs'
  proof (induction bs')
    case (Cons p ps)
    have "rank_of as p \<le> rank_of as x \<longleftrightarrow> p \<le> x"
      using rank_of_mono[OF assms(1), of p x] rank_of_member_less[OF assms(1) that, of p] by fastforce
    with Cons show ?case by simp
  qed simp
  have bound: "\<exists>x. par as x \<and> rank_of as x = k" if k: "par (map (rank_of as) bs) k" for k
  proof (rule ccontr)
    assume none: "\<not> (\<exists>x. par as x \<and> rank_of as x = k)"
    have le: "rank_of as p \<le> int (card {x. par as x})" for p
      using finite_members[OF assms(1)] by (auto simp: rank_of_def intro!: card_mono)
    have ge: "0 \<le> rank_of as p" for p by (simp add: rank_of_def)
    have "k < 0 \<or> int (card {x. par as x}) \<le> k"
      using none rank_of_surj[OF assms(1), of k] by force
    then show False
    proof
      assume "k < 0"
      then have "\<forall>p\<in>set (map (rank_of as) bs). k < p" using ge by (auto intro: order.strict_trans2)
      from par_above[OF this] k show False by simp
    next
      assume "int (card {x. par as x}) \<le> k"
      then have "\<forall>p\<in>set (map (rank_of as) bs). p \<le> k" using le by (auto intro: order.trans)
      from par_below[OF this] k assms(2) show False by simp
    qed
  qed
  show ?thesis
  proof (intro equalityI subsetI)
    fix k assume "k \<in> {k. par (map (rank_of as) bs) k}"
    then have k: "par (map (rank_of as) bs) k" by simp
    then obtain x where "par as x" "rank_of as x = k" using bound by blast
    with k eq[of x bs] show "k \<in> rank_of as ` {x. par bs x}" by auto
  next
    fix k assume "k \<in> rank_of as ` {x. par bs x}"
    then show "k \<in> {k. par (map (rank_of as) bs) k}" using eq assms(3) by auto
  qed
qed

text \<open>The documented meaning: \<open>other\<close>, a subset of \<open>self\<close>, renumbered by the position of its
  blocks within \<open>self\<close>.\<close>

lemma rs_map_within_spec:
  assumes "wf_rs a" "wf_rs b" "blocks b \<subseteq> blocks a"
  shows "\<exists>r. rs_map_within a b = Inr r \<and> wf_rs r \<and>
           blocks r = (\<lambda>x. int (card {y \<in> blocks a. y < x})) ` blocks b"
proof -
  let ?as = "rs_data a" and ?bs = "rs_data b"
  have wf: "wf_data ?as" "wf_data ?bs" using assms(1,2) by (simp_all add: wf_rs_def)
  let ?out = "map (rank_of ?as) ?bs"
  have "map_within_loop 0 None (merge2 (alt (-5) 5 ?as) (alt (-1) 1 ?bs)) = Inr ?out"
    using map_within_loop_merge[of None ?as ?bs "-1" "-5" 0] wf covered_subset[OF assms]
    by (simp add: opened_def wf_data_def)
  then have r: "rs_map_within a b = Inr (rs_of_data ?out)"
    using wf(2) by (simp add: rs_map_within_def RangeSet_init_even wf_data_def)
  have "sorted ?out"
    using wf by (auto simp: sorted_map wf_data_def strict_sorted_iff intro: rank_of_mono
        elim!: sorted_wrt_mono_rel[rotated])
  then have "wf_rs (rs_of_data ?out)" using wf(2) by (intro wf_rs_of_data) (auto simp: wf_data_def)
  moreover have "blocks (rs_of_data ?out) = (\<lambda>x. int (card {y \<in> blocks a. y < x})) ` blocks b"
    using par_map_rank[of ?as ?bs] wf assms(3)
    by (auto simp: blocks_def wf_data_def rank_of_def[abs_def])
  ultimately show ?thesis using r by blast
qed

section \<open>The contract of the class\<close>

text \<open>
  What the clients of \<open>RangeSet\<close> rely on: an invariant, an abstraction to finite sets of block
  numbers, and the set-theoretic meaning of the operations. The client algorithms that only
  use these operations are verified once, inside the locale.
\<close>

locale block_set =
  fixes inv :: "'s \<Rightarrow> bool" and abs :: "'s \<Rightarrow> int set" and empty :: 's
    and union :: "'s \<Rightarrow> 's \<Rightarrow> 's" and inter :: "'s \<Rightarrow> 's \<Rightarrow> 's" and diff :: "'s \<Rightarrow> 's \<Rightarrow> 's"
    and meets :: "'s \<Rightarrow> 's \<Rightarrow> bool" and nonempty :: "'s \<Rightarrow> bool" and size_of :: "'s \<Rightarrow> int"
    and eq :: "'s \<Rightarrow> 's \<Rightarrow> bool"
  assumes inv_empty: "inv empty" and abs_empty: "abs empty = {}"
    and inv_union: "inv a \<Longrightarrow> inv b \<Longrightarrow> inv (union a b)"
    and abs_union: "inv a \<Longrightarrow> inv b \<Longrightarrow> abs (union a b) = abs a \<union> abs b"
    and inv_inter: "inv a \<Longrightarrow> inv b \<Longrightarrow> inv (inter a b)"
    and abs_inter: "inv a \<Longrightarrow> inv b \<Longrightarrow> abs (inter a b) = abs a \<inter> abs b"
    and inv_diff: "inv a \<Longrightarrow> inv b \<Longrightarrow> inv (diff a b)"
    and abs_diff: "inv a \<Longrightarrow> inv b \<Longrightarrow> abs (diff a b) = abs a - abs b"
    and meets_iff: "inv a \<Longrightarrow> inv b \<Longrightarrow> meets a b \<longleftrightarrow> abs a \<inter> abs b \<noteq> {}"
    and nonempty_iff: "inv a \<Longrightarrow> nonempty a \<longleftrightarrow> abs a \<noteq> {}"
    and finite_abs: "inv a \<Longrightarrow> finite (abs a)"
    and size_card: "inv a \<Longrightarrow> size_of a = int (card (abs a))"
    and eq_iff: "inv a \<Longrightarrow> inv b \<Longrightarrow> eq a b \<longleftrightarrow> abs a = abs b"
begin

lemma inv_fold_diff: "inv a \<Longrightarrow> (\<And>b. b \<in> set bs \<Longrightarrow> inv b) \<Longrightarrow> inv (foldl diff a bs)"
  by (induction bs arbitrary: a) (auto simp: inv_diff)

lemma abs_fold_diff:
  "inv a \<Longrightarrow> (\<And>b. b \<in> set bs \<Longrightarrow> inv b) \<Longrightarrow> abs (foldl diff a bs) = abs a - \<Union> (abs ` set bs)"
  by (induction bs arbitrary: a) (auto simp: inv_diff abs_diff)

lemma size_union_disjoint:
  "inv a \<Longrightarrow> inv b \<Longrightarrow> \<not> meets a b \<Longrightarrow> size_of (union a b) = size_of a + size_of b"
  by (simp add: size_card inv_union abs_union meets_iff finite_abs card_Un_disjoint)

lemma size_diff_subset:
  "inv a \<Longrightarrow> inv b \<Longrightarrow> abs b \<subseteq> abs a \<Longrightarrow> size_of (diff a b) = size_of a - size_of b"
  by (simp add: size_card inv_diff abs_diff finite_abs card_Diff_subset card_mono of_nat_diff)

lemma size_zero_iff: "inv a \<Longrightarrow> size_of a = 0 \<longleftrightarrow> abs a = {}"
  by (simp add: size_card finite_abs)

text \<open>The loop that accumulates a sequence and stops at the first overlap: it succeeds exactly
  when the sets are pairwise disjoint, with their union.\<close>

lemma partition_loop:
  assumes "inv acc" "\<And>b. b \<in> set bs \<Longrightarrow> inv b"
  shows "for_each (\<lambda>so_far i. try_bind (py_assert (\<not> meets so_far i)) (\<lambda>_. Inr (union so_far i))) acc bs =
           (if disjoint_seq (abs acc) (map abs bs) then Inr (foldl union acc bs) else Inl AssertionError)"
  using assms
proof (induction bs arbitrary: acc)
  case (Cons b bs)
  then have "inv (union acc b)" by (simp add: inv_union)
  with Cons show ?case by (cases "meets acc b") (auto simp: meets_iff abs_union)
qed simp

lemma fold_union:
  "inv a \<Longrightarrow> (\<And>b. b \<in> set bs \<Longrightarrow> inv b) \<Longrightarrow>
   inv (foldl union a bs) \<and> abs (foldl union a bs) = abs a \<union> \<Union> (abs ` set bs)"
  by (induction bs arbitrary: a) (auto simp: inv_union abs_union)

end

text \<open>Two well-formed tuples with the same members are equal.\<close>

lemma par_boundary: "distinct ds \<Longrightarrow> par ds p \<noteq> par ds (p - 1) \<longleftrightarrow> p \<in> set ds"
  by (induction ds) auto

lemma wf_data_unique:
  assumes "wf_data ds" "wf_data ds'" "\<And>x. par ds x = par ds' x"
  shows "ds = ds'"
proof (rule strict_sorted_equal)
  have "distinct ds" "distinct ds'" using assms(1,2) by (auto simp: wf_data_def strict_sorted_iff)
  then show "set ds = set ds'" using assms(3) par_boundary by blast
qed (use assms in \<open>auto simp: wf_data_def\<close>)

lemma rs_eq_blocks: "wf_rs a \<Longrightarrow> wf_rs b \<Longrightarrow> rs_eq a b \<longleftrightarrow> blocks a = blocks b"
  using wf_data_unique[of "rs_data a" "rs_data b"] by (auto simp: rs_eq_def wf_rs_def blocks_def)

lemma blocks_interval: "0 \<le> n \<Longrightarrow> wf_rs (rs_of_data [0, n]) \<and> blocks (rs_of_data [0, n]) = {0..<n}"
  by (cases "n = 0") (auto simp: rs_of_data_def remove_pairs_def wf_rs_def wf_data_def blocks_def split: if_splits)

interpretation rs: block_set wf_rs blocks rs_empty rs_union rs_intersect rs_subtract rs_overlaps rs_bool rs_size rs_eq
  by unfold_locales (simp_all add: rs_overlaps_iff rs_bool_blocks rs_size_card rs_eq_blocks)

section \<open>Properties\<close>

text \<open>C1: \<open>union\<close>, \<open>intersect\<close> and \<open>subtract\<close> of well-formed RangeSets keep the class invariant
  and denote the union, the intersection and the difference of the block sets; \<open>overlaps\<close> decides
  whether the intersection is nonempty; \<open>==\<close> decides equality of the sets and \<open>size\<close> counts the
  blocks.\<close>

theorem range_algebra_correct:
  assumes "wf_rs a" "wf_rs b"
  shows "wf_rs (rs_union a b) \<and> wf_rs (rs_intersect a b) \<and> wf_rs (rs_subtract a b)
    \<and> blocks (rs_union a b) = blocks a \<union> blocks b
    \<and> blocks (rs_intersect a b) = blocks a \<inter> blocks b
    \<and> blocks (rs_subtract a b) = blocks a - blocks b
    \<and> (rs_overlaps a b \<longleftrightarrow> blocks a \<inter> blocks b \<noteq> {})
    \<and> (rs_eq a b \<longleftrightarrow> blocks a = blocks b)
    \<and> rs_size a = int (card (blocks a))"
  using assms rs.abs_union rs.abs_inter rs.abs_diff rs.meets_iff rs.eq_iff rs.size_card by simp

theorem range_algebra_correct_witness:
  "blocks (rs_union (RangeSet [10, 20, 30, 35] True []) (RangeSet [18, 30] True [])) =
     blocks (RangeSet [10, 20, 30, 35] True []) \<union> blocks (RangeSet [18, 30] True [])
   \<and> rs_data (rs_union (RangeSet [10, 20, 30, 35] True []) (RangeSet [18, 30] True [])) = [10, 35]"
proof -
  have "wf_rs (RangeSet [10, 20, 30, 35] True [])" "wf_rs (RangeSet [18, 30] True [])"
    by (simp_all add: wf_rs_def wf_data_def)
  from range_algebra_correct[OF this] show ?thesis
    by (simp add: rs_union_def rs_of_data_def remove_pairs_def)
qed

text \<open>The constructor's assertion on an even number of boundaries never fires inside \<open>union\<close>,
  \<open>intersect\<close> and \<open>subtract\<close>: whatever the order of the boundaries, two operands of even length
  give a list of even length, and the constructor returns the modelled result.\<close>

theorem set_operations_never_assert:
  assumes "even (length (rs_data a))" "even (length (rs_data b))"
  shows "RangeSet_init (sweep 0 1 0 (merge2 (alt 1 (-1) (rs_data a)) (alt 1 (-1) (rs_data b)))) = Inr (rs_union a b)
    \<and> RangeSet_init (sweep 1 2 0 (merge2 (alt 1 (-1) (rs_data a)) (alt 1 (-1) (rs_data b)))) = Inr (rs_intersect a b)
    \<and> RangeSet_init (sweep 0 1 0 (merge2 (alt 1 (-1) (rs_data a)) (alt (-1) 1 (rs_data b)))) = Inr (rs_subtract a b)"
  using even_sweep_merge[OF assms, of 1 1 1] even_sweep_merge[OF assms, of 1 1 2]
    even_sweep_merge[OF assms, of 1 "-1" 1]
  by (simp add: RangeSet_init_even rs_union_def rs_intersect_def rs_subtract_def)

theorem set_operations_never_assert_witness:
  "RangeSet_init (sweep 0 1 0 (merge2 (alt 1 (-1) [5, 1]) (alt 1 (-1) [2, 3]))) =
     Inr (rs_union (RangeSet [5, 1] False []) (RangeSet [2, 3] True []))"
  using set_operations_never_assert[of "RangeSet [5, 1] False []" "RangeSet [2, 3] True []"] by simp

text \<open>C7: for \<open>n \<ge> 0\<close>, \<open>first(n)\<close> holds the least \<open>min n (size)\<close> blocks: it is well-formed, a subset,
  has that size, and each of its blocks lies below every block left out.\<close>

theorem first_takes_least_blocks:
  assumes "wf_rs rs" "0 \<le> n"
  shows "wf_rs (rs_first rs n) \<and> blocks (rs_first rs n) \<subseteq> blocks rs
    \<and> rs_size (rs_first rs n) = min n (rs_size rs)
    \<and> (\<forall>x y. x \<in> blocks (rs_first rs n) \<and> y \<in> blocks rs - blocks (rs_first rs n) \<longrightarrow> x < y)"
  using rs_first_spec[OF assms] by blast

theorem first_takes_least_blocks_witness:
  "rs_data (rs_first (RangeSet [10, 20, 30, 40] True []) 15) = [10, 20, 30, 35]
   \<and> rs_size (rs_first (RangeSet [10, 20, 30, 40] True []) 15) = 15"
proof -
  have "wf_rs (RangeSet [10, 20, 30, 40] True [])" by (simp add: wf_rs_def wf_data_def)
  from first_takes_least_blocks[OF this, of 15] show ?thesis
    by (simp add: rs_first_def rs_size_def rs_iter_def rs_of_data_def remove_pairs_def)
qed

text \<open>C8: for a subset \<open>b\<close> of \<open>a\<close>, \<open>a.map_within(b)\<close> raises nothing and is the set of the positions
  that the blocks of \<open>b\<close> have within \<open>a\<close> when \<open>a\<close> is numbered contiguously from zero.\<close>

theorem map_within_renumbers:
  assumes "wf_rs a" "wf_rs b" "blocks b \<subseteq> blocks a"
  shows "\<exists>r. rs_map_within a b = Inr r \<and> wf_rs r \<and>
           blocks r = (\<lambda>x. int (card {y \<in> blocks a. y < x})) ` blocks b"
  by (rule rs_map_within_spec[OF assms])

theorem map_within_renumbers_witness:
  "map_sum id rs_data (rs_map_within (RangeSet [10, 20, 30, 40] True []) (RangeSet [12, 14, 17, 20, 30, 33] True [])) = Inr [2, 4, 7, 13]
   \<and> (\<exists>r. rs_map_within (RangeSet [10, 20, 30, 40] True []) (RangeSet [12, 14, 17, 20, 30, 33] True []) = Inr r \<and> wf_rs r)"
proof -
  let ?a = "RangeSet [10, 20, 30, 40] True []" and ?b = "RangeSet [12, 14, 17, 20, 30, 33] True []"
  have "wf_rs ?a" "wf_rs ?b" "blocks ?b \<subseteq> blocks ?a"
    by (auto simp: wf_rs_def wf_data_def blocks_def)
  from map_within_renumbers[OF this] show ?thesis
    by (auto simp: rs_map_within_def RangeSet_init_def rs_of_data_def remove_pairs_def)
qed

text \<open>C9: \<open>extend(n)\<close> of a RangeSet of non-negative blocks raises nothing and is the set of the
  non-negative blocks within distance \<open>n\<close> of a block of the set.\<close>

theorem extend_adds_neighbours:
  assumes "wf_rs rs" "\<forall>p\<in>set (rs_data rs). 0 \<le> p" "0 \<le> n"
  shows "\<exists>r. rs_extend rs n = Inr r \<and> wf_rs r \<and>
           blocks r = {y. 0 \<le> y \<and> (\<exists>x\<in>blocks rs. \<bar>x - y\<bar> \<le> n)}"
  by (rule rs_extend_spec[OF assms])

theorem extend_adds_neighbours_witness:
  "\<exists>r. rs_extend (RangeSet [10, 20] True []) 15 = Inr r \<and> wf_rs r \<and>
     blocks r = {y. 0 \<le> y \<and> (\<exists>x\<in>blocks (RangeSet [10, 20] True []). \<bar>x - y\<bar> \<le> 15)}"
  by (rule extend_adds_neighbours) (simp_all add: wf_rs_def wf_data_def)

text \<open>C10: parsing what \<open>to_string\<close> prints gives back the same ranges for non-negative blocks, with
  the monotonic flag set.\<close>

theorem parse_to_string_roundtrip:
  assumes "wf_rs rs" "\<forall>p\<in>set (rs_data rs). 0 \<le> p"
  shows "rs_parse (rs_to_string rs) = Inr (RangeSet (rs_data rs) True [])"
  by (rule rs_parse_to_string[OF assms])

theorem parse_to_string_roundtrip_witness:
  "rs_parse (rs_to_string (RangeSet [10, 21, 30, 31] False [])) = Inr (RangeSet [10, 21, 30, 31] True [])"
  using parse_to_string_roundtrip[of "RangeSet [10, 21, 30, 31] False []"] by (simp add: wf_rs_def wf_data_def)

text \<open>C11: parsing the raw form that \<open>to_string_raw\<close> prints for a nonempty well-formed RangeSet gives
  back the same ranges; the raw form of an empty RangeSet raises.\<close>

theorem parse_raw_roundtrip:
  assumes "wf_rs rs"
  shows "try_bind (rs_to_string_raw rs) rs_parse_raw =
    (if rs_data rs = [] then Inl AssertionError else Inr (RangeSet (rs_data rs) True []))"
  using rs_parse_raw_to_string_raw[OF assms] by (simp add: rs_to_string_raw_def)

theorem parse_raw_roundtrip_witness:
  "try_bind (rs_to_string_raw (RangeSet [0, 10] True [])) rs_parse_raw = Inr (RangeSet [0, 10] True [])"
  using parse_raw_roundtrip[of "RangeSet [0, 10] True []"] by (simp add: wf_rs_def wf_data_def)

text \<open>\<open>next_item\<close> yields every block of the set once, in increasing order.\<close>

theorem next_item_enumerates:
  assumes "wf_rs rs"
  shows "rs_next_item rs = sorted_list_of_set (blocks rs)"
  by (rule rs_next_item_eq[OF assms])

theorem next_item_enumerates_witness:
  "rs_next_item (RangeSet [3, 6, 10, 12] True []) = sorted_list_of_set (blocks (RangeSet [3, 6, 10, 12] True []))
   \<and> rs_next_item (RangeSet [3, 6, 10, 12] True []) = [3, 4, 5, 10, 11]"
  using next_item_enumerates[of "RangeSet [3, 6, 10, 12] True []"]
  by (simp add: wf_rs_def wf_data_def rs_next_item_def rs_iter_def upto.simps)

end
