(* ===== verification/Transfers.thy ===== *)
theory Transfers
  imports RangeLib
begin

text \<open>
  The class \<open>Transfer\<close> of \<open>tools/releasetools/blockimgdiff.py\<close>. Transfers are mutable objects that
  refer to each other (\<open>goes_before\<close>, \<open>goes_after\<close> are dictionaries keyed by transfers), so the
  model keeps them in a store, the list \<open>by_id\<close> that the constructor appends to: a reference is
  the transfer's \<open>id\<close>, its index in the store.
\<close>

section \<open>Data\<close>

text \<open>The values of the attribute \<open>style\<close>.\<close>

datatype style = Zero | New | Diff | Move | Bsdiff | Imgdiff

fun style_str :: "style \<Rightarrow> string" where
  "style_str Zero = ''zero''"
| "style_str New = ''new''"
| "style_str Diff = ''diff''"
| "style_str Move = ''move''"
| "style_str Bsdiff = ''bsdiff''"
| "style_str Imgdiff = ''imgdiff''"

text \<open>\<open>PatchInfo(imgdiff, content)\<close>.\<close>

record patch_info =
  pi_imgdiff :: bool
  pi_content :: string

text \<open>
  \<open>order\<close>, \<open>patch_start\<close> and \<open>patch_len\<close> are attributes that \<open>FindVertexSequence\<close> and
  \<open>ComputePatches\<close> create; they are 0 before. The weights of \<open>goes_before\<close> and \<open>goes_after\<close> are
  integers for the edges \<open>GenerateDigraph\<close> makes and \<open>None\<close> for the reversed ones.
\<close>

record transfer =
  tgt_name :: string
  src_name :: "string option"
  tgt_ranges :: range_set
  src_ranges :: range_set
  tgt_sha1 :: string
  src_sha1 :: string
  xf_style :: style
  goes_before :: "(nat, int option) odict"
  goes_after :: "(nat, int option) odict"
  stash_before :: "(nat \<times> range_set) list"
  use_stash :: "(nat \<times> range_set) list"
  xf_order :: nat
  xf_patch_info :: "patch_info option"
  patch_start :: int
  patch_len :: int

type_synonym store = "transfer list"

section \<open>Operations\<close>

text \<open>\<open>Transfer.__init__\<close>: the new object is appended to \<open>by_id\<close>; its id is the old length.\<close>

definition Transfer_init ::
  "string \<Rightarrow> string option \<Rightarrow> range_set \<Rightarrow> range_set \<Rightarrow> string \<Rightarrow> string \<Rightarrow> style \<Rightarrow> store \<Rightarrow> store" where
  "Transfer_init tn sn tr sr ts ss st by_id =
     by_id @ [\<lparr>tgt_name = tn, src_name = sn, tgt_ranges = tr, src_ranges = sr,
               tgt_sha1 = ts, src_sha1 = ss, xf_style = st,
               goes_before = [], goes_after = [], stash_before = [], use_stash = [],
               xf_order = 0, xf_patch_info = None, patch_start = 0, patch_len = 0\<rparr>]"

text \<open>The setter of the property \<open>patch_info\<close>.\<close>

definition set_patch_info :: "patch_info option \<Rightarrow> transfer \<Rightarrow> transfer res" where
  "set_patch_info info xf =
     (if info \<noteq> None then
        try_bind (py_assert (xf_style xf = Diff)) (\<lambda>_. Inr (xf\<lparr>xf_patch_info := info\<rparr>))
      else Inr (xf\<lparr>xf_patch_info := info\<rparr>))"

definition NetStashChange :: "transfer \<Rightarrow> int" where
  "NetStashChange xf =
     sum_list (map (\<lambda>(_, sr). rs_size sr) (stash_before xf))
     - sum_list (map (\<lambda>(_, sr). rs_size sr) (use_stash xf))"

definition ConvertToNew :: "transfer \<Rightarrow> transfer res" where
  "ConvertToNew xf =
     try_bind (py_assert (xf_style xf \<noteq> New)) (\<lambda>_.
       set_patch_info None (xf\<lparr>use_stash := [], xf_style := New, src_ranges := rs_empty\<rparr>))"

text \<open>Assignment to attributes of the transfer with a given id.\<close>

definition upd :: "nat \<Rightarrow> (transfer \<Rightarrow> transfer) \<Rightarrow> store \<Rightarrow> store" where
  "upd i f h = h[i := f (h ! i)]"

lemma length_upd [simp]: "length (upd i f h) = length h"
  by (simp add: upd_def)

lemma nth_upd: "j < length h \<Longrightarrow> upd i f h ! j = (if i = j then f (h ! j) else h ! j)"
  by (auto simp: upd_def)

section \<open>Well-formed stores\<close>

text \<open>The blocks a transfer writes and the blocks it reads.\<close>

abbreviation tgt_blocks :: "transfer \<Rightarrow> int set" where
  "tgt_blocks xf \<equiv> blocks (tgt_ranges xf)"

abbreviation src_blocks :: "transfer \<Rightarrow> int set" where
  "src_blocks xf \<equiv> blocks (src_ranges xf)"

definition nonneg_rs :: "range_set \<Rightarrow> bool" where
  "nonneg_rs rs = (wf_rs rs \<and> (\<forall>p\<in>set (rs_data rs). 0 \<le> p))"

lemma nonneg_rsD: "nonneg_rs rs \<Longrightarrow> wf_rs rs"
  by (simp add: nonneg_rs_def)

lemma nonneg_iter: "nonneg_rs rs \<Longrightarrow> (s, e) \<in> set (rs_iter rs) \<Longrightarrow> 0 \<le> s \<and> s < e"
  using pairs_bounds[of "rs_data rs" s e] by (auto simp: nonneg_rs_def wf_rs_def rs_iter_def)

lemma nonneg_blocks: "nonneg_rs rs \<Longrightarrow> x \<in> blocks rs \<Longrightarrow> 0 \<le> x"
  using rs_iter_blocks[of rs x] nonneg_iter[of rs] by (fastforce simp: nonneg_rs_def)

definition wf_xf :: "transfer \<Rightarrow> bool" where
  "wf_xf xf = (nonneg_rs (tgt_ranges xf) \<and> nonneg_rs (src_ranges xf))"

text \<open>A sequence of references: distinct and valid, to well-formed transfers.\<close>

definition wf_seq :: "nat list \<Rightarrow> store \<Rightarrow> bool" where
  "wf_seq ts h = (distinct ts \<and> (\<forall>i\<in>set ts. i < length h \<and> wf_xf (h ! i)))"

end
