(* ===== verification/ImgdiffStats.thy ===== *)
theory ImgdiffStats
  imports Transfers
begin

text \<open>
  When \<open>imgdiff\<close> may be used: \<open>BlockImageDiff.FileTypeSupportedByImgdiff\<close>, \<open>BlockImageDiff.CanUseImgdiff\<close>
  and the class \<open>ImgdiffStats\<close> of \<open>tools/releasetools/blockimgdiff.py\<close>. The statistics map a reason to the
  set of the files logged with it; they are absent (\<open>None\<close>) when imgdiff is disabled.
\<close>

section \<open>Data\<close>

definition USED_IMGDIFF :: string where
  "USED_IMGDIFF = ''APK files diff'' @ [CHR 0x27] @ ''d with imgdiff''"

definition USED_IMGDIFF_LARGE_APK :: string where
  "USED_IMGDIFF_LARGE_APK = ''Large APK files split and diff'' @ [CHR 0x27] @ ''d with imgdiff''"

definition SKIPPED_NONMONOTONIC :: string where
  "SKIPPED_NONMONOTONIC = ''Not used imgdiff due to having non-monotonic ranges''"

definition SKIPPED_SHARED_BLOCKS :: string where
  "SKIPPED_SHARED_BLOCKS = ''Not used imgdiff due to using shared blocks''"

definition SKIPPED_INCOMPLETE :: string where
  "SKIPPED_INCOMPLETE = ''Not used imgdiff due to incomplete RangeSet''"

definition REASONS :: "string list" where
  "REASONS = [USED_IMGDIFF, USED_IMGDIFF_LARGE_APK, SKIPPED_NONMONOTONIC, SKIPPED_SHARED_BLOCKS, SKIPPED_INCOMPLETE]"

lemmas reason_defs = USED_IMGDIFF_def USED_IMGDIFF_LARGE_APK_def SKIPPED_NONMONOTONIC_def SKIPPED_SHARED_BLOCKS_def SKIPPED_INCOMPLETE_def

type_synonym imgdiff_stats = "(string, string list) odict"

section \<open>Operations\<close>

text \<open>\<open>str.lower\<close> on the letters that matter for the comparisons: the ASCII capitals.\<close>

definition lower_char :: "char \<Rightarrow> char" where
  "lower_char c = (if 65 \<le> (of_char c :: nat) \<and> (of_char c :: nat) \<le> 90 then char_of ((of_char c :: nat) + 32) else c)"

definition lower :: "string \<Rightarrow> string" where
  "lower s = map lower_char s"

definition ends_with :: "string \<Rightarrow> string \<Rightarrow> bool" where
  "ends_with s t = suffix t s"

definition FileTypeSupportedByImgdiff :: "string \<Rightarrow> bool" where
  "FileTypeSupportedByImgdiff filename = list_ex (ends_with (lower filename)) [''.apk'', ''.jar'', ''.zip'']"

text \<open>\<open>ImgdiffStats.Log\<close>; the statistics object may be absent.\<close>

definition Log :: "imgdiff_stats \<Rightarrow> string \<Rightarrow> string \<Rightarrow> imgdiff_stats res" where
  "Log stats filename reason =
     try_bind (py_assert (FileTypeSupportedByImgdiff filename)) (\<lambda>_.
       try_bind (py_assert (reason \<in> set REASONS)) (\<lambda>_.
         let stats1 = (if reason \<notin> fst ` set stats then dict_set reason [] stats else stats) in
         try_bind (dict_get stats1 reason) (\<lambda>files. Inr (dict_set reason (oset_add files filename) stats1))))"

definition log_reason :: "imgdiff_stats option \<Rightarrow> string \<Rightarrow> string \<Rightarrow> imgdiff_stats option res" where
  "log_reason stats filename reason =
     (case stats of None \<Rightarrow> Inl AttributeError | Some s \<Rightarrow> try_bind (Log s filename reason) (\<lambda>s'. Inr (Some s')))"

text \<open>\<open>ImgdiffStats.Report\<close>: the sections, in the order of the reasons. The names of a section come in the
  order of the set.\<close>

definition Report :: "imgdiff_stats \<Rightarrow> (string \<times> string list) list" where
  "Report stats =
     map (\<lambda>(key, values). ('' '' @ key @ '' (count: '' @ str_int (int (length values)) @ '') '', values))
       (List.map_filter (\<lambda>key. map_option (\<lambda>v. (key, v)) (map_of stats key)) REASONS)"

text \<open>\<open>extra.get(key)\<close> as a condition.\<close>

fun extra_true :: "extra_val \<Rightarrow> bool" where
  "extra_true (Extra_str s) = (s \<noteq> [])"
| "extra_true (Extra_bool b) = b"
| "extra_true (Extra_rs r) = rs_bool r"

definition has_extra :: "string \<Rightarrow> range_set \<Rightarrow> bool" where
  "has_extra key r = (case map_of (rs_extra r) key of None \<Rightarrow> False | Some v \<Rightarrow> extra_true v)"

definition CanUseImgdiff ::
  "bool \<Rightarrow> imgdiff_stats option \<Rightarrow> string \<Rightarrow> range_set \<Rightarrow> range_set \<Rightarrow> bool \<Rightarrow> (bool \<times> imgdiff_stats option) res" where
  "CanUseImgdiff disable_imgdiff stats name tgt src large_apk =
     (if disable_imgdiff \<or> \<not> FileTypeSupportedByImgdiff name then Inr (False, stats)
      else if \<not> rs_monotonic tgt \<or> \<not> rs_monotonic src then
        try_bind (log_reason stats name SKIPPED_NONMONOTONIC) (\<lambda>s. Inr (False, s))
      else if has_extra ''uses_shared_blocks'' tgt \<or> has_extra ''uses_shared_blocks'' src then
        try_bind (log_reason stats name SKIPPED_SHARED_BLOCKS) (\<lambda>s. Inr (False, s))
      else if has_extra ''incomplete'' tgt \<or> has_extra ''incomplete'' src then
        try_bind (log_reason stats name SKIPPED_INCOMPLETE) (\<lambda>s. Inr (False, s))
      else
        let reason = (if large_apk then USED_IMGDIFF_LARGE_APK else USED_IMGDIFF) in
        try_bind (log_reason stats name reason) (\<lambda>s. Inr (True, s)))"

section \<open>Correctness\<close>

text \<open>The statistics: known reasons, supported files, no file twice under a reason.\<close>

definition stats_ok :: "imgdiff_stats \<Rightarrow> bool" where
  "stats_ok stats = (distinct (map fst stats) \<and> (\<forall>(k, fs)\<in>set stats. k \<in> set REASONS \<and> distinct fs \<and> fs \<noteq> [] \<and>
     (\<forall>f\<in>set fs. FileTypeSupportedByImgdiff f)))"

definition logged :: "imgdiff_stats \<Rightarrow> string \<Rightarrow> string set" where
  "logged stats reason = (case map_of stats reason of None \<Rightarrow> {} | Some fs \<Rightarrow> set fs)"

lemma dict_set_twice: "dict_set k v (dict_set k u d) = dict_set k v d"
  by (induction d) auto

lemma Log_ok:
  assumes "FileTypeSupportedByImgdiff f" "reason \<in> set REASONS" "stats_ok stats"
  shows "\<exists>stats'. Log stats f reason = Inr stats' \<and> stats_ok stats' \<and>
    (\<forall>k. logged stats' k = (if k = reason then insert f (logged stats k) else logged stats k))"
proof -
  define fs where "fs = (case map_of stats reason of None \<Rightarrow> [] | Some fs \<Rightarrow> fs)"
  have log: "Log stats f reason = Inr (dict_set reason (oset_add fs f) stats)"
  proof (cases "map_of stats reason")
    case None
    then have "reason \<notin> fst ` set stats" by (simp add: map_of_eq_None_iff)
    then show ?thesis using None assms(1,2) by (simp add: Log_def dict_get_def map_of_dict_set fs_def Let_def dict_set_twice)
  next
    case (Some gs)
    then have "reason \<in> fst ` set stats" using map_of_SomeD by force
    then show ?thesis using Some assms(1,2) by (simp add: Log_def dict_get_def fs_def Let_def)
  qed
  have d: "distinct fs" "\<forall>g\<in>set fs. FileTypeSupportedByImgdiff g"
    using assms(3) map_of_SomeD[of stats reason] unfolding stats_ok_def fs_def by (auto split: option.splits)
  have "stats_ok (dict_set reason (oset_add fs f) stats)"
    unfolding stats_ok_def
  proof
    show "distinct (map fst (dict_set reason (oset_add fs f) stats))" using assms(3) by (simp add: stats_ok_def)
    have new: "distinct (oset_add fs f)" "oset_add fs f \<noteq> []" "\<forall>g\<in>set (oset_add fs f). FileTypeSupportedByImgdiff g"
      using d assms(1) set_oset_add[of fs f] by (auto simp del: set_oset_add simp: oset_add_def split: if_splits)
    have old: "\<forall>(k, fs)\<in>set stats. k \<in> set REASONS \<and> distinct fs \<and> fs \<noteq> [] \<and> (\<forall>f\<in>set fs. FileTypeSupportedByImgdiff f)"
      using assms(3) by (simp add: stats_ok_def)
    show "\<forall>(k, fs)\<in>set (dict_set reason (oset_add fs f) stats). k \<in> set REASONS \<and> distinct fs \<and> fs \<noteq> [] \<and> (\<forall>f\<in>set fs. FileTypeSupportedByImgdiff f)"
    proof
      fix p assume "p \<in> set (dict_set reason (oset_add fs f) stats)"
      then have "p = (reason, oset_add fs f) \<or> p \<in> set stats" using set_dict_set[of reason "oset_add fs f" stats] by blast
      then show "case p of (k, fs) \<Rightarrow> k \<in> set REASONS \<and> distinct fs \<and> fs \<noteq> [] \<and> (\<forall>f\<in>set fs. FileTypeSupportedByImgdiff f)"
        using new assms(2) old by auto
    qed
  qed
  then show ?thesis using log by (auto simp: logged_def map_of_dict_set fs_def split: option.splits)
qed

text \<open>The conditions of the documentation.\<close>

definition imgdiff_applicable :: "bool \<Rightarrow> string \<Rightarrow> range_set \<Rightarrow> range_set \<Rightarrow> bool" where
  "imgdiff_applicable disabled name tgt src = (\<not> disabled \<and> FileTypeSupportedByImgdiff name \<and>
     rs_monotonic tgt \<and> rs_monotonic src \<and>
     \<not> has_extra ''uses_shared_blocks'' tgt \<and> \<not> has_extra ''uses_shared_blocks'' src \<and>
     \<not> has_extra ''incomplete'' tgt \<and> \<not> has_extra ''incomplete'' src)"

definition stats_present :: "bool \<Rightarrow> imgdiff_stats option \<Rightarrow> bool" where
  "stats_present disabled stats = (case stats of None \<Rightarrow> disabled | Some s \<Rightarrow> stats_ok s)"

lemma log_reason_ok:
  assumes "FileTypeSupportedByImgdiff f" "reason \<in> set REASONS" "stats_ok s"
  shows "\<exists>s'. log_reason (Some s) f reason = Inr (Some s') \<and> stats_ok s' \<and> (\<Union>k\<in>set REASONS. logged s' k) = insert f (\<Union>k\<in>set REASONS. logged s k)"
proof -
  obtain s' where s': "Log s f reason = Inr s'" "stats_ok s'" "\<forall>k. logged s' k = (if k = reason then insert f (logged s k) else logged s k)"
    using Log_ok[OF assms] by blast
  then show ?thesis using assms(2) by (auto simp: log_reason_def split: if_splits)
qed

lemma CanUseImgdiff_ok:
  assumes "stats_present disabled stats"
  shows "\<exists>stats'. CanUseImgdiff disabled stats name tgt src large = Inr (imgdiff_applicable disabled name tgt src, stats') \<and>
    stats_present disabled stats' \<and>
    (if disabled \<or> \<not> FileTypeSupportedByImgdiff name then stats' = stats
     else (\<Union>k\<in>set REASONS. logged (the stats') k) = insert name (\<Union>k\<in>set REASONS. logged (the stats) k))"
proof (cases "disabled \<or> \<not> FileTypeSupportedByImgdiff name")
  case True
  then show ?thesis using assms by (auto simp: CanUseImgdiff_def imgdiff_applicable_def)
next
  case False
  then obtain s where s: "stats = Some s" "stats_ok s" using assms by (auto simp: stats_present_def split: option.splits)
  have r: "SKIPPED_NONMONOTONIC \<in> set REASONS" "SKIPPED_SHARED_BLOCKS \<in> set REASONS" "SKIPPED_INCOMPLETE \<in> set REASONS"
    "USED_IMGDIFF \<in> set REASONS" "USED_IMGDIFF_LARGE_APK \<in> set REASONS" by (simp_all add: REASONS_def)
  have ok: "FileTypeSupportedByImgdiff name" using False by simp
  note log = log_reason_ok[OF ok _ s(2)]
  show ?thesis
    using log[OF r(1)] log[OF r(2)] log[OF r(3)] log[OF r(4)] log[OF r(5)] False s(1)
    by (auto simp: CanUseImgdiff_def imgdiff_applicable_def stats_present_def)
qed



end
