(* ===== verification/AddTransfers.thy ===== *)
theory AddTransfers
  imports ImgdiffStats
begin

text \<open>
  The helpers of \<open>BlockImageDiff.FindTransfers\<close> that make the transfers of one target file:
  \<open>AddTransfer\<close>, \<open>AddSplitTransfers\<close> and \<open>AddSplitTransfersWithFixedSizeChunks\<close>. The images are records
  of the attributes that the class documents for \<open>an image object\<close>; their methods are parameters.
\<close>

section \<open>State\<close>

text \<open>An image object: \<open>RangeSha1\<close>, \<open>ReadRangeSet\<close> and the bytes that \<open>WriteRangeDataToFd\<close> writes.\<close>

record disk =
  dk_blocksize :: int
  dk_total_blocks :: int
  dk_care_map :: range_set
  dk_extended :: range_set
  dk_file_map :: "(string, range_set) odict"
  dk_RangeSha1 :: "range_set \<Rightarrow> string"
  dk_ReadRangeSet :: "range_set \<Rightarrow> string list"
  dk_data :: "range_set \<Rightarrow> string res"

text \<open>\<open>(tgt_name, src_name, tgt_ranges, src_ranges)\<close>.\<close>

type_synonym large_apk = "string \<times> string \<times> range_set \<times> range_set"

text \<open>\<open>self.transfers\<close>, the local list \<open>large_apks\<close> and \<open>self.imgdiff_stats\<close>.\<close>

record finder =
  fd_by_id :: store
  fd_large :: "large_apk list"
  fd_stats :: "imgdiff_stats option"

text \<open>What the nested functions see of the object and of the enclosing call.\<close>

record find_env =
  fe_src :: disk
  fe_tgt :: disk
  fe_disabled :: bool
  fe_max_blocks :: int

section \<open>Operations\<close>

definition new_transfer ::
  "find_env \<Rightarrow> string \<Rightarrow> string option \<Rightarrow> range_set \<Rightarrow> range_set \<Rightarrow> style \<Rightarrow> store \<Rightarrow> store" where
  "new_transfer fe tn sn tr sr sty by_id =
     Transfer_init tn sn tr sr (dk_RangeSha1 (fe_tgt fe) tr) (dk_RangeSha1 (fe_src fe) sr) sty by_id"

text \<open>\<open>"%s-%d" % (name, pieces)\<close>.\<close>

definition numbered :: "string \<Rightarrow> nat \<Rightarrow> string" where
  "numbered name k = name @ ''-'' @ str_nat k"

text \<open>The loop of \<open>AddSplitTransfersWithFixedSizeChunks\<close>. A round takes \<open>max_blocks_per_transfer\<close> blocks;
  when this is positive, as many rounds as there are blocks are enough, and when it is 0 the loop of the
  code does not end.\<close>

fun chunk_loop ::
  "nat \<Rightarrow> find_env \<Rightarrow> string \<Rightarrow> string \<Rightarrow> style \<Rightarrow> nat \<Rightarrow> range_set \<Rightarrow> range_set \<Rightarrow> store \<Rightarrow>
   (nat \<times> range_set \<times> range_set \<times> store) res" where
  "chunk_loop n fe tn sn sty pieces tr sr by_id =
     (if fe_max_blocks fe < rs_size tr \<and> fe_max_blocks fe < rs_size sr then
        (case n of
           0 \<Rightarrow> Inl Diverges
         | Suc m \<Rightarrow>
             (let tgt_first = rs_first tr (fe_max_blocks fe); src_first = rs_first sr (fe_max_blocks fe) in
              chunk_loop m fe tn sn sty (Suc pieces) (rs_subtract tr tgt_first) (rs_subtract sr src_first)
                (new_transfer fe (numbered tn pieces) (Some (numbered sn pieces)) tgt_first src_first sty by_id)))
      else Inr (pieces, tr, sr, by_id))"

declare chunk_loop.simps [simp del]

definition AddSplitTransfersWithFixedSizeChunks ::
  "find_env \<Rightarrow> string \<Rightarrow> string \<Rightarrow> range_set \<Rightarrow> range_set \<Rightarrow> style \<Rightarrow> store \<Rightarrow> store res" where
  "AddSplitTransfersWithFixedSizeChunks fe tn sn tr sr sty by_id =
     try_bind (chunk_loop (nat (rs_size tr)) fe tn sn sty 0 tr sr by_id) (\<lambda>(pieces, tr', sr', by_id').
       if rs_size tr' \<noteq> 0 \<or> rs_size sr' \<noteq> 0 then
         try_bind (py_assert (rs_size tr' \<noteq> 0 \<and> rs_size sr' \<noteq> 0)) (\<lambda>_.
           Inr (new_transfer fe (numbered tn pieces) (Some (numbered sn pieces)) tr' sr' sty by_id'))
       else Inr by_id')"

definition AddSplitTransfers ::
  "find_env \<Rightarrow> string \<Rightarrow> string \<Rightarrow> range_set \<Rightarrow> range_set \<Rightarrow> style \<Rightarrow> finder \<Rightarrow> finder res" where
  "AddSplitTransfers fe tn sn tr sr sty st =
     try_bind (py_assert (sty = Diff)) (\<lambda>_.
       if rs_size tr \<le> fe_max_blocks fe \<and> rs_size sr \<le> fe_max_blocks fe then
         Inr (st\<lparr>fd_by_id := new_transfer fe tn (Some sn) tr sr sty (fd_by_id st)\<rparr>)
       else
         try_bind (if FileTypeSupportedByImgdiff tn \<and> dk_RangeSha1 (fe_tgt fe) tr \<noteq> dk_RangeSha1 (fe_src fe) sr
                   then CanUseImgdiff (fe_disabled fe) (fd_stats st) tn tr sr True
                   else Inr (False, fd_stats st)) (\<lambda>(large, stats).
           if large then Inr (st\<lparr>fd_large := fd_large st @ [(tn, sn, tr, sr)], fd_stats := stats\<rparr>)
           else
             try_bind (AddSplitTransfersWithFixedSizeChunks fe tn sn tr sr sty (fd_by_id st)) (\<lambda>by_id.
               Inr (st\<lparr>fd_by_id := by_id, fd_stats := stats\<rparr>))))"

text \<open>The block-wise comparison of \<open>.odex\<close> files: \<open>(tgt_skipped, src_skipped, tgt_changed)\<close>.
  \<open>tgt_size * 0.5\<close> is exact, so both sides are doubled here.\<close>

fun crop_loop :: "find_env \<Rightarrow> int \<Rightarrow> (int \<times> int) list \<Rightarrow> range_set \<times> range_set \<times> int \<Rightarrow> (range_set \<times> range_set \<times> int) res" where
  "crop_loop fe tgt_size [] st = Inr st"
| "crop_loop fe tgt_size ((src_block, tgt_block) # bs) (tgt_skipped, src_skipped, tgt_changed) =
     try_bind (rs_parse (str_int src_block)) (\<lambda>src_rs.
       try_bind (rs_parse (str_int tgt_block)) (\<lambda>tgt_rs.
         let st = (if dk_ReadRangeSet (fe_src fe) src_rs = dk_ReadRangeSet (fe_tgt fe) tgt_rs
                   then (rs_union tgt_skipped tgt_rs, rs_union src_skipped src_rs, tgt_changed)
                   else (tgt_skipped, src_skipped, tgt_changed + rs_size tgt_rs))
         in if tgt_size < 2 * snd (snd st) then Inr st else crop_loop fe tgt_size bs st))"

text \<open>\<open>tgt_name.split(".")[-1].lower() == 'odex'\<close>.\<close>

definition is_odex :: "string \<Rightarrow> bool" where
  "is_odex name = (lower (last (split_on CHR ''.'' name)) = ''odex'')"

text \<open>\<open>"%s" % name\<close>; the callers give a \<open>diff\<close> transfer a source name, so \<open>None\<close> does not occur here.\<close>

definition opt_name :: "string option \<Rightarrow> string" where
  "opt_name n = (case n of None \<Rightarrow> ''None'' | Some s \<Rightarrow> s)"

definition AddTransfer ::
  "find_env \<Rightarrow> string \<Rightarrow> string option \<Rightarrow> range_set \<Rightarrow> range_set \<Rightarrow> style \<Rightarrow> bool \<Rightarrow> finder \<Rightarrow> finder res" where
  "AddTransfer fe tn sn tr sr sty split st =
     (if sty \<noteq> Diff \<or> \<not> split then Inr (st\<lparr>fd_by_id := new_transfer fe tn sn tr sr sty (fd_by_id st)\<rparr>)
      else if is_odex tn \<and> rs_size tr = rs_size sr then
        (let tgt_size = rs_size tr in
         try_bind (crop_loop fe tgt_size (zip (rs_next_item sr) (rs_next_item tr)) (rs_empty, rs_empty, 0))
           (\<lambda>(tgt_skipped, src_skipped, tgt_changed).
             if 2 * tgt_changed < tgt_size then
               try_bind (py_assert (tgt_changed + rs_size tgt_skipped = tgt_size)) (\<lambda>_.
                 try_bind (AddSplitTransfers fe (tn @ ''-skipped'') (opt_name sn @ ''-skipped'') tgt_skipped src_skipped sty st) (\<lambda>st'.
                   let tr' = rs_subtract tr tgt_skipped; sr' = rs_subtract sr src_skipped in
                   if \<not> rs_bool tr' then Inr st'
                   else AddSplitTransfers fe (tn @ ''-cropped'') (opt_name sn @ ''-cropped'') tr' sr' sty st'))
             else AddSplitTransfers fe tn (opt_name sn) tr sr sty st))
      else AddSplitTransfers fe tn (opt_name sn) tr sr sty st)"

section \<open>Tilings\<close>

text \<open>A sequence of sets that is a partition of \<open>A\<close>.\<close>

definition tiles :: "'a set \<Rightarrow> 'a set list \<Rightarrow> bool" where
  "tiles A Bs = (disjoint_seq {} Bs \<and> \<Union> (set Bs) = A)"

lemma tiles_Nil [simp]: "tiles A [] \<longleftrightarrow> A = {}"
  by (auto simp: tiles_def)

lemma tiles_single [simp]: "tiles A [B] \<longleftrightarrow> B = A"
  by (auto simp: tiles_def)

lemma tiles_append: "tiles A Bs \<Longrightarrow> tiles C Cs \<Longrightarrow> A \<inter> C = {} \<Longrightarrow> tiles (A \<union> C) (Bs @ Cs)"
  using disjoint_seq_Un[of "\<Union> (set Bs)" Cs] by (auto simp: tiles_def disjoint_seq_append)

lemma disjoint_seq_count: "disjoint_seq {} Bs \<longleftrightarrow> (\<forall>x. length (filter (\<lambda>B. x \<in> B) Bs) \<le> 1)"
proof (induction Bs)
  case (Cons B Bs)
  let ?n = "\<lambda>x. length (filter (\<lambda>B. x \<in> B) Bs)"
  have "B \<inter> \<Union> (set Bs) = {} \<longleftrightarrow> (\<forall>x\<in>B. ?n x = 0)" by (auto simp: filter_empty_conv)
  then have "disjoint_seq {} (B # Bs) \<longleftrightarrow> (\<forall>x\<in>B. ?n x = 0) \<and> (\<forall>x. ?n x \<le> 1)"
    using disjoint_seq_Un[of B Bs] Cons by simp
  also have "\<dots> \<longleftrightarrow> (\<forall>x. (if x \<in> B then Suc (?n x) else ?n x) \<le> 1)" by (auto split: if_splits)
  finally show ?case by simp
qed simp

lemma tiles_mset:
  assumes "mset Bs = mset Cs"
  shows "tiles A Bs = tiles A Cs"
proof -
  have "length (filter (\<lambda>B. x \<in> B) Bs) = length (filter (\<lambda>B. x \<in> B) Cs)" for x
    using assms by (metis mset_filter size_mset)
  then show ?thesis using mset_eq_setD[OF assms] by (simp only: tiles_def disjoint_seq_count)
qed

text \<open>Refining every member of a tiling.\<close>

lemma tiles_concat:
  assumes "tiles A (map f xs)" "\<And>x. x \<in> set xs \<Longrightarrow> tiles (f x) (g x)"
  shows "tiles A (concat (map g xs))"
  using assms
proof (induction xs arbitrary: A)
  case (Cons x xs)
  have d: "f x \<inter> \<Union> (set (map f xs)) = {}" "disjoint_seq {} (map f xs)" "A = f x \<union> \<Union> (set (map f xs))"
    using Cons.prems(1) disjoint_seq_Un[of "f x" "map f xs"] by (auto simp: tiles_def)
  have "tiles (\<Union> (set (map f xs))) (concat (map g xs))" using Cons.IH[of "\<Union> (set (map f xs))"] Cons.prems(2) d(2) by (simp add: tiles_def)
  with Cons.prems(2)[of x] have "tiles (f x \<union> \<Union> (set (map f xs))) (g x @ concat (map g xs))"
    using d(1) by (intro tiles_append) auto
  then show ?case using d(3) by simp
qed simp

lemma nonneg_rsI:
  assumes "wf_rs r" "blocks r \<subseteq> {0..}"
  shows "nonneg_rs r"
proof -
  have "\<forall>p\<in>set ds. 0 \<le> p" if "wf_data ds" "\<forall>x. par ds x \<longrightarrow> 0 \<le> x" for ds
    using that
  proof (induction ds rule: pairs.induct)
    case (2 s e r)
    have w: "s < e" "wf_data r" using "2.prems"(1) by (auto simp: wf_data_Cons2)
    have "par (s # e # r) s" using par_Cons2[OF "2.prems"(1), of s] w(1) by simp
    then have "0 \<le> s" using "2.prems"(2) by blast
    moreover have "\<forall>x. par r x \<longrightarrow> 0 \<le> x" using par_Cons2[OF "2.prems"(1)] "2.prems"(2) by blast
    ultimately show ?case using "2.IH" w by simp
  qed auto
  then show ?thesis using assms by (auto simp: nonneg_rs_def wf_rs_def blocks_def)
qed

lemma nonneg_sub: "nonneg_rs r \<Longrightarrow> wf_rs r' \<Longrightarrow> blocks r' \<subseteq> blocks r \<Longrightarrow> nonneg_rs r'"
  using nonneg_blocks[of r] by (intro nonneg_rsI) auto

lemma nonneg_subtract: "nonneg_rs a \<Longrightarrow> wf_rs b \<Longrightarrow> nonneg_rs (rs_subtract a b)"
  by (rule nonneg_sub[of a]) (auto simp: nonneg_rs_def)

lemma nonneg_first: "nonneg_rs a \<Longrightarrow> 0 \<le> n \<Longrightarrow> nonneg_rs (rs_first a n)"
  using nonneg_sub[OF _ rs_first_spec(1,2)] nonneg_rsD by blast

lemma bool_size: "wf_rs r \<Longrightarrow> rs_bool r \<longleftrightarrow> 0 < rs_size r"
  by (simp add: rs_bool_blocks rs_size_card card_gt_0_iff)

lemma size_subtract:
  assumes "wf_rs a" "wf_rs b" "blocks b \<subseteq> blocks a"
  shows "rs_size (rs_subtract a b) = rs_size a - rs_size b"
  using assms card_mono[of "blocks a" "blocks b"] by (simp add: rs_size_card card_Diff_subset of_nat_diff)

section \<open>What the helpers add\<close>

text \<open>A transfer made by \<open>FindTransfers\<close>. \<open>SF\<close> are the block sets of the source files.\<close>

definition piece :: "find_env \<Rightarrow> int set set \<Rightarrow> transfer \<Rightarrow> bool" where
  "piece fe SF x = (nonneg_rs (tgt_ranges x) \<and> nonneg_rs (src_ranges x) \<and> rs_bool (tgt_ranges x) \<and>
     tgt_sha1 x = dk_RangeSha1 (fe_tgt fe) (tgt_ranges x) \<and> src_sha1 x = dk_RangeSha1 (fe_src fe) (src_ranges x) \<and>
     (case xf_style x of
        Diff \<Rightarrow> rs_bool (src_ranges x) \<and> (\<exists>F\<in>SF. src_blocks x \<subseteq> F)
      | New \<Rightarrow> src_ranges x = rs_empty
      | Zero \<Rightarrow> src_ranges x = rs_empty \<or> (\<exists>F\<in>SF. src_blocks x \<subseteq> F)
      | _ \<Rightarrow> False))"

fun apk_blocks :: "large_apk \<Rightarrow> int set" where
  "apk_blocks (tn, sn, tr, sr) = blocks tr"

fun apk_ok :: "int set set \<Rightarrow> large_apk \<Rightarrow> bool" where
  "apk_ok SF (tn, sn, tr, sr) = (nonneg_rs tr \<and> nonneg_rs sr \<and> rs_bool tr \<and> rs_bool sr \<and>
     (\<exists>F\<in>SF. blocks sr \<subseteq> F) \<and> FileTypeSupportedByImgdiff tn)"

text \<open>Going from \<open>st\<close> to \<open>st'\<close> adds transfers and large apks that tile \<open>A\<close>; the names of the apks are
  among \<open>ns\<close>.\<close>

definition adds :: "find_env \<Rightarrow> int set set \<Rightarrow> string list \<Rightarrow> int set \<Rightarrow> finder \<Rightarrow> finder \<Rightarrow> bool" where
  "adds fe SF ns A st st' = (stats_present (fe_disabled fe) (fd_stats st') \<and> (\<exists>new apks.
     fd_by_id st' = fd_by_id st @ new \<and> fd_large st' = fd_large st @ apks \<and>
     (\<forall>x\<in>set new. piece fe SF x) \<and> (\<forall>a\<in>set apks. apk_ok SF a) \<and> subseq (map fst apks) ns \<and>
     tiles A (map tgt_blocks new @ map apk_blocks apks)))"

lemma adds_refl: "stats_present (fe_disabled fe) (fd_stats st) \<Longrightarrow> adds fe SF [] {} st st"
  by (auto simp: adds_def)

lemma adds_trans:
  assumes "adds fe SF ns A st st1" "adds fe SF ns' B st1 st2" "A \<inter> B = {}"
  shows "adds fe SF (ns @ ns') (A \<union> B) st st2"
proof -
  obtain n1 a1 where 1: "fd_by_id st1 = fd_by_id st @ n1" "fd_large st1 = fd_large st @ a1" "\<forall>x\<in>set n1. piece fe SF x"
    "\<forall>a\<in>set a1. apk_ok SF a" "subseq (map fst a1) ns" "tiles A (map tgt_blocks n1 @ map apk_blocks a1)"
    using assms(1) unfolding adds_def by blast
  obtain n2 a2 where 2: "fd_by_id st2 = fd_by_id st1 @ n2" "fd_large st2 = fd_large st1 @ a2" "\<forall>x\<in>set n2. piece fe SF x"
    "\<forall>a\<in>set a2. apk_ok SF a" "subseq (map fst a2) ns'" "tiles B (map tgt_blocks n2 @ map apk_blocks a2)"
    using assms(2) unfolding adds_def by blast
  have "tiles (A \<union> B) ((map tgt_blocks n1 @ map apk_blocks a1) @ (map tgt_blocks n2 @ map apk_blocks a2))"
    by (rule tiles_append[OF 1(6) 2(6) assms(3)])
  then have "tiles (A \<union> B) (map tgt_blocks (n1 @ n2) @ map apk_blocks (a1 @ a2))"
    by (subst tiles_mset[where Cs = "(map tgt_blocks n1 @ map apk_blocks a1) @ (map tgt_blocks n2 @ map apk_blocks a2)"]) auto
  moreover have "subseq (map fst (a1 @ a2)) (ns @ ns')" using 1(5) 2(5) by (simp add: list_emb_append_mono)
  moreover have "stats_present (fe_disabled fe) (fd_stats st2)" using assms(2) by (simp add: adds_def)
  ultimately show ?thesis unfolding adds_def using 1(1-4) 2(1-4) by (intro conjI exI[of _ "n1 @ n2"] exI[of _ "a1 @ a2"]) auto
qed

lemma adds_mono: "adds fe SF ns A st st' \<Longrightarrow> subseq ns ns' \<Longrightarrow> adds fe SF ns' A st st'"
  unfolding adds_def by (blast intro: subseq_order.order_trans)

lemma adds_new:
  assumes "\<forall>x\<in>set new. piece fe SF x" "tiles A (map tgt_blocks new)" "stats_present (fe_disabled fe) (fd_stats st')"
    and "fd_by_id st' = fd_by_id st @ new" "fd_large st' = fd_large st"
  shows "adds fe SF ns A st st'"
  using assms unfolding adds_def by (intro conjI exI[of _ new] exI[of _ "[]"]) auto

lemma new_diff:
  assumes "nonneg_rs tr" "nonneg_rs sr" "rs_bool tr" "rs_bool sr" "F \<in> SF" "blocks sr \<subseteq> F"
  obtains x where "new_transfer fe tn sn tr sr Diff by_id = by_id @ [x]" "piece fe SF x" "tgt_ranges x = tr"
  using assms by (auto simp: new_transfer_def Transfer_init_def piece_def)

lemma chunk_loop_ok:
  assumes maxb: "1 \<le> fe_max_blocks fe" and F: "F \<in> SF"
    and rs: "nonneg_rs tr" "nonneg_rs sr" "rs_bool tr" "rs_bool sr" "blocks sr \<subseteq> F" and n: "nat (rs_size tr) \<le> n"
  shows "\<exists>k' tr' sr' new. chunk_loop n fe tn sn Diff k tr sr by_id = Inr (k', tr', sr', by_id @ new) \<and>
    nonneg_rs tr' \<and> nonneg_rs sr' \<and> rs_bool tr' \<and> rs_bool sr' \<and> blocks sr' \<subseteq> F \<and>
    (\<forall>x\<in>set new. piece fe SF x) \<and> tiles (blocks tr) (map tgt_blocks new @ [blocks tr'])"
  using rs n
proof (induction n arbitrary: k tr sr by_id)
  case 0
  then have "rs_size tr \<le> 0" by simp
  then show ?case using 0 bool_size[OF nonneg_rsD[OF 0(1)]] by simp
next
  case (Suc n)
  note wf = Suc.prems(1,2)[THEN nonneg_rsD]
  show ?case
  proof (cases "fe_max_blocks fe < rs_size tr \<and> fe_max_blocks fe < rs_size sr")
    case False
    then show ?thesis using Suc.prems by (subst chunk_loop.simps) auto
  next
    case True
    let ?m = "fe_max_blocks fe"
    let ?tf = "rs_first tr ?m" and ?sf = "rs_first sr ?m"
    have m: "0 \<le> ?m" using maxb by simp
    note tf = rs_first_spec[OF wf(1) m] and sf = rs_first_spec[OF wf(2) m]
    have sz: "rs_size ?tf = ?m" "rs_size ?sf = ?m" using tf(3) sf(3) True by auto
    have b: "rs_bool ?tf" "rs_bool ?sf" using bool_size tf(1) sf(1) sz maxb by auto
    obtain x where x: "new_transfer fe (numbered tn k) (Some (numbered sn k)) ?tf ?sf Diff by_id = by_id @ [x]" "piece fe SF x" "tgt_ranges x = ?tf"
      using new_diff[OF nonneg_first[OF Suc.prems(1) m] nonneg_first[OF Suc.prems(2) m] b F] sf(2) Suc.prems(5) by blast
    let ?tr = "rs_subtract tr ?tf" and ?sr = "rs_subtract sr ?sf"
    have rest: "nonneg_rs ?tr" "nonneg_rs ?sr" using nonneg_subtract Suc.prems(1,2) tf(1) sf(1) by auto
    have rsz: "rs_size ?tr = rs_size tr - ?m" "rs_size ?sr = rs_size sr - ?m"
      using size_subtract wf tf(1,2) sf(1,2) sz by auto
    have rb: "rs_bool ?tr" "rs_bool ?sr" using bool_size rest[THEN nonneg_rsD] rsz True by auto
    have rF: "blocks ?sr \<subseteq> F" using Suc.prems(5) wf(2) sf(1) by auto
    have "nat (rs_size ?tr) \<le> n" using Suc.prems(6) rsz(1) maxb by linarith
    from Suc.IH[OF rest rb rF this, of "Suc k" "by_id @ [x]"] obtain k' tr' sr' new where
      r: "chunk_loop n fe tn sn Diff (Suc k) ?tr ?sr (by_id @ [x]) = Inr (k', tr', sr', (by_id @ [x]) @ new)"
      "nonneg_rs tr'" "nonneg_rs sr'" "rs_bool tr'" "rs_bool sr'" "blocks sr' \<subseteq> F"
      "\<forall>x\<in>set new. piece fe SF x" "tiles (blocks ?tr) (map tgt_blocks new @ [blocks tr'])" by blast
    have "chunk_loop (Suc n) fe tn sn Diff k tr sr by_id = Inr (k', tr', sr', by_id @ (x # new))"
      using r(1) x(1) True by (subst chunk_loop.simps) (simp add: Let_def)
    moreover have "tiles (blocks ?tf \<union> blocks ?tr) ([blocks ?tf] @ (map tgt_blocks new @ [blocks tr']))"
      using r(8) wf(1) tf(1) by (intro tiles_append) auto
    then have "tiles (blocks tr) (map tgt_blocks (x # new) @ [blocks tr'])"
      using wf(1) tf(1,2) x(3) by (simp add: Un_absorb1)
    ultimately show ?thesis using r(2-7) x(2) by (intro exI[of _ k'] exI[of _ tr'] exI[of _ sr'] exI[of _ "x # new"]) simp
  qed
qed

lemma AddSplitTransfersWithFixedSizeChunks_ok:
  assumes maxb: "1 \<le> fe_max_blocks fe" and F: "F \<in> SF"
    and rs: "nonneg_rs tr" "nonneg_rs sr" "rs_bool tr" "rs_bool sr" "blocks sr \<subseteq> F"
  shows "\<exists>new. AddSplitTransfersWithFixedSizeChunks fe tn sn tr sr Diff by_id = Inr (by_id @ new) \<and>
    (\<forall>x\<in>set new. piece fe SF x) \<and> tiles (blocks tr) (map tgt_blocks new)"
proof -
  obtain k tr' sr' new where r: "chunk_loop (nat (rs_size tr)) fe tn sn Diff 0 tr sr by_id = Inr (k, tr', sr', by_id @ new)"
    "nonneg_rs tr'" "nonneg_rs sr'" "rs_bool tr'" "rs_bool sr'" "blocks sr' \<subseteq> F"
    "\<forall>x\<in>set new. piece fe SF x" "tiles (blocks tr) (map tgt_blocks new @ [blocks tr'])"
    using chunk_loop_ok[OF assms order_refl] by blast
  obtain x where x: "new_transfer fe (numbered tn k) (Some (numbered sn k)) tr' sr' Diff (by_id @ new) = (by_id @ new) @ [x]"
    "piece fe SF x" "tgt_ranges x = tr'" using new_diff[OF r(2-5) F r(6)] by blast
  have "rs_size tr' \<noteq> 0" "rs_size sr' \<noteq> 0" using bool_size r(2,3)[THEN nonneg_rsD] r(4,5) by fastforce+
  then have "AddSplitTransfersWithFixedSizeChunks fe tn sn tr sr Diff by_id = Inr (by_id @ (new @ [x]))"
    using r(1) x(1) by (simp add: AddSplitTransfersWithFixedSizeChunks_def)
  then show ?thesis using r(7,8) x(2,3) by (intro exI[of _ "new @ [x]"]) auto
qed

lemma AddSplitTransfers_ok:
  assumes maxb: "1 \<le> fe_max_blocks fe" and F: "F \<in> SF" and stats: "stats_present (fe_disabled fe) (fd_stats st)"
    and rs: "nonneg_rs tr" "nonneg_rs sr" "rs_bool tr" "rs_bool sr" "blocks sr \<subseteq> F"
  shows "\<exists>st'. AddSplitTransfers fe tn sn tr sr Diff st = Inr st' \<and>
    adds fe SF (if FileTypeSupportedByImgdiff tn then [tn] else []) (blocks tr) st st'"
proof (cases "rs_size tr \<le> fe_max_blocks fe \<and> rs_size sr \<le> fe_max_blocks fe")
  case True
  obtain x where x: "new_transfer fe tn (Some sn) tr sr Diff (fd_by_id st) = fd_by_id st @ [x]" "piece fe SF x" "tgt_ranges x = tr"
    using new_diff[OF rs(1-4) F rs(5)] by blast
  then have "AddSplitTransfers fe tn sn tr sr Diff st = Inr (st\<lparr>fd_by_id := fd_by_id st @ [x]\<rparr>)"
    using True by (simp add: AddSplitTransfers_def)
  then show ?thesis using x(2,3) stats by (auto intro: adds_new[of "[x]"])
next
  case False
  let ?q = "FileTypeSupportedByImgdiff tn \<and> dk_RangeSha1 (fe_tgt fe) tr \<noteq> dk_RangeSha1 (fe_src fe) sr"
  obtain large stats' where l: "(if ?q then CanUseImgdiff (fe_disabled fe) (fd_stats st) tn tr sr True else Inr (False, fd_stats st)) = Inr (large, stats')"
    "stats_present (fe_disabled fe) stats'" "large \<longrightarrow> FileTypeSupportedByImgdiff tn"
    using CanUseImgdiff_ok[OF stats, of tn tr sr True] stats by (cases ?q) auto
  show ?thesis
  proof (cases large)
    case True
    then have "AddSplitTransfers fe tn sn tr sr Diff st = Inr (st\<lparr>fd_large := fd_large st @ [(tn, sn, tr, sr)], fd_stats := stats'\<rparr>)"
      using l(1) unfolding AddSplitTransfers_def if_not_P[OF False] by simp
    then show ?thesis using l(2,3) True rs F unfolding adds_def by auto
  next
    case no: False
    obtain new where new: "AddSplitTransfersWithFixedSizeChunks fe tn sn tr sr Diff (fd_by_id st) = Inr (fd_by_id st @ new)"
      "\<forall>x\<in>set new. piece fe SF x" "tiles (blocks tr) (map tgt_blocks new)"
      using AddSplitTransfersWithFixedSizeChunks_ok[OF maxb F rs] by blast
    have "AddSplitTransfers fe tn sn tr sr Diff st = Inr (st\<lparr>fd_by_id := fd_by_id st @ new, fd_stats := stats'\<rparr>)"
      using no l(1) new(1) unfolding AddSplitTransfers_def if_not_P[OF False] by simp
    moreover have "adds fe SF (if FileTypeSupportedByImgdiff tn then [tn] else []) (blocks tr) st
        (st\<lparr>fd_by_id := fd_by_id st @ new, fd_stats := stats'\<rparr>)"
      using l(2) by (intro adds_new[OF new(2,3)]) simp_all
    ultimately show ?thesis by blast
  qed
qed

section \<open>Files in \<open>odex\<close> format\<close>

lemma parse_block: "0 \<le> b \<Longrightarrow> rs_parse (str_int b) = Inr (RangeSet [b, b + 1] True [])"
  using rs_parse_to_string[of "RangeSet [b, b + 1] True []"]
  by (simp add: wf_rs_def wf_data_def rs_to_string_def rs_iter_def range_word_def)

lemma block_rs: "wf_rs (RangeSet [b, b + 1] True [])" "blocks (RangeSet [b, b + 1] True []) = {b}" "rs_size (RangeSet [b, b + 1] True []) = 1"
  by (auto simp: wf_rs_def wf_data_def blocks_def rs_size_def)

lemma crop_loop_ok:
  assumes "distinct (map fst bs)" "distinct (map snd bs)" "\<forall>(s, t)\<in>set bs. 0 \<le> s \<and> 0 \<le> t"
    and "wf_rs tsk" "wf_rs ssk" "blocks tsk \<inter> snd ` set bs = {}" "blocks ssk \<inter> fst ` set bs = {}"
  shows "\<exists>tsk' ssk' ch'. crop_loop fe n bs (tsk, ssk, ch) = Inr (tsk', ssk', ch') \<and> wf_rs tsk' \<and> wf_rs ssk' \<and>
    blocks tsk' \<subseteq> blocks tsk \<union> snd ` set bs \<and> blocks ssk' \<subseteq> blocks ssk \<union> fst ` set bs \<and>
    rs_size tsk' - rs_size tsk = rs_size ssk' - rs_size ssk \<and>
    (2 * ch' \<le> n \<longrightarrow> ch' + rs_size tsk' = ch + rs_size tsk + int (length bs))"
  using assms
proof (induction bs arbitrary: tsk ssk ch)
  case Nil
  then show ?case by simp
next
  case (Cons b bs)
  obtain s t where b: "b = (s, t)" by (cases b)
  have st: "0 \<le> s" "0 \<le> t" "s \<notin> blocks ssk" "t \<notin> blocks tsk" "s \<notin> fst ` set bs" "t \<notin> snd ` set bs" using Cons.prems b by auto
  let ?s = "RangeSet [s, s + 1] True []" and ?t = "RangeSet [t, t + 1] True []"
  let ?same = "dk_ReadRangeSet (fe_src fe) ?s = dk_ReadRangeSet (fe_tgt fe) ?t"
  define tsk1 where "tsk1 = (if ?same then rs_union tsk ?t else tsk)"
  define ssk1 where "ssk1 = (if ?same then rs_union ssk ?s else ssk)"
  define ch1 where "ch1 = (if ?same then ch else ch + 1)"
  have wf: "wf_rs tsk1" "wf_rs ssk1" using Cons.prems block_rs by (auto simp: tsk1_def ssk1_def)
  have bl: "blocks tsk1 = (if ?same then insert t (blocks tsk) else blocks tsk)" "blocks ssk1 = (if ?same then insert s (blocks ssk) else blocks ssk)"
    using Cons.prems(4,5) block_rs by (auto simp: tsk1_def ssk1_def)
  have sz: "rs_size tsk1 = rs_size tsk + (if ?same then 1 else 0)" "rs_size ssk1 = rs_size ssk + (if ?same then 1 else 0)"
    using wf Cons.prems(4,5) bl st(3,4) by (auto simp: rs_size_card)
  have step: "crop_loop fe n (b # bs) (tsk, ssk, ch) = (if n < 2 * ch1 then Inr (tsk1, ssk1, ch1) else crop_loop fe n bs (tsk1, ssk1, ch1))"
    using parse_block[OF st(1)] parse_block[OF st(2)] b block_rs(3) by (simp add: Let_def tsk1_def ssk1_def ch1_def)
  show ?case
  proof (cases "n < 2 * ch1")
    case True
    then show ?thesis using step wf bl sz b by (auto split: if_splits)
  next
    case False
    have "\<exists>tsk' ssk' ch'. crop_loop fe n bs (tsk1, ssk1, ch1) = Inr (tsk', ssk', ch') \<and> wf_rs tsk' \<and> wf_rs ssk' \<and>
      blocks tsk' \<subseteq> blocks tsk1 \<union> snd ` set bs \<and> blocks ssk' \<subseteq> blocks ssk1 \<union> fst ` set bs \<and>
      rs_size tsk' - rs_size tsk1 = rs_size ssk' - rs_size ssk1 \<and>
      (2 * ch' \<le> n \<longrightarrow> ch' + rs_size tsk' = ch1 + rs_size tsk1 + int (length bs))"
      by (rule Cons.IH) (use Cons.prems st wf bl in \<open>auto split: if_splits\<close>)
    then obtain tsk' ssk' ch' where r: "crop_loop fe n bs (tsk1, ssk1, ch1) = Inr (tsk', ssk', ch')" "wf_rs tsk'" "wf_rs ssk'"
      "blocks tsk' \<subseteq> blocks tsk1 \<union> snd ` set bs" "blocks ssk' \<subseteq> blocks ssk1 \<union> fst ` set bs"
      "rs_size tsk' - rs_size tsk1 = rs_size ssk' - rs_size ssk1"
      "2 * ch' \<le> n \<longrightarrow> ch' + rs_size tsk' = ch1 + rs_size tsk1 + int (length bs)" by blast
    show ?thesis
    proof (rule exI[of _ tsk'], rule exI[of _ ssk'], rule exI[of _ ch'], intro conjI)
      show "crop_loop fe n (b # bs) (tsk, ssk, ch) = Inr (tsk', ssk', ch')" using step False r(1) by simp
      show "blocks tsk' \<subseteq> blocks tsk \<union> snd ` set (b # bs)" using r(4) bl b by (auto split: if_splits)
      show "blocks ssk' \<subseteq> blocks ssk \<union> fst ` set (b # bs)" using r(5) bl b by (auto split: if_splits)
      show "2 * ch' \<le> n \<longrightarrow> ch' + rs_size tsk' = ch + rs_size tsk + int (length (b # bs))" using r(7) sz by (auto simp: ch1_def)
    qed (use r sz in auto)
  qed
qed

lemma cropped_names: "\<not> FileTypeSupportedByImgdiff (name @ ''-skipped'')" "\<not> FileTypeSupportedByImgdiff (name @ ''-cropped'')"
  by (simp_all add: FileTypeSupportedByImgdiff_def lower_def ends_with_def lower_char_def suffix_def)

lemma crop_file_ok:
  assumes rs: "nonneg_rs tr" "nonneg_rs sr" and eq: "rs_size tr = rs_size sr"
  shows "\<exists>tsk ssk ch. crop_loop fe (rs_size tr) (zip (rs_next_item sr) (rs_next_item tr)) (rs_empty, rs_empty, 0) = Inr (tsk, ssk, ch) \<and>
    wf_rs tsk \<and> wf_rs ssk \<and> blocks tsk \<subseteq> blocks tr \<and> blocks ssk \<subseteq> blocks sr \<and> rs_size tsk = rs_size ssk \<and>
    (2 * ch \<le> rs_size tr \<longrightarrow> ch + rs_size tsk = rs_size tr)"
proof -
  note wf = rs[THEN nonneg_rsD]
  let ?ss = "rs_next_item sr" and ?ts = "rs_next_item tr"
  have items: "distinct ?ss" "distinct ?ts" "set ?ss = blocks sr" "set ?ts = blocks tr" using wf by (simp_all add: rs_next_item_eq)
  have len: "int (length ?ts) = rs_size tr" "length ?ss = length ?ts"
    using wf eq by (simp_all add: rs_next_item_eq rs_size_card)
  have fs: "map fst (zip ?ss ?ts) = ?ss" "map snd (zip ?ss ?ts) = ?ts" using len(2) by simp_all
  have sets: "fst ` set (zip ?ss ?ts) = blocks sr" "snd ` set (zip ?ss ?ts) = blocks tr"
    using arg_cong[OF fs(1), of set] arg_cong[OF fs(2), of set] items by simp_all
  have "\<exists>tsk' ssk' ch'. crop_loop fe (rs_size tr) (zip ?ss ?ts) (rs_empty, rs_empty, 0) = Inr (tsk', ssk', ch') \<and> wf_rs tsk' \<and> wf_rs ssk' \<and>
    blocks tsk' \<subseteq> blocks rs_empty \<union> snd ` set (zip ?ss ?ts) \<and> blocks ssk' \<subseteq> blocks rs_empty \<union> fst ` set (zip ?ss ?ts) \<and>
    rs_size tsk' - rs_size rs_empty = rs_size ssk' - rs_size rs_empty \<and>
    (2 * ch' \<le> rs_size tr \<longrightarrow> ch' + rs_size tsk' = 0 + rs_size rs_empty + int (length (zip ?ss ?ts)))"
  proof (rule crop_loop_ok)
    show "\<forall>(s, t)\<in>set (zip ?ss ?ts). 0 \<le> s \<and> 0 \<le> t"
      using nonneg_blocks[OF rs(1)] nonneg_blocks[OF rs(2)] items by (auto dest: set_zip_leftD set_zip_rightD)
  qed (use fs items in simp_all)
  moreover have "rs_size rs_empty = 0" by (simp add: rs_size_card)
  ultimately show ?thesis unfolding sets using len by auto
qed

lemma AddTransfer_diff_ok:
  assumes maxb: "1 \<le> fe_max_blocks fe" and F: "F \<in> SF" and stats: "stats_present (fe_disabled fe) (fd_stats st)"
    and rs: "nonneg_rs tr" "nonneg_rs sr" "rs_bool tr" "rs_bool sr" "blocks sr \<subseteq> F"
  shows "\<exists>st'. AddTransfer fe tn (Some sn) tr sr Diff True st = Inr st' \<and> adds fe SF [tn] (blocks tr) st st'"
proof -
  have plain: "\<exists>st'. AddSplitTransfers fe tn (opt_name (Some sn)) tr sr Diff st = Inr st' \<and> adds fe SF [tn] (blocks tr) st st'"
  proof -
    obtain st' where "AddSplitTransfers fe tn (opt_name (Some sn)) tr sr Diff st = Inr st'"
      "adds fe SF (if FileTypeSupportedByImgdiff tn then [tn] else []) (blocks tr) st st'"
      using AddSplitTransfers_ok[OF maxb F stats rs] by blast
    then show ?thesis using adds_mono[where ns' = "[tn]"] by fastforce
  qed
  show ?thesis
  proof (cases "is_odex tn \<and> rs_size tr = rs_size sr")
    case False
    then show ?thesis using plain unfolding AddTransfer_def if_not_P[OF False] by simp
  next
    case odex: True
    note wf = rs(1,2)[THEN nonneg_rsD]
    obtain tsk ssk ch where c: "crop_loop fe (rs_size tr) (zip (rs_next_item sr) (rs_next_item tr)) (rs_empty, rs_empty, 0) = Inr (tsk, ssk, ch)"
      "wf_rs tsk" "wf_rs ssk" "blocks tsk \<subseteq> blocks tr" "blocks ssk \<subseteq> blocks sr" "rs_size tsk = rs_size ssk"
      "2 * ch \<le> rs_size tr \<longrightarrow> ch + rs_size tsk = rs_size tr" using crop_file_ok[OF rs(1,2)] odex by blast
    show ?thesis
    proof (cases "2 * ch < rs_size tr")
      case False
      then show ?thesis using plain odex c(1) by (simp add: AddTransfer_def Let_def)
    next
      case True
      let ?tr = "rs_subtract tr tsk" and ?sr = "rs_subtract sr ssk"
      have sum: "ch + rs_size tsk = rs_size tr" using c(7) True by simp
      have "0 < rs_size tsk" using sum True wf(1) by (simp add: rs_size_card)
      then have b: "rs_bool tsk" "rs_bool ssk" using bool_size c(2,3,6) by auto
      have nn: "nonneg_rs tsk" "nonneg_rs ssk" using nonneg_sub rs(1,2) c(2-5) by auto
      have sF: "blocks ssk \<subseteq> F" using c(5) rs(5) by blast
      obtain st1 where st1: "AddSplitTransfers fe (tn @ ''-skipped'') (sn @ ''-skipped'') tsk ssk Diff st = Inr st1"
        "adds fe SF [] (blocks tsk) st st1"
        using AddSplitTransfers_ok[OF maxb F stats nn b sF, of "tn @ ''-skipped''"] cropped_names(1) by auto
      have szs: "rs_size ?tr = rs_size ?sr" using size_subtract wf c(2-6) odex by simp
      have run: "AddTransfer fe tn (Some sn) tr sr Diff True st = (if \<not> rs_bool ?tr then Inr st1
          else AddSplitTransfers fe (tn @ ''-cropped'') (sn @ ''-cropped'') ?tr ?sr Diff st1)"
        using odex c(1) True sum st1(1) by (simp add: AddTransfer_def Let_def opt_name_def)
      show ?thesis
      proof (cases "rs_bool ?tr")
        case False
        then have "blocks tsk = blocks tr" using rs_bool_blocks[of ?tr] wf(1) c(2,4) by auto
        then show ?thesis using run False st1(2) adds_mono[of fe SF "[]" "blocks tr" st st1 "[tn]"] by simp
      next
        case True
        have nn2: "nonneg_rs ?tr" "nonneg_rs ?sr" using nonneg_subtract rs(1,2) c(2,3) by auto
        have b2: "rs_bool ?sr" using True bool_size nn2[THEN nonneg_rsD] szs by simp
        have sF2: "blocks ?sr \<subseteq> F" using wf(2) c(3) rs(5) by auto
        have "stats_present (fe_disabled fe) (fd_stats st1)" using st1(2) by (simp add: adds_def)
        from AddSplitTransfers_ok[OF maxb F this nn2 True b2 sF2, of "tn @ ''-cropped''" "sn @ ''-cropped''"] cropped_names(2)
        obtain st2 where st2: "AddSplitTransfers fe (tn @ ''-cropped'') (sn @ ''-cropped'') ?tr ?sr Diff st1 = Inr st2"
          "adds fe SF [] (blocks ?tr) st1 st2" by auto
        have "adds fe SF ([] @ []) (blocks tsk \<union> blocks ?tr) st st2" by (rule adds_trans[OF st1(2) st2(2)]) (use wf c(2) in auto)
        moreover have "blocks tsk \<union> blocks ?tr = blocks tr" using wf(1) c(2,4) by auto
        ultimately show ?thesis using run True st2(1) adds_mono[of fe SF "[]" "blocks tr" st st2 "[tn]"] by simp
      qed
    qed
  qed
qed

end
