(* ===== verification/DiffGraph.thy ===== *)
theory DiffGraph
  imports Transfers
begin

text \<open>
  \<open>BlockImageDiff.GenerateDigraph\<close>: which transfer has to run before which. A transfer \<open>b\<close> that
  reads a block another transfer \<open>a\<close> writes has to go first, so the edge \<open>b \<rightarrow> a\<close> is recorded in
  \<open>b.goes_before\<close> and in \<open>a.goes_after\<close> with the number of blocks concerned.
\<close>

section \<open>The index of source blocks\<close>

text \<open>\<open>source_ranges[i]\<close>: \<open>None\<close>, or the ordered set of the transfers that read block \<open>i\<close>.\<close>

type_synonym source_index = "nat list option list"

definition index_block :: "nat \<Rightarrow> source_index \<Rightarrow> int \<Rightarrow> source_index res" where
  "index_block b sr i = try_bind (py_get sr i) (\<lambda>c.
     py_set sr i (Some (case c of None \<Rightarrow> [b] | Some l \<Rightarrow> oset_add l b)))"

definition index_range :: "nat \<Rightarrow> source_index \<Rightarrow> int \<times> int \<Rightarrow> source_index res" where
  "index_range b sr = (\<lambda>(s, e).
     let sr1 = (if e > int (length sr) then sr @ replicate (nat (e - int (length sr))) None else sr)
     in for_each (index_block b) sr1 (py_range s e))"

definition index_sources :: "store \<Rightarrow> nat list \<Rightarrow> source_index res" where
  "index_sources h ts =
     for_each (\<lambda>sr b. for_each (index_range b) sr (rs_iter (src_ranges (h ! b)))) [] ts"

section \<open>The edges\<close>

text \<open>The scan of one target range; leaving the index ends it (\<open>break\<close>).\<close>

fun collect_range :: "source_index \<Rightarrow> nat list \<Rightarrow> int list \<Rightarrow> nat list res" where
  "collect_range sr acc [] = Inr acc"
| "collect_range sr acc (i # is) =
     (if i \<ge> int (length sr) then Inr acc
      else try_bind (py_get sr i) (\<lambda>c.
        collect_range sr (case c of None \<Rightarrow> acc | Some l \<Rightarrow> foldl oset_add acc l) is))"

definition intersections :: "source_index \<Rightarrow> range_set \<Rightarrow> nat list res" where
  "intersections sr tgt = for_each (\<lambda>acc (s, e). collect_range sr acc (py_range s e)) [] (rs_iter tgt)"

definition add_edge :: "nat \<Rightarrow> store \<Rightarrow> nat \<Rightarrow> store" where
  "add_edge a h b =
     (if a = b then h
      else let i = rs_intersect (tgt_ranges (h ! a)) (src_ranges (h ! b)) in
        if rs_bool i then
          let size = (if src_name (h ! b) = Some ''__ZERO'' then 0 else rs_size i) in
          upd a (\<lambda>x. x\<lparr>goes_after := dict_set b (Some size) (goes_after x)\<rparr>)
            (upd b (\<lambda>x. x\<lparr>goes_before := dict_set a (Some size) (goes_before x)\<rparr>) h)
        else h)"

definition GenerateDigraph :: "nat list \<Rightarrow> store \<Rightarrow> store res" where
  "GenerateDigraph ts h =
     try_bind (index_sources h ts) (\<lambda>sr.
       for_each (\<lambda>h a. try_bind (intersections sr (tgt_ranges (h ! a))) (\<lambda>bs.
          Inr (foldl (add_edge a) h bs))) h ts)"

section \<open>Views of a store\<close>

text \<open>The transfer without its edges, and the edge relations the dictionaries hold.\<close>

definition core :: "transfer \<Rightarrow> transfer" where
  "core x = x\<lparr>goes_before := [], goes_after := []\<rparr>"

definition before :: "store \<Rightarrow> (nat \<times> nat) set" where
  "before h = {(i, j). i < length h \<and> j \<in> kset (goes_before (h ! i))}"

definition after :: "store \<Rightarrow> (nat \<times> nat) set" where
  "after h = {(i, j). j < length h \<and> i \<in> kset (goes_after (h ! j))}"

text \<open>The dependency the graph has to express: \<open>i\<close> reads what \<open>j\<close> writes.\<close>

definition reads_from :: "store \<Rightarrow> nat list \<Rightarrow> (nat \<times> nat) set" where
  "reads_from h ts = {(i, j). i \<in> set ts \<and> j \<in> set ts \<and> i \<noteq> j \<and> src_blocks (h ! i) \<inter> tgt_blocks (h ! j) \<noteq> {}}"

definition known :: "(nat, int option) odict \<Rightarrow> bool" where
  "known d = ((\<forall>p\<in>set d. snd p \<noteq> None) \<and> distinct (keys d))"

definition weights_known :: "store \<Rightarrow> bool" where
  "weights_known h = (\<forall>x\<in>set h. known (goes_before x) \<and> known (goes_after x))"

lemma known_dict_set: "known d \<Longrightarrow> known (dict_set k (Some w) d)"
  using set_dict_set[of k "Some w" d] by (auto simp: known_def)

lemma core_fields:
  assumes "map core h' = map core h" "i < length h"
  shows "i < length h'" "tgt_ranges (h' ! i) = tgt_ranges (h ! i)" "src_ranges (h' ! i) = src_ranges (h ! i)"
    "xf_order (h' ! i) = xf_order (h ! i)" "xf_style (h' ! i) = xf_style (h ! i)"
    "stash_before (h' ! i) = stash_before (h ! i)" "use_stash (h' ! i) = use_stash (h ! i)"
    "src_name (h' ! i) = src_name (h ! i)"
proof -
  show i: "i < length h'" using assms by (metis length_map)
  have eq: "core (h' ! i) = core (h ! i)" using assms i by (metis nth_map)
  show "tgt_ranges (h' ! i) = tgt_ranges (h ! i)" "src_ranges (h' ! i) = src_ranges (h ! i)"
    using arg_cong[OF eq, of tgt_ranges] arg_cong[OF eq, of src_ranges] by (simp_all add: core_def)
  show "xf_order (h' ! i) = xf_order (h ! i)" "xf_style (h' ! i) = xf_style (h ! i)"
    using arg_cong[OF eq, of xf_order] arg_cong[OF eq, of xf_style] by (simp_all add: core_def)
  show "stash_before (h' ! i) = stash_before (h ! i)" "use_stash (h' ! i) = use_stash (h ! i)"
    using arg_cong[OF eq, of stash_before] arg_cong[OF eq, of use_stash] by (simp_all add: core_def)
  show "src_name (h' ! i) = src_name (h ! i)"
    using arg_cong[OF eq, of src_name] by (simp add: core_def)
qed

section \<open>Correctness of the index\<close>

definition index_view :: "source_index \<Rightarrow> (int \<times> nat) set" where
  "index_view sr = {(i, b). 0 \<le> i \<and> i < int (length sr) \<and> (\<exists>l. sr ! nat i = Some l \<and> b \<in> set l)}"

lemma index_block_view:
  assumes "0 \<le> i" "i < int (length sr)"
  shows "\<exists>sr'. index_block b sr i = Inr sr' \<and> length sr' = length sr \<and> index_view sr' = index_view sr \<union> {(i, b)}"
proof -
  let ?l = "case sr ! nat i of None \<Rightarrow> [b] | Some l \<Rightarrow> oset_add l b"
  have "index_block b sr i = Inr (sr[nat i := Some ?l])" using assms by (simp add: index_block_def)
  moreover have "index_view (sr[nat i := Some ?l]) = index_view sr \<union> {(i, b)}"
  proof (intro set_eqI, clarify)
    fix j c
    show "(j, c) \<in> index_view (sr[nat i := Some ?l]) \<longleftrightarrow> (j, c) \<in> index_view sr \<union> {(i, b)}"
      using assms by (cases "j = i"; cases "sr ! nat i") (auto simp: index_view_def nth_list_update)
  qed
  ultimately show ?thesis by simp
qed

lemma index_range_view:
  assumes "0 \<le> s" "s < e"
  shows "\<exists>sr'. index_range b sr (s, e) = Inr sr' \<and> index_view sr' = index_view sr \<union> {s..<e} \<times> {b}"
proof -
  define sr1 where "sr1 = (if e > int (length sr) then sr @ replicate (nat (e - int (length sr))) None else sr)"
  have len: "e \<le> int (length sr1)" by (simp add: sr1_def)
  have view: "index_view sr1 = index_view sr"
    by (auto simp: sr1_def index_view_def nth_append split: if_splits)
  have "\<exists>sr'. for_each (index_block b) sr1 (py_range s e) = Inr sr' \<and> e \<le> int (length sr') \<and>
      index_view sr' = index_view sr1 \<union> (\<Union>i\<in>set (py_range s e). {(i, b)})"
  proof (rule for_each_accumulate[where I = "\<lambda>sr. e \<le> int (length sr)"])
    fix sr' :: source_index and i assume "i \<in> set (py_range s e)" "e \<le> int (length sr')"
    then show "\<exists>sr''. index_block b sr' i = Inr sr'' \<and> e \<le> int (length sr'') \<and> index_view sr'' = index_view sr' \<union> {(i, b)}"
      using index_block_view[of i sr' b] assms by auto
  qed (rule len)
  then show ?thesis by (auto simp: index_range_def sr1_def[symmetric] view Let_def)
qed

lemma index_sources_view:
  assumes "wf_seq ts h"
  shows "\<exists>sr. index_sources h ts = Inr sr \<and> index_view sr = {(i, b). b \<in> set ts \<and> i \<in> src_blocks (h ! b)}"
proof -
  have one: "\<exists>sr'. for_each (index_range b) sr (rs_iter (src_ranges (h ! b))) = Inr sr' \<and> True \<and>
      index_view sr' = index_view sr \<union> src_blocks (h ! b) \<times> {b}" if "b \<in> set ts" for b sr
  proof -
    have nn: "nonneg_rs (src_ranges (h ! b))" using assms that by (auto simp: wf_seq_def wf_xf_def)
    have "\<exists>sr'. for_each (index_range b) sr (rs_iter (src_ranges (h ! b))) = Inr sr' \<and> True \<and>
        index_view sr' = index_view sr \<union> (\<Union>pr\<in>set (rs_iter (src_ranges (h ! b))). {fst pr..<snd pr} \<times> {b})"
      by (rule for_each_accumulate[where I = "\<lambda>_. True"])
        (use nonneg_iter[OF nn] index_range_view in \<open>auto split: prod.splits\<close>)
    moreover have "(\<Union>pr\<in>set (rs_iter (src_ranges (h ! b))). {fst pr..<snd pr} \<times> {b}) = src_blocks (h ! b) \<times> {b}"
      using rs_iter_blocks[OF nonneg_rsD[OF nn]] by fastforce
    ultimately show ?thesis by simp
  qed
  have "\<exists>sr. index_sources h ts = Inr sr \<and> True \<and> index_view sr = index_view [] \<union> (\<Union>b\<in>set ts. src_blocks (h ! b) \<times> {b})"
    unfolding index_sources_def by (rule for_each_accumulate[where I = "\<lambda>_. True"]) (use one in auto)
  then show ?thesis by (auto simp: index_view_def)
qed

section \<open>Correctness of the edges\<close>

lemma collect_range_set:
  assumes "sorted_wrt (<) is" "\<forall>i\<in>set is. 0 \<le> i"
  shows "\<exists>acc'. collect_range sr acc is = Inr acc' \<and>
    set acc' = set acc \<union> {b. \<exists>i\<in>set is. (i, b) \<in> index_view sr}"
  using assms
proof (induction "is" arbitrary: acc)
  case (Cons i "is")
  show ?case
  proof (cases "i \<ge> int (length sr)")
    case True
    then have "\<forall>j\<in>set (i # is). int (length sr) \<le> j" using Cons.prems(1) by auto
    then show ?thesis using True by (auto simp: index_view_def)
  next
    case False
    then show ?thesis
      using Cons.IH[of "case sr ! nat i of None \<Rightarrow> acc | Some l \<Rightarrow> foldl oset_add acc l"] Cons.prems
      by (cases "sr ! nat i") (auto simp: index_view_def)
  qed
qed simp

lemma intersections_set:
  assumes "nonneg_rs tgt"
  shows "\<exists>bs. intersections sr tgt = Inr bs \<and> set bs = {b. \<exists>i\<in>blocks tgt. (i, b) \<in> index_view sr}"
proof -
  have "\<exists>bs. intersections sr tgt = Inr bs \<and> True \<and>
      set bs = set [] \<union> (\<Union>pr\<in>set (rs_iter tgt). {b. \<exists>i\<in>{fst pr..<snd pr}. (i, b) \<in> index_view sr})"
    unfolding intersections_def
  proof (rule for_each_accumulate[where I = "\<lambda>_. True"])
    fix acc pr assume "pr \<in> set (rs_iter tgt)"
    then show "\<exists>acc'. (case pr of (s, e) \<Rightarrow> collect_range sr acc (py_range s e)) = Inr acc' \<and> True \<and>
        set acc' = set acc \<union> {b. \<exists>i\<in>{fst pr..<snd pr}. (i, b) \<in> index_view sr}"
      using nonneg_iter[OF assms, of "fst pr" "snd pr"] collect_range_set[of "py_range (fst pr) (snd pr)" sr acc]
      by (auto split: prod.splits)
  qed simp
  moreover have "(\<Union>pr\<in>set (rs_iter tgt). {b. \<exists>i\<in>{fst pr..<snd pr}. (i, b) \<in> index_view sr}) =
      {b. \<exists>i\<in>blocks tgt. (i, b) \<in> index_view sr}"
    using rs_iter_blocks[OF nonneg_rsD[OF assms]] by fastforce
  ultimately show ?thesis by simp
qed

text \<open>What the loops keep: the rest of every transfer, the agreement of the two dictionaries,
  known weights.\<close>

definition graph_inv :: "store \<Rightarrow> store \<Rightarrow> bool" where
  "graph_inv h0 h = (map core h = map core h0 \<and> before h = after h \<and> weights_known h)"

lemma add_edge_inv:
  assumes "graph_inv h0 h" "a < length h" "b < length h"
    "wf_rs (tgt_ranges (h ! a))" "wf_rs (src_ranges (h ! b))"
  shows "graph_inv h0 (add_edge a h b) \<and>
    before (add_edge a h b) = before h \<union> (if a \<noteq> b \<and> src_blocks (h ! b) \<inter> tgt_blocks (h ! a) \<noteq> {} then {(b, a)} else {})"
proof (cases "a \<noteq> b \<and> src_blocks (h ! b) \<inter> tgt_blocks (h ! a) \<noteq> {}")
  case False
  then have "add_edge a h b = h"
    using assms(4,5) by (auto simp: add_edge_def Let_def rs_bool_blocks)
  then show ?thesis using assms(1) False by auto
next
  case True
  define w where "w = (if src_name (h ! b) = Some ''__ZERO'' then 0 else rs_size (rs_intersect (tgt_ranges (h ! a)) (src_ranges (h ! b))))"
  let ?h = "add_edge a h b"
  have h: "?h = upd a (\<lambda>x. x\<lparr>goes_after := dict_set b (Some w) (goes_after x)\<rparr>)
            (upd b (\<lambda>x. x\<lparr>goes_before := dict_set a (Some w) (goes_before x)\<rparr>) h)"
    using True assms(4,5) unfolding add_edge_def w_def by (auto simp: Let_def rs_bool_blocks)
  have len [simp]: "length ?h = length h" by (simp add: h)
  have gb: "goes_before (?h ! i) = (if i = b then dict_set a (Some w) (goes_before (h ! b)) else goes_before (h ! i))"
    and ga: "goes_after (?h ! i) = (if i = a then dict_set b (Some w) (goes_after (h ! a)) else goes_after (h ! i))"
    if "i < length h" for i
    using that True assms(2,3) by (auto simp: h nth_upd)
  have "map core ?h = map core h"
    using assms(2,3) by (intro nth_equalityI) (auto simp: h nth_upd core_def)
  moreover have bef: "before ?h = before h \<union> {(b, a)}"
    using gb assms(3) by (auto simp: before_def split: if_splits)
  moreover have "after ?h = after h \<union> {(b, a)}"
    using ga assms(2) by (auto simp: after_def split: if_splits)
  moreover have "weights_known ?h"
  proof -
    have "known (goes_before (h ! i)) \<and> known (goes_after (h ! i))" if "i < length h" for i
      using assms(1) that by (simp add: graph_inv_def weights_known_def)
    then have "known (goes_before (?h ! i)) \<and> known (goes_after (?h ! i))" if "i < length h" for i
      using that gb ga assms(2,3) by (simp add: known_dict_set)
    then show ?thesis by (simp add: weights_known_def all_set_conv_all_nth)
  qed
  ultimately show ?thesis using assms(1) True by (simp add: graph_inv_def)
qed

lemma graph_inv_wf:
  assumes "graph_inv h0 h" "wf_seq ts h0" "i \<in> set ts"
  shows "i < length h" "wf_rs (tgt_ranges (h ! i))" "wf_rs (src_ranges (h ! i))"
    "tgt_ranges (h ! i) = tgt_ranges (h0 ! i)" "src_ranges (h ! i) = src_ranges (h0 ! i)"
proof -
  have i: "i < length h0" "wf_xf (h0 ! i)" using assms(2,3) by (auto simp: wf_seq_def)
  note f = core_fields[of h h0, OF _ i(1)]
  show "i < length h" "wf_rs (tgt_ranges (h ! i))" "wf_rs (src_ranges (h ! i))"
    "tgt_ranges (h ! i) = tgt_ranges (h0 ! i)" "src_ranges (h ! i) = src_ranges (h0 ! i)"
    using f assms(1) i(2) by (auto simp: graph_inv_def wf_xf_def nonneg_rs_def)
qed

lemma add_edges_inv:
  assumes "graph_inv h0 h" "wf_seq ts h0" "a \<in> set ts" "set bs \<subseteq> set ts"
  shows "graph_inv h0 (foldl (add_edge a) h bs) \<and>
    before (foldl (add_edge a) h bs) = before h \<union> {(b, a) |b. b \<in> set bs \<and> (b, a) \<in> reads_from h0 ts}"
  using assms(1,4)
proof (induction bs arbitrary: h)
  case (Cons b bs)
  have b: "b \<in> set ts" using Cons.prems by simp
  note wa = graph_inv_wf[OF Cons.prems(1) assms(2,3)] and wb = graph_inv_wf[OF Cons.prems(1) assms(2) b]
  have "graph_inv h0 (add_edge a h b) \<and>
      before (add_edge a h b) = before h \<union> (if (b, a) \<in> reads_from h0 ts then {(b, a)} else {})"
    using add_edge_inv[OF Cons.prems(1) wa(1) wb(1) wa(2) wb(3)] assms(3) b wa wb
    by (auto simp: reads_from_def)
  then show ?case using Cons.IH[of "add_edge a h b"] Cons.prems(2) by auto
qed simp

text \<open>The graph holds exactly the dependencies, recorded on both ends.\<close>

lemma GenerateDigraph_spec:
  assumes "wf_seq ts h" "\<forall>x\<in>set h. goes_before x = [] \<and> goes_after x = []"
  shows "\<exists>h'. GenerateDigraph ts h = Inr h' \<and> graph_inv h h' \<and> before h' = reads_from h ts"
proof -
  obtain sr where sr: "index_sources h ts = Inr sr" "index_view sr = {(i, b). b \<in> set ts \<and> i \<in> src_blocks (h ! b)}"
    using index_sources_view[OF assms(1)] by blast
  let ?f = "\<lambda>h a. try_bind (intersections sr (tgt_ranges (h ! a))) (\<lambda>bs. Inr (foldl (add_edge a) h bs))"
  have start: "graph_inv h h" "before h = {}"
    using assms(2) by (auto simp: graph_inv_def before_def after_def weights_known_def known_def)
  have "\<exists>h'. for_each ?f h ts = Inr h' \<and> graph_inv h h' \<and>
      before h' = before h \<union> (\<Union>a\<in>set ts. {(b, a) |b. (b, a) \<in> reads_from h ts})"
  proof (rule for_each_accumulate[where I = "graph_inv h" and view = before, OF start(1)])
    fix g a assume a: "a \<in> set ts" and g: "graph_inv h g"
    note w = graph_inv_wf[OF g assms(1) a]
    have "nonneg_rs (tgt_ranges (h ! a))" using assms(1) a by (auto simp: wf_seq_def wf_xf_def)
    then obtain bs where bs: "intersections sr (tgt_ranges (g ! a)) = Inr bs"
      "set bs = {b. \<exists>i\<in>tgt_blocks (h ! a). (i, b) \<in> index_view sr}"
      using intersections_set[of "tgt_ranges (h ! a)" sr] w(4) by auto
    have set_bs: "set bs = {b \<in> set ts. tgt_blocks (h ! a) \<inter> src_blocks (h ! b) \<noteq> {}}"
      unfolding bs(2) sr(2) by auto
    then have "set bs \<subseteq> set ts" by auto
    from add_edges_inv[OF g assms(1) a this]
    show "\<exists>g'. ?f g a = Inr g' \<and> graph_inv h g' \<and> before g' = before g \<union> {(b, a) |b. (b, a) \<in> reads_from h ts}"
      using bs(1) set_bs by (auto simp: reads_from_def)
  qed
  moreover have "(\<Union>a\<in>set ts. {(b, a) |b. (b, a) \<in> reads_from h ts}) = reads_from h ts"
    unfolding reads_from_def by blast
  ultimately show ?thesis using sr(1) start(2) by (auto simp: GenerateDigraph_def)
qed

end
