(* ===== verification/Heapq.thy ===== *)
theory Heapq
  imports Py_Prelude
begin

text \<open>
  Python's \<open>heapq\<close>, the binary heap in a list that the transfer ordering of
  \<open>tools/releasetools/blockimgdiff.py\<close> uses. The sift loops are modelled index by index because
  the element that \<open>heappop\<close> returns among equal ones depends on them. The order is a parameter
  \<open>lt\<close>, the class's \<open>__lt__\<close>. The locale \<open>work_queue\<close> states the contract the ordering
  algorithms rely on, and the theory interprets it on the heap.
\<close>

section \<open>The operations\<close>

fun siftdown :: "('a \<Rightarrow> 'a \<Rightarrow> bool) \<Rightarrow> 'a \<Rightarrow> 'a list \<Rightarrow> nat \<Rightarrow> nat \<Rightarrow> 'a list" where
  "siftdown lt newitem heap startpos pos =
     (if startpos < pos then
        (let parentpos = (pos - 1) div 2 in
         if lt newitem (heap ! parentpos)
         then siftdown lt newitem (heap[pos := heap ! parentpos]) startpos parentpos
         else heap[pos := newitem])
      else heap[pos := newitem])"

declare siftdown.simps [simp del]

function siftup_loop :: "('a \<Rightarrow> 'a \<Rightarrow> bool) \<Rightarrow> 'a list \<Rightarrow> nat \<Rightarrow> nat \<Rightarrow> 'a list \<times> nat" where
  "siftup_loop lt heap endpos pos =
     (let childpos = 2 * pos + 1 in
      if childpos < endpos then
        (let c = (if childpos + 1 < endpos \<and> \<not> lt (heap ! childpos) (heap ! (childpos + 1))
                  then childpos + 1 else childpos)
         in siftup_loop lt (heap[pos := heap ! c]) endpos c)
      else (heap, pos))"
  by pat_completeness auto
termination
  by (relation "measure (\<lambda>(lt, heap, endpos, pos). endpos - pos)") (auto split: if_splits)

declare siftup_loop.simps [simp del]

definition siftup :: "('a \<Rightarrow> 'a \<Rightarrow> bool) \<Rightarrow> 'a list \<Rightarrow> nat \<Rightarrow> 'a list" where
  "siftup lt heap pos =
     (let (h, p) = siftup_loop lt heap (length heap) pos in siftdown lt (heap ! pos) h pos p)"

definition heappush :: "('a \<Rightarrow> 'a \<Rightarrow> bool) \<Rightarrow> 'a list \<Rightarrow> 'a \<Rightarrow> 'a list" where
  "heappush lt heap item = siftdown lt item (heap @ [item]) 0 (length heap)"

definition heappop :: "('a \<Rightarrow> 'a \<Rightarrow> bool) \<Rightarrow> 'a list \<Rightarrow> ('a \<times> 'a list) res" where
  "heappop lt heap =
     (if heap = [] then Inl IndexError
      else let lastelt = last heap; h = butlast heap in
        if h = [] then Inr (lastelt, [])
        else Inr (h ! 0, siftup lt (h[0 := lastelt]) 0))"

definition heapify :: "('a \<Rightarrow> 'a \<Rightarrow> bool) \<Rightarrow> 'a list \<Rightarrow> 'a list" where
  "heapify lt x = foldl (siftup lt) x (rev [0..<length x div 2])"

section \<open>The elements are kept\<close>

lemma mset_move_hole:
  assumes "i < length h" "j < length h"
  shows "mset (h[i := h ! j, j := x]) = mset (h[i := x])"
proof (cases "i = j")
  case False
  have "mset ((h[i := x])[j := (h[i := x]) ! i, i := (h[i := x]) ! j]) = mset (h[i := x])"
    using assms by (intro mset_swap) auto
  then have "mset (h[i := x, j := x, i := h ! j]) = mset (h[i := x])" using assms False by simp
  moreover have "h[i := x, j := x, i := h ! j] = h[i := h ! j, j := x]"
    using False by (metis list_update_overwrite list_update_swap)
  ultimately show ?thesis by simp
qed (use assms in simp)

lemma length_siftdown [simp]: "length (siftdown lt x h s p) = length h"
  by (induction lt x h s p rule: siftdown.induct) (subst siftdown.simps, simp add: Let_def)

lemma mset_siftdown: "pos < length h \<Longrightarrow> mset (siftdown lt x h s pos) = mset (h[pos := x])"
proof (induction lt x h s pos rule: siftdown.induct)
  case (1 lt x h s pos)
  let ?pp = "(pos - 1) div 2"
  show ?case
  proof (cases "s < pos \<and> lt x (h ! ?pp)")
    case True
    then have pp: "?pp < length h" using "1.prems" by auto
    then have "mset (siftdown lt x (h[pos := h ! ?pp]) s ?pp) = mset (h[pos := h ! ?pp, ?pp := x])"
      using True by (intro "1.IH") auto
    then show ?thesis using True mset_move_hole[OF "1.prems" pp, of x]
      by (subst siftdown.simps) (simp add: Let_def)
  next
    case False
    then show ?thesis by (subst siftdown.simps) (auto simp: Let_def)
  qed
qed

lemma siftup_loop_hole:
  assumes "siftup_loop lt h endpos pos = (h', p)" "pos < length h" "endpos \<le> length h"
  shows "length h' = length h \<and> p < length h \<and> mset (h'[p := x]) = mset (h[pos := x])"
  using assms
proof (induction lt h endpos pos rule: siftup_loop.induct)
  case (1 lt h endpos pos)
  let ?left = "2 * pos + 1"
  let ?c = "if ?left + 1 < endpos \<and> \<not> lt (h ! ?left) (h ! (?left + 1)) then ?left + 1 else ?left"
  show ?case
  proof (cases "?left < endpos")
    case True
    then have c: "?c < length h" using "1.prems" by auto
    have rec: "siftup_loop lt (h[pos := h ! ?c]) endpos ?c = (h', p)"
      using "1.prems"(1) True by (subst (asm) siftup_loop.simps) (simp only: Let_def if_True)
    have "length h' = length (h[pos := h ! ?c]) \<and> p < length (h[pos := h ! ?c]) \<and>
        mset (h'[p := x]) = mset ((h[pos := h ! ?c])[?c := x])"
      using "1.IH"[OF refl True refl rec] c "1.prems"(3) by simp
    then show ?thesis using mset_move_hole[OF "1.prems"(2) c, of x] by simp
  next
    case False
    then show ?thesis using "1.prems" by (subst (asm) siftup_loop.simps) (auto simp: Let_def)
  qed
qed

lemma mset_siftup:
  assumes "pos < length h"
  shows "mset (siftup lt h pos) = mset h" "length (siftup lt h pos) = length h"
proof -
  obtain h' p where loop: "siftup_loop lt h (length h) pos = (h', p)" by fastforce
  from siftup_loop_hole[OF loop assms, of "h ! pos"]
  show "mset (siftup lt h pos) = mset h" "length (siftup lt h pos) = length h"
    using assms loop by (auto simp: siftup_def mset_siftdown)
qed

lemma mset_heappush [simp]: "mset (heappush lt h x) = add_mset x (mset h)"
  by (simp add: heappush_def mset_siftdown)

lemma heappop_cases:
  "heappop lt h = Inl e \<longleftrightarrow> h = [] \<and> e = IndexError"
  "heappop lt h = Inr (x, h') \<Longrightarrow> mset h = add_mset x (mset h')"
proof -
  show "heappop lt h = Inl e \<longleftrightarrow> h = [] \<and> e = IndexError"
    by (auto simp: heappop_def Let_def)
  assume pop: "heappop lt h = Inr (x, h')"
  then obtain b l where h: "h = b @ [l]" by (cases h rule: rev_cases) (auto simp: heappop_def)
  show "mset h = add_mset x (mset h')"
  proof (cases b)
    case Nil
    then show ?thesis using pop h by (simp add: heappop_def)
  next
    case (Cons c bs)
    then show ?thesis using pop h mset_siftup(1)[of 0 "l # bs" lt] by (auto simp: heappop_def)
  qed
qed

lemma heappop_nonempty: "h \<noteq> [] \<Longrightarrow> \<exists>x h'. heappop lt h = Inr (x, h')"
  by (auto simp: heappop_def Let_def)

lemma mset_heapify [simp]: "mset (heapify lt h) = mset h"
proof -
  have "mset (foldl (siftup lt) h is) = mset h" if "\<forall>i\<in>set is. i < length h" for "is"
    using that
  proof (induction "is" rule: rev_induct)
    case (snoc i "is")
    then have eq: "mset (foldl (siftup lt) h is) = mset h" by simp
    then have "length (foldl (siftup lt) h is) = length h" by (metis size_mset)
    then show ?case using snoc.prems eq by (simp add: mset_siftup)
  qed simp
  moreover have "\<forall>i\<in>set (rev [0..<length h div 2]). i < length h" by auto
  ultimately show ?thesis unfolding heapify_def by blast
qed

lemma set_heapify [simp]: "set (heapify lt h) = set h"
  using mset_heapify[of lt h] by (rule mset_eq_setD)

lemma set_heappush [simp]: "set (heappush lt h x) = insert x (set h)"
  using mset_heappush[of lt h x] by (metis set_mset_add_mset_insert set_mset_mset)

section \<open>The contract\<close>

text \<open>A work queue: which element comes next is left open, but none is lost and none appears.\<close>

locale work_queue =
  fixes init :: "'a list \<Rightarrow> 'q" and push :: "'q \<Rightarrow> 'a \<Rightarrow> 'q" and pop :: "'q \<Rightarrow> ('a \<times> 'q) res"
    and bag :: "'q \<Rightarrow> 'a multiset"
  assumes bag_init: "bag (init xs) = mset xs"
    and bag_push: "bag (push q x) = add_mset x (bag q)"
    and pop_empty: "bag q = {#} \<Longrightarrow> pop q = Inl IndexError"
    and pop_nonempty: "bag q \<noteq> {#} \<Longrightarrow> \<exists>x q'. pop q = Inr (x, q') \<and> bag q = add_mset x (bag q')"
begin

lemma pop_bag: "pop q = Inr (x, q') \<Longrightarrow> bag q = add_mset x (bag q')"
  using pop_empty[of q] pop_nonempty[of q] by fastforce

lemma pop_size: "pop q = Inr (x, q') \<Longrightarrow> size (bag q') < size (bag q)"
  using pop_bag by (metis lessI size_add_mset)

lemma pop_member: "pop q = Inr (x, q') \<Longrightarrow> x \<in># bag q"
  using pop_bag by fastforce

lemma pop_other: "pop q = Inr (x, q') \<Longrightarrow> y \<in># bag q \<Longrightarrow> y \<noteq> x \<Longrightarrow> y \<in># bag q'"
  using pop_bag by fastforce

end

interpretation hq: work_queue "heapify lt" "heappush lt" "heappop lt" mset for lt :: "'a \<Rightarrow> 'a \<Rightarrow> bool"
proof unfold_locales
  fix q :: "'a list" assume "mset q \<noteq> {#}"
  then show "\<exists>x q'. heappop lt q = Inr (x, q') \<and> mset q = add_mset x (mset q')"
    using heappop_nonempty[of q lt] heappop_cases(2)[of lt q] by auto
qed (auto simp: heappop_cases)

end
