(* ===== verification/VertexSequence.thy ===== *)
theory VertexSequence
  imports DiffGraph Heapq
begin

text \<open>
  \<open>BlockImageDiff.FindVertexSequence\<close>: the heuristic of Eades, Lin and Smyth for the feedback arc
  set problem, with sinks moved to the right, sources to the left and, when there is neither, the
  vertex of the best score taken from a heap of possibly outdated items. The theory shows that
  the loops end, that none of the dictionary and heap accesses raises, and that the result is a
  permutation of the transfers numbered by \<open>order\<close>.
\<close>

section \<open>State\<close>

text \<open>The two edge dictionaries \<open>xf.incoming\<close> and \<open>xf.outgoing\<close>.\<close>

datatype dir = Incoming | Outgoing

fun opp :: "dir \<Rightarrow> dir" where
  "opp Incoming = Outgoing"
| "opp Outgoing = Incoming"

text \<open>\<open>HeapItem\<close>: the score is fixed at creation, \<open>clear()\<close> forgets the item.\<close>

record heap_item =
  hi_item :: "nat option"
  hi_score :: int

text \<open>The local variables, the attributes the method gives to the transfers while it runs
  (\<open>incoming\<close>, \<open>outgoing\<close>, \<open>score\<close>, \<open>heap_item\<close>) and the heap items made so far; the heap holds
  references to items.\<close>

record vs_state =
  vs_adj :: "dir \<Rightarrow> nat \<Rightarrow> (nat, int) odict"
  vs_score :: "nat \<Rightarrow> int"
  vs_G :: "nat list"
  vs_s1 :: "nat list"
  vs_s2 :: "nat list"
  vs_items :: "heap_item list"
  vs_heap :: "nat list"
  vs_hi :: "nat \<Rightarrow> nat"

definition item_lt :: "heap_item list \<Rightarrow> nat \<Rightarrow> nat \<Rightarrow> bool" where
  "item_lt items a b = (hi_score (items ! a) < hi_score (items ! b))"

section \<open>Operations\<close>

definition adjust_score :: "vs_state \<Rightarrow> nat \<Rightarrow> int \<Rightarrow> vs_state" where
  "adjust_score st iu delta =
     (let sc = vs_score st iu + delta;
          cleared = (vs_items st)[vs_hi st iu := (vs_items st ! vs_hi st iu)\<lparr>hi_item := None\<rparr>];
          items = cleared @ [\<lparr>hi_item = Some iu, hi_score = - sc\<rparr>]
      in st\<lparr>vs_score := (vs_score st)(iu := sc), vs_items := items,
            vs_hi := (vs_hi st)(iu := length cleared),
            vs_heap := heappush (item_lt items) (vs_heap st) (length cleared)\<rparr>)"

text \<open>The loops over \<open>u.incoming\<close> (and \<open>u.outgoing\<close>): every neighbour forgets \<open>u\<close>, its score moves
  by the weight, and it is noted when its last edge on that side is gone.\<close>

definition detach_step :: "dir \<Rightarrow> nat \<Rightarrow> vs_state \<times> nat list \<Rightarrow> nat \<Rightarrow> (vs_state \<times> nat list) res" where
  "detach_step d u = (\<lambda>(st, news) iu.
     try_bind (dict_get (vs_adj st (opp d) iu) u) (\<lambda>w.
       let st1 = st\<lparr>vs_adj := (vs_adj st)(opp d := (vs_adj st (opp d))(iu := dict_del u (vs_adj st (opp d) iu)))\<rparr>;
           st2 = adjust_score st1 iu (if d = Incoming then - w else w)
       in Inr (st2, if vs_adj st2 (opp d) iu = [] then oset_add news iu else news)))"

definition detach :: "dir \<Rightarrow> nat \<Rightarrow> vs_state \<times> nat list \<Rightarrow> (vs_state \<times> nat list) res" where
  "detach d u = (\<lambda>(st, news). for_each (detach_step d u) (st, news) (keys (vs_adj st d u)))"

text \<open>\<open>for u in sinks\<close> (\<open>d = Incoming\<close>) and \<open>for u in sources\<close> (\<open>d = Outgoing\<close>).\<close>

definition phase_step :: "dir \<Rightarrow> vs_state \<times> nat list \<Rightarrow> nat \<Rightarrow> (vs_state \<times> nat list) res" where
  "phase_step d = (\<lambda>(st, news) u.
     if u \<notin> set (vs_G st) then Inr (st, news)
     else let st1 = (if d = Incoming then st\<lparr>vs_s2 := u # vs_s2 st\<rparr> else st\<lparr>vs_s1 := vs_s1 st @ [u]\<rparr>)
          in detach d u (st1\<lparr>vs_G := removeAll u (vs_G st1)\<rparr>, news))"

definition phase_round :: "dir \<Rightarrow> vs_state \<Rightarrow> nat list \<Rightarrow> (vs_state \<times> nat list) res" where
  "phase_round d st us = for_each (phase_step d) (st, []) us"

subsection \<open>The loops end\<close>

lemma adjust_score_frame [simp]:
  "vs_G (adjust_score st iu w) = vs_G st" "vs_s1 (adjust_score st iu w) = vs_s1 st"
  "vs_s2 (adjust_score st iu w) = vs_s2 st" "vs_adj (adjust_score st iu w) = vs_adj st"
  by (simp_all add: adjust_score_def Let_def)

lemma detach_step_frame:
  "detach_step d u (st, news) iu = Inr (st', news') \<Longrightarrow>
   vs_G st' = vs_G st \<and> vs_s1 st' = vs_s1 st \<and> vs_s2 st' = vs_s2 st"
  by (auto simp: detach_step_def Let_def)

lemma detach_frame:
  assumes "detach d u (st, news) = Inr (st', news')"
  shows "vs_G st' = vs_G st \<and> vs_s1 st' = vs_s1 st \<and> vs_s2 st' = vs_s2 st"
proof -
  let ?P = "\<lambda>p. vs_G (fst p) = vs_G st \<and> vs_s1 (fst p) = vs_s1 st \<and> vs_s2 (fst p) = vs_s2 st"
  have "for_each (detach_step d u) (st, news) (keys (vs_adj st d u)) = Inr (st', news')"
    using assms by (simp add: detach_def)
  then have "?P (st', news')"
    by (rule for_each_partial_invariant[where P = ?P]) (use detach_step_frame in fastforce)+
  then show ?thesis by simp
qed

lemma phase_step_G:
  assumes "phase_step d (st, news) u = Inr (st', news')"
  shows "length (vs_G st') \<le> length (vs_G st) \<and> (length (vs_G st') = length (vs_G st) \<longrightarrow> news' = news)"
proof (cases "u \<in> set (vs_G st)")
  case True
  then have "vs_G st' = removeAll u (vs_G st)"
    using assms detach_frame by (fastforce simp: phase_step_def Let_def split: if_splits)
  then show ?thesis using True length_removeAll_less[of u "vs_G st"] by simp
next
  case False
  then show ?thesis using assms by (simp add: phase_step_def)
qed

lemma phase_round_G:
  assumes "phase_round d st us = Inr (st', news')"
  shows "length (vs_G st') < length (vs_G st) \<or> length (vs_G st') = length (vs_G st) \<and> news' = []"
proof -
  let ?P = "\<lambda>p. length (vs_G (fst p)) \<le> length (vs_G st) \<and>
    (length (vs_G (fst p)) = length (vs_G st) \<longrightarrow> snd p = [])"
  have "?P (st', news')"
  proof (rule for_each_partial_invariant[where P = ?P])
    show "for_each (phase_step d) (st, []) us = Inr (st', news')" using assms by (simp add: phase_round_def)
    show "?P (st, [])" by simp
    fix u s s' assume "?P s" "phase_step d s u = Inr s'"
    then show "?P s'" using phase_step_G[of d "fst s" "snd s" u "fst s'" "snd s'"] by auto
  qed
  then show ?thesis by auto
qed

function phase_loop :: "dir \<Rightarrow> vs_state \<Rightarrow> nat list \<Rightarrow> vs_state res" where
  "phase_loop d st us =
     (if us = [] then Inr st
      else try_bind (phase_round d st us) (\<lambda>p. phase_loop d (fst p) (snd p)))"
  by pat_completeness auto
termination
proof (relation "measures [\<lambda>(d, st, us). length (vs_G st), \<lambda>(d, st, us). length us]")
  fix d st us x
  assume "us \<noteq> []" "phase_round d st us = Inr x"
  then have "length (vs_G (fst x)) < length (vs_G st) \<or> length (vs_G (fst x)) = length (vs_G st) \<and> length (snd x) < length us"
    using phase_round_G[of d st us "fst x" "snd x"] by auto
  then show "((d, fst x, snd x), d, st, us) \<in> measures [\<lambda>(d, st, us). length (vs_G st), \<lambda>(d, st, us). length us]"
    by (cases x) auto
qed simp

declare phase_loop.simps [simp del]

text \<open>\<open>while True: u = heapq.heappop(heap) ...\<close>: items that were cleared or whose transfer is
  placed already are dropped; an empty heap raises \<open>IndexError\<close>.\<close>

function pop_best :: "vs_state \<Rightarrow> (nat \<times> vs_state) res" where
  "pop_best st =
     try_bind (heappop (item_lt (vs_items st)) (vs_heap st)) (\<lambda>p.
       let st' = st\<lparr>vs_heap := snd p\<rparr> in
       case hi_item (vs_items st ! fst p) of
         Some u \<Rightarrow> if u \<in> set (vs_G st) then Inr (u, st') else pop_best st'
       | None \<Rightarrow> pop_best st')"
  by pat_completeness auto
termination
  by (relation "measure (\<lambda>st. length (vs_heap st))") (auto dest: hq.pop_size simp: size_mset[symmetric] simp del: size_mset)

declare pop_best.simps [simp del]

lemma phase_loop_G: "phase_loop d st us = Inr st' \<Longrightarrow> length (vs_G st') \<le> length (vs_G st)"
proof (induction d st us rule: phase_loop.induct)
  case (1 d st us)
  show ?case
  proof (cases "us = []")
    case False
    with "1.prems" obtain p where p: "phase_round d st us = Inr p" "phase_loop d (fst p) (snd p) = Inr st'"
      by (subst (asm) phase_loop.simps) auto
    then show ?thesis using "1.IH"[OF False p] phase_round_G[of d st us "fst p" "snd p"] by auto
  qed (use "1.prems" in \<open>simp add: phase_loop.simps\<close>)
qed

lemma pop_best_G:
  "pop_best st = Inr (u, st') \<Longrightarrow> u \<in> set (vs_G st) \<and> st' = st\<lparr>vs_heap := vs_heap st'\<rparr>"
proof (induction st rule: pop_best.induct)
  case (1 st)
  note unfolded = "1.prems"[unfolded pop_best.simps[of st]]
  from unfolded obtain p where p: "heappop (item_lt (vs_items st)) (vs_heap st) = Inr p" by blast
  show ?case
    using unfolded p "1.IH"[OF p refl] by (auto simp: Let_def split: option.splits if_splits)
qed

text \<open>The outer \<open>while G\<close>.\<close>

function vs_loop :: "vs_state \<Rightarrow> nat list \<Rightarrow> nat list \<Rightarrow> vs_state res" where
  "vs_loop st sinks sources =
     (if vs_G st = [] then Inr st
      else try_bind (phase_loop Incoming st sinks) (\<lambda>st1.
        try_bind (phase_loop Outgoing st1 sources) (\<lambda>st2.
          if vs_G st2 = [] then Inr st2
          else try_bind (pop_best st2) (\<lambda>p.
            let u = fst p;
                st3 = (snd p)\<lparr>vs_s1 := vs_s1 (snd p) @ [u], vs_G := removeAll u (vs_G (snd p))\<rparr>
            in try_bind (detach Outgoing u (st3, [])) (\<lambda>q.
                 try_bind (detach Incoming u (fst q, [])) (\<lambda>r.
                   vs_loop (fst r) (snd r) (snd q)))))))"
  by pat_completeness auto
termination
proof (relation "measure (\<lambda>(st, sinks, sources). length (vs_G st))", goal_cases)
  case (2 st sinks sources st1 st2 p u st3 q r)
  obtain u' st' where p: "p = (u', st')" by (cases p)
  note pop = pop_best_G[of st2 u' st']
  have "vs_G st' = vs_G st2" using 2(5) p pop by (metis vs_state.select_convs(3) vs_state.surjective vs_state.update_convs(7))
  then have "length (removeAll u' (vs_G st')) < length (vs_G st2)"
    using 2(5) p pop length_removeAll_less[of u' "vs_G st2"] by simp
  moreover have "vs_G (fst r) = removeAll u' (vs_G st')"
    using detach_frame[of Outgoing u st3 "[]" "fst q" "snd q"] detach_frame[of Incoming u "fst q" "[]" "fst r" "snd r"]
      2(6-9) p by simp
  ultimately show ?case using phase_loop_G[OF 2(2)] phase_loop_G[OF 2(3)] by simp
qed simp

declare vs_loop.simps [simp del]

text \<open>The method: copies of the dictionaries (a \<open>None\<close> weight makes \<open>sum\<close> raise), the initial
  scores and heap, the loop, and the new order.\<close>

definition int_weights :: "(nat, int option) odict \<Rightarrow> (nat, int) odict" where
  "int_weights d = map (\<lambda>(k, w). (k, the w)) d"

definition vs_init :: "nat list \<Rightarrow> store \<Rightarrow> vs_state" where
  "vs_init ts h =
     (let adj = (\<lambda>d x. int_weights (case d of Incoming \<Rightarrow> goes_after (h ! x) | Outgoing \<Rightarrow> goes_before (h ! x)));
          score = (\<lambda>x. sum_list (map snd (adj Outgoing x)) - sum_list (map snd (adj Incoming x)));
          items = map (\<lambda>x. \<lparr>hi_item = Some x, hi_score = - score x\<rparr>) ts
      in \<lparr>vs_adj = adj, vs_score = score, vs_G = ts, vs_s1 = [], vs_s2 = [],
          vs_items = items, vs_heap = heapify (item_lt items) [0..<length ts],
          vs_hi = (\<lambda>x. length (takeWhile (\<lambda>y. y \<noteq> x) ts))\<rparr>)"

definition set_orders :: "nat list \<Rightarrow> store \<Rightarrow> store" where
  "set_orders ts h = foldl (\<lambda>h (i, x). upd x (\<lambda>t. t\<lparr>xf_order := i\<rparr>) h) h (zip [0..<length ts] ts)"

definition FindVertexSequence :: "nat list \<Rightarrow> store \<Rightarrow> (nat list \<times> store) res" where
  "FindVertexSequence ts h =
     (if \<exists>x\<in>set ts. \<exists>w\<in>snd ` (set (goes_before (h ! x)) \<union> set (goes_after (h ! x))). w = None
      then Inl TypeError
      else let st = vs_init ts h in
        try_bind (vs_loop st (filter (\<lambda>u. vs_adj st Outgoing u = []) ts)
                             (filter (\<lambda>u. vs_adj st Incoming u = []) ts)) (\<lambda>st'.
          let new_transfers = vs_s1 st' @ vs_s2 st' in
          Inr (new_transfers, set_orders new_transfers h)))"

section \<open>The loops return\<close>

text \<open>\<open>y\<close> is a neighbour of \<open>x\<close> on side \<open>d\<close> in the graph \<open>E\<close>.\<close>

definition nbr :: "(nat \<times> nat) set \<Rightarrow> dir \<Rightarrow> nat \<Rightarrow> nat \<Rightarrow> bool" where
  "nbr E d x y = (case d of Outgoing \<Rightarrow> (x, y) \<in> E | Incoming \<Rightarrow> (y, x) \<in> E)"

lemma nbr_opp [simp]: "nbr E (opp d) x y = nbr E d y x"
  by (cases d) (auto simp: nbr_def)

lemma opp_opp [simp]: "opp (opp d) = d" "opp d \<noteq> d" "d \<noteq> opp d"
  by (cases d; simp)+

text \<open>Every vertex left has its remaining neighbours in its dictionaries (and \<open>u\<close>, the vertex just
  taken out, while its removal is pending) and a current heap item; the vertices are
  partitioned.\<close>

definition edges_ok :: "(nat \<times> nat) set \<Rightarrow> nat \<Rightarrow> (dir \<Rightarrow> nat set) \<Rightarrow> vs_state \<Rightarrow> bool" where
  "edges_ok E u pend st = (\<forall>x\<in>set (vs_G st). \<forall>d. distinct (keys (vs_adj st d x)) \<and>
     kset (vs_adj st d x) = {y \<in> set (vs_G st). nbr E d x y} \<union> (if x \<in> pend d then {u} else {}))"

definition heap_ok :: "vs_state \<Rightarrow> bool" where
  "heap_ok st = (\<forall>x\<in>set (vs_G st). vs_hi st x < length (vs_items st) \<and> vs_hi st x \<in> set (vs_heap st)
     \<and> hi_item (vs_items st ! vs_hi st x) = Some x)"

definition placed_ok :: "nat list \<Rightarrow> vs_state \<Rightarrow> bool" where
  "placed_ok ts st = (mset (vs_s1 st @ vs_s2 st @ vs_G st) = mset ts)"

definition emptied :: "vs_state \<Rightarrow> dir \<Rightarrow> nat list \<Rightarrow> bool" where
  "emptied st d us = (\<forall>u\<in>set us. u \<in> set (vs_G st) \<longrightarrow> vs_adj st d u = [])"

definition shrunk :: "vs_state \<Rightarrow> vs_state \<Rightarrow> bool" where
  "shrunk st st' = (set (vs_G st') \<subseteq> set (vs_G st) \<and> (\<forall>d x. vs_adj st d x = [] \<longrightarrow> vs_adj st' d x = []))"

lemma shrunk_refl [simp]: "shrunk st st"
  by (simp add: shrunk_def)

lemma shrunk_trans: "shrunk a b \<Longrightarrow> shrunk b c \<Longrightarrow> shrunk a c"
  unfolding shrunk_def by blast

lemma emptied_shrunk: "emptied st d us \<Longrightarrow> shrunk st st' \<Longrightarrow> emptied st' d us"
  unfolding emptied_def shrunk_def by blast

lemma edges_ok_cong: "edges_ok E u pend st \<Longrightarrow> vs_adj st' = vs_adj st \<Longrightarrow> vs_G st' = vs_G st \<Longrightarrow> edges_ok E u pend st'"
  by (simp add: edges_ok_def)

lemma adjust_score_heap_ok:
  assumes "heap_ok st" "iu \<in> set (vs_G st)"
  shows "heap_ok (adjust_score st iu w)"
proof -
  have "vs_hi st x \<noteq> vs_hi st iu" if "x \<in> set (vs_G st)" "x \<noteq> iu" for x
    using assms that unfolding heap_ok_def by (metis option.inject)
  then show ?thesis
    using assms by (fastforce simp: heap_ok_def adjust_score_def Let_def nth_append nth_list_update)
qed

lemma detach_step_ok:
  assumes "heap_ok st" "edges_ok E u pend st" "emptied st (opp d) news"
    "iu \<in> pend (opp d)" "iu \<in> set (vs_G st)" "u \<notin> set (vs_G st)"
  shows "\<exists>st' news'. detach_step d u (st, news) iu = Inr (st', news') \<and> heap_ok st' \<and>
    edges_ok E u (pend(opp d := pend (opp d) - {iu})) st' \<and> emptied st' (opp d) news' \<and> shrunk st st' \<and>
    (\<forall>d'. vs_adj st' d' u = vs_adj st d' u)"
proof -
  have "u \<in> kset (vs_adj st (opp d) iu)" using assms(2,4,5) by (auto simp: edges_ok_def)
  then obtain w where w: "dict_get (vs_adj st (opp d) iu) u = Inr w"
    by (auto simp: dict_get_def kset_dom)
  define st1 where "st1 = st\<lparr>vs_adj := (vs_adj st)(opp d := (vs_adj st (opp d))(iu := dict_del u (vs_adj st (opp d) iu)))\<rparr>"
  define st2 where "st2 = adjust_score st1 iu (if d = Incoming then - w else w)"
  define news' where "news' = (if vs_adj st2 (opp d) iu = [] then oset_add news iu else news)"
  have step: "detach_step d u (st, news) iu = Inr (st2, news')"
    using w by (simp add: detach_step_def st1_def st2_def news'_def Let_def)
  have G [simp]: "vs_G st1 = vs_G st" "vs_G st2 = vs_G st" "vs_adj st2 = vs_adj st1"
    by (simp_all add: st1_def st2_def)
  have "heap_ok st2" unfolding st2_def
    by (rule adjust_score_heap_ok) (use assms(1,5) in \<open>simp_all add: heap_ok_def st1_def\<close>)
  moreover have "edges_ok E u (pend(opp d := pend (opp d) - {iu})) st2"
    using assms(2,6) by (auto simp: edges_ok_def st1_def)
  moreover have sh: "shrunk st st2" by (auto simp: shrunk_def st1_def dict_del_def)
  moreover have "emptied st2 (opp d) news'"
    using emptied_shrunk[OF assms(3) sh] by (auto simp: emptied_def news'_def)
  moreover have "iu \<noteq> u" using assms(5,6) by auto
  then have "\<forall>d'. vs_adj st2 d' u = vs_adj st d' u" by (simp add: st1_def)
  ultimately show ?thesis using step by blast
qed

lemma detach_ok:
  assumes "heap_ok st" "edges_ok E u pend st" "emptied st (opp d) news" "u \<notin> set (vs_G st)"
    "kset (vs_adj st d u) = pend (opp d)" "distinct (keys (vs_adj st d u))" "pend (opp d) \<subseteq> set (vs_G st)"
  shows "\<exists>st' news'. detach d u (st, news) = Inr (st', news') \<and> heap_ok st' \<and>
    edges_ok E u (pend(opp d := {})) st' \<and> emptied st' (opp d) news' \<and> shrunk st st' \<and>
    (\<forall>d'. vs_adj st' d' u = vs_adj st d' u) \<and>
    vs_G st' = vs_G st \<and> vs_s1 st' = vs_s1 st \<and> vs_s2 st' = vs_s2 st"
proof -
  let ?P = "\<lambda>ys p. heap_ok (fst p) \<and> edges_ok E u (pend(opp d := pend (opp d) - set ys)) (fst p) \<and>
    emptied (fst p) (opp d) (snd p) \<and> shrunk st (fst p) \<and> (\<forall>d'. vs_adj (fst p) d' u = vs_adj st d' u) \<and> vs_G (fst p) = vs_G st"
  have "\<exists>p. for_each (detach_step d u) (st, news) (keys (vs_adj st d u)) = Inr p \<and> ?P (keys (vs_adj st d u)) p"
  proof (rule for_each_invariant[where P = ?P])
    show "?P [] (st, news)" using assms by (simp add: fun_upd_idem)
    fix ys x zs p assume split: "keys (vs_adj st d u) = ys @ x # zs" and P: "?P ys p"
    have "x \<in> set (keys (vs_adj st d u))" using split by simp
    then have x: "x \<in> pend (opp d) - set ys" using assms(5,6) split unfolding kset_iff[symmetric] by auto
    from detach_step_ok[of "fst p" E u "pend(opp d := pend (opp d) - set ys)" d "snd p" x] P x assms(4,7)
    obtain st' news' where st': "detach_step d u p x = Inr (st', news')" "heap_ok st'"
      "edges_ok E u (pend(opp d := pend (opp d) - set ys - {x})) st'" "emptied st' (opp d) news'" "shrunk (fst p) st'"
      "\<forall>d'. vs_adj st' d' u = vs_adj (fst p) d' u" by auto
    moreover have "vs_G st' = vs_G (fst p)" using detach_step_frame[of d u "fst p" "snd p" x st' news'] st'(1) by simp
    moreover have "pend (opp d) - set ys - {x} = pend (opp d) - set (ys @ [x])" by auto
    ultimately show "\<exists>p'. detach_step d u p x = Inr p' \<and> ?P (ys @ [x]) p'" using P shrunk_trans by force
  qed
  then obtain p where p: "detach d u (st, news) = Inr p" "?P (keys (vs_adj st d u)) p"
    by (auto simp: detach_def)
  moreover have "pend (opp d) - set (keys (vs_adj st d u)) = {}" using assms(5) by (simp add: kset_def)
  then have "edges_ok E u (pend(opp d := {})) (fst p)" using p(2) by metis
  ultimately show ?thesis using detach_frame[of d u st news "fst p" "snd p"] by (intro exI[of _ "fst p"] exI[of _ "snd p"]) auto
qed

text \<open>Taking a vertex out: what its neighbours still know of it.\<close>

lemma take_out:
  assumes "heap_ok st" "edges_ok E u0 (\<lambda>_. {}) st" "u \<in> set (vs_G st)" "(u, u) \<notin> E"
    "vs_G st' = removeAll u (vs_G st)" "vs_adj st' = vs_adj st" "vs_items st' = vs_items st"
    "vs_hi st' = vs_hi st" "vs_heap st' = vs_heap st"
  shows "heap_ok st'" "edges_ok E u (\<lambda>d. {x \<in> set (vs_G st'). nbr E d x u}) st'"
    "kset (vs_adj st' d u) = {x \<in> set (vs_G st'). nbr E d u x}" "distinct (keys (vs_adj st' d u))" "shrunk st st'"
proof -
  have irr: "\<not> nbr E d u u" for d using assms(4) by (cases d) (auto simp: nbr_def)
  show "heap_ok st'" using assms by (auto simp: heap_ok_def)
  show "edges_ok E u (\<lambda>d. {x \<in> set (vs_G st'). nbr E d x u}) st'"
    using assms(2,3,5,6) by (auto simp: edges_ok_def)
  show "kset (vs_adj st' d u) = {x \<in> set (vs_G st'). nbr E d u x}" "distinct (keys (vs_adj st' d u))"
    using assms(2,3,5,6) irr by (auto simp: edges_ok_def)
  show "shrunk st st'" using assms(5,6) by (auto simp: shrunk_def)
qed

lemma dir_fun_empty: "pend d = {} \<Longrightarrow> pend (opp d) = {} \<Longrightarrow> pend = (\<lambda>_. {})"
proof
  fix x assume "pend d = {}" "pend (opp d) = {}"
  then show "pend x = {}" by (cases d; cases x) auto
qed

definition vs_ok :: "(nat \<times> nat) set \<Rightarrow> nat list \<Rightarrow> vs_state \<Rightarrow> bool" where
  "vs_ok E ts st = (heap_ok st \<and> edges_ok E 0 (\<lambda>_. {}) st \<and> distinct (vs_G st) \<and> placed_ok ts st)"

lemma edges_ok_no_pend: "edges_ok E u (\<lambda>_. {}) st = edges_ok E v (\<lambda>_. {}) st"
  by (simp add: edges_ok_def)

lemma mset_removeAll_distinct: "distinct xs \<Longrightarrow> u \<in> set xs \<Longrightarrow> mset xs = add_mset u (mset (removeAll u xs))"
  by (simp add: distinct_remove1_removeAll[symmetric])

lemma phase_step_ok:
  assumes "vs_ok E ts st" "emptied st (opp d) news" "irrefl E" "emptied st (opp d) [u]"
  shows "\<exists>st' news'. phase_step d (st, news) u = Inr (st', news') \<and> vs_ok E ts st' \<and>
    emptied st' (opp d) news' \<and> shrunk st st'"
proof (cases "u \<in> set (vs_G st)")
  case True
  define st1 where "st1 = (if d = Incoming then st\<lparr>vs_s2 := u # vs_s2 st\<rparr> else st\<lparr>vs_s1 := vs_s1 st @ [u]\<rparr>)"
  define st2 where "st2 = st1\<lparr>vs_G := removeAll u (vs_G st1)\<rparr>"
  have f: "vs_G st2 = removeAll u (vs_G st)" "vs_adj st2 = vs_adj st" "vs_items st2 = vs_items st"
    "vs_hi st2 = vs_hi st" "vs_heap st2 = vs_heap st"
    by (simp_all add: st1_def st2_def)
  have inv: "heap_ok st" "edges_ok E 0 (\<lambda>_. {}) st" "(u, u) \<notin> E"
    using assms(1,3) by (auto simp: vs_ok_def irrefl_def)
  note out = take_out[OF inv(1,2) True inv(3) f]
  have e: "emptied st2 (opp d) news" using assms(2) out(5) by (rule emptied_shrunk)
  have none: "{x \<in> set (vs_G st2). nbr E d x u} = {}"
    using out(3)[of "opp d"] assms(4) True f(2) by (simp add: emptied_def)
  have "kset (vs_adj st2 d u) = {x \<in> set (vs_G st2). nbr E (opp d) x u}" "u \<notin> set (vs_G st2)"
    using out(3) f(1) by auto
  from detach_ok[OF out(1,2) e this(2) this(1) out(4)]
  obtain st' news' where st': "detach d u (st2, news) = Inr (st', news')" "heap_ok st'"
    "edges_ok E u ((\<lambda>d. {x \<in> set (vs_G st2). nbr E d x u})(opp d := {})) st'"
    "emptied st' (opp d) news'" "shrunk st2 st'" "vs_G st' = vs_G st2" "vs_s1 st' = vs_s1 st2" "vs_s2 st' = vs_s2 st2"
    by auto
  have "(\<lambda>d. {x \<in> set (vs_G st2). nbr E d x u})(opp d := {}) = (\<lambda>_. {})"
    by (rule dir_fun_empty[of _ d]) (use none in auto)
  then have "edges_ok E 0 (\<lambda>_. {}) st'" using st'(3) edges_ok_no_pend by metis
  moreover have "placed_ok ts st'"
    using assms(1) True st'(6-8) mset_removeAll_distinct[of "vs_G st" u]
    by (auto simp: placed_ok_def vs_ok_def st1_def st2_def)
  moreover have "distinct (vs_G st')" using assms(1) st'(6) f(1) by (simp add: vs_ok_def distinct_removeAll)
  ultimately have "vs_ok E ts st'" using st'(2) by (simp add: vs_ok_def)
  then show ?thesis using True st'(1,4,5) out(5) shrunk_trans
    by (auto simp: phase_step_def st1_def[symmetric] st2_def[symmetric] Let_def)
next
  case False
  then show ?thesis using assms by (simp add: phase_step_def)
qed

lemma phase_round_ok:
  assumes "vs_ok E ts st" "irrefl E" "emptied st (opp d) us"
  shows "\<exists>st' news'. phase_round d st us = Inr (st', news') \<and> vs_ok E ts st' \<and>
    emptied st' (opp d) news' \<and> shrunk st st'"
proof -
  let ?P = "\<lambda>p. vs_ok E ts (fst p) \<and> emptied (fst p) (opp d) (snd p) \<and> shrunk st (fst p)"
  have "\<exists>p. for_each (phase_step d) (st, []) us = Inr p \<and> ?P p"
  proof (rule for_each_invariant[where P = "\<lambda>_. ?P"])
    fix ys u zs p assume us: "us = ys @ u # zs" and P: "?P p"
    have "emptied (fst p) (opp d) us" using emptied_shrunk assms(3) P by blast
    then have "emptied (fst p) (opp d) [u]" using us by (simp add: emptied_def)
    from phase_step_ok[OF _ _ assms(2) this, of ts "snd p"] P
    show "\<exists>p'. phase_step d p u = Inr p' \<and> ?P p'" using shrunk_trans by force
  qed (use assms(1) in \<open>simp add: emptied_def\<close>)
  then show ?thesis by (auto simp: phase_round_def)
qed

lemma phase_loop_ok:
  assumes "vs_ok E ts st" "irrefl E" "emptied st (opp d) us"
  shows "\<exists>st'. phase_loop d st us = Inr st' \<and> vs_ok E ts st' \<and> shrunk st st'"
  using assms
proof (induction d st us rule: phase_loop.induct)
  case (1 d st us)
  show ?case
  proof (cases "us = []")
    case False
    obtain p where p: "phase_round d st us = Inr p" "vs_ok E ts (fst p)" "emptied (fst p) (opp d) (snd p)" "shrunk st (fst p)"
      using phase_round_ok[OF "1.prems"] by auto
    with "1.IH"[OF False p(1,2) "1.prems"(2) p(3)] show ?thesis
      using False by (subst phase_loop.simps) (auto intro: shrunk_trans)
  qed (use "1.prems" in \<open>simp add: phase_loop.simps\<close>)
qed

lemma pop_best_ok:
  assumes "heap_ok st" "vs_G st \<noteq> []"
  shows "\<exists>u st'. pop_best st = Inr (u, st') \<and> u \<in> set (vs_G st) \<and> st' = st\<lparr>vs_heap := vs_heap st'\<rparr> \<and>
    heap_ok (st'\<lparr>vs_G := removeAll u (vs_G st)\<rparr>)"
  using assms
proof (induction st rule: pop_best.induct)
  case (1 st)
  have "vs_hi st (hd (vs_G st)) \<in> set (vs_heap st)" using "1.prems" by (simp add: heap_ok_def)
  then have "vs_heap st \<noteq> []" by auto
  then obtain i q where pop: "heappop (item_lt (vs_items st)) (vs_heap st) = Inr (i, q)"
    using heappop_nonempty by blast
  let ?st = "st\<lparr>vs_heap := q\<rparr>"
  have other: "vs_hi st x \<in> set q" if "x \<in> set (vs_G st)" "hi_item (vs_items st ! i) \<noteq> Some x" for x
    using hq.pop_other[OF pop, of "vs_hi st x"] that "1.prems" by (auto simp: heap_ok_def)
  show ?case
  proof (cases "\<exists>u. hi_item (vs_items st ! i) = Some u \<and> u \<in> set (vs_G st)")
    case True
    then obtain u where u: "hi_item (vs_items st ! i) = Some u" "u \<in> set (vs_G st)" by blast
    then have "pop_best st = Inr (u, ?st)" using pop by (subst pop_best.simps) (simp add: Let_def)
    moreover have "heap_ok (?st\<lparr>vs_G := removeAll u (vs_G st)\<rparr>)"
      using other u(1) "1.prems"(1) by (auto simp: heap_ok_def)
    ultimately show ?thesis using u(2) by simp
  next
    case False
    then have rec: "pop_best st = pop_best ?st"
      using pop by (subst pop_best.simps) (auto simp: Let_def split: option.splits)
    have ok: "heap_ok ?st" "vs_G ?st \<noteq> []" using other False "1.prems" by (auto simp: heap_ok_def)
    have "\<exists>u st'. pop_best ?st = Inr (u, st') \<and> u \<in> set (vs_G ?st) \<and> st' = ?st\<lparr>vs_heap := vs_heap st'\<rparr> \<and>
      heap_ok (st'\<lparr>vs_G := removeAll u (vs_G ?st)\<rparr>)"
    proof (cases "hi_item (vs_items st ! i)")
      case None
      then show ?thesis using "1.IH"(1)[OF pop refl] ok by simp
    next
      case (Some u)
      then show ?thesis using "1.IH"(2)[OF pop refl, of u] False ok by simp
    qed
    then show ?thesis using rec by simp
  qed
qed

text \<open>One round of the outer loop that takes the best vertex.\<close>

lemma take_best_ok:
  assumes "vs_ok E ts st" "irrefl E" "vs_G st \<noteq> []" "pop_best st = Inr (u, stp)"
  shows "\<exists>q r. detach Outgoing u (stp\<lparr>vs_s1 := vs_s1 stp @ [u], vs_G := removeAll u (vs_G stp)\<rparr>, []) = Inr q \<and>
    detach Incoming u (fst q, []) = Inr r \<and> vs_ok E ts (fst r) \<and>
    emptied (fst r) Outgoing (snd r) \<and> emptied (fst r) Incoming (snd q)"
proof -
  have ok: "heap_ok st" "edges_ok E 0 (\<lambda>_. {}) st" "(u, u) \<notin> E" using assms(1,2) by (auto simp: vs_ok_def irrefl_def)
  have pop: "u \<in> set (vs_G st)" "stp = st\<lparr>vs_heap := vs_heap stp\<rparr>" "heap_ok (stp\<lparr>vs_G := removeAll u (vs_G st)\<rparr>)"
    using pop_best_ok[OF ok(1) assms(3)] assms(4) by auto
  define st3 where "st3 = stp\<lparr>vs_s1 := vs_s1 stp @ [u], vs_G := removeAll u (vs_G stp)\<rparr>"
  obtain hp where hp: "stp = st\<lparr>vs_heap := hp\<rparr>" using pop(2) by blast
  define st3' where "st3' = st3\<lparr>vs_heap := vs_heap st\<rparr>"
  have f: "vs_G st3' = removeAll u (vs_G st)" "vs_adj st3' = vs_adj st" "vs_items st3' = vs_items st"
    "vs_hi st3' = vs_hi st" "vs_heap st3' = vs_heap st"
    by (simp_all add: st3'_def st3_def hp)
  note out = take_out[OF ok(1,2) pop(1) ok(3) f]
  have G3: "vs_G st3 = vs_G st3'" "vs_adj st3 = vs_adj st3'" by (simp_all add: st3'_def)
  have heap3: "heap_ok st3" using pop(3) by (simp add: heap_ok_def st3_def hp)
  define pend where "pend = (\<lambda>d. {x \<in> set (vs_G st3). nbr E d x u})"
  have edges3: "edges_ok E u pend st3" using out(2) G3 by (simp add: edges_ok_def pend_def)
  have adj: "kset (vs_adj st3 d u) = pend (opp d)" "distinct (keys (vs_adj st3 d u))" "pend d \<subseteq> set (vs_G st3)" for d
    using out(3,4) G3 by (auto simp: pend_def)
  have nG: "u \<notin> set (vs_G st3)" by (simp add: st3_def)
  obtain st4 sources where st4: "detach Outgoing u (st3, []) = Inr (st4, sources)" "heap_ok st4"
    "edges_ok E u (pend(Incoming := {})) st4" "emptied st4 Incoming sources" "\<forall>d'. vs_adj st4 d' u = vs_adj st3 d' u"
    "vs_G st4 = vs_G st3" "vs_s1 st4 = vs_s1 st3" "vs_s2 st4 = vs_s2 st3"
    using detach_ok[OF heap3 edges3 _ nG adj, of Outgoing "[]"] by (auto simp: emptied_def)
  obtain st5 sinks where st5: "detach Incoming u (st4, []) = Inr (st5, sinks)" "heap_ok st5"
    "edges_ok E u (pend(Incoming := {}, Outgoing := {})) st5" "emptied st5 Outgoing sinks" "shrunk st4 st5"
    "vs_G st5 = vs_G st3" "vs_s1 st5 = vs_s1 st3" "vs_s2 st5 = vs_s2 st3"
    using detach_ok[OF st4(2,3), of Incoming "[]"] nG adj[of Incoming] adj(3)[of Outgoing] st4(5-8) by (auto simp: emptied_def)
  have "pend(Incoming := {}, Outgoing := {}) = (\<lambda>_. {})" by (rule dir_fun_empty[of _ Incoming]) auto
  then have "edges_ok E 0 (\<lambda>_. {}) st5" using st5(3) edges_ok_no_pend by metis
  moreover have "placed_ok ts st5"
    using assms(1) pop(1) st5(6-8) mset_removeAll_distinct[of "vs_G st" u]
    by (auto simp: placed_ok_def vs_ok_def st3_def hp)
  moreover have "distinct (vs_G st5)" using assms(1) st5(6) by (simp add: vs_ok_def st3_def hp distinct_removeAll)
  ultimately have "vs_ok E ts st5" using st5(2) by (simp add: vs_ok_def)
  moreover have "emptied st5 Incoming sources" using emptied_shrunk[OF st4(4) st5(5)] .
  ultimately show ?thesis using st4(1) st5(1,4) by (auto simp: st3_def[symmetric])
qed

lemma vs_loop_ok:
  assumes "vs_ok E ts st" "irrefl E" "emptied st Outgoing sinks" "emptied st Incoming sources"
  shows "\<exists>st'. vs_loop st sinks sources = Inr st' \<and> vs_G st' = [] \<and> placed_ok ts st'"
  using assms
proof (induction st sinks sources rule: vs_loop.induct)
  case (1 st sinks sources)
  show ?case
  proof (cases "vs_G st = []")
    case True
    then show ?thesis using "1.prems"(1) by (subst vs_loop.simps) (simp add: vs_ok_def)
  next
    case False
    obtain st1 where st1: "phase_loop Incoming st sinks = Inr st1" "vs_ok E ts st1" "shrunk st st1"
      using phase_loop_ok[OF "1.prems"(1,2), of Incoming sinks] "1.prems"(3) by auto
    have "emptied st1 (opp Outgoing) sources" using emptied_shrunk[OF "1.prems"(4) st1(3)] by simp
    then obtain st2 where st2: "phase_loop Outgoing st1 sources = Inr st2" "vs_ok E ts st2"
      using phase_loop_ok[OF st1(2) "1.prems"(2), of Outgoing sources] by auto
    show ?thesis
    proof (cases "vs_G st2 = []")
      case True
      then show ?thesis using False st1(1) st2 by (subst vs_loop.simps) (simp add: vs_ok_def)
    next
      case nz: False
      obtain u stp where pop: "pop_best st2 = Inr (u, stp)"
        using pop_best_ok[of st2] st2(2) nz by (auto simp: vs_ok_def)
      obtain q r where qr: "detach Outgoing u (stp\<lparr>vs_s1 := vs_s1 stp @ [u], vs_G := removeAll u (vs_G stp)\<rparr>, []) = Inr q"
        "detach Incoming u (fst q, []) = Inr r" "vs_ok E ts (fst r)"
        "emptied (fst r) Outgoing (snd r)" "emptied (fst r) Incoming (snd q)"
        using take_best_ok[OF st2(2) "1.prems"(2) nz pop] by blast
      have "vs_loop st sinks sources = vs_loop (fst r) (snd r) (snd q)"
        using False nz st1(1) st2(1) pop qr(1,2) by (subst vs_loop.simps) (simp add: Let_def)
      moreover have "\<exists>st'. vs_loop (fst r) (snd r) (snd q) = Inr st' \<and> vs_G st' = [] \<and> placed_ok ts st'"
        by (rule "1.IH"[OF False st1(1) st2(1) nz pop refl refl]) (use qr "1.prems"(2) in auto)
      ultimately show ?thesis by simp
    qed
  qed
qed

section \<open>The result\<close>

lemma keys_int_weights [simp]: "keys (int_weights d) = keys d" "kset (int_weights d) = kset d"
  by (induction d) (auto simp: int_weights_def)

lemma int_weights_empty [simp]: "int_weights d = [] \<longleftrightarrow> d = []"
  by (simp add: int_weights_def)

lemma takeWhile_position:
  assumes "x \<in> set ts"
  shows "length (takeWhile (\<lambda>y. y \<noteq> x) ts) < length ts" "ts ! length (takeWhile (\<lambda>y. y \<noteq> x) ts) = x"
  using assms by (induction ts) auto

text \<open>A graph on the transfers \<open>ts\<close>, recorded on both ends of every edge.\<close>

definition graph_on :: "nat list \<Rightarrow> store \<Rightarrow> bool" where
  "graph_on ts h = (distinct ts \<and> (\<forall>i\<in>set ts. i < length h) \<and> before h = after h \<and>
     before h \<subseteq> set ts \<times> set ts \<and> irrefl (before h) \<and> weights_known h)"

lemma vs_init_ok:
  assumes "graph_on ts h"
  shows "vs_ok (before h) ts (vs_init ts h)"
proof -
  have kn: "known (goes_before (h ! x)) \<and> known (goes_after (h ! x))" if "x \<in> set ts" for x
    using assms that by (auto simp: graph_on_def weights_known_def)
  have adj: "vs_adj (vs_init ts h) d x = int_weights (case d of Incoming \<Rightarrow> goes_after (h ! x) | Outgoing \<Rightarrow> goes_before (h ! x))" for d x
    by (simp add: vs_init_def Let_def)
  have "edges_ok (before h) 0 (\<lambda>_. {}) (vs_init ts h)"
    unfolding edges_ok_def
  proof (intro ballI allI conjI)
    fix x d assume "x \<in> set (vs_G (vs_init ts h))"
    then have x: "x \<in> set ts" by (simp add: vs_init_def Let_def)
    show "distinct (keys (vs_adj (vs_init ts h) d x))" using kn[OF x] by (cases d) (auto simp: adj known_def)
    have "kset (goes_before (h ! x)) = {y \<in> set ts. (x, y) \<in> before h}"
      "kset (goes_after (h ! x)) = {y \<in> set ts. (y, x) \<in> after h}"
      using assms x unfolding graph_on_def before_def after_def by blast+
    then show "kset (vs_adj (vs_init ts h) d x) = {y \<in> set (vs_G (vs_init ts h)). nbr (before h) d x y} \<union> (if x \<in> {} then {0} else {})"
      using assms by (cases d) (auto simp: adj nbr_def graph_on_def vs_init_def Let_def)
  qed
  moreover have "heap_ok (vs_init ts h)"
    using takeWhile_position[of _ ts] by (auto simp: heap_ok_def vs_init_def Let_def)
  ultimately show ?thesis
    using assms by (auto simp: vs_ok_def placed_ok_def vs_init_def Let_def graph_on_def)
qed

lemma FindVertexSequence_spec:
  assumes "graph_on ts h"
  shows "\<exists>ts'. FindVertexSequence ts h = Inr (ts', set_orders ts' h) \<and> mset ts' = mset ts"
proof -
  let ?st = "vs_init ts h"
  have "known (goes_before (h ! x)) \<and> known (goes_after (h ! x))" if "x \<in> set ts" for x
    using assms that by (auto simp: graph_on_def weights_known_def)
  then have known: "\<not> (\<exists>x\<in>set ts. \<exists>w\<in>snd ` (set (goes_before (h ! x)) \<union> set (goes_after (h ! x))). w = None)"
    unfolding known_def by blast
  have e: "emptied ?st d (filter (\<lambda>u. vs_adj ?st d u = []) ts)" for d by (simp add: emptied_def)
  have "irrefl (before h)" using assms unfolding graph_on_def by blast
  from vs_loop_ok[OF vs_init_ok[OF assms] this e e]
  obtain st' where "vs_loop ?st (filter (\<lambda>u. vs_adj ?st Outgoing u = []) ts) (filter (\<lambda>u. vs_adj ?st Incoming u = []) ts) = Inr st'"
    "vs_G st' = []" "placed_ok ts st'" by blast
  then show ?thesis unfolding FindVertexSequence_def if_not_P[OF known] Let_def by (auto simp: placed_ok_def)
qed

text \<open>The numbers \<open>set_orders\<close> gives; nothing else changes.\<close>

lemma set_orders_frame:
  "length (set_orders ts h) = length h"
  "\<exists>n. set_orders ts h ! i = (h ! i)\<lparr>xf_order := n\<rparr>"
proof -
  have "length (foldl (\<lambda>h (i, x). upd x (\<lambda>t. t\<lparr>xf_order := i\<rparr>) h) h ps) = length h \<and>
    (\<exists>n. foldl (\<lambda>h (i, x). upd x (\<lambda>t. t\<lparr>xf_order := i\<rparr>) h) h ps ! i = (h ! i)\<lparr>xf_order := n\<rparr>)" for ps
  proof (induction ps rule: rev_induct)
    case Nil
    then show ?case by (intro conjI exI[of _ "xf_order (h ! i)"]) auto
  next
    case (snoc p ps)
    obtain a b where p: "p = (a, b)" by (cases p)
    let ?g = "foldl (\<lambda>h (i, x). upd x (\<lambda>t. t\<lparr>xf_order := i\<rparr>) h) h ps"
    have "foldl (\<lambda>h (i, x). upd x (\<lambda>t. t\<lparr>xf_order := i\<rparr>) h) h (ps @ [p]) = ?g[b := (?g ! b)\<lparr>xf_order := a\<rparr>]"
      by (simp add: p upd_def)
    then show ?case using snoc by (cases "b = i"; cases "i < length ?g") (auto simp: list_update_beyond)
  qed
  then show "length (set_orders ts h) = length h" "\<exists>n. set_orders ts h ! i = (h ! i)\<lparr>xf_order := n\<rparr>"
    by (auto simp: set_orders_def)
qed

lemma set_orders_order:
  assumes "distinct ts" "\<forall>i\<in>set ts. i < length h" "k < length ts"
  shows "xf_order (set_orders ts h ! (ts ! k)) = k"
  using assms
proof (induction ts arbitrary: k rule: rev_induct)
  case (snoc x ts)
  have so: "set_orders (ts @ [x]) h = upd x (\<lambda>t. t\<lparr>xf_order := length ts\<rparr>) (set_orders ts h)"
    by (simp add: set_orders_def)
  show ?case
  proof (cases "k = length ts")
    case True
    then show ?thesis using snoc.prems by (simp add: so nth_upd set_orders_frame)
  next
    case False
    then have k: "k < length ts" "ts ! k \<in> set ts" using snoc.prems by auto
    then have "ts ! k \<noteq> x" using snoc.prems(1) by auto
    then show ?thesis using snoc.IH[OF _ _ k(1)] snoc.prems k by (simp add: so nth_upd set_orders_frame nth_append)
  qed
qed simp

end
