(* ===== verification/TransferOrder.thy ===== *)
theory TransferOrder
  imports VertexSequence
begin

text \<open>
  The rest of \<open>BlockImageDiff.FindSequenceForTransfers\<close>: the backward edges of the vertex sequence
  are reversed and paid for with stashed blocks (\<open>ReverseBackwardEdges\<close>), the resulting acyclic
  graph is sorted topologically (\<open>ImproveVertexSequence\<close>). The theory shows that none of the steps
  raises and what the resulting sequence and stash records satisfy (\<open>sequence_ok\<close>).
\<close>

section \<open>Operations\<close>

text \<open>The body of the loops of \<open>ReverseBackwardEdges\<close>; the state is the store and \<open>stash_raw_id\<close>
  (the counters of the log message are left out).\<close>

definition reverse_edge :: "nat \<Rightarrow> store \<times> nat \<Rightarrow> nat \<Rightarrow> (store \<times> nat) res" where
  "reverse_edge xf = (\<lambda>(h, stash_raw_id) u.
     if xf_order (h ! xf) < xf_order (h ! u) then Inr (h, stash_raw_id)
     else let overlap = rs_intersect (src_ranges (h ! xf)) (tgt_ranges (h ! u)) in
       try_bind (py_assert (rs_bool overlap)) (\<lambda>_.
         let h1 = upd u (\<lambda>x. x\<lparr>stash_before := stash_before x @ [(stash_raw_id, overlap)]\<rparr>) h;
             h2 = upd xf (\<lambda>x. x\<lparr>use_stash := use_stash x @ [(stash_raw_id, overlap)]\<rparr>) h1
         in try_bind (py_del (goes_before (h2 ! xf)) u) (\<lambda>gb.
              let h3 = upd xf (\<lambda>x. x\<lparr>goes_before := gb\<rparr>) h2 in
              try_bind (py_del (goes_after (h3 ! u)) xf) (\<lambda>ga.
                let h4 = upd u (\<lambda>x. x\<lparr>goes_after := ga\<rparr>) h3;
                    h5 = upd xf (\<lambda>x. x\<lparr>goes_after := dict_set u None (goes_after x)\<rparr>) h4
                in Inr (upd u (\<lambda>x. x\<lparr>goes_before := dict_set xf None (goes_before x)\<rparr>) h5, stash_raw_id + 1)))))"

definition ReverseBackwardEdges :: "nat list \<Rightarrow> store \<Rightarrow> store res" where
  "ReverseBackwardEdges ts h =
     try_bind (for_each (\<lambda>st xf. for_each (reverse_edge xf) st (keys (goes_before (fst st ! xf)))) (h, 0) ts)
       (\<lambda>st. Inr (fst st))"

text \<open>The heap of \<open>ImproveVertexSequence\<close> holds tuples \<open>(NetStashChange, order, transfer)\<close>; they are
  compared lexicographically and the orders are distinct, so the third component never decides.\<close>

type_synonym cand = "int \<times> nat \<times> nat"

fun cand_lt :: "cand \<Rightarrow> cand \<Rightarrow> bool" where
  "cand_lt (c, i, _) (c', i', _) = (c < c' \<or> c = c' \<and> i < i')"

definition cand_of :: "store \<Rightarrow> nat \<Rightarrow> cand" where
  "cand_of h u = (NetStashChange (h ! u), xf_order (h ! u), u)"

text \<open>The attribute \<open>u.incoming\<close>, which only the transfers of the sequence get.\<close>

type_synonym incoming = "(nat, (nat, int option) odict) odict"

definition get_incoming :: "incoming \<Rightarrow> nat \<Rightarrow> (nat, int option) odict res" where
  "get_incoming inc u = (case map_of inc u of None \<Rightarrow> Inl AttributeError | Some d \<Rightarrow> Inr d)"

definition release :: "store \<Rightarrow> nat \<Rightarrow> incoming \<times> cand list \<Rightarrow> nat \<Rightarrow> (incoming \<times> cand list) res" where
  "release h xf = (\<lambda>(inc, S) u.
     try_bind (get_incoming inc u) (\<lambda>d.
       try_bind (py_del d xf) (\<lambda>d'.
         Inr (dict_set u d' inc, if d' = [] then heappush cand_lt S (cand_of h u) else S))))"

subsection \<open>The topological sort ends\<close>

definition edges_left :: "incoming \<Rightarrow> nat" where
  "edges_left inc = sum_list (map (\<lambda>(_, d). length d) inc)"

lemma length_dict_del_less: "k \<in> kset d \<Longrightarrow> length (dict_del k d) < length d"
  unfolding dict_del_def kset_def by (auto intro!: length_filter_less)

lemma edges_left_dict_set:
  "map_of inc u = Some d \<Longrightarrow> length d' < length d \<Longrightarrow> edges_left (dict_set u d' inc) < edges_left inc"
  by (induction inc) (auto simp: edges_left_def split: if_splits)

lemma release_less:
  assumes "release h xf (inc, S) u = Inr (inc', S')"
  shows "edges_left inc' + length S' \<le> edges_left inc + length S"
proof -
  from assms obtain d where d: "map_of inc u = Some d" "xf \<in> kset d" "inc' = dict_set u (dict_del xf d) inc"
      "S' = S \<or> S' = heappush cand_lt S (cand_of h u)"
    by (auto simp: release_def get_incoming_def py_del_def split: option.splits if_splits)
  have "length (heappush cand_lt S (cand_of h u)) = Suc (length S)" by (metis mset_heappush size_add_mset size_mset)
  then show ?thesis using d edges_left_dict_set[OF d(1) length_dict_del_less[OF d(2)]] by auto
qed

function sort_loop :: "store \<Rightarrow> incoming \<Rightarrow> cand list \<Rightarrow> nat list \<Rightarrow> nat list res" where
  "sort_loop h inc S L =
     (if S = [] then Inr L
      else try_bind (heappop cand_lt S) (\<lambda>p.
        let xf = snd (snd (fst p)) in
        try_bind (for_each (release h xf) (inc, snd p) (keys (goes_before (h ! xf)))) (\<lambda>q.
          sort_loop h (fst q) (snd q) (L @ [xf]))))"
  by pat_completeness auto
termination
proof (relation "measure (\<lambda>(h, inc, S, L). edges_left inc + length S)", goal_cases)
  case (2 h inc S L p xf q)
  let ?P = "\<lambda>r. edges_left (fst r) + length (snd r) \<le> edges_left inc + length (snd p)"
  have "?P q"
  proof (rule for_each_partial_invariant[where P = ?P])
    show "for_each (release h xf) (inc, snd p) (keys (goes_before (h ! xf))) = Inr q" using 2 by simp
    fix u s s' assume "?P s" "release h xf s u = Inr s'"
    then show "?P s'" using release_less[of h xf "fst s" "snd s" u "fst s'" "snd s'"] by simp
  qed simp
  then show ?case using 2 hq.pop_size[of cand_lt S "fst p" "snd p"] by simp
qed simp

declare sort_loop.simps [simp del]

definition ImproveVertexSequence :: "nat list \<Rightarrow> store \<Rightarrow> (nat list \<times> store) res" where
  "ImproveVertexSequence ts h =
     (let inc = map (\<lambda>x. (x, goes_after (h ! x))) ts;
          S = heapify cand_lt (map (cand_of h) (filter (\<lambda>u. goes_after (h ! u) = []) ts))
      in try_bind (sort_loop h inc S []) (\<lambda>L.
           try_bind (py_assert (length L = length ts)) (\<lambda>_. Inr (L, set_orders L h))))"

definition clear_dependencies :: "nat list \<Rightarrow> store \<Rightarrow> store" where
  "clear_dependencies ts h =
     foldl (\<lambda>h xf. upd xf (\<lambda>x. x\<lparr>goes_before := [], goes_after := [], stash_before := [], use_stash := []\<rparr>) h) h ts"

definition FindSequenceForTransfers :: "nat list \<Rightarrow> store \<Rightarrow> (nat list \<times> store) res" where
  "FindSequenceForTransfers ts h =
     try_bind (GenerateDigraph ts (clear_dependencies ts h)) (\<lambda>h1.
       try_bind (FindVertexSequence ts h1) (\<lambda>p.
         try_bind (ReverseBackwardEdges (fst p) (snd p)) (\<lambda>h3.
           ImproveVertexSequence (fst p) h3)))"

section \<open>What the passes keep\<close>

text \<open>The attributes of a transfer that ordering does not touch.\<close>

definition static :: "transfer \<Rightarrow> transfer" where
  "static x = x\<lparr>goes_before := [], goes_after := [], stash_before := [], use_stash := [], xf_order := 0\<rparr>"

lemma static_simps [simp]:
  "static (x\<lparr>goes_before := a\<rparr>) = static x" "static (x\<lparr>goes_after := a\<rparr>) = static x"
  "static (x\<lparr>stash_before := b\<rparr>) = static x" "static (x\<lparr>use_stash := b\<rparr>) = static x"
  "static (x\<lparr>xf_order := n\<rparr>) = static x"
  by (simp_all add: static_def)

lemma static_nth: "map static h' = map static h \<Longrightarrow> i < length h \<Longrightarrow> static (h' ! i) = static (h ! i)"
  by (metis length_map nth_map)

lemma static_fields:
  assumes "map static h' = map static h" "i < length h"
  shows "i < length h'" "tgt_ranges (h' ! i) = tgt_ranges (h ! i)" "src_ranges (h' ! i) = src_ranges (h ! i)"
    "xf_style (h' ! i) = xf_style (h ! i)" "src_name (h' ! i) = src_name (h ! i)"
proof -
  show i: "i < length h'" using assms by (metis length_map)
  note eq = static_nth[OF assms]
  show "tgt_ranges (h' ! i) = tgt_ranges (h ! i)" "src_ranges (h' ! i) = src_ranges (h ! i)"
    "xf_style (h' ! i) = xf_style (h ! i)" "src_name (h' ! i) = src_name (h ! i)"
    using arg_cong[OF eq, of tgt_ranges] arg_cong[OF eq, of src_ranges] arg_cong[OF eq, of xf_style]
      arg_cong[OF eq, of src_name] by (simp_all add: static_def)
qed

lemma static_core: "map core h' = map core h \<Longrightarrow> map static h' = map static h"
proof -
  assume eq: "map core h' = map core h"
  have "static x = static (core x)" for x by (simp add: core_def)
  then have "map static g = map static (map core g)" for g by simp
  then show ?thesis using eq by metis
qed

lemma static_set_orders: "map static (set_orders ts h) = map static h"
proof (rule nth_equalityI)
  fix i assume "i < length (map static (set_orders ts h))"
  moreover have "static (set_orders ts h ! i) = static (h ! i)"
    using set_orders_frame(2)[of ts h i] static_simps(5) by metis
  ultimately show "map static (set_orders ts h) ! i = map static h ! i" by (simp add: set_orders_frame)
qed (simp add: set_orders_frame)

section \<open>Reversing backward edges\<close>

text \<open>The blocks that transfer \<open>x\<close> reads and transfer \<open>u\<close> writes; the stash pairs that the list
  \<open>fl\<close> of reversed edges gives to a transfer, as the one that uses them (\<open>f = fst\<close>) or the one
  that has to make them (\<open>f = snd\<close>).\<close>

definition overlap_of :: "store \<Rightarrow> nat \<times> nat \<Rightarrow> range_set" where
  "overlap_of h = (\<lambda>(x, u). rs_intersect (src_ranges (h ! x)) (tgt_ranges (h ! u)))"

definition stash_log :: "store \<Rightarrow> (nat \<times> nat) list \<Rightarrow> (nat \<times> nat \<Rightarrow> nat) \<Rightarrow> nat \<Rightarrow> (nat \<times> range_set) list" where
  "stash_log h fl f x = map (\<lambda>i. (i, overlap_of h (fl ! i))) (filter (\<lambda>i. f (fl ! i) = x) [0..<length fl])"

lemma stash_log_snoc:
  "stash_log h (fl @ [e]) f x = stash_log h fl f x @ (if f e = x then [(length fl, overlap_of h e)] else [])"
proof -
  have "filter (\<lambda>i. f ((fl @ [e]) ! i) = x) [0..<length fl] = filter (\<lambda>i. f (fl ! i) = x) [0..<length fl]"
    by (rule filter_cong) (auto simp: nth_append)
  then show ?thesis by (auto simp: stash_log_def nth_append)
qed

definition dicts_ok :: "store \<Rightarrow> bool" where
  "dicts_ok h = (\<forall>x\<in>set h. distinct (keys (goes_before x)) \<and> distinct (keys (goes_after x)))"

definition same_orders :: "store \<Rightarrow> store \<Rightarrow> bool" where
  "same_orders h h' = (map xf_order h = map xf_order h')"

definition rev_inv :: "store \<Rightarrow> (nat \<times> nat) list \<Rightarrow> store \<Rightarrow> bool" where
  "rev_inv h0 fl h = (map static h = map static h0 \<and> same_orders h h0 \<and> dicts_ok h \<and>
     before h = (before h0 - set fl) \<union> (set fl)\<inverse> \<and> after h = before h \<and> distinct fl \<and>
     set fl \<subseteq> {(x, u) \<in> before h0. xf_order (h0 ! u) < xf_order (h0 ! x)} \<and>
     (\<forall>x<length h. use_stash (h ! x) = stash_log h0 fl fst x \<and> stash_before (h ! x) = stash_log h0 fl snd x))"

lemma same_orders_nth: "same_orders h h0 \<Longrightarrow> i < length h0 \<Longrightarrow> xf_order (h ! i) = xf_order (h0 ! i)"
  unfolding same_orders_def by (metis length_map nth_map)

lemma reverse_edge_ok:
  assumes inv: "rev_inv h0 fl h" and e: "(x, u) \<in> before h0" "(x, u) \<notin> set fl" "u < length h0" "x \<noteq> u"
    and bk: "xf_order (h0 ! u) < xf_order (h0 ! x)" and ov: "rs_bool (overlap_of h0 (x, u))"
  shows "\<exists>h'. reverse_edge x (h, length fl) u = Inr (h', length (fl @ [(x, u)])) \<and> rev_inv h0 (fl @ [(x, u)]) h'"
proof -
  have st: "map static h = map static h0" "same_orders h h0" and len: "length h = length h0"
    using inv by (auto simp: rev_inv_def dest: map_eq_imp_length_eq)
  have x: "x < length h0" using e(1) by (simp add: before_def)
  note fx = static_fields[OF st(1) x] and fu = static_fields[OF st(1) e(3)]
  let ?ov = "rs_intersect (src_ranges (h ! x)) (tgt_ranges (h ! u))"
  have ov_eq: "?ov = overlap_of h0 (x, u)" using fx fu by (simp add: overlap_of_def)
  have bx: "(x, u) \<in> before h" "(x, u) \<in> after h" using inv e by (auto simp: rev_inv_def)
  then have gk: "u \<in> kset (goes_before (h ! x))" "x \<in> kset (goes_after (h ! u))" by (auto simp: before_def after_def)
  have nrev: "(u, x) \<notin> set fl" using inv bk by (auto simp: rev_inv_def)
  define h' where "h' = upd u (\<lambda>y. y\<lparr>goes_before := dict_set x None (goes_before y)\<rparr>)
     (upd x (\<lambda>y. y\<lparr>goes_after := dict_set u None (goes_after y)\<rparr>)
     (upd u (\<lambda>y. y\<lparr>goes_after := dict_del x (goes_after (h ! u))\<rparr>)
     (upd x (\<lambda>y. y\<lparr>goes_before := dict_del u (goes_before (h ! x))\<rparr>)
     (upd x (\<lambda>y. y\<lparr>use_stash := use_stash y @ [(length fl, ?ov)]\<rparr>)
     (upd u (\<lambda>y. y\<lparr>stash_before := stash_before y @ [(length fl, ?ov)]\<rparr>) h)))))"
  have nth: "h' ! i = (if i = x then (h ! x)\<lparr>use_stash := use_stash (h ! x) @ [(length fl, ?ov)],
        goes_before := dict_del u (goes_before (h ! x)), goes_after := dict_set u None (goes_after (h ! x))\<rparr>
      else if i = u then (h ! u)\<lparr>stash_before := stash_before (h ! u) @ [(length fl, ?ov)],
        goes_before := dict_set x None (goes_before (h ! u)), goes_after := dict_del x (goes_after (h ! u))\<rparr>
      else h ! i)" if "i < length h0" for i
    using that e(4) x len by (simp add: h'_def nth_upd)
  have len': "length h' = length h0" by (simp add: h'_def len)
  have run: "reverse_edge x (h, length fl) u = Inr (h', length (fl @ [(x, u)]))"
    using bk ov ov_eq gk e(3,4) x fx fu len same_orders_nth[OF st(2) x] same_orders_nth[OF st(2) e(3)]
    by (simp add: reverse_edge_def Let_def py_del_def nth_upd h'_def)
  have "map static h' = map static h0"
    using static_nth[OF st(1)] len' e(4) by (intro nth_equalityI) (auto simp: nth)
  moreover have "same_orders h' h0"
    using same_orders_nth[OF st(2)] len' by (auto simp: same_orders_def nth intro!: nth_equalityI)
  moreover have "dicts_ok h'"
    using inv len len' x e(3) by (auto simp: rev_inv_def dicts_ok_def all_set_conv_all_nth nth)
  moreover have "before h' = (before h - {(x, u)}) \<union> {(u, x)}"
    using len len' x e(3,4) by (auto simp: before_def nth split: if_splits)
  then have "before h' = (before h0 - set (fl @ [(x, u)])) \<union> (set (fl @ [(x, u)]))\<inverse>"
    using inv nrev by (auto simp: rev_inv_def)
  moreover have "after h' = (after h - {(x, u)}) \<union> {(u, x)}"
    using len len' x e(3,4) by (auto simp: after_def nth split: if_splits)
  then have "after h' = before h'"
    using \<open>before h' = (before h - {(x, u)}) \<union> {(u, x)}\<close> inv by (simp add: rev_inv_def)
  moreover have "use_stash (h' ! i) = stash_log h0 (fl @ [(x, u)]) fst i \<and> stash_before (h' ! i) = stash_log h0 (fl @ [(x, u)]) snd i"
    if "i < length h'" for i
    using that len len' inv e(4) ov_eq by (auto simp: rev_inv_def nth stash_log_snoc)
  ultimately show ?thesis using run inv e bk by (auto simp: rev_inv_def)
qed

text \<open>The graph with its orders that the reversal starts from.\<close>

definition ordered_graph :: "nat list \<Rightarrow> store \<Rightarrow> bool" where
  "ordered_graph ts h = (distinct ts \<and> (\<forall>i\<in>set ts. i < length h) \<and> dicts_ok h \<and> before h = after h \<and>
     before h \<subseteq> set ts \<times> set ts \<and> irrefl (before h) \<and> inj_on (\<lambda>x. xf_order (h ! x)) (set ts) \<and>
     (\<forall>e\<in>before h. rs_bool (overlap_of h e)) \<and> (\<forall>x\<in>set h. use_stash x = [] \<and> stash_before x = []))"

definition backward :: "store \<Rightarrow> (nat \<times> nat) set" where
  "backward h = {(x, u) \<in> before h. xf_order (h ! u) < xf_order (h ! x)}"

lemma reverse_edges_of_ok:
  assumes g: "ordered_graph ts h0" and xf: "xf \<in> set ts" and inv: "rev_inv h0 fl h"
    and fl: "set fl = {(x, u) \<in> backward h0. x \<in> X}" "xf \<notin> X"
  shows "\<exists>fl' h'. for_each (reverse_edge xf) (h, length fl) (keys (goes_before (h ! xf))) = Inr (h', length fl') \<and>
    rev_inv h0 fl' h' \<and> set fl' = {(x, u) \<in> backward h0. x \<in> insert xf X}"
proof -
  let ?ks = "keys (goes_before (h ! xf))"
  let ?P = "\<lambda>zs p. \<exists>fl' h'. p = (h', length fl') \<and> rev_inv h0 fl' h' \<and>
     set fl' = set fl \<union> {(x, u) \<in> backward h0. x = xf \<and> u \<in> set zs}"
  have len: "length h = length h0" using inv by (auto simp: rev_inv_def dest: map_eq_imp_length_eq)
  have xl: "xf < length h0" using g xf by (simp add: ordered_graph_def)
  have ks: "set ?ks = {u. (xf, u) \<in> before h}" using xl len by (auto simp: before_def kset_def)
  have dist: "distinct ?ks" using inv xl len by (simp add: rev_inv_def dicts_ok_def)
  have "\<exists>p. for_each (reverse_edge xf) (h, length fl) ?ks = Inr p \<and> ?P ?ks p"
  proof (rule for_each_invariant[where P = ?P])
    show "?P [] (h, length fl)" using inv by (intro exI[of _ fl] exI[of _ h]) auto
    fix ys u zs p assume split: "?ks = ys @ u # zs" and P: "?P ys p"
    then obtain fl' h' where p: "p = (h', length fl')" "rev_inv h0 fl' h'"
      "set fl' = set fl \<union> {(x, v) \<in> backward h0. x = xf \<and> v \<in> set ys}" by blast
    have "u \<in> set ?ks" using split by simp
    then have e: "(xf, u) \<in> before h" using ks by blast
    have ord: "xf_order (h' ! i) = xf_order (h0 ! i)" if "i \<in> set ts" for i
      using same_orders_nth[of h' h0 i] p(2) g that by (auto simp: rev_inv_def ordered_graph_def)
    have "(xf, u) \<in> before h0 \<or> (u, xf) \<in> before h0" using e inv by (auto simp: rev_inv_def)
    then have ut: "u \<in> set ts" "u \<noteq> xf" using g unfolding ordered_graph_def irrefl_def by blast+
    show "\<exists>p'. reverse_edge xf p u = Inr p' \<and> ?P (ys @ [u]) p'"
    proof (cases "xf_order (h0 ! xf) < xf_order (h0 ! u)")
      case True
      then have "reverse_edge xf p u = Inr p" using ord xf ut by (simp add: reverse_edge_def p(1))
      moreover have "{(x, v) \<in> backward h0. x = xf \<and> v \<in> set (ys @ [u])} = {(x, v) \<in> backward h0. x = xf \<and> v \<in> set ys}"
        using True by (auto simp: backward_def)
      ultimately show ?thesis using p by auto
    next
      case False
      then have lt: "xf_order (h0 ! u) < xf_order (h0 ! xf)"
        using g xf ut by (force simp: ordered_graph_def inj_on_def)
      have "(u, xf) \<notin> set fl" using lt fl(1) by (auto simp: backward_def)
      then have e0: "(xf, u) \<in> before h0" using e inv by (auto simp: rev_inv_def)
      have "(xf, u) \<notin> set fl'" using p(3) fl split dist by auto
      from reverse_edge_ok[OF p(2) e0 this _ _ lt] ut g e0
      obtain h2 where "reverse_edge xf p u = Inr (h2, length (fl' @ [(xf, u)]))" "rev_inv h0 (fl' @ [(xf, u)]) h2"
        using p(1) by (auto simp: ordered_graph_def)
      moreover have "set (fl' @ [(xf, u)]) = set fl \<union> {(x, v) \<in> backward h0. x = xf \<and> v \<in> set (ys @ [u])}"
        using p(3) e0 lt by (auto simp: backward_def)
      ultimately show ?thesis by blast
    qed
  qed
  then obtain fl' h' where r: "for_each (reverse_edge xf) (h, length fl) ?ks = Inr (h', length fl')" "rev_inv h0 fl' h'"
    "set fl' = set fl \<union> {(x, u) \<in> backward h0. x = xf \<and> u \<in> set ?ks}" by blast
  have "u \<in> set ?ks" if "(xf, u) \<in> backward h0" for u
    using that inv fl ks by (auto simp: rev_inv_def backward_def)
  then have "set fl' = {(x, u) \<in> backward h0. x \<in> insert xf X}" unfolding r(3) fl(1) by blast
  then show ?thesis using r by blast
qed

lemma ReverseBackwardEdges_ok:
  assumes g: "ordered_graph ts h0"
  shows "\<exists>fl h'. ReverseBackwardEdges ts h0 = Inr h' \<and> rev_inv h0 fl h' \<and> set fl = backward h0"
proof -
  let ?f = "\<lambda>st xf. for_each (reverse_edge xf) st (keys (goes_before (fst st ! xf)))"
  let ?P = "\<lambda>ys p. \<exists>fl h. p = (h, length fl) \<and> rev_inv h0 fl h \<and> set fl = {(x, u) \<in> backward h0. x \<in> set ys}"
  have "\<exists>p. for_each ?f (h0, 0) ts = Inr p \<and> ?P ts p"
  proof (rule for_each_invariant[where P = ?P])
    have "rev_inv h0 [] h0" using g by (auto simp: rev_inv_def ordered_graph_def same_orders_def stash_log_def)
    then show "?P [] (h0, 0)" by (intro exI[of _ "[]"] exI[of _ h0]) auto
    fix ys x zs p assume split: "ts = ys @ x # zs" and P: "?P ys p"
    then obtain fl h where p: "p = (h, length fl)" "rev_inv h0 fl h" "set fl = {(x, u) \<in> backward h0. x \<in> set ys}" by blast
    have "x \<in> set ts" "x \<notin> set ys" using split g by (auto simp: ordered_graph_def)
    from reverse_edges_of_ok[OF g this(1) p(2,3) this(2)] p(1)
    show "\<exists>p'. ?f p x = Inr p' \<and> ?P (ys @ [x]) p'" by auto
  qed
  moreover have "{(x, u) \<in> backward h0. x \<in> set ts} = backward h0" using g by (auto simp: backward_def ordered_graph_def)
  ultimately show ?thesis by (auto simp: ReverseBackwardEdges_def)
qed

section \<open>The topological sort\<close>

text \<open>Every predecessor of a member of the sequence comes before it.\<close>

definition topo :: "(nat \<times> nat) set \<Rightarrow> nat list \<Rightarrow> bool" where
  "topo B L = (\<forall>k<length L. \<forall>x. (x, L ! k) \<in> B \<longrightarrow> x \<in> set (take k L))"

lemma topoD: "topo B L \<Longrightarrow> k < length L \<Longrightarrow> (x, L ! k) \<in> B \<Longrightarrow> x \<in> set (take k L)"
  by (simp add: topo_def)

lemma topo_snoc: "topo B L \<Longrightarrow> (\<And>x. (x, a) \<in> B \<Longrightarrow> x \<in> set L) \<Longrightarrow> topo B (L @ [a])"
  by (auto simp: topo_def nth_append less_Suc_eq)

lemma topo_closed: "topo B L \<Longrightarrow> u \<in> set L \<Longrightarrow> (x, u) \<in> B \<Longrightarrow> x \<in> set L"
  unfolding topo_def by (metis in_set_conv_nth in_set_takeD)

abbreviation refs :: "cand list \<Rightarrow> nat list" where
  "refs S \<equiv> map (\<lambda>c. snd (snd c)) S"

text \<open>The incoming edges from transfers not placed yet (and from \<open>xf\<close>, while its removal is
  pending), and the candidates: the transfers without such edges.\<close>

definition incoming_ok :: "(nat \<times> nat) set \<Rightarrow> nat list \<Rightarrow> nat list \<Rightarrow> nat \<Rightarrow> nat set \<Rightarrow> incoming \<Rightarrow> bool" where
  "incoming_ok B ts L xf pend inc = (\<forall>u\<in>set ts. \<exists>d. map_of inc u = Some d \<and> distinct (keys d) \<and>
     kset d = {x. (x, u) \<in> B \<and> x \<notin> set L} \<union> (if u \<in> pend then {xf} else {}))"

definition cands_ok :: "nat list \<Rightarrow> nat list \<Rightarrow> incoming \<Rightarrow> cand list \<Rightarrow> bool" where
  "cands_ok ts L inc S = (distinct (refs S) \<and> set (refs S) = {u \<in> set ts - set L. map_of inc u = Some []})"

lemma refs_mset: "mset S = mset S' \<Longrightarrow> set (refs S) = set (refs S') \<and> distinct (refs S) = distinct (refs S')"
  by (metis mset_eq_imp_distinct_iff mset_map set_mset_mset)

lemma release_ok:
  assumes "incoming_ok B ts L xf pend inc" "cands_ok ts L inc S" "u \<in> pend" "u \<in> set ts - set L" "xf \<in> set L"
  shows "\<exists>inc' S'. release h xf (inc, S) u = Inr (inc', S') \<and> incoming_ok B ts L xf (pend - {u}) inc' \<and> cands_ok ts L inc' S'"
proof -
  obtain d where d: "map_of inc u = Some d" "distinct (keys d)" "kset d = {x. (x, u) \<in> B \<and> x \<notin> set L} \<union> {xf}"
    using assms(1,3,4) by (auto simp: incoming_ok_def)
  define d' where "d' = dict_del xf d"
  define S' where "S' = (if d' = [] then heappush cand_lt S (cand_of h u) else S)"
  have kd: "kset d' = {x. (x, u) \<in> B \<and> x \<notin> set L}" "distinct (keys d')"
    using d assms(5) by (auto simp: d'_def)
  have run: "release h xf (inc, S) u = Inr (dict_set u d' inc, S')"
    using d by (simp add: release_def get_incoming_def py_del_def d'_def[symmetric] S'_def)
  have "incoming_ok B ts L xf (pend - {u}) (dict_set u d' inc)"
    using assms(1) kd by (auto simp: incoming_ok_def)
  moreover have "d \<noteq> []" using d(3) by auto
  then have notin: "u \<notin> set (refs S)" using assms(2) d(1) by (auto simp: cands_ok_def)
  have "cands_ok ts L (dict_set u d' inc) S'"
  proof (cases "d' = []")
    case True
    have "mset S' = mset (cand_of h u # S)" using True by (simp add: S'_def)
    from refs_mset[OF this] show ?thesis
      using notin assms(2,4) True by (auto simp: cands_ok_def cand_of_def)
  next
    case False
    then show ?thesis using assms(2) d(1) \<open>d \<noteq> []\<close> by (auto simp: cands_ok_def S'_def)
  qed
  ultimately show ?thesis using run by blast
qed

lemma release_all_ok:
  assumes "incoming_ok B ts L xf (set us) inc" "cands_ok ts L inc S" "set us \<subseteq> set ts - set L" "xf \<in> set L" "distinct us"
  shows "\<exists>inc' S'. for_each (release h xf) (inc, S) us = Inr (inc', S') \<and> incoming_ok B ts L xf {} inc' \<and> cands_ok ts L inc' S'"
  using assms
proof (induction us arbitrary: inc S)
  case (Cons u us)
  have "set (u # us) - {u} = set us" using Cons.prems(5) by auto
  with release_ok[OF Cons.prems(1,2), of u h] Cons.prems(3,4)
  obtain inc' S' where "release h xf (inc, S) u = Inr (inc', S')" "incoming_ok B ts L xf (set us) inc'" "cands_ok ts L inc' S'"
    by auto
  with Cons.IH[of inc' S'] Cons.prems(3-5) show ?case by simp
qed auto

text \<open>The graph the sort runs on: edges go from lower to higher rank.\<close>

definition ranked_graph :: "nat list \<Rightarrow> store \<Rightarrow> (nat \<Rightarrow> nat) \<Rightarrow> bool" where
  "ranked_graph ts h rk = (distinct ts \<and> (\<forall>i\<in>set ts. i < length h) \<and> dicts_ok h \<and> before h = after h \<and>
     before h \<subseteq> set ts \<times> set ts \<and> (\<forall>(x, u)\<in>before h. rk x < rk u))"

lemma no_candidates_done:
  assumes "ranked_graph ts h rk" "incoming_ok (before h) ts L xf {} inc" "cands_ok ts L inc []"
  shows "set ts \<subseteq> set L"
proof (rule ccontr)
  assume "\<not> set ts \<subseteq> set L"
  then obtain v where "v \<in> set ts - set L" by blast
  from ex_has_least_nat[of "\<lambda>v. v \<in> set ts - set L" v rk, OF this]
  obtain u where u: "u \<in> set ts - set L" "\<forall>v. v \<in> set ts - set L \<longrightarrow> rk u \<le> rk v" by blast
  have none: "{x. (x, u) \<in> before h \<and> x \<notin> set L} = {}"
    using u assms(1) unfolding ranked_graph_def by fastforce
  obtain d where d: "map_of inc u = Some d" "kset d = {x. (x, u) \<in> before h \<and> x \<notin> set L}"
    using assms(2) u(1) by (auto simp: incoming_ok_def)
  have "kset d = {}" unfolding d(2) by (rule none)
  then have "map_of inc u = Some []" using d(1) by simp
  then show False using u(1) assms(3) by (auto simp: cands_ok_def)
qed

lemma sort_loop_ok:
  assumes "ranked_graph ts h rk" "incoming_ok (before h) ts L xf {} inc" "cands_ok ts L inc S"
    "distinct L" "set L \<subseteq> set ts" "topo (before h) L"
  shows "\<exists>L'. sort_loop h inc S L = Inr L' \<and> distinct L' \<and> set L' = set ts \<and> topo (before h) L'"
  using assms
proof (induction h inc S L arbitrary: xf rule: sort_loop.induct)
  case (1 h inc S L)
  show ?case
  proof (cases "S = []")
    case True
    then show ?thesis using no_candidates_done[of ts h rk L xf inc] "1.prems" by (subst sort_loop.simps) auto
  next
    case False
    then obtain c S' where pop: "heappop cand_lt S = Inr (c, S')" using heappop_nonempty by blast
    define y where "y = snd (snd c)"
    have ms: "mset S = mset (c # S')" using hq.pop_bag[OF pop] by simp
    then have S': "set (refs S) = insert y (set (refs S'))" "distinct (refs S')" "y \<notin> set (refs S')"
      using refs_mset[OF ms] "1.prems"(3) by (auto simp: cands_ok_def y_def)
    then have y: "y \<in> set ts - set L" "map_of inc y = Some []" using "1.prems"(3) by (auto simp: cands_ok_def)
    have nopred: "x \<in> set L" if "(x, y) \<in> before h" for x
      using "1.prems"(2) y that by (fastforce simp: incoming_ok_def)
    then have topo: "topo (before h) (L @ [y])" using topo_snoc "1.prems"(6) by blast
    let ?us = "keys (goes_before (h ! y))"
    have yl: "y < length h" using y "1.prems"(1) by (auto simp: ranked_graph_def)
    have us: "set ?us = {u. (y, u) \<in> before h}" using yl by (auto simp: before_def kset_def)
    have dus: "distinct ?us" using yl "1.prems"(1) by (simp add: ranked_graph_def dicts_ok_def)
    have "incoming_ok (before h) ts (L @ [y]) y (set ?us) inc"
      using "1.prems"(2) y(1) unfolding incoming_ok_def us by fastforce
    moreover have "cands_ok ts (L @ [y]) inc S'"
      using "1.prems"(3) S' by (auto simp: cands_ok_def)
    moreover have "set ?us \<subseteq> set ts - set (L @ [y])"
      using topo_closed[OF topo] topo_closed[OF "1.prems"(6)] us y(1) nopred "1.prems"(1) by (auto simp: ranked_graph_def)
    ultimately obtain inc' S'' where rel: "for_each (release h y) (inc, S') ?us = Inr (inc', S'')"
      "incoming_ok (before h) ts (L @ [y]) y {} inc'" "cands_ok ts (L @ [y]) inc' S''"
      using release_all_ok[of "before h" ts "L @ [y]" y ?us inc S' h] dus by auto
    have "sort_loop h inc S L = sort_loop h inc' S'' (L @ [y])"
      using False pop rel(1) by (subst sort_loop.simps) (simp add: y_def Let_def)
    moreover have "\<exists>L'. sort_loop h inc' S'' (L @ [y]) = Inr L' \<and> distinct L' \<and> set L' = set ts \<and> topo (before h) L'"
      using "1.IH"[OF False pop refl, of "(inc', S'')" y] rel topo y(1) "1.prems" by (simp add: y_def)
    ultimately show ?thesis by simp
  qed
qed

lemma ImproveVertexSequence_ok:
  assumes "ranked_graph ts h rk"
  shows "\<exists>L. ImproveVertexSequence ts h = Inr (L, set_orders L h) \<and> mset L = mset ts \<and> topo (before h) L"
proof -
  let ?inc = "map (\<lambda>x. (x, goes_after (h ! x))) ts"
  let ?C = "map (cand_of h) (filter (\<lambda>u. goes_after (h ! u) = []) ts)"
  have inc: "map_of ?inc u = Some (goes_after (h ! u))" if "u \<in> set ts" for u
    using that by (induction ts) auto
  have "kset (goes_after (h ! u)) = {x. (x, u) \<in> before h} \<and> distinct (keys (goes_after (h ! u)))" if "u \<in> set ts" for u
    using that assms by (auto simp: ranked_graph_def after_def dicts_ok_def)
  then have i0: "incoming_ok (before h) ts [] 0 {} ?inc" using inc by (auto simp: incoming_ok_def)
  have "set (refs ?C) = {u \<in> set ts. goes_after (h ! u) = []}" "distinct (refs ?C)"
    using assms by (auto simp: cand_of_def ranked_graph_def distinct_map inj_on_def)
  then have c0: "cands_ok ts [] ?inc (heapify cand_lt ?C)"
    using refs_mset[OF mset_heapify, of cand_lt ?C] inc by (auto simp: cands_ok_def)
  have "topo (before h) []" by (simp add: topo_def)
  then obtain L where L: "sort_loop h ?inc (heapify cand_lt ?C) [] = Inr L" "distinct L" "set L = set ts" "topo (before h) L"
    using sort_loop_ok[OF assms i0 c0] by auto
  moreover have "mset L = mset ts" using L(2,3) assms by (simp add: ranked_graph_def set_eq_iff_mset_eq_distinct)
  moreover have "length L = length ts" using \<open>mset L = mset ts\<close> by (rule mset_eq_length)
  ultimately show ?thesis by (simp add: ImproveVertexSequence_def)
qed

section \<open>The whole ordering\<close>

lemma clear_dependencies_nth:
  "length (clear_dependencies ts h) = length h"
  "i < length h \<Longrightarrow> clear_dependencies ts h ! i =
     (if i \<in> set ts then (h ! i)\<lparr>goes_before := [], goes_after := [], stash_before := [], use_stash := []\<rparr> else h ! i)"
proof -
  have "length (clear_dependencies ts h) = length h \<and> (i < length h \<longrightarrow> clear_dependencies ts h ! i =
     (if i \<in> set ts then (h ! i)\<lparr>goes_before := [], goes_after := [], stash_before := [], use_stash := []\<rparr> else h ! i))" for i
    by (induction ts rule: rev_induct) (auto simp: clear_dependencies_def nth_upd)
  then show "length (clear_dependencies ts h) = length h"
    "i < length h \<Longrightarrow> clear_dependencies ts h ! i =
       (if i \<in> set ts then (h ! i)\<lparr>goes_before := [], goes_after := [], stash_before := [], use_stash := []\<rparr> else h ! i)"
    by blast+
qed

lemma set_orders_edges:
  "goes_before (set_orders ts h ! i) = goes_before (h ! i)" "goes_after (set_orders ts h ! i) = goes_after (h ! i)"
  "use_stash (set_orders ts h ! i) = use_stash (h ! i)" "stash_before (set_orders ts h ! i) = stash_before (h ! i)"
proof -
  obtain n where "set_orders ts h ! i = (h ! i)\<lparr>xf_order := n\<rparr>" using set_orders_frame(2) by blast
  then show "goes_before (set_orders ts h ! i) = goes_before (h ! i)" "goes_after (set_orders ts h ! i) = goes_after (h ! i)"
    "use_stash (set_orders ts h ! i) = use_stash (h ! i)" "stash_before (set_orders ts h ! i) = stash_before (h ! i)"
    by simp_all
qed

lemma set_orders_graph [simp]: "before (set_orders ts h) = before h" "after (set_orders ts h) = after h"
  by (simp_all add: before_def after_def set_orders_edges set_orders_frame)

lemma reads_from_graph: "reads_from h ts \<subseteq> set ts \<times> set ts" "irrefl (reads_from h ts)"
  by (auto simp: reads_from_def irrefl_def)

lemma reads_from_static:
  assumes "map static h' = map static h" "\<forall>i\<in>set ts. i < length h"
  shows "reads_from h' ts = reads_from h ts"
  using static_fields[OF assms(1)] assms(2) by (auto simp: reads_from_def)

lemma overlap_static:
  assumes "map static h' = map static h" "x < length h" "u < length h"
  shows "overlap_of h' (x, u) = overlap_of h (x, u)"
  using static_fields[OF assms(1)] assms(2,3) by (simp add: overlap_of_def)

lemma stash_log_static:
  assumes "map static h' = map static h" "set fl \<subseteq> {..<length h} \<times> {..<length h}"
  shows "stash_log h' fl f x = stash_log h fl f x"
proof -
  have "overlap_of h' (fl ! i) = overlap_of h (fl ! i)" if "i < length fl" for i
    using overlap_static[OF assms(1), of "fst (fl ! i)" "snd (fl ! i)"] assms(2) nth_mem[OF that] by auto
  then show ?thesis by (simp add: stash_log_def)
qed

lemma mset_same_set: "mset xs = mset ys \<Longrightarrow> set xs = set ys \<and> length xs = length ys \<and> distinct xs = distinct ys"
  using mset_eq_setD mset_eq_length mset_eq_imp_distinct_iff by blast

text \<open>What a sequence and its stash records have to satisfy: \<open>fl\<close> is the list of the violated
  dependencies.\<close>

definition sequence_ok :: "nat list \<Rightarrow> store \<Rightarrow> (nat \<times> nat) list \<Rightarrow> nat list \<Rightarrow> store \<Rightarrow> bool" where
  "sequence_ok ts h fl ts' h' = (mset ts' = mset ts \<and> map static h' = map static h \<and>
     (\<forall>k<length ts'. xf_order (h' ! (ts' ! k)) = k) \<and> distinct fl \<and> set fl \<subseteq> reads_from h ts \<and>
     topo ((reads_from h ts - set fl) \<union> (set fl)\<inverse>) ts' \<and>
     (\<forall>x<length h. use_stash (h' ! x) = stash_log h fl fst x \<and> stash_before (h' ! x) = stash_log h fl snd x))"

lemma ordered_graph_after_sequence:
  assumes wf: "wf_seq ts h" "set ts = {..<length h}" "\<forall>x\<in>set h. use_stash x = [] \<and> stash_before x = []"
    and h1: "graph_inv h h1" "before h1 = reads_from h ts" and ts1: "mset ts1 = mset ts"
  shows "ordered_graph ts1 (set_orders ts1 h1)"
proof -
  let ?h = "set_orders ts1 h1"
  have core: "map core h1 = map core h" and ba: "before h1 = after h1" and wk: "weights_known h1"
    using h1(1) by (simp_all add: graph_inv_def)
  have len: "length h1 = length h" using core by (metis length_map)
  have st: "map static ?h = map static h" using static_core[OF core] by (simp add: static_set_orders)
  have t: "set ts1 = set ts" "distinct ts1" using mset_same_set[OF ts1] wf(1) by (auto simp: wf_seq_def)
  have valid: "\<forall>i\<in>set ts1. i < length h1" using t wf(2) len by simp
  have "dicts_ok ?h"
    using wk unfolding dicts_ok_def weights_known_def all_set_conv_all_nth
    by (auto simp: set_orders_frame set_orders_edges known_def)
  moreover have "inj_on (\<lambda>x. xf_order (?h ! x)) (set ts1)"
    using set_orders_order[OF t(2) valid] by (metis (no_types, lifting) inj_onI in_set_conv_nth)
  moreover have ov: "rs_bool (overlap_of ?h (x, u))" if "(x, u) \<in> before ?h" for x u
  proof -
    have e: "(x, u) \<in> reads_from h ts" using that h1(2) by simp
    then have xu: "x < length h" "u < length h" "wf_xf (h ! x)" "wf_xf (h ! u)"
      using wf(1) by (auto simp: reads_from_def wf_seq_def)
    then have "blocks (overlap_of h (x, u)) \<noteq> {}"
      using e by (simp add: overlap_of_def wf_xf_def nonneg_rs_def reads_from_def)
    then show ?thesis
      using overlap_static[OF st xu(1,2)] xu(3,4) by (simp add: rs_bool_blocks overlap_of_def wf_xf_def nonneg_rs_def)
  qed
  then have "\<forall>e\<in>before ?h. rs_bool (overlap_of ?h e)" by auto
  moreover have "use_stash (?h ! i) = [] \<and> stash_before (?h ! i) = []" if "i < length h" for i
    using core_fields(6,7)[OF core that] wf(3) that by (simp add: set_orders_edges)
  then have "\<forall>x\<in>set ?h. use_stash x = [] \<and> stash_before x = []"
    by (simp add: all_set_conv_all_nth set_orders_frame len)
  ultimately show ?thesis
    using t valid ba[symmetric] h1(2) reads_from_graph[of h ts]
    by (simp add: ordered_graph_def set_orders_frame split_paired_all)
qed

theorem FindSequenceForTransfers_spec:
  assumes "wf_seq ts h" "set ts = {..<length h}"
  shows "\<exists>ts' h' fl. FindSequenceForTransfers ts h = Inr (ts', h') \<and> sequence_ok ts h fl ts' h'"
proof -
  let ?h0 = "clear_dependencies ts h"
  have st0: "map static ?h0 = map static h"
    by (rule nth_equalityI) (auto simp: clear_dependencies_nth)
  have empty: "\<forall>x\<in>set ?h0. goes_before x = [] \<and> goes_after x = []" "\<forall>x\<in>set ?h0. use_stash x = [] \<and> stash_before x = []"
    using assms(2) by (auto simp: all_set_conv_all_nth clear_dependencies_nth)
  have wf0: "wf_seq ts ?h0" "set ts = {..<length ?h0}"
    using assms by (auto simp: wf_seq_def clear_dependencies_nth wf_xf_def)
  obtain h1 where h1: "GenerateDigraph ts ?h0 = Inr h1" "graph_inv ?h0 h1" "before h1 = reads_from ?h0 ts"
    using GenerateDigraph_spec[OF wf0(1) empty(1)] by blast
  have rf: "reads_from ?h0 ts = reads_from h ts" using reads_from_static[OF st0] assms(1) by (simp add: wf_seq_def)
  have len1: "length h1 = length h" using h1(2) by (metis graph_inv_def length_map clear_dependencies_nth(1))
  have "graph_on ts h1"
    using h1 len1 assms by (auto simp: graph_on_def graph_inv_def wf_seq_def reads_from_def irrefl_def)
  then obtain ts1 where ts1: "FindVertexSequence ts h1 = Inr (ts1, set_orders ts1 h1)" "mset ts1 = mset ts"
    using FindVertexSequence_spec by blast
  let ?h2 = "set_orders ts1 h1"
  have og: "ordered_graph ts1 ?h2" by (rule ordered_graph_after_sequence[OF wf0 empty(2) h1(2,3) ts1(2)])
  have st2: "map static ?h2 = map static h"
    using h1(2) st0 static_core[of h1 ?h0] by (simp add: static_set_orders graph_inv_def)
  obtain fl h3 where h3: "ReverseBackwardEdges ts1 ?h2 = Inr h3" "rev_inv ?h2 fl h3" "set fl = backward ?h2"
    using ReverseBackwardEdges_ok[OF og] by blast
  have len3: "length h3 = length h" using h3(2) st2 by (metis length_map rev_inv_def)
  have b3: "before h3 = (reads_from h ts - set fl) \<union> (set fl)\<inverse>" using h3(2) h1(3) rf by (simp add: rev_inv_def)
  have fl: "set fl \<subseteq> reads_from h ts" using h3(3) h1(3) rf by (auto simp: backward_def)
  have t1: "set ts1 = set ts" "distinct ts1" using mset_same_set[OF ts1(2)] assms(1) by (auto simp: wf_seq_def)
  have "xf_order (?h2 ! x) < xf_order (?h2 ! u)" if "(x, u) \<in> before h3" for x u
  proof (cases "(u, x) \<in> set fl")
    case True
    then show ?thesis using h3(3) by (simp add: backward_def)
  next
    case False
    then have e: "(x, u) \<in> reads_from h ts" "(x, u) \<notin> backward ?h2" using that b3 h3(3) by auto
    then have "\<not> xf_order (?h2 ! u) < xf_order (?h2 ! x)" using h1(3) rf by (simp add: backward_def)
    moreover have "x \<in> set ts1" "u \<in> set ts1" "x \<noteq> u" using e(1) t1 by (auto simp: reads_from_def)
    ultimately have "x \<in> set ts1" "u \<in> set ts1" "x \<noteq> u" "\<not> xf_order (?h2 ! u) < xf_order (?h2 ! x)" by auto
    then show ?thesis using og by (force simp: ordered_graph_def inj_on_def)
  qed
  moreover have "before h3 \<subseteq> set ts1 \<times> set ts1" using b3 fl reads_from_graph(1)[of h ts] t1(1) by auto
  moreover have "dicts_ok h3" "before h3 = after h3" using h3(2) by (auto simp: rev_inv_def)
  ultimately have "ranked_graph ts1 h3 (\<lambda>x. xf_order (?h2 ! x))"
    using t1 assms(2) len3 unfolding ranked_graph_def by auto
  then obtain L where L: "ImproveVertexSequence ts1 h3 = Inr (L, set_orders L h3)" "mset L = mset ts1" "topo (before h3) L"
    using ImproveVertexSequence_ok by blast
  have LL: "set L = set ts" "distinct L" using mset_same_set[OF L(2)] t1 by auto
  have "set fl \<subseteq> {..<length h} \<times> {..<length h}" using fl assms(2) by (auto simp: reads_from_def)
  then have "use_stash (set_orders L h3 ! x) = stash_log h fl fst x \<and> stash_before (set_orders L h3 ! x) = stash_log h fl snd x"
    if "x < length h" for x
    using that h3(2) len3 stash_log_static[OF st2] by (simp add: rev_inv_def set_orders_edges)
  moreover have "map static (set_orders L h3) = map static h" using h3(2) st2 by (simp add: rev_inv_def static_set_orders)
  ultimately have "sequence_ok ts h fl L (set_orders L h3)"
    using L ts1(2) LL assms len3 fl b3 h3(2) set_orders_order[of L h3] by (simp add: sequence_ok_def rev_inv_def)
  then show ?thesis using h1(1) ts1(1) h3(1) L(1) by (auto simp: FindSequenceForTransfers_def)
qed

end
