(* ===== verification/SequenceCheck.thy ===== *)
theory SequenceCheck
  imports TransferOrder
begin

text \<open>
  The checks \<open>AssertSequenceGood\<close> and \<open>AssertPartition\<close> of \<open>blockimgdiff.py\<close>, what exactly they
  accept, and the main result on the ordering: the sequence found always passes the check, and
  applying it to a device reads only original source data.
\<close>

section \<open>Operations\<close>

text \<open>\<open>AssertSequenceGood\<close>: \<open>touched\<close> is the array of the blocks written so far.\<close>

definition assert_untouched :: "bool list \<Rightarrow> int \<Rightarrow> bool list res" where
  "assert_untouched touched i =
     try_bind (py_get touched i) (\<lambda>t. try_bind (py_assert (\<not> t)) (\<lambda>_. Inr touched))"

definition touch :: "bool list \<Rightarrow> int \<Rightarrow> bool list res" where
  "touch touched i =
     try_bind (py_get touched i) (\<lambda>t. try_bind (py_assert (\<not> t)) (\<lambda>_. py_set touched i True))"

definition check_transfer :: "int \<Rightarrow> store \<Rightarrow> bool list \<Rightarrow> nat \<Rightarrow> bool list res" where
  "check_transfer tb h touched xf =
     (let x = foldl rs_subtract (src_ranges (h ! xf)) (map snd (use_stash (h ! xf))) in
      try_bind (for_each (\<lambda>t (s, e). for_each assert_untouched t (py_range s (min e tb))) touched (rs_iter x)) (\<lambda>t1.
        for_each (\<lambda>t (s, e). for_each touch t (py_range s e)) t1 (rs_iter (tgt_ranges (h ! xf)))))"

definition assert_touched :: "bool list \<Rightarrow> int \<Rightarrow> bool list res" where
  "assert_touched touched i =
     try_bind (py_get touched i) (\<lambda>t. try_bind (py_assert t) (\<lambda>_. Inr touched))"

definition AssertSequenceGood :: "int \<Rightarrow> range_set \<Rightarrow> nat list \<Rightarrow> store \<Rightarrow> unit res" where
  "AssertSequenceGood total_blocks care_map ts h =
     try_bind (for_each (check_transfer total_blocks h) (replicate (nat total_blocks) False) ts) (\<lambda>touched.
       try_bind (for_each (\<lambda>t (s, e). for_each assert_touched t (py_range s e)) touched (rs_iter care_map)) (\<lambda>_. Inr ()))"

text \<open>\<open>AssertPartition\<close>: the ranges are disjoint and cover \<open>total\<close>.\<close>

definition AssertPartition :: "range_set \<Rightarrow> range_set list \<Rightarrow> unit res" where
  "AssertPartition whole seq =
     try_bind (for_each (\<lambda>so_far i. try_bind (py_assert (\<not> rs_overlaps so_far i)) (\<lambda>_. Inr (rs_union so_far i))) rs_empty seq)
       (\<lambda>so_far. py_assert (rs_eq so_far whole))"

section \<open>What the checks accept\<close>

lemma for_each_concat: "for_each (\<lambda>s xs. for_each f s xs) s xss = for_each f s (concat xss)"
  by (induction xss arbitrary: s) (auto simp: for_each_append try_bind_def split: sum.splits)

lemma for_each_map: "for_each f s (map g xs) = for_each (\<lambda>s x. f s (g x)) s xs"
  by (induction xs arbitrary: s) auto

lemma for_each_ranges:
  "for_each (\<lambda>t (s, e). for_each f t (r s e)) t ps = for_each f t (concat (map (\<lambda>(s, e). r s e) ps))"
proof -
  have "(\<lambda>t (s, e). for_each f t (r s e)) = (\<lambda>t p. for_each f t ((\<lambda>(s, e). r s e) p))"
    by (auto simp: fun_eq_iff)
  then show ?thesis using for_each_map[of "\<lambda>t xs. for_each f t xs"] for_each_concat by metis
qed

text \<open>A loop that tests every element and leaves the state alone.\<close>

lemma for_each_test:
  assumes "\<And>x. x \<in> set xs \<Longrightarrow> f s x = Inr s \<longleftrightarrow> P x" "\<And>x s'. x \<in> set xs \<Longrightarrow> f s x = Inr s' \<Longrightarrow> s' = s"
  shows "for_each f s xs = Inr s' \<longleftrightarrow> s' = s \<and> (\<forall>x\<in>set xs. P x)"
  using assms
proof (induction xs)
  case (Cons x xs)
  show ?case
  proof (cases "f s x")
    case (Inl e)
    then show ?thesis using Cons.prems(1)[of x] by auto
  next
    case (Inr s1)
    then have fs: "f s x = Inr s" "P x" using Cons.prems(2)[of x s1] Cons.prems(1)[of x] by auto
    have "for_each f s xs = Inr s' \<longleftrightarrow> s' = s \<and> (\<forall>x\<in>set xs. P x)"
      by (rule Cons.IH) (use Cons.prems in auto)
    then show ?thesis using fs by simp
  qed
qed auto

text \<open>The set of the touched blocks.\<close>

definition touched_set :: "bool list \<Rightarrow> int set" where
  "touched_set t = {i. 0 \<le> i \<and> i < int (length t) \<and> t ! nat i}"

lemma py_get_range: "0 \<le> i \<Longrightarrow> py_get t i = (if i < int (length t) then Inr (t ! nat i) else Inl IndexError)"
  by (simp add: py_get_def py_index_def)

lemma touch_iff:
  assumes "0 \<le> i"
  shows "touch t i = Inr t' \<longleftrightarrow> i < int (length t) \<and> i \<notin> touched_set t \<and> t' = t[nat i := True]"
  using assms by (auto simp: touch_def py_get_range touched_set_def try_bind_Inr_iff)

lemma touched_set_update:
  "0 \<le> i \<Longrightarrow> i < int (length t) \<Longrightarrow> touched_set (t[nat i := True]) = insert i (touched_set t)"
  by (auto simp: touched_set_def nth_list_update split: if_splits)

lemma touch_all:
  assumes "distinct is" "\<forall>i\<in>set is. 0 \<le> i"
  shows "(\<exists>t'. for_each touch t is = Inr t') \<longleftrightarrow> (\<forall>i\<in>set is. i < int (length t) \<and> i \<notin> touched_set t)"
    and "for_each touch t is = Inr t' \<Longrightarrow> length t' = length t \<and> touched_set t' = touched_set t \<union> set is"
proof -
  have "((\<exists>t'. for_each touch t is = Inr t') \<longleftrightarrow> (\<forall>i\<in>set is. i < int (length t) \<and> i \<notin> touched_set t)) \<and>
    (for_each touch t is = Inr t' \<longrightarrow> length t' = length t \<and> touched_set t' = touched_set t \<union> set is)"
    using assms
  proof (induction "is" arbitrary: t)
    case (Cons i "is")
    have i: "0 \<le> i" "i \<notin> set is" using Cons.prems by auto
    show ?case
    proof (cases "i < int (length t) \<and> i \<notin> touched_set t")
      case True
      then have "touch t i = Inr (t[nat i := True])" using touch_iff[OF i(1)] by blast
      then show ?thesis using Cons.IH[of "t[nat i := True]"] Cons.prems True i touched_set_update[of i t] by auto
    next
      case False
      then have "touch t i \<noteq> Inr t'" for t' using touch_iff[OF i(1), of t t'] by auto
      then show ?thesis using False by (cases "touch t i") auto
    qed
  qed auto
  then show "(\<exists>t'. for_each touch t is = Inr t') \<longleftrightarrow> (\<forall>i\<in>set is. i < int (length t) \<and> i \<notin> touched_set t)"
    and "for_each touch t is = Inr t' \<Longrightarrow> length t' = length t \<and> touched_set t' = touched_set t \<union> set is" by blast+
qed

text \<open>The blocks a transfer reads from the device itself, not from a stash.\<close>

definition unstashed :: "transfer \<Rightarrow> int set" where
  "unstashed x = src_blocks x - \<Union> (blocks ` snd ` set (use_stash x))"

definition wf_use :: "transfer \<Rightarrow> bool" where
  "wf_use x = (wf_xf x \<and> (\<forall>p\<in>set (use_stash x). wf_rs (snd p)))"

lemma unstashed_blocks:
  assumes "wf_use x"
  shows "wf_rs (foldl rs_subtract (src_ranges x) (map snd (use_stash x)))"
    "blocks (foldl rs_subtract (src_ranges x) (map snd (use_stash x))) = unstashed x"
proof -
  have wf: "wf_rs (src_ranges x)" "\<And>b. b \<in> set (map snd (use_stash x)) \<Longrightarrow> wf_rs b"
    using assms by (auto simp: wf_use_def wf_xf_def nonneg_rs_def)
  show "wf_rs (foldl rs_subtract (src_ranges x) (map snd (use_stash x)))"
    by (rule rs.inv_fold_diff[OF wf])
  show "blocks (foldl rs_subtract (src_ranges x) (map snd (use_stash x))) = unstashed x"
    using rs.abs_fold_diff[of "src_ranges x" "map snd (use_stash x)", OF wf] by (simp add: unstashed_def)
qed

lemma range_min_blocks:
  assumes "wf_rs rs"
  shows "set (concat (map (\<lambda>(s, e). py_range s (min e n)) (rs_iter rs))) = {i \<in> blocks rs. i < n}"
  using rs_iter_blocks[OF assms] by fastforce

lemma check_transfer_iff:
  assumes "wf_use (h ! x)" "int (length t) = tb"
  shows "(\<exists>t'. check_transfer tb h t x = Inr t') \<longleftrightarrow>
      unstashed (h ! x) \<inter> touched_set t = {} \<and> tgt_blocks (h ! x) \<inter> touched_set t = {} \<and> tgt_blocks (h ! x) \<subseteq> {..<tb}"
    and "check_transfer tb h t x = Inr t' \<Longrightarrow> length t' = length t \<and> touched_set t' = touched_set t \<union> tgt_blocks (h ! x)"
proof -
  let ?x = "foldl rs_subtract (src_ranges (h ! x)) (map snd (use_stash (h ! x)))"
  define bs where "bs = concat (map (\<lambda>(s, e). py_range s (min e tb)) (rs_iter ?x))"
  let ?js = "rs_next_item (tgt_ranges (h ! x))"
  have wf: "wf_rs ?x" "blocks ?x = unstashed (h ! x)" using unstashed_blocks[OF assms(1)] by auto
  have nn: "nonneg_rs (src_ranges (h ! x))" "nonneg_rs (tgt_ranges (h ! x))" using assms(1) by (auto simp: wf_use_def wf_xf_def)
  have is_set: "set bs = {i \<in> unstashed (h ! x). i < tb}" using range_min_blocks[OF wf(1), of tb] wf(2) by (simp add: bs_def)
  have nonneg: "\<forall>i\<in>set bs. 0 \<le> i" using is_set nonneg_blocks[OF nn(1)] by (auto simp: unstashed_def)
  have js: "distinct ?js" "set ?js = tgt_blocks (h ! x)" "\<forall>i\<in>set ?js. 0 \<le> i"
    using rs_next_item_eq[OF nonneg_rsD[OF nn(2)]] rs.finite_abs[OF nonneg_rsD[OF nn(2)]] nonneg_blocks[OF nn(2)] by auto
  have check: "check_transfer tb h t x = try_bind (for_each assert_untouched t bs) (\<lambda>t1. for_each touch t1 ?js)"
    by (simp add: check_transfer_def for_each_ranges rs_next_item_def bs_def)
  have untouched: "assert_untouched t i = Inr s \<longleftrightarrow> s = t \<and> i \<notin> touched_set t" if "0 \<le> i" "i < tb" for i s
    using that assms(2) by (auto simp: assert_untouched_def touched_set_def try_bind_Inr_iff)
  have test: "for_each assert_untouched t bs = Inr t1 \<longleftrightarrow> t1 = t \<and> unstashed (h ! x) \<inter> touched_set t = {}" for t1
  proof -
    have "for_each assert_untouched t bs = Inr t1 \<longleftrightarrow> t1 = t \<and> (\<forall>i\<in>set bs. i \<notin> touched_set t)"
      by (rule for_each_test) (use untouched nonneg is_set in auto)
    moreover have "(\<forall>i\<in>set bs. i \<notin> touched_set t) \<longleftrightarrow> unstashed (h ! x) \<inter> touched_set t = {}"
      unfolding is_set using assms(2) by (auto simp: touched_set_def)
    ultimately show ?thesis by simp
  qed
  show "(\<exists>t'. check_transfer tb h t x = Inr t') \<longleftrightarrow>
      unstashed (h ! x) \<inter> touched_set t = {} \<and> tgt_blocks (h ! x) \<inter> touched_set t = {} \<and> tgt_blocks (h ! x) \<subseteq> {..<tb}"
    unfolding check using touch_all(1)[OF js(1,3), of t] test assms(2)
    by (auto simp: try_bind_Inr_iff js(2))
  show "check_transfer tb h t x = Inr t' \<Longrightarrow> length t' = length t \<and> touched_set t' = touched_set t \<union> tgt_blocks (h ! x)"
    unfolding check using touch_all(2)[OF js(1,3), of t t'] test by (auto simp: try_bind_Inr_iff js(2))
qed

text \<open>The sets written by the transfers of a sequence.\<close>

definition written :: "store \<Rightarrow> nat list \<Rightarrow> int set" where
  "written h ts = (\<Union>x\<in>set ts. tgt_blocks (h ! x))"

definition seq_good :: "int \<Rightarrow> store \<Rightarrow> nat list \<Rightarrow> bool" where
  "seq_good tb h ts = (\<forall>k<length ts. unstashed (h ! (ts ! k)) \<inter> written h (take k ts) = {} \<and>
     tgt_blocks (h ! (ts ! k)) \<inter> written h (take k ts) = {} \<and> tgt_blocks (h ! (ts ! k)) \<subseteq> {..<tb})"

lemma seq_good_snoc:
  "seq_good tb h (ts @ [x]) \<longleftrightarrow> seq_good tb h ts \<and> unstashed (h ! x) \<inter> written h ts = {} \<and>
     tgt_blocks (h ! x) \<inter> written h ts = {} \<and> tgt_blocks (h ! x) \<subseteq> {..<tb}"
  by (auto simp: seq_good_def nth_append less_Suc_eq)

lemma written_snoc [simp]: "written h (ts @ [x]) = written h ts \<union> tgt_blocks (h ! x)"
  by (auto simp: written_def)

lemma check_transfers_iff:
  assumes "\<forall>x\<in>set ts. wf_use (h ! x)" "0 \<le> tb"
  shows "((\<exists>t. for_each (check_transfer tb h) (replicate (nat tb) False) ts = Inr t) \<longleftrightarrow> seq_good tb h ts) \<and>
    (\<forall>t. for_each (check_transfer tb h) (replicate (nat tb) False) ts = Inr t \<longrightarrow>
       int (length t) = tb \<and> touched_set t = written h ts)"
  using assms
proof (induction ts rule: rev_induct)
  case Nil
  then show ?case by (auto simp: seq_good_def written_def touched_set_def)
next
  case (snoc x ts)
  let ?run = "for_each (check_transfer tb h) (replicate (nat tb) False)"
  have IH: "(\<exists>t. ?run ts = Inr t) \<longleftrightarrow> seq_good tb h ts" "\<And>t. ?run ts = Inr t \<Longrightarrow> int (length t) = tb \<and> touched_set t = written h ts"
    using snoc by auto
  have wf: "wf_use (h ! x)" using snoc.prems by simp
  have run: "?run (ts @ [x]) = try_bind (?run ts) (\<lambda>t. check_transfer tb h t x)"
    by (simp add: for_each_append try_bind_def split: sum.splits)
  show ?case
  proof (cases "?run ts")
    case (Inl e)
    then show ?thesis using IH(1) by (simp add: run seq_good_snoc)
  next
    case (Inr t)
    then have t: "int (length t) = tb" "touched_set t = written h ts" using IH(2) by auto
    note c = check_transfer_iff[OF wf t(1)]
    show ?thesis
    proof (intro conjI allI impI)
      show "(\<exists>t. ?run (ts @ [x]) = Inr t) \<longleftrightarrow> seq_good tb h (ts @ [x])"
        using Inr IH(1) c(1) t(2) by (simp add: run seq_good_snoc)
      fix t' assume "?run (ts @ [x]) = Inr t'"
      then show "int (length t') = tb" "touched_set t' = written h (ts @ [x])" using Inr c(2) t by (auto simp: run)
    qed
  qed
qed

lemma AssertSequenceGood_iff:
  assumes "\<forall>x\<in>set ts. wf_use (h ! x)" "0 \<le> tb" "nonneg_rs care"
  shows "AssertSequenceGood tb care ts h = Inr () \<longleftrightarrow> seq_good tb h ts \<and> blocks care \<subseteq> written h ts"
proof -
  let ?run = "for_each (check_transfer tb h) (replicate (nat tb) False) ts"
  have check: "AssertSequenceGood tb care ts h =
      try_bind ?run (\<lambda>t. try_bind (for_each assert_touched t (rs_next_item care)) (\<lambda>_. Inr ()))"
    by (simp add: AssertSequenceGood_def for_each_ranges rs_next_item_def)
  have items: "set (rs_next_item care) = blocks care"
    using rs_next_item_eq[OF nonneg_rsD[OF assms(3)]] rs.finite_abs[OF nonneg_rsD[OF assms(3)]] by simp
  have touched: "assert_touched t i = Inr s \<longleftrightarrow> s = t \<and> i \<in> touched_set t" if "i \<in> blocks care" for t i s
    using nonneg_blocks[OF assms(3) that] by (auto simp: assert_touched_def py_get_range touched_set_def try_bind_Inr_iff)
  have "for_each assert_touched t (rs_next_item care) = Inr s \<longleftrightarrow> s = t \<and> (\<forall>i\<in>set (rs_next_item care). i \<in> touched_set t)" for t s
    by (rule for_each_test) (use touched items in auto)
  then have test: "for_each assert_touched t (rs_next_item care) = Inr s \<longleftrightarrow> s = t \<and> blocks care \<subseteq> touched_set t" for t s
    unfolding items by auto
  show ?thesis
    unfolding check using check_transfers_iff[OF assms(1,2)] test by (auto simp: try_bind_Inr_iff)
qed

lemma AssertPartition_iff:
  assumes "wf_rs whole" "\<forall>r\<in>set seq. wf_rs r"
  shows "AssertPartition whole seq = Inr () \<longleftrightarrow> disjoint_seq {} (map blocks seq) \<and> \<Union> (blocks ` set seq) = blocks whole"
proof -
  have "wf_rs rs_empty" "blocks rs_empty = {}" by (simp_all add: rs.inv_empty rs.abs_empty)
  moreover have "wf_rs (foldl rs_union rs_empty seq) \<and> blocks (foldl rs_union rs_empty seq) = {} \<union> \<Union> (blocks ` set seq)"
    using rs.fold_union[of rs_empty seq] calculation assms(2) by simp
  ultimately show ?thesis
    using rs.partition_loop[of rs_empty seq] assms rs.eq_iff[of "foldl rs_union rs_empty seq" whole]
    by (simp add: AssertPartition_def)
qed

section \<open>The sequence found is good\<close>

text \<open>No two transfers write the same block.\<close>

definition disjoint_targets :: "nat list \<Rightarrow> store \<Rightarrow> bool" where
  "disjoint_targets ts h = (\<forall>x\<in>set ts. \<forall>y\<in>set ts. x \<noteq> y \<longrightarrow> tgt_blocks (h ! x) \<inter> tgt_blocks (h ! y) = {})"

lemma in_stash_log: "(i, sr) \<in> set (stash_log h fl f x) \<longleftrightarrow> i < length fl \<and> f (fl ! i) = x \<and> sr = overlap_of h (fl ! i)"
  by (auto simp: stash_log_def)

lemma blocks_overlap:
  "wf_seq ts h \<Longrightarrow> x \<in> set ts \<Longrightarrow> u \<in> set ts \<Longrightarrow>
   wf_rs (overlap_of h (x, u)) \<and> blocks (overlap_of h (x, u)) = src_blocks (h ! x) \<inter> tgt_blocks (h ! u)"
  by (simp add: wf_seq_def wf_xf_def nonneg_rs_def overlap_of_def)

lemma sequence_ok_fields:
  assumes "wf_seq ts h" "sequence_ok ts h fl ts' h'" "x \<in> set ts"
  shows "tgt_ranges (h' ! x) = tgt_ranges (h ! x)" "src_ranges (h' ! x) = src_ranges (h ! x)"
    "use_stash (h' ! x) = stash_log h fl fst x" "stash_before (h' ! x) = stash_log h fl snd x" "wf_use (h' ! x)"
proof -
  have x: "x < length h" "wf_xf (h ! x)" using assms(1,3) by (auto simp: wf_seq_def)
  note f = static_fields[of h' h x, OF _ x(1)]
  show r: "tgt_ranges (h' ! x) = tgt_ranges (h ! x)" "src_ranges (h' ! x) = src_ranges (h ! x)"
    "use_stash (h' ! x) = stash_log h fl fst x" "stash_before (h' ! x) = stash_log h fl snd x"
    using f assms(2) x(1) by (simp_all add: sequence_ok_def)
  have "wf_rs (overlap_of h (fl ! i))" if "i < length fl" for i
    using blocks_overlap[OF assms(1), of "fst (fl ! i)" "snd (fl ! i)"] assms(2) nth_mem[OF that]
    by (auto simp: sequence_ok_def reads_from_def)
  then show "wf_use (h' ! x)" using x(2) r by (auto simp: wf_use_def wf_xf_def in_stash_log)
qed

lemma in_set_take_nth: "distinct xs \<Longrightarrow> k < length xs \<Longrightarrow> j < length xs \<Longrightarrow> xs ! k \<in> set (take j xs) \<longleftrightarrow> k < j"
  by (auto simp: in_set_conv_nth nth_eq_iff_index_eq)

text \<open>A transfer that reads what an earlier one has written has those blocks stashed; the one that
  makes a stash comes before the one that uses it.\<close>

lemma read_after_write_stashed:
  assumes "wf_seq ts h" "sequence_ok ts h fl ts' h'" "k < length ts'" "j < k"
    "b \<in> src_blocks (h ! (ts' ! k))" "b \<in> tgt_blocks (h ! (ts' ! j))"
  shows "\<exists>(i, sr)\<in>set (use_stash (h' ! (ts' ! k))). b \<in> blocks sr"
proof -
  let ?x = "ts' ! k" and ?u = "ts' ! j"
  have ms: "set ts' = set ts" "distinct ts'" using assms(1,2) mset_same_set[of ts' ts] by (auto simp: sequence_ok_def wf_seq_def)
  have j: "j < length ts'" using assms(3,4) by simp
  have xu: "?x \<in> set ts" "?u \<in> set ts" "?x \<noteq> ?u"
    using ms(1) nth_mem[OF assms(3)] nth_mem[OF j] nth_eq_iff_index_eq[OF ms(2) assms(3) j] assms(4) by auto
  have tp: "topo ((reads_from h ts - set fl) \<union> (set fl)\<inverse>) ts'" using assms(2) by (simp add: sequence_ok_def)
  have e: "(?x, ?u) \<in> reads_from h ts" using xu assms(5,6) by (auto simp: reads_from_def)
  have "(?x, ?u) \<in> set fl"
  proof (rule ccontr)
    assume "(?x, ?u) \<notin> set fl"
    then have "?x \<in> set (take j ts')" using topoD[OF tp j, of ?x] e by blast
    then show False using in_set_take_nth[OF ms(2) assms(3) j] assms(4) by simp
  qed
  then obtain i where i: "i < length fl" "fl ! i = (?x, ?u)" by (auto simp: in_set_conv_nth)
  then have "(i, overlap_of h (?x, ?u)) \<in> set (use_stash (h' ! ?x))"
    using sequence_ok_fields(3)[OF assms(1,2) xu(1)] by (simp add: in_stash_log)
  moreover have "b \<in> blocks (overlap_of h (?x, ?u))" using blocks_overlap[OF assms(1) xu(1,2)] assms(5,6) by simp
  ultimately show ?thesis by blast
qed

lemma stash_made_before_use:
  assumes "wf_seq ts h" "sequence_ok ts h fl ts' h'" "k < length ts'" "i < length fl" "fst (fl ! i) = ts' ! k"
  shows "snd (fl ! i) \<in> set (take k ts')"
proof -
  have "(fst (fl ! i), snd (fl ! i)) \<in> set fl" using assms(4) by simp
  moreover have "topo ((reads_from h ts - set fl) \<union> (set fl)\<inverse>) ts'" using assms(2) by (simp add: sequence_ok_def)
  ultimately show ?thesis using topoD[of _ ts' k "snd (fl ! i)"] assms(3,5) by auto
qed

lemma written_take: "k \<le> length ts \<Longrightarrow> b \<in> written h (take k ts) \<longleftrightarrow> (\<exists>j<k. b \<in> tgt_blocks (h ! (ts ! j)))"
  unfolding written_def nth_image[symmetric] by auto

lemma found_sequence_good:
  assumes wf: "wf_seq ts h" and ok: "sequence_ok ts h fl ts' h'" and dj: "disjoint_targets ts h"
    and tb: "\<forall>x\<in>set ts. tgt_blocks (h ! x) \<subseteq> {..<tb}"
  shows "seq_good tb h' ts'"
  unfolding seq_good_def
proof (intro allI impI conjI)
  fix k assume k: "k < length ts'"
  have ms: "set ts' = set ts" "distinct ts'" using wf ok mset_same_set[of ts' ts] by (auto simp: sequence_ok_def wf_seq_def)
  note f = sequence_ok_fields[OF wf ok]
  have mem: "ts' ! j \<in> set ts" if "j < length ts'" for j using nth_mem[OF that] ms(1) by simp
  have "b \<notin> unstashed (h' ! (ts' ! k)) \<and> b \<notin> tgt_blocks (h' ! (ts' ! k))"
    if b: "j < k" "b \<in> tgt_blocks (h' ! (ts' ! j))" for b j
  proof
    have j: "j < length ts'" using b(1) k by simp
    have tj: "b \<in> tgt_blocks (h ! (ts' ! j))" using b(2) f(1)[OF mem[OF j]] by simp
    show "b \<notin> unstashed (h' ! (ts' ! k))"
      using read_after_write_stashed[OF wf ok k b(1) _ tj] f(2)[OF mem[OF k]] unfolding unstashed_def by force
    have "ts' ! j \<noteq> ts' ! k" using nth_eq_iff_index_eq[OF ms(2) j k] b(1) by simp
    then have "tgt_blocks (h ! (ts' ! j)) \<inter> tgt_blocks (h ! (ts' ! k)) = {}"
      using dj mem[OF j] mem[OF k] unfolding disjoint_targets_def by blast
    then show "b \<notin> tgt_blocks (h' ! (ts' ! k))" using tj f(1)[OF mem[OF k]] by auto
  qed
  then show "unstashed (h' ! (ts' ! k)) \<inter> written h' (take k ts') = {}" "tgt_blocks (h' ! (ts' ! k)) \<inter> written h' (take k ts') = {}"
    using written_take[of k ts' _ h'] k by fastforce+
  show "tgt_blocks (h' ! (ts' ! k)) \<subseteq> {..<tb}" using tb mem[OF k] f(1)[OF mem[OF k]] by simp
qed

section \<open>Applying the update\<close>

text \<open>
  What a device does with the sequence, block by block: it first saves the blocks of
  \<open>stash_before\<close>, then reads the source, blocks covered by \<open>use_stash\<close> from the stash and the rest
  from the partition itself, and writes the target. What is written is a function \<open>new\<close> of the
  transfer and of the source data it sees.
\<close>

type_synonym 'v stashes = "nat \<Rightarrow> (int \<Rightarrow> 'v option) option"

definition make_stashes :: "(int \<Rightarrow> 'v) \<Rightarrow> (nat \<times> range_set) list \<Rightarrow> 'v stashes \<Rightarrow> 'v stashes" where
  "make_stashes d ss st = foldl (\<lambda>st (i, sr). st(i \<mapsto> (\<lambda>b. if b \<in> blocks sr then Some (d b) else None))) st ss"

definition source_seen :: "(int \<Rightarrow> 'v) \<Rightarrow> 'v stashes \<Rightarrow> transfer \<Rightarrow> int \<Rightarrow> 'v option" where
  "source_seen d st x b =
     (if b \<notin> src_blocks x then None
      else case find (\<lambda>(i, sr). b \<in> blocks sr) (use_stash x) of
             None \<Rightarrow> Some (d b)
           | Some (i, sr) \<Rightarrow> (case st i of None \<Rightarrow> None | Some m \<Rightarrow> m b))"

definition apply_transfer ::
  "store \<Rightarrow> (nat \<Rightarrow> (int \<Rightarrow> 'v option) \<Rightarrow> int \<Rightarrow> 'v) \<Rightarrow> (int \<Rightarrow> 'v) \<times> 'v stashes \<Rightarrow> nat \<Rightarrow> (int \<Rightarrow> 'v) \<times> 'v stashes" where
  "apply_transfer h new = (\<lambda>(d, st) x.
     let st' = make_stashes d (stash_before (h ! x)) st;
         src = source_seen d st' (h ! x)
     in ((\<lambda>b. if b \<in> tgt_blocks (h ! x) then new x src b else d b), st'))"

definition apply_update ::
  "store \<Rightarrow> (nat \<Rightarrow> (int \<Rightarrow> 'v option) \<Rightarrow> int \<Rightarrow> 'v) \<Rightarrow> nat list \<Rightarrow> (int \<Rightarrow> 'v) \<Rightarrow> (int \<Rightarrow> 'v) \<times> 'v stashes" where
  "apply_update h new ts d = foldl (apply_transfer h new) (d, \<lambda>_. None) ts"

text \<open>The specification: every transfer is applied to the untouched source image.\<close>

definition original_source :: "(int \<Rightarrow> 'v) \<Rightarrow> transfer \<Rightarrow> int \<Rightarrow> 'v option" where
  "original_source d x b = (if b \<in> src_blocks x then Some (d b) else None)"

definition new_image :: "store \<Rightarrow> (nat \<Rightarrow> (int \<Rightarrow> 'v option) \<Rightarrow> int \<Rightarrow> 'v) \<Rightarrow> nat list \<Rightarrow> (int \<Rightarrow> 'v) \<Rightarrow> int \<Rightarrow> 'v" where
  "new_image h new ts d b =
     (case find (\<lambda>x. b \<in> tgt_blocks (h ! x)) ts of None \<Rightarrow> d b | Some x \<Rightarrow> new x (original_source d (h ! x)) b)"

lemma make_stashes_nth:
  "distinct (map fst ss) \<Longrightarrow> make_stashes d ss st i =
     (case map_of ss i of None \<Rightarrow> st i | Some sr \<Rightarrow> Some (\<lambda>b. if b \<in> blocks sr then Some (d b) else None))"
  unfolding make_stashes_def
proof (induction ss arbitrary: st)
  case (Cons a ss)
  then show ?case by (cases a) (force split: option.splits dest: map_of_SomeD)
qed simp

lemma stash_log_distinct: "distinct (map fst (stash_log h fl f x))"
  by (simp add: stash_log_def comp_def)

lemma stash_log_map_of:
  "map_of (stash_log h fl f x) i = (if i < length fl \<and> f (fl ! i) = x then Some (overlap_of h (fl ! i)) else None)"
proof (cases "i < length fl \<and> f (fl ! i) = x")
  case True
  then show ?thesis using map_of_is_SomeI[OF stash_log_distinct[of h fl f x], of i "overlap_of h (fl ! i)"] by (simp add: in_stash_log)
next
  case False
  then have "i \<notin> fst ` set (stash_log h fl f x)" by (force simp: in_stash_log)
  then show ?thesis using False map_of_eq_None_iff[of "stash_log h fl f x" i] by auto
qed

lemma find_found: "find P xs = Some x \<Longrightarrow> x \<in> set xs \<and> P x"
  by (induction xs) (auto split: if_splits)

lemma new_image_eq:
  assumes "disjoint_targets ts h" "x \<in> set ts" "b \<in> tgt_blocks (h ! x)"
  shows "new_image h new ts d b = new x (original_source d (h ! x)) b"
proof -
  obtain y where y: "find (\<lambda>x. b \<in> tgt_blocks (h ! x)) ts = Some y"
    using assms(2,3) by (cases "find (\<lambda>x. b \<in> tgt_blocks (h ! x)) ts") (auto simp: find_None_iff)
  then have "y \<in> set ts" "b \<in> tgt_blocks (h ! y)" using find_found[OF y] by auto
  then have "y = x" using assms unfolding disjoint_targets_def by blast
  then show ?thesis using y by (simp add: new_image_def)
qed

definition stash_content :: "store \<Rightarrow> (nat \<times> nat) list \<Rightarrow> (int \<Rightarrow> 'v) \<Rightarrow> nat \<Rightarrow> int \<Rightarrow> 'v option" where
  "stash_content h fl d i = (\<lambda>b. if b \<in> blocks (overlap_of h (fl ! i)) then Some (d b) else None)"

lemma source_seen_original:
  assumes wf: "wf_seq ts h" and ok: "sequence_ok ts h fl ts' h'" and k: "k < length ts'"
    and st: "\<And>i. i < length fl \<Longrightarrow> snd (fl ! i) \<in> set (take k ts') \<Longrightarrow> st i = Some (stash_content h fl d0 i)"
    and d: "\<And>b. b \<notin> written h' (take k ts') \<Longrightarrow> d b = d0 b"
  shows "source_seen d st (h' ! (ts' ! k)) = original_source d0 (h ! (ts' ! k))"
proof
  fix b
  let ?x = "ts' ! k"
  have "set ts' = set ts" using ok mset_same_set[of ts' ts] by (simp add: sequence_ok_def)
  then have mem: "ts' ! j \<in> set ts" if "j < length ts'" for j using nth_mem[OF that] by simp
  note f = sequence_ok_fields[OF wf ok]
  show "source_seen d st (h' ! ?x) b = original_source d0 (h ! ?x) b"
  proof (cases "b \<in> src_blocks (h ! ?x)")
    case True
    have src: "b \<in> src_blocks (h' ! ?x)" using True f(2)[OF mem[OF k]] by simp
    show ?thesis
    proof (cases "find (\<lambda>(i, sr). b \<in> blocks sr) (use_stash (h' ! ?x))")
      case None
      then have none: "\<not> (\<exists>(i, sr)\<in>set (use_stash (h' ! ?x)). b \<in> blocks sr)" by (auto simp: find_None_iff)
      have "b \<notin> written h' (take k ts')"
      proof
        assume "b \<in> written h' (take k ts')"
        then obtain j where j: "j < k" "b \<in> tgt_blocks (h' ! (ts' ! j))" using written_take[of k ts'] k by auto
        then have "b \<in> tgt_blocks (h ! (ts' ! j))" using f(1)[OF mem[of j]] k by simp
        then show False using read_after_write_stashed[OF wf ok k j(1) True] none by blast
      qed
      then show ?thesis using None src True d by (simp add: source_seen_def original_source_def)
    next
      case (Some p)
      obtain i sr where p: "p = (i, sr)" by (cases p)
      then have "(i, sr) \<in> set (use_stash (h' ! ?x))" "b \<in> blocks sr" using find_found[OF Some] by auto
      then have i: "i < length fl" "fst (fl ! i) = ?x" "sr = overlap_of h (fl ! i)" "b \<in> blocks (overlap_of h (fl ! i))"
        using f(3)[OF mem[OF k]] by (auto simp: in_stash_log)
      then have "st i = Some (stash_content h fl d0 i)" using st stash_made_before_use[OF wf ok k i(1,2)] by blast
      then show ?thesis using Some p src True i(4) by (simp add: source_seen_def original_source_def stash_content_def)
    qed
  next
    case False
    then show ?thesis using f(2)[OF mem[OF k]] by (simp add: source_seen_def original_source_def)
  qed
qed

lemma apply_update_ok:
  assumes wf: "wf_seq ts h" and ok: "sequence_ok ts h fl ts' h'" and dj: "disjoint_targets ts h" and k: "k \<le> length ts'"
  shows "\<exists>d st. apply_update h' new (take k ts') d0 = (d, st) \<and>
    (\<forall>b. d b = (if b \<in> written h' (take k ts') then new_image h new ts d0 b else d0 b)) \<and>
    (\<forall>i<length fl. snd (fl ! i) \<in> set (take k ts') \<longrightarrow> st i = Some (stash_content h fl d0 i))"
  using k
proof (induction k)
  case 0
  then show ?case by (simp add: apply_update_def written_def)
next
  case (Suc k)
  then have k: "k < length ts'" by simp
  from Suc obtain d st where IH: "apply_update h' new (take k ts') d0 = (d, st)"
    "\<And>b. d b = (if b \<in> written h' (take k ts') then new_image h new ts d0 b else d0 b)"
    "\<And>i. i < length fl \<Longrightarrow> snd (fl ! i) \<in> set (take k ts') \<Longrightarrow> st i = Some (stash_content h fl d0 i)" by auto
  let ?x = "ts' ! k"
  have "set ts' = set ts" using ok mset_same_set[of ts' ts] by (simp add: sequence_ok_def)
  then have x: "?x \<in> set ts" using nth_mem[OF k] by simp
  note f = sequence_ok_fields[OF wf ok x]
  have tk: "take (Suc k) ts' = take k ts' @ [?x]" by (rule take_Suc_conv_app_nth[OF k])
  obtain tb where "\<forall>x\<in>set ts. tgt_blocks (h ! x) \<subseteq> {..<tb}"
  proof -
    have "finite (\<Union>x\<in>set ts. tgt_blocks (h ! x))"
      using wf by (auto simp: wf_seq_def wf_xf_def nonneg_rs_def intro: rs.finite_abs)
    then obtain m where "\<forall>b\<in>(\<Union>x\<in>set ts. tgt_blocks (h ! x)). b \<le> m" by (meson bdd_above_def bdd_above_finite)
    then show ?thesis by (intro that[of "m + 1"]) force
  qed
  from found_sequence_good[OF wf ok dj this]
  have fresh: "tgt_blocks (h ! ?x) \<inter> written h' (take k ts') = {}" using k f(1) unfolding seq_good_def by metis
  let ?st = "make_stashes d (stash_before (h' ! ?x)) st"
  have st_eq: "?st i = (if i < length fl \<and> snd (fl ! i) = ?x
      then Some (\<lambda>b. if b \<in> blocks (overlap_of h (fl ! i)) then Some (d b) else None) else st i)" for i
    unfolding f(4) make_stashes_nth[OF stash_log_distinct] stash_log_map_of by simp
  have same: "(\<lambda>b. if b \<in> blocks (overlap_of h (fl ! i)) then Some (d b) else None) = stash_content h fl d0 i"
    if "i < length fl" "snd (fl ! i) = ?x" for i
  proof -
    have "fl ! i \<in> reads_from h ts" using ok nth_mem[OF that(1)] by (auto simp: sequence_ok_def)
    then have "blocks (overlap_of h (fl ! i)) \<subseteq> tgt_blocks (h ! ?x)"
      using blocks_overlap[OF wf, of "fst (fl ! i)" ?x] that(2) x by (cases "fl ! i") (auto simp: reads_from_def)
    then show ?thesis using fresh IH(2) by (auto simp: stash_content_def fun_eq_iff)
  qed
  have stash: "?st i = Some (stash_content h fl d0 i)" if "i < length fl" "snd (fl ! i) \<in> set (take (Suc k) ts')" for i
    using that IH(3) st_eq same unfolding tk by auto
  have old: "?st i = Some (stash_content h fl d0 i)" if "i < length fl" "snd (fl ! i) \<in> set (take k ts')" for i
    using stash[OF that(1)] that(2) tk by simp
  have src: "source_seen d ?st (h' ! ?x) = original_source d0 (h ! ?x)"
    by (rule source_seen_original[OF wf ok k old]) (use IH(2) in auto)
  let ?d = "\<lambda>b. if b \<in> tgt_blocks (h ! ?x) then new ?x (original_source d0 (h ! ?x)) b else d b"
  have "apply_update h' new (take (Suc k) ts') d0 = (?d, ?st)"
    using IH(1) src f(1) unfolding tk by (simp add: apply_update_def apply_transfer_def Let_def cong: if_cong)
  moreover have "?d b = (if b \<in> written h' (take (Suc k) ts') then new_image h new ts d0 b else d0 b)" for b
    using IH(2)[of b] new_image_eq[OF dj x, of b new d0] f(1) unfolding tk by simp
  ultimately show ?case using stash by blast
qed

section \<open>Properties\<close>

text \<open>An example store: two transfers that swap the blocks 0-1 and 2-3, so each reads what the other
  writes and one dependency has to be violated.\<close>

definition swap_store :: store where
  "swap_store = Transfer_init ''b'' (Some ''b'') (rs_of_data [2, 4]) (rs_of_data [0, 2]) ''s1'' ''s2'' Diff
     (Transfer_init ''a'' (Some ''a'') (rs_of_data [0, 2]) (rs_of_data [2, 4]) ''s2'' ''s1'' Diff [])"

lemma swap_store_ok:
  "wf_seq [0, 1] swap_store" "set [0, 1] = {..<length swap_store}" "disjoint_targets [0, 1] swap_store"
  "\<forall>x\<in>set [0, 1]. tgt_blocks (swap_store ! x) \<subseteq> {..<4}" "blocks (rs_of_data [0, 4]) \<subseteq> written swap_store [0, 1]"
  "nonneg_rs (rs_of_data [0, 4])"
  by (auto simp: wf_seq_def wf_xf_def nonneg_rs_def wf_rs_def wf_data_def swap_store_def Transfer_init_def rs_of_data_def
      remove_pairs_def disjoint_targets_def blocks_def written_def split: if_splits)

text \<open>C3: the whole ordering never raises: for every list of well-formed transfers (non-negative block
  ranges) that makes up the store, \<open>FindSequenceForTransfers\<close> returns a permutation of the transfers
  numbered by \<open>order\<close>, and when the target ranges are disjoint, inside the image and cover the care
  map, \<open>AssertSequenceGood\<close> accepts the result.\<close>

theorem found_sequence_passes_check:
  assumes "wf_seq ts h" "set ts = {..<length h}" "disjoint_targets ts h"
    "0 \<le> tb" "nonneg_rs care" "\<forall>x\<in>set ts. tgt_blocks (h ! x) \<subseteq> {..<tb}"
    "blocks care \<subseteq> written h ts"
  shows "\<exists>ts' h'. FindSequenceForTransfers ts h = Inr (ts', h') \<and> mset ts' = mset ts \<and>
    (\<forall>k<length ts'. xf_order (h' ! (ts' ! k)) = k) \<and> AssertSequenceGood tb care ts' h' = Inr ()"
proof -
  obtain ts' h' fl where r: "FindSequenceForTransfers ts h = Inr (ts', h')" and ok: "sequence_ok ts h fl ts' h'"
    using FindSequenceForTransfers_spec[OF assms(1,2)] by blast
  note f = sequence_ok_fields[OF assms(1) ok]
  have ms: "mset ts' = mset ts" "set ts' = set ts" using ok mset_same_set[of ts' ts] by (auto simp: sequence_ok_def)
  have "written h' ts' = written h ts" using f(1) ms(2) by (simp add: written_def)
  then have "AssertSequenceGood tb care ts' h' = Inr ()"
    using AssertSequenceGood_iff[of ts' h' tb care] f(5) ms(2) assms(4,5,7) found_sequence_good[OF assms(1) ok assms(3,6)] by simp
  then show ?thesis using r ms ok by (auto simp: sequence_ok_def)
qed

theorem found_sequence_passes_check_witness:
  "\<exists>ts' h'. FindSequenceForTransfers [0, 1] swap_store = Inr (ts', h') \<and> mset ts' = {#0, 1#} \<and>
     AssertSequenceGood 4 (rs_of_data [0, 4]) ts' h' = Inr ()"
  using found_sequence_passes_check[OF swap_store_ok(1-3) _ swap_store_ok(6,4,5)] by fastforce

text \<open>C4: applying the sequence in place, with the stashes it prescribes, gives the same image as
  applying every transfer to the untouched source: however the written data depends on the source
  data a transfer reads, no transfer ever sees a block that an earlier one has overwritten.\<close>

theorem in_place_update_correct:
  assumes "wf_seq ts h" "set ts = {..<length h}" "disjoint_targets ts h"
  shows "\<exists>ts' h'. FindSequenceForTransfers ts h = Inr (ts', h') \<and>
    (\<forall>new d. fst (apply_update h' new ts' d) = new_image h new ts d)"
proof -
  obtain ts' h' fl where r: "FindSequenceForTransfers ts h = Inr (ts', h')" and ok: "sequence_ok ts h fl ts' h'"
    using FindSequenceForTransfers_spec[OF assms(1,2)] by blast
  have ms: "set ts' = set ts" using ok mset_same_set[of ts' ts] by (simp add: sequence_ok_def)
  have w: "written h' ts' = written h ts" using sequence_ok_fields(1)[OF assms(1) ok] ms by (simp add: written_def)
  have "fst (apply_update h' new ts' d) = new_image h new ts d" for new and d :: "int \<Rightarrow> 'a"
  proof
    fix b
    obtain d' st where u: "apply_update h' new ts' d = (d', st)"
      "\<forall>b. d' b = (if b \<in> written h' ts' then new_image h new ts d b else d b)"
      using apply_update_ok[OF assms(1) ok assms(3) order_refl, of new d] by auto
    have "new_image h new ts d b = d b" if "b \<notin> written h ts"
    proof -
      have "find (\<lambda>x. b \<in> tgt_blocks (h ! x)) ts = None" using that by (simp add: find_None_iff written_def)
      then show ?thesis by (simp add: new_image_def)
    qed
    then show "fst (apply_update h' new ts' d) b = new_image h new ts d b" using u w by simp
  qed
  then show ?thesis using r by blast
qed

theorem in_place_update_correct_witness:
  "\<exists>ts' h'. FindSequenceForTransfers [0, 1] swap_store = Inr (ts', h') \<and>
     (\<forall>d :: int \<Rightarrow> nat. fst (apply_update h' (\<lambda>x src b. the (src (if x = 0 then b + 2 else b - 2))) ts' d) 0 = d 2)"
proof -
  obtain ts' h' where r: "FindSequenceForTransfers [0, 1] swap_store = Inr (ts', h')"
    "\<And>new (d :: int \<Rightarrow> nat). fst (apply_update h' new ts' d) = new_image swap_store new [0, 1] d"
    using in_place_update_correct[OF swap_store_ok(1-3)] by blast
  have "new_image swap_store (\<lambda>x src b. the (src (if x = 0 then b + 2 else b - 2))) [0, 1] d 0 = d 2" for d :: "int \<Rightarrow> nat"
    by (simp add: new_image_def original_source_def swap_store_def Transfer_init_def rs_of_data_def remove_pairs_def blocks_def)
  then show ?thesis using r by auto
qed

text \<open>C5: \<open>AssertSequenceGood\<close> accepts exactly the sequences in which no transfer reads (outside its
  stashes) or writes a block written before, every target block lies inside the image, and the
  care map is covered.\<close>

theorem sequence_check_exact:
  assumes "\<forall>x\<in>set ts. wf_use (h ! x)" "0 \<le> tb" "nonneg_rs care"
  shows "AssertSequenceGood tb care ts h = Inr () \<longleftrightarrow>
    (\<forall>k<length ts. \<forall>j<k. tgt_blocks (h ! (ts ! j)) \<inter> (unstashed (h ! (ts ! k)) \<union> tgt_blocks (h ! (ts ! k))) = {}) \<and>
    (\<forall>x\<in>set ts. tgt_blocks (h ! x) \<subseteq> {..<tb}) \<and> blocks care \<subseteq> written h ts"
proof -
  have "seq_good tb h ts \<longleftrightarrow>
    (\<forall>k<length ts. \<forall>j<k. tgt_blocks (h ! (ts ! j)) \<inter> (unstashed (h ! (ts ! k)) \<union> tgt_blocks (h ! (ts ! k))) = {}) \<and>
    (\<forall>x\<in>set ts. tgt_blocks (h ! x) \<subseteq> {..<tb})"
    unfolding seq_good_def all_set_conv_all_nth disjoint_iff using written_take[OF less_imp_le_nat, of _ ts _ h] by blast
  then show ?thesis using AssertSequenceGood_iff[OF assms] by blast
qed

theorem sequence_check_exact_witness:
  "AssertSequenceGood 4 (rs_of_data [0, 4]) [0, 1] swap_store \<noteq> Inr ()"
proof -
  have "\<forall>x\<in>set [0, 1]. wf_use (swap_store ! x)"
    using swap_store_ok(1) by (auto simp: wf_seq_def wf_use_def swap_store_def Transfer_init_def)
  from sequence_check_exact[OF this _ swap_store_ok(6), of 4]
  have "AssertSequenceGood 4 (rs_of_data [0, 4]) [0, 1] swap_store = Inr () \<Longrightarrow>
      tgt_blocks (swap_store ! 0) \<inter> unstashed (swap_store ! 1) = {}" by fastforce
  moreover have "0 \<in> tgt_blocks (swap_store ! 0) \<inter> unstashed (swap_store ! 1)"
    by (simp add: swap_store_def Transfer_init_def rs_of_data_def remove_pairs_def blocks_def unstashed_def)
  ultimately show ?thesis by blast
qed

text \<open>C6: \<open>AssertPartition(total, seq)\<close> accepts exactly the sequences of pairwise disjoint RangeSets
  whose union is \<open>total\<close>.\<close>

theorem partition_check_exact:
  assumes "wf_rs whole" "\<forall>r\<in>set seq. wf_rs r"
  shows "AssertPartition whole seq = Inr () \<longleftrightarrow>
    (\<forall>i<length seq. \<forall>j<length seq. i \<noteq> j \<longrightarrow> blocks (seq ! i) \<inter> blocks (seq ! j) = {}) \<and>
    \<Union> (blocks ` set seq) = blocks whole"
proof -
  have "disjoint_seq {} (map blocks seq) \<longleftrightarrow> (\<forall>i<length seq. \<forall>j<length seq. i \<noteq> j \<longrightarrow> blocks (seq ! i) \<inter> blocks (seq ! j) = {})"
    using disjoint_seq_iff[of "map blocks seq"] by simp
  then show ?thesis using AssertPartition_iff[OF assms] by simp
qed

theorem partition_check_exact_witness:
  "AssertPartition (rs_of_data [0, 4]) [rs_of_data [0, 2], rs_of_data [2, 4]] = Inr ()"
proof -
  have "wf_rs (rs_of_data [0, 4])" "\<forall>r\<in>set [rs_of_data [0, 2], rs_of_data [2, 4]]. wf_rs r"
    by (simp_all add: wf_rs_def wf_data_def rs_of_data_def remove_pairs_def)
  from partition_check_exact[OF this] show ?thesis by (simp only:) (auto simp: less_Suc_eq split: if_splits)
qed

end
