(* ===== verification/StashTable.thy ===== *)
theory StashTable
  imports Py_Prelude
begin

text \<open>
  The dictionary \<open>stashes\<close> of \<open>ReviseStashSize\<close> and \<open>WriteTransfers\<close> in
  \<open>tools/releasetools/blockimgdiff.py\<close>: in format version 3 and later a stash slot is named by the
  hash of its content, so identical stashes share a slot, and the dictionary counts the users.
  The locale \<open>slot_table\<close> states what both methods rely on: the table is a multiset of hashes.
\<close>

section \<open>The operations on the dictionary\<close>

type_synonym stash_table = "(string, int) odict"

definition slot_used :: "string \<Rightarrow> stash_table \<Rightarrow> bool" where
  "slot_used sh tab = (sh \<in> kset tab)"

text \<open>\<open>if sh in stashes: stashes[sh] += 1 else: stashes[sh] = 1\<close>.\<close>

definition slot_add :: "string \<Rightarrow> stash_table \<Rightarrow> stash_table" where
  "slot_add sh tab = (case map_of tab sh of Some n \<Rightarrow> dict_set sh (n + 1) tab | None \<Rightarrow> dict_set sh 1 tab)"

text \<open>\<open>assert sh in stashes; stashes[sh] -= 1; if stashes[sh] == 0: stashes.pop(sh)\<close>; the flag says
  whether the slot was freed.\<close>

definition slot_drop :: "string \<Rightarrow> stash_table \<Rightarrow> (bool \<times> stash_table) res" where
  "slot_drop sh tab = (case map_of tab sh of
       None \<Rightarrow> Inl AssertionError
     | Some n \<Rightarrow> if n - 1 = 0 then Inr (True, dict_del sh tab) else Inr (False, dict_set sh (n - 1) tab))"

section \<open>The contract\<close>

locale slot_table =
  fixes inv :: "'t \<Rightarrow> bool" and bag :: "'t \<Rightarrow> 'k multiset" and new :: 't
    and used :: "'k \<Rightarrow> 't \<Rightarrow> bool" and add :: "'k \<Rightarrow> 't \<Rightarrow> 't" and drop :: "'k \<Rightarrow> 't \<Rightarrow> (bool \<times> 't) res"
  assumes inv_new: "inv new" and bag_new: "bag new = {#}"
    and used_iff: "inv t \<Longrightarrow> used k t \<longleftrightarrow> k \<in># bag t"
    and inv_add: "inv t \<Longrightarrow> inv (add k t)" and bag_add: "inv t \<Longrightarrow> bag (add k t) = add_mset k (bag t)"
    and drop_ok: "inv t \<Longrightarrow> k \<in># bag t \<Longrightarrow>
      \<exists>t'. drop k t = Inr (k \<notin># bag t - {#k#}, t') \<and> inv t' \<and> bag t' = bag t - {#k#}"
    and drop_fail: "inv t \<Longrightarrow> k \<notin># bag t \<Longrightarrow> drop k t = Inl AssertionError"
begin

text \<open>The space that a table occupies when a slot \<open>k\<close> takes \<open>f k\<close>: the sum over the slots, not over
  the users. The bookkeeping that adds a slot's size when it is opened and subtracts it when it
  is freed keeps exactly this sum.\<close>

definition space :: "('k \<Rightarrow> int) \<Rightarrow> 't \<Rightarrow> int" where
  "space f t = (\<Sum>k\<in>set_mset (bag t). f k)"

lemma space_new: "space f new = 0"
  by (simp add: space_def bag_new)

lemma space_add: "inv t \<Longrightarrow> space f (add k t) = space f t + (if used k t then 0 else f k)"
  by (simp add: space_def bag_add used_iff insert_absorb)

lemma drop_space:
  assumes "inv t" "k \<in># bag t"
  shows "\<exists>freed t'. drop k t = Inr (freed, t') \<and> inv t' \<and> bag t' = bag t - {#k#} \<and>
    space f t' = space f t - (if freed then f k else 0)"
proof -
  from drop_ok[OF assms] obtain t' where t': "drop k t = Inr (k \<notin># bag t - {#k#}, t')" "inv t'" "bag t' = bag t - {#k#}"
    by blast
  have rest: "x \<in># bag t - {#k#} \<longleftrightarrow> x \<in># bag t" if "x \<noteq> k" for x
    using that by (simp add: in_diff_count)
  have rest': "x \<in># bag t" if "x \<in># bag t - {#k#}" for x
    using that by (rule in_diffD)
  have "space f t' = space f t - (if k \<notin># bag t - {#k#} then f k else 0)"
  proof (cases "k \<in># bag t - {#k#}")
    case True
    then have "set_mset (bag t - {#k#}) = set_mset (bag t)" using rest rest' assms(2) by (intro set_eqI iffI) metis+
    then show ?thesis using True t'(3) by (simp add: space_def)
  next
    case False
    then have "set_mset (bag t - {#k#}) = set_mset (bag t) - {k}" using rest by (intro set_eqI) (metis Diff_iff singletonD singletonI)
    then show ?thesis using False t'(3) assms(2) by (simp add: space_def sum_diff1)
  qed
  then show ?thesis using t' by blast
qed

lemma space_mono:
  "(\<And>k. 0 \<le> f k) \<Longrightarrow> set_mset (bag t) \<subseteq> set_mset (bag u) \<Longrightarrow> space f t \<le> space f u"
  unfolding space_def by (rule sum_mono2) auto

end

section \<open>The dictionary implements it\<close>

definition wf_table :: "stash_table \<Rightarrow> bool" where
  "wf_table tab = (distinct (keys tab) \<and> (\<forall>p\<in>set tab. 0 < snd p))"

definition table_bag :: "stash_table \<Rightarrow> string multiset" where
  "table_bag tab = sum_list (map (\<lambda>(sh, n). replicate_mset (nat n) sh) tab)"

lemma count_table_bag:
  "wf_table tab \<Longrightarrow> int (count (table_bag tab) sh) = (case map_of tab sh of None \<Rightarrow> 0 | Some n \<Rightarrow> n)"
proof (induction tab)
  case (Cons p tab)
  obtain k n where p: "p = (k, n)" by (cases p)
  have wf: "wf_table tab" "0 < n" "k \<notin> fst ` set tab" using Cons.prems p by (auto simp: wf_table_def)
  have "map_of tab k = None" using wf(3) by (simp add: map_of_eq_None_iff)
  then show ?case using Cons.IH[OF wf(1)] wf(2) p by (auto simp: table_bag_def)
qed (simp add: table_bag_def)

lemma in_table_bag:
  assumes "wf_table tab"
  shows "sh \<in># table_bag tab \<longleftrightarrow> sh \<in> kset tab"
proof -
  have "0 < n" if "map_of tab sh = Some n" for n
    using that assms map_of_SomeD[OF that] by (fastforce simp: wf_table_def)
  then have "0 < int (count (table_bag tab) sh) \<longleftrightarrow> sh \<in> kset tab"
    using count_table_bag[OF assms, of sh] by (auto simp: kset_dom split: option.splits)
  then show ?thesis by simp
qed

lemma table_bag_eqI:
  assumes "wf_table tab" "\<And>sh. int (count M sh) = (case map_of tab sh of None \<Rightarrow> 0 | Some n \<Rightarrow> n)"
  shows "table_bag tab = M"
proof (rule multiset_eqI)
  fix sh show "count (table_bag tab) sh = count M sh"
    using count_table_bag[OF assms(1), of sh] assms(2)[of sh] by linarith
qed

lemma wf_table_set: "wf_table tab \<Longrightarrow> 0 < n \<Longrightarrow> wf_table (dict_set k n tab)"
  using set_dict_set[of k n tab] by (auto simp: wf_table_def)

lemma wf_table_del: "wf_table tab \<Longrightarrow> wf_table (dict_del k tab)"
  unfolding wf_table_def using distinct_dict_del[of tab k] by (simp add: dict_del_def)

interpretation st: slot_table wf_table table_bag "[]" slot_used slot_add slot_drop
proof unfold_locales
  fix t :: stash_table and k :: string
  assume wf: "wf_table t"
  note cnt = count_table_bag[OF wf]
  have pos: "0 < n" if "map_of t k = Some n" for n
    using wf map_of_SomeD[OF that] by (fastforce simp: wf_table_def)
  show "slot_used k t \<longleftrightarrow> k \<in># table_bag t" by (simp add: slot_used_def in_table_bag[OF wf])
  show wfa: "wf_table (slot_add k t)" using wf pos by (fastforce simp: slot_add_def intro!: wf_table_set split: option.splits)
  show "table_bag (slot_add k t) = add_mset k (table_bag t)"
    by (rule table_bag_eqI[OF wfa]) (use cnt in \<open>auto simp: slot_add_def split: option.splits\<close>)
  show "k \<notin># table_bag t \<Longrightarrow> slot_drop k t = Inl AssertionError"
    using in_table_bag[OF wf] by (auto simp: slot_drop_def kset_dom split: option.splits)
  assume k: "k \<in># table_bag t"
  then obtain n where n: "map_of t k = Some n" using in_table_bag[OF wf] by (auto simp: kset_dom)
  define t' where "t' = (if n = 1 then dict_del k t else dict_set k (n - 1) t)"
  have wft: "wf_table t'" using wf pos[OF n] by (auto simp: t'_def intro!: wf_table_set wf_table_del)
  have bag: "table_bag t' = table_bag t - {#k#}"
  proof (rule table_bag_eqI[OF wft])
    fix sh show "int (count (table_bag t - {#k#}) sh) = (case map_of t' sh of None \<Rightarrow> 0 | Some n \<Rightarrow> n)"
      using cnt[of sh] n pos[OF n] by (auto simp: t'_def split: option.splits)
  qed
  have "int (count (table_bag t) k) = n" using cnt[of k] n by simp
  moreover have "k \<notin># table_bag t - {#k#} \<longleftrightarrow> count (table_bag t) k - 1 = 0" by (simp only: not_in_iff count_diff count_single if_True refl)
  ultimately have "k \<notin># table_bag t - {#k#} \<longleftrightarrow> n = 1" using pos[OF n] by linarith
  then show "\<exists>t'. slot_drop k t = Inr (k \<notin># table_bag t - {#k#}, t') \<and> wf_table t' \<and> table_bag t' = table_bag t - {#k#}"
    using n wft bag by (intro exI[of _ t']) (auto simp: slot_drop_def t'_def)
qed (auto simp: wf_table_def table_bag_def)

end
