(* ===== verification/ReviseStash.thy ===== *)
theory ReviseStash
  imports SequenceCheck StashTable Complex_Main
begin

text \<open>
  \<open>BlockImageDiff.ReviseStashSize\<close>: a dry run of the stash commands that converts to \<open>new\<close> the
  transfers whose stashes do not fit. The limit \<open>cache_size * stash_threshold / blocksize\<close> is a
  Python float; the model uses the exact rational. The hash \<open>src.RangeSha1\<close> is a parameter
  (SHA-1 of the blocks of the source image).
\<close>

section \<open>Operations\<close>

text \<open>\<open>stash_map[raw_id]\<close>: the range, the defining transfer and the tuple's further entries, the
  transfers that use the stash.\<close>

type_synonym stash_map = "(nat, range_set \<times> nat \<times> nat list) odict"

definition map_defs :: "nat \<Rightarrow> stash_map \<Rightarrow> nat \<times> range_set \<Rightarrow> stash_map" where
  "map_defs xf sm = (\<lambda>(stash_raw_id, sr). dict_set stash_raw_id (sr, xf, []) sm)"

definition map_uses :: "nat \<Rightarrow> stash_map \<Rightarrow> nat \<times> range_set \<Rightarrow> stash_map res" where
  "map_uses xf sm = (\<lambda>(stash_raw_id, _).
     try_bind (dict_get sm stash_raw_id) (\<lambda>(sr, d, us). Inr (dict_set stash_raw_id (sr, d, us @ [xf]) sm)))"

definition build_stash_map :: "nat list \<Rightarrow> store \<Rightarrow> stash_map res" where
  "build_stash_map ts h =
     for_each (\<lambda>sm xf. for_each (map_uses xf) (foldl (map_defs xf) sm (stash_before (h ! xf))) (use_stash (h ! xf))) [] ts"

definition use_cmd :: "stash_map \<Rightarrow> nat \<Rightarrow> nat res" where
  "use_cmd sm i = try_bind (dict_get sm i) (\<lambda>(sr, d, us). py_get us 0)"

definition def_cmd :: "stash_map \<Rightarrow> nat \<Rightarrow> nat res" where
  "def_cmd sm i = try_bind (dict_get sm i) (\<lambda>(sr, d, us). Inr d)"

text \<open>\<open>max_allowed_blocks\<close>, and the guard \<open>max_allowed_blocks and n > max_allowed_blocks\<close>: \<open>None\<close>
  and 0 are false.\<close>

definition allowed_blocks :: "int \<Rightarrow> rat \<Rightarrow> int \<Rightarrow> rat" where
  "allowed_blocks cache_size stash_threshold blocksize = of_int cache_size * stash_threshold / of_int blocksize"

definition exceeds :: "rat option \<Rightarrow> int \<Rightarrow> bool" where
  "exceeds limit n = (case limit of None \<Rightarrow> False | Some m \<Rightarrow> m \<noteq> 0 \<and> of_int n > m)"

text \<open>The local variables of the second loop, with the store.\<close>

record revise =
  rv_store :: store
  rv_stashes :: stash_table
  rv_stashed :: int
  rv_new :: int
  rv_max :: int

definition explicit_stash ::
  "(range_set \<Rightarrow> string) \<Rightarrow> rat option \<Rightarrow> stash_map \<Rightarrow> revise \<times> nat list \<Rightarrow> nat \<times> range_set \<Rightarrow> (revise \<times> nat list) res" where
  "explicit_stash RangeSha1 limit sm = (\<lambda>(st, replaced) (stash_raw_id, sr).
     let sh = RangeSha1 sr;
         stashed_after = rv_stashed st + (if slot_used sh (rv_stashes st) then 0 else rs_size sr)
     in if exceeds limit stashed_after
        then try_bind (use_cmd sm stash_raw_id) (\<lambda>u. Inr (st, replaced @ [u]))
        else Inr (st\<lparr>rv_stashes := slot_add sh (rv_stashes st), rv_stashed := stashed_after,
                     rv_max := max (rv_max st) stashed_after\<rparr>, replaced))"

definition implicit_stash :: "rat option \<Rightarrow> nat \<Rightarrow> revise \<times> nat list \<Rightarrow> (revise \<times> nat list) res" where
  "implicit_stash limit xf = (\<lambda>(st, replaced).
     let x = rv_store st ! xf in
     if xf_style x = Diff then
       try_bind (py_assert (rs_bool (tgt_ranges x) \<and> rs_bool (src_ranges x))) (\<lambda>_.
         if rs_overlaps (src_ranges x) (tgt_ranges x) then
           if exceeds limit (rv_stashed st + rs_size (src_ranges x)) then Inr (st, replaced @ [xf])
           else Inr (st\<lparr>rv_max := max (rv_max st) (rv_stashed st + rs_size (src_ranges x))\<rparr>, replaced)
         else Inr (st, replaced))
     else Inr (st, replaced))"

text \<open>\<open>(stash_raw_id, sr) in stash_before\<close> and \<open>stash_before.remove(...)\<close>: pairs are compared with
  \<open>==\<close>, which compares RangeSets by their data.\<close>

definition same_stash :: "nat \<times> range_set \<Rightarrow> nat \<times> range_set \<Rightarrow> bool" where
  "same_stash p q = (fst p = fst q \<and> rs_eq (snd p) (snd q))"

fun remove_stash :: "nat \<times> range_set \<Rightarrow> (nat \<times> range_set) list \<Rightarrow> (nat \<times> range_set) list" where
  "remove_stash p [] = []"
| "remove_stash p (q # qs) = (if same_stash p q then qs else q # remove_stash p qs)"

definition remove_def :: "stash_map \<Rightarrow> store \<Rightarrow> nat \<times> range_set \<Rightarrow> store res" where
  "remove_def sm h p =
     try_bind (def_cmd sm (fst p)) (\<lambda>d.
       try_bind (py_assert (list_ex (same_stash p) (stash_before (h ! d)))) (\<lambda>_.
         Inr (upd d (\<lambda>x. x\<lparr>stash_before := remove_stash p (stash_before x)\<rparr>) h)))"

definition replace_cmd :: "stash_map \<Rightarrow> revise \<Rightarrow> nat \<Rightarrow> revise res" where
  "replace_cmd sm st cmd =
     try_bind (for_each (remove_def sm) (rv_store st) (use_stash (rv_store st ! cmd))) (\<lambda>h.
       try_bind (ConvertToNew (h ! cmd)) (\<lambda>x.
         Inr (st\<lparr>rv_store := h[cmd := x], rv_new := rv_new st + rs_size (tgt_ranges (h ! cmd))\<rparr>)))"

definition free_stash :: "(range_set \<Rightarrow> string) \<Rightarrow> revise \<Rightarrow> nat \<times> range_set \<Rightarrow> revise res" where
  "free_stash RangeSha1 st = (\<lambda>(_, sr).
     try_bind (slot_drop (RangeSha1 sr) (rv_stashes st)) (\<lambda>(freed, tab).
       Inr (st\<lparr>rv_stashes := tab, rv_stashed := rv_stashed st - (if freed then rs_size sr else 0)\<rparr>)))"

definition revise_transfer ::
  "(range_set \<Rightarrow> string) \<Rightarrow> rat option \<Rightarrow> stash_map \<Rightarrow> revise \<Rightarrow> nat \<Rightarrow> revise res" where
  "revise_transfer RangeSha1 limit sm st xf =
     try_bind (for_each (explicit_stash RangeSha1 limit sm) (st, []) (stash_before (rv_store st ! xf))) (\<lambda>p.
       try_bind (implicit_stash limit xf p) (\<lambda>q.
         try_bind (for_each (replace_cmd sm) (fst q) (snd q)) (\<lambda>st2.
           for_each (free_stash RangeSha1) st2 (use_stash (rv_store st2 ! xf)))))"

text \<open>The method returns \<open>(new_blocks, max_stashed_blocks)\<close>; the model also returns the store.\<close>

definition ReviseStashSize ::
  "(range_set \<Rightarrow> string) \<Rightarrow> rat option \<Rightarrow> nat list \<Rightarrow> store \<Rightarrow> (int \<times> int \<times> store) res" where
  "ReviseStashSize RangeSha1 limit ts h =
     try_bind (build_stash_map ts h) (\<lambda>sm.
       try_bind (for_each (revise_transfer RangeSha1 limit sm)
                   \<lparr>rv_store = h, rv_stashes = [], rv_stashed = 0, rv_new = 0, rv_max = 0\<rparr> ts) (\<lambda>st.
         Inr (rv_new st, rv_max st, rv_store st)))"

section \<open>Stash records\<close>

text \<open>
  The records the ordering leaves are determined by the list \<open>fl\<close> of violated dependencies: raw id
  \<open>i\<close> belongs to the dependency \<open>fl ! i\<close>, its user is \<open>fst (fl ! i)\<close> and its maker \<open>snd (fl ! i)\<close>.
  When the transfers in \<open>C\<close> have been converted to \<open>new\<close>, the records left are those whose user
  is not in \<open>C\<close>.
\<close>

abbreviation user :: "(nat \<times> nat) list \<Rightarrow> nat \<Rightarrow> nat" where
  "user fl i \<equiv> fst (fl ! i)"

abbreviation maker :: "(nat \<times> nat) list \<Rightarrow> nat \<Rightarrow> nat" where
  "maker fl i \<equiv> snd (fl ! i)"

definition stash_plan :: "store \<Rightarrow> (nat \<times> nat) list \<Rightarrow> nat list \<Rightarrow> bool" where
  "stash_plan h0 fl ts = (distinct ts \<and> distinct fl \<and> set ts = {..<length h0} \<and>
     (\<forall>i<length fl. user fl i \<in> set ts \<and> maker fl i \<in> set ts) \<and>
     (\<forall>i<length fl. \<forall>k<length ts. user fl i = ts ! k \<longrightarrow> maker fl i \<in> set (take k ts)))"

definition converted :: "store \<Rightarrow> (nat \<times> nat) list \<Rightarrow> nat list \<Rightarrow> nat set \<Rightarrow> store \<Rightarrow> bool" where
  "converted h0 fl ts C h = (length h = length h0 \<and> (\<forall>x\<in>set ts.
     use_stash (h ! x) = (if x \<in> C then [] else stash_log h0 fl fst x) \<and>
     stash_before (h ! x) = filter (\<lambda>p. user fl (fst p) \<notin> C) (stash_log h0 fl snd x) \<and>
     tgt_ranges (h ! x) = tgt_ranges (h0 ! x) \<and>
     src_ranges (h ! x) = (if x \<in> C then rs_empty else src_ranges (h0 ! x)) \<and>
     xf_style (h ! x) = (if x \<in> C then New else xf_style (h0 ! x))))"

lemma plan_of_sequence:
  assumes "wf_seq ts h" "sequence_ok ts h fl ts' h'" "set ts = {..<length h}"
  shows "stash_plan h fl ts'" "converted h fl ts' {} h'"
proof -
  have ms: "set ts' = set ts" "distinct ts'" using assms mset_same_set[of ts' ts] by (auto simp: sequence_ok_def wf_seq_def)
  have "user fl i \<in> set ts \<and> maker fl i \<in> set ts" if "i < length fl" for i
    using nth_mem[OF that] assms(2) by (auto simp: sequence_ok_def reads_from_def)
  then show "stash_plan h fl ts'"
    using ms assms stash_made_before_use[OF assms(1,2)] by (auto simp: stash_plan_def wf_seq_def sequence_ok_def)
  have len: "length h' = length h" using assms(2) by (metis sequence_ok_def length_map)
  have "xf_style (h' ! x) = xf_style (h ! x)" if "x \<in> set ts" for x
    using static_fields(4)[of h' h x] assms that by (auto simp: sequence_ok_def wf_seq_def)
  then show "converted h fl ts' {} h'"
    using sequence_ok_fields[OF assms(1,2)] ms(1) len by (simp add: converted_def)
qed

lemma stash_log_ids: "fst ` set (stash_log h fl f x) = {i. i < length fl \<and> f (fl ! i) = x}"
  by (force simp: stash_log_def)

section \<open>The stash map\<close>

lemma map_defs_fold:
  "distinct (map fst ps) \<Longrightarrow> map_of (foldl (map_defs xf) sm ps) i =
     (case map_of ps i of Some sr \<Rightarrow> Some (sr, xf, []) | None \<Rightarrow> map_of sm i)"
proof (induction ps arbitrary: sm)
  case (Cons p ps)
  obtain j r where p: "p = (j, r)" by (cases p)
  have "map_of ps j = None" using Cons.prems p by (simp add: map_of_eq_None_iff)
  then show ?case using Cons p by (auto simp: map_defs_def split: option.splits)
qed simp

lemma map_uses_all:
  assumes "distinct (map fst ps)" "\<And>i. i \<in> fst ` set ps \<Longrightarrow> map_of sm i = Some (f i, g i, [])"
  shows "\<exists>sm'. for_each (map_uses xf) sm ps = Inr sm' \<and>
    (\<forall>i. map_of sm' i = (if i \<in> fst ` set ps then Some (f i, g i, [xf]) else map_of sm i))"
  using assms
proof (induction ps arbitrary: sm)
  case (Cons p ps)
  obtain j r where p: "p = (j, r)" by (cases p)
  have j: "map_of sm j = Some (f j, g j, [])" "j \<notin> fst ` set ps" using Cons.prems p by auto
  let ?sm = "dict_set j (f j, g j, [xf]) sm"
  have step: "map_uses xf sm p = Inr ?sm" using j p by (simp add: map_uses_def dict_get_def)
  have "map_of ?sm i = Some (f i, g i, [])" if "i \<in> fst ` set ps" for i using that Cons.prems(2)[of i] j(2) by auto
  with Cons.IH[of ?sm] Cons.prems(1) p obtain sm' where "for_each (map_uses xf) ?sm ps = Inr sm'"
    "\<forall>i. map_of sm' i = (if i \<in> fst ` set ps then Some (f i, g i, [xf]) else map_of ?sm i)" by auto
  then show ?case using step p j(2) by auto
qed auto

definition map_progress :: "store \<Rightarrow> (nat \<times> nat) list \<Rightarrow> nat list \<Rightarrow> stash_map \<Rightarrow> bool" where
  "map_progress h0 fl ys sm = (\<forall>i<length fl. maker fl i \<in> set ys \<longrightarrow>
     map_of sm i = Some (overlap_of h0 (fl ! i), maker fl i, if user fl i \<in> set ys then [user fl i] else []))"

lemma build_stash_map_ok:
  assumes plan: "stash_plan h0 fl ts" and h: "converted h0 fl ts {} h"
  shows "\<exists>sm. build_stash_map ts h = Inr sm \<and>
    (\<forall>i<length fl. map_of sm i = Some (overlap_of h0 (fl ! i), maker fl i, [user fl i]))"
proof -
  let ?f = "\<lambda>sm xf. for_each (map_uses xf) (foldl (map_defs xf) sm (stash_before (h ! xf))) (use_stash (h ! xf))"
  have "\<exists>sm. for_each ?f [] ts = Inr sm \<and> map_progress h0 fl ts sm"
  proof (rule for_each_invariant[where P = "map_progress h0 fl"])
    fix ys x zs sm assume split: "ts = ys @ x # zs" and P: "map_progress h0 fl ys sm"
    have x: "x \<in> set ts" "x \<notin> set ys" using split plan by (auto simp: stash_plan_def)
    have recs: "use_stash (h ! x) = stash_log h0 fl fst x" "stash_before (h ! x) = stash_log h0 fl snd x"
      using h x(1) by (auto simp: converted_def)
    let ?sm = "foldl (map_defs x) sm (stash_log h0 fl snd x)"
    have sm1: "map_of ?sm i = (if i < length fl \<and> maker fl i = x then Some (overlap_of h0 (fl ! i), x, []) else map_of sm i)" for i
      unfolding map_defs_fold[OF stash_log_distinct] stash_log_map_of by simp
    have before_x: "maker fl i \<in> set ys \<and> user fl i \<notin> set ys" if "i < length fl" "user fl i = x" for i
    proof -
      have "user fl i = ts ! length ys" "length ys < length ts" using split that by auto
      then have "maker fl i \<in> set (take (length ys) ts)" using plan that(1) by (auto simp: stash_plan_def)
      then show ?thesis using split x(2) that(2) by simp
    qed
    have "map_of ?sm i = Some (overlap_of h0 (fl ! i), maker fl i, [])" if "i \<in> fst ` set (stash_log h0 fl fst x)" for i
      using that before_x[of i] P x(2) unfolding stash_log_ids by (auto simp: sm1 map_progress_def)
    from map_uses_all[where f = "\<lambda>i. overlap_of h0 (fl ! i)" and g = "\<lambda>i. maker fl i" and xf = x, OF stash_log_distinct this]
    obtain sm' where sm': "for_each (map_uses x) ?sm (stash_log h0 fl fst x) = Inr sm'"
      "\<forall>i. map_of sm' i = (if i \<in> fst ` set (stash_log h0 fl fst x) then Some (overlap_of h0 (fl ! i), maker fl i, [x]) else map_of ?sm i)"
      by blast
    have sm2: "map_of sm' i = (if user fl i = x then Some (overlap_of h0 (fl ! i), maker fl i, [x])
        else if maker fl i = x then Some (overlap_of h0 (fl ! i), x, []) else map_of sm i)" if "i < length fl" for i
      using sm'(2) that unfolding stash_log_ids sm1 by simp
    have "map_progress h0 fl (ys @ [x]) sm'"
      unfolding map_progress_def
    proof (intro allI impI)
      fix i assume i: "i < length fl" "maker fl i \<in> set (ys @ [x])"
      have late: "user fl i \<notin> set ys" if "maker fl i = x"
      proof
        assume "user fl i \<in> set ys"
        then obtain k where k: "k < length ys" "user fl i = ys ! k" by (auto simp: in_set_conv_nth)
        then have "user fl i = ts ! k" "k < length ts" using split by (auto simp: nth_append)
        then have "x \<in> set (take k ts)" using plan i(1) that unfolding stash_plan_def by metis
        then show False using split k(1) x(2) in_set_takeD[of x k ys] by simp
      qed
      show "map_of sm' i = Some (overlap_of h0 (fl ! i), maker fl i, if user fl i \<in> set (ys @ [x]) then [user fl i] else [])"
        using sm2[OF i(1)] P i late unfolding map_progress_def by auto
    qed
    then show "\<exists>sm'. ?f sm x = Inr sm' \<and> map_progress h0 fl (ys @ [x]) sm'" using sm'(1) recs by simp
  qed (simp add: map_progress_def)
  then obtain sm where sm: "build_stash_map ts h = Inr sm" "map_progress h0 fl ts sm" by (auto simp: build_stash_map_def)
  have "map_of sm i = Some (overlap_of h0 (fl ! i), maker fl i, [user fl i])" if "i < length fl" for i
  proof -
    have "user fl i \<in> set ts" "maker fl i \<in> set ts" using plan that unfolding stash_plan_def by blast+
    then show ?thesis using sm(2) that unfolding map_progress_def by simp
  qed
  then show ?thesis using sm(1) by blast
qed

section \<open>Converting one transfer\<close>

lemma rs_eq_refl [simp]: "rs_eq r r"
  by (simp add: rs_eq_def)

lemma remove_stash_filter:
  "distinct (map fst qs) \<Longrightarrow> p \<in> set qs \<Longrightarrow> remove_stash p qs = filter (\<lambda>q. fst q \<noteq> fst p) qs"
proof (induction qs)
  case (Cons q qs)
  show ?case
  proof (cases "q = p")
    case True
    then have "\<forall>r\<in>set qs. fst r \<noteq> fst p" using Cons.prems(1) by (metis distinct.simps(2) image_eqI image_set list.simps(9))
    then show ?thesis using True by (simp add: same_stash_def)
  next
    case False
    then have "p \<in> set qs" using Cons.prems(2) by simp
    then have "fst q \<noteq> fst p" using Cons.prems(1) by (metis distinct.simps(2) image_eqI image_set list.simps(9))
    then show ?thesis using Cons \<open>p \<in> set qs\<close> by (simp add: same_stash_def)
  qed
qed simp

definition map_exact :: "store \<Rightarrow> (nat \<times> nat) list \<Rightarrow> stash_map \<Rightarrow> bool" where
  "map_exact h0 fl sm = (\<forall>i<length fl. map_of sm i = Some (overlap_of h0 (fl ! i), maker fl i, [user fl i]))"

lemma map_exact_cmds:
  assumes "map_exact h0 fl sm" "i < length fl"
  shows "use_cmd sm i = Inr (user fl i)" "def_cmd sm i = Inr (maker fl i)"
  using assms by (simp_all add: map_exact_def use_cmd_def def_cmd_def dict_get_def)

text \<open>While the stashes of \<open>cmd\<close> are removed one by one, the records with ids in \<open>I\<close> are gone.\<close>

definition removing :: "store \<Rightarrow> store \<Rightarrow> (nat \<times> nat) list \<Rightarrow> nat set \<Rightarrow> nat set \<Rightarrow> store \<Rightarrow> bool" where
  "removing h h0 fl C I g = (length g = length h \<and> (\<forall>x<length h. g ! x = (h ! x)\<lparr>stash_before := stash_before (g ! x)\<rparr>) \<and>
     (\<forall>x<length h. stash_before (g ! x) = filter (\<lambda>p. fst p \<notin> I) (stash_before (h ! x))))"

lemma remove_defs_ok:
  assumes plan: "stash_plan h0 fl ts" and h: "converted h0 fl ts C h" and sm: "map_exact h0 fl sm"
    and cmd: "cmd \<in> set ts" "cmd \<notin> C"
  shows "\<exists>g. for_each (remove_def sm) h (use_stash (h ! cmd)) = Inr g \<and>
    removing h h0 fl C {i. i < length fl \<and> user fl i = cmd} g"
proof -
  let ?us = "stash_log h0 fl fst cmd"
  have us: "use_stash (h ! cmd) = ?us" using h cmd by (simp add: converted_def)
  have len: "length h = length h0" using h by (simp add: converted_def)
  have "\<exists>g. for_each (remove_def sm) h ?us = Inr g \<and> removing h h0 fl C (fst ` set ?us) g"
  proof (rule for_each_invariant[where P = "\<lambda>ys g. removing h h0 fl C (fst ` set ys) g"])
    show "removing h h0 fl C (fst ` set []) h" by (simp add: removing_def)
    fix ys p zs g assume split: "?us = ys @ p # zs" and P: "removing h h0 fl C (fst ` set ys) g"
    obtain i r where p: "p = (i, r)" by (cases p)
    have "p \<in> set ?us" using split by simp
    then have i: "i < length fl" "user fl i = cmd" "r = overlap_of h0 (fl ! i)" using p by (auto simp: in_stash_log)
    have fresh: "i \<notin> fst ` set ys" using stash_log_distinct[of h0 fl fst cmd] split p by auto
    let ?d = "maker fl i"
    have d: "?d \<in> set ts" "?d < length h" using plan i(1) len by (auto simp: stash_plan_def)
    have sb: "stash_before (h ! ?d) = filter (\<lambda>p. user fl (fst p) \<notin> C) (stash_log h0 fl snd ?d)"
      using h d(1) by (simp add: converted_def)
    have gd: "stash_before (g ! ?d) = filter (\<lambda>p. fst p \<notin> fst ` set ys) (stash_before (h ! ?d))"
      using P d(2) by (simp add: removing_def)
    have mem: "p \<in> set (stash_before (g ! ?d))"
      unfolding gd sb using p i fresh cmd(2) by (simp add: in_stash_log)
    have dist: "distinct (map fst (stash_before (g ! ?d)))"
      unfolding gd sb by (intro distinct_map_filter) (rule stash_log_distinct)
    let ?g = "upd ?d (\<lambda>x. x\<lparr>stash_before := filter (\<lambda>q. fst q \<noteq> i) (stash_before x)\<rparr>) g"
    have "list_ex (same_stash p) (stash_before (g ! ?d))"
      using mem by (force simp: list_ex_iff same_stash_def)
    then have step: "remove_def sm g p = Inr ?g"
      using map_exact_cmds(2)[OF sm i(1)] remove_stash_filter[OF dist mem] p
      by (simp add: remove_def_def upd_def)
    have lg: "length g = length h" using P by (simp add: removing_def)
    have other: "fst q \<noteq> i" if "x < length h" "x \<noteq> ?d" "q \<in> set (stash_before (h ! x))" for x q
    proof -
      have "x \<in> set ts" using that(1) len plan by (simp add: stash_plan_def)
      then have "q \<in> set (stash_log h0 fl snd x)" using h that(3) by (simp add: converted_def)
      then show ?thesis using that(2) in_stash_log[of "fst q" "snd q" h0 fl snd x] by auto
    qed
    have gx: "stash_before (?g ! x) = filter (\<lambda>p. fst p \<notin> insert i (fst ` set ys)) (stash_before (h ! x))" if "x < length h" for x
    proof (cases "x = ?d")
      case True
      then show ?thesis using lg d(2) gd by (auto simp: nth_upd intro: filter_cong)
    next
      case False
      have "?g ! x = g ! x" using False that lg by (simp add: nth_upd)
      then have "stash_before (?g ! x) = filter (\<lambda>p. fst p \<notin> fst ` set ys) (stash_before (h ! x))"
        using P that by (simp add: removing_def)
      also have "\<dots> = filter (\<lambda>p. fst p \<notin> insert i (fst ` set ys)) (stash_before (h ! x))"
        using other[OF that False] by (intro filter_cong) auto
      finally show ?thesis .
    qed
    have "?g ! x = (h ! x)\<lparr>stash_before := stash_before (?g ! x)\<rparr>" if "x < length h" for x
    proof -
      have gh: "g ! x = (h ! x)\<lparr>stash_before := stash_before (g ! x)\<rparr>" using P that unfolding removing_def by blast
      have "?g ! x = (g ! x)\<lparr>stash_before := stash_before (?g ! x)\<rparr>" using that lg by (simp add: nth_upd)
      also have "\<dots> = (h ! x)\<lparr>stash_before := stash_before (?g ! x)\<rparr>" by (subst gh) simp
      finally show ?thesis .
    qed
    then have "removing h h0 fl C (insert i (fst ` set ys)) ?g"
      using gx lg by (simp add: removing_def)
    then show "\<exists>g'. remove_def sm g p = Inr g' \<and> removing h h0 fl C (fst ` set (ys @ [p])) g'"
      using step p by auto
  qed
  then show ?thesis using us by (simp add: stash_log_ids)
qed

lemma replace_cmd_ok:
  assumes plan: "stash_plan h0 fl ts" and h: "converted h0 fl ts C (rv_store st)" and sm: "map_exact h0 fl sm"
    and cmd: "cmd \<in> set ts" "cmd \<notin> C" "xf_style (h0 ! cmd) \<noteq> New"
  shows "\<exists>g. replace_cmd sm st cmd = Inr (st\<lparr>rv_store := g, rv_new := rv_new st + rs_size (tgt_ranges (h0 ! cmd))\<rparr>) \<and>
    converted h0 fl ts (insert cmd C) g"
proof -
  let ?h = "rv_store st" and ?I = "{i. i < length fl \<and> user fl i = cmd}"
  obtain g where g: "for_each (remove_def sm) ?h (use_stash (?h ! cmd)) = Inr g" "removing ?h h0 fl C ?I g"
    using remove_defs_ok[OF plan h sm cmd(1,2)] by blast
  have len: "length ?h = length h0" "length g = length h0" using h g(2) by (auto simp: converted_def removing_def)
  have all: "x < length h0 \<longleftrightarrow> x \<in> set ts" for x using plan by (simp add: stash_plan_def)
  have sb: "stash_before (g ! x) = filter (\<lambda>p. fst p \<notin> ?I) (stash_before (?h ! x))" if "x \<in> set ts" for x
    using g(2) that len all by (simp add: removing_def)
  have gx: "use_stash (g ! x) = use_stash (?h ! x)" "tgt_ranges (g ! x) = tgt_ranges (?h ! x)"
    "src_ranges (g ! x) = src_ranges (?h ! x)" "xf_style (g ! x) = xf_style (?h ! x)" if "x \<in> set ts" for x
  proof -
    have "x < length ?h" using that len all by simp
    then have "g ! x = (?h ! x)\<lparr>stash_before := stash_before (g ! x)\<rparr>" using g(2) unfolding removing_def by blast
    then obtain b where "g ! x = (?h ! x)\<lparr>stash_before := b\<rparr>" by blast
    then show "use_stash (g ! x) = use_stash (?h ! x)" "tgt_ranges (g ! x) = tgt_ranges (?h ! x)"
      "src_ranges (g ! x) = src_ranges (?h ! x)" "xf_style (g ! x) = xf_style (?h ! x)" by simp_all
  qed
  define new where "new = (g ! cmd)\<lparr>use_stash := [], xf_style := New, src_ranges := rs_empty, xf_patch_info := None\<rparr>"
  have conv: "ConvertToNew (g ! cmd) = Inr new"
    using gx(4)[OF cmd(1)] h cmd by (simp add: ConvertToNew_def set_patch_info_def new_def converted_def)
  have tgt: "tgt_ranges (g ! cmd) = tgt_ranges (h0 ! cmd)" using gx(2)[OF cmd(1)] h cmd(1) by (simp add: converted_def)
  have sb': "stash_before (g ! x) = filter (\<lambda>p. user fl (fst p) \<notin> insert cmd C) (stash_log h0 fl snd x)" if "x \<in> set ts" for x
  proof -
    have "stash_before (g ! x) = filter (\<lambda>p. user fl (fst p) \<notin> C \<and> fst p \<notin> ?I) (stash_log h0 fl snd x)"
      using sb[OF that] h that by (simp add: converted_def conj_commute)
    also have "\<dots> = filter (\<lambda>p. user fl (fst p) \<notin> insert cmd C) (stash_log h0 fl snd x)"
      by (rule filter_cong) (auto simp: in_stash_log)
    finally show ?thesis .
  qed
  have "converted h0 fl ts (insert cmd C) (g[cmd := new])"
    unfolding converted_def
  proof (intro conjI ballI)
    show "length (g[cmd := new]) = length h0" using len by simp
    fix x assume x: "x \<in> set ts"
    have nth: "g[cmd := new] ! x = (if x = cmd then new else g ! x)" using x all[of x] len by (auto simp: nth_list_update)
    show "use_stash (g[cmd := new] ! x) = (if x \<in> insert cmd C then [] else stash_log h0 fl fst x)"
      "tgt_ranges (g[cmd := new] ! x) = tgt_ranges (h0 ! x)"
      "src_ranges (g[cmd := new] ! x) = (if x \<in> insert cmd C then rs_empty else src_ranges (h0 ! x))"
      "xf_style (g[cmd := new] ! x) = (if x \<in> insert cmd C then New else xf_style (h0 ! x))"
      using gx[OF x] tgt h x unfolding nth converted_def by (auto simp: new_def)
    show "stash_before (g[cmd := new] ! x) = filter (\<lambda>p. user fl (fst p) \<notin> insert cmd C) (stash_log h0 fl snd x)"
      using sb'[OF x] unfolding nth by (auto simp: new_def)
  qed
  then show ?thesis using g(1) conv tgt by (auto simp: replace_cmd_def)
qed

lemma replace_cmds_ok:
  assumes plan: "stash_plan h0 fl ts" and sm: "map_exact h0 fl sm"
    and "converted h0 fl ts C (rv_store st)" "distinct cmds" "set cmds \<subseteq> set ts" "set cmds \<inter> C = {}"
    "\<forall>c\<in>set cmds. xf_style (h0 ! c) \<noteq> New"
  shows "\<exists>g. for_each (replace_cmd sm) st cmds =
      Inr (st\<lparr>rv_store := g, rv_new := rv_new st + sum_list (map (\<lambda>c. rs_size (tgt_ranges (h0 ! c))) cmds)\<rparr>) \<and>
    converted h0 fl ts (C \<union> set cmds) g"
  using assms(3-)
proof (induction cmds arbitrary: st C)
  case Nil
  then show ?case by (intro exI[of _ "rv_store st"]) simp
next
  case (Cons c cmds)
  from replace_cmd_ok[OF plan Cons.prems(1) sm, of c] Cons.prems
  obtain g where g: "replace_cmd sm st c = Inr (st\<lparr>rv_store := g, rv_new := rv_new st + rs_size (tgt_ranges (h0 ! c))\<rparr>)"
    "converted h0 fl ts (insert c C) g" by auto
  let ?st = "st\<lparr>rv_store := g, rv_new := rv_new st + rs_size (tgt_ranges (h0 ! c))\<rparr>"
  from Cons.IH[of "insert c C" ?st] g(2) Cons.prems
  obtain g' where "for_each (replace_cmd sm) ?st cmds =
      Inr (?st\<lparr>rv_store := g', rv_new := rv_new ?st + sum_list (map (\<lambda>c. rs_size (tgt_ranges (h0 ! c))) cmds)\<rparr>)"
    "converted h0 fl ts (insert c C \<union> set cmds) g'" by auto
  then show ?case using g(1) by (intro exI[of _ g']) (simp add: add.assoc)
qed

section \<open>The accounting\<close>

text \<open>The slot of a raw id; the ids stashed and not used yet before step \<open>k\<close> (\<open>live\<close>) and while step
  \<open>k\<close> runs (\<open>held\<close>), leaving out the users in \<open>C\<close>.\<close>

definition slot_of :: "(range_set \<Rightarrow> string) \<Rightarrow> store \<Rightarrow> (nat \<times> nat) list \<Rightarrow> nat \<Rightarrow> string" where
  "slot_of RangeSha1 h0 fl i = RangeSha1 (overlap_of h0 (fl ! i))"

definition live :: "nat list \<Rightarrow> (nat \<times> nat) list \<Rightarrow> nat set \<Rightarrow> nat \<Rightarrow> nat set" where
  "live ts fl C k = {i. i < length fl \<and> maker fl i \<in> set (take k ts) \<and> user fl i \<notin> set (take k ts) \<and> user fl i \<notin> C}"

definition held :: "nat list \<Rightarrow> (nat \<times> nat) list \<Rightarrow> nat set \<Rightarrow> nat \<Rightarrow> nat set" where
  "held ts fl C k = {i. i < length fl \<and> maker fl i \<in> set (take (Suc k) ts) \<and> user fl i \<notin> set (take k ts) \<and> user fl i \<notin> C}"

text \<open>The table holds at least the slots of the ids in \<open>S\<close>.\<close>

definition covers :: "('i \<Rightarrow> string) \<Rightarrow> 'i set \<Rightarrow> stash_table \<Rightarrow> bool" where
  "covers sha S tab = (wf_table tab \<and> finite S \<and> image_mset sha (mset_set S) \<subseteq># table_bag tab)"

lemma covers_mono: "covers sha S tab \<Longrightarrow> S' \<subseteq> S \<Longrightarrow> covers sha S' tab"
  unfolding covers_def
  by (meson image_mset_subseteq_mono finite_subset subset_imp_msubset_mset_set subset_mset.order_trans)

lemma covers_add: "covers sha S tab \<Longrightarrow> i \<notin> S \<Longrightarrow> covers sha (insert i S) (slot_add (sha i) tab)"
  by (simp add: covers_def st.inv_add st.bag_add)

lemma covers_slots: "covers sha S tab \<Longrightarrow> sha ` S \<subseteq> set_mset (table_bag tab)"
  unfolding covers_def by (metis finite_set_mset_mset_set set_image_mset set_mset_mono)

lemma covers_drop:
  assumes "covers sha S tab" "i \<in> S"
  shows "\<exists>freed tab'. slot_drop (sha i) tab = Inr (freed, tab') \<and> covers sha (S - {i}) tab' \<and>
    st.space sz tab' = st.space sz tab - (if freed then sz (sha i) else 0)"
proof -
  have wf: "wf_table tab" "finite S" "image_mset sha (mset_set S) \<subseteq># table_bag tab" using assms(1) by (auto simp: covers_def)
  have "sha i \<in># table_bag tab" using covers_slots[OF assms(1)] assms(2) by auto
  from st.drop_space[OF wf(1) this, of sz] obtain freed tab' where d: "slot_drop (sha i) tab = Inr (freed, tab')" "wf_table tab'"
    "table_bag tab' = table_bag tab - {#sha i#}" "st.space sz tab' = st.space sz tab - (if freed then sz (sha i) else 0)"
    by blast
  have "image_mset sha (mset_set S) = add_mset (sha i) (image_mset sha (mset_set (S - {i})))"
    using mset_set.remove[OF wf(2) assms(2)] by simp
  then have "image_mset sha (mset_set (S - {i})) \<subseteq># table_bag tab'"
    using wf(3) d(3) by (simp add: insert_subset_eq_iff)
  then show ?thesis using d wf(2) by (auto simp: covers_def)
qed

definition acct :: "(nat \<Rightarrow> string) \<Rightarrow> (string \<Rightarrow> int) \<Rightarrow> rat option \<Rightarrow> nat set \<Rightarrow> revise \<Rightarrow> bool" where
  "acct sha sz limit S st = (covers sha S (rv_stashes st) \<and> rv_stashed st = st.space sz (rv_stashes st) \<and>
     rv_stashed st \<le> rv_max st \<and> \<not> exceeds limit (rv_max st))"

lemma not_exceeds_max: "\<not> exceeds limit a \<Longrightarrow> \<not> exceeds limit b \<Longrightarrow> \<not> exceeds limit (max a b)"
  by (auto simp: max_def)

lemma explicit_stashes_ok:
  assumes sm: "map_exact h0 fl sm" and sha: "sha = slot_of RangeSha1 h0 fl"
    and sz: "\<forall>i<length fl. sz (sha i) = rs_size (overlap_of h0 (fl ! i))"
    and ps: "distinct (map fst ps)" "\<forall>(i, r)\<in>set ps. i < length fl \<and> r = overlap_of h0 (fl ! i) \<and> i \<notin> S"
    and st: "acct sha sz limit S st"
  shows "\<exists>st' rej. for_each (explicit_stash RangeSha1 limit sm) (st, []) ps = Inr (st', map (user fl) rej) \<and>
    set rej \<subseteq> fst ` set ps \<and> distinct rej \<and> acct sha sz limit (S \<union> (fst ` set ps - set rej)) st' \<and>
    rv_store st' = rv_store st \<and> rv_new st' = rv_new st \<and> rv_max st \<le> rv_max st' \<and> (limit = None \<longrightarrow> rej = [])"
proof -
  let ?P = "\<lambda>ys p. \<exists>st' rej. p = (st', map (user fl) rej) \<and> set rej \<subseteq> fst ` set ys \<and> distinct rej \<and>
     acct sha sz limit (S \<union> (fst ` set ys - set rej)) st' \<and> rv_store st' = rv_store st \<and> rv_new st' = rv_new st \<and>
     rv_max st \<le> rv_max st' \<and> (limit = None \<longrightarrow> rej = [])"
  have "\<exists>p. for_each (explicit_stash RangeSha1 limit sm) (st, []) ps = Inr p \<and> ?P ps p"
  proof (rule for_each_invariant[where P = ?P])
    show "?P [] (st, [])" using st by auto
    fix ys p zs q assume split: "ps = ys @ p # zs" and "?P ys q"
    then obtain s1 rej where q: "q = (s1, map (user fl) rej)" "set rej \<subseteq> fst ` set ys" "distinct rej"
      "acct sha sz limit (S \<union> (fst ` set ys - set rej)) s1" "rv_store s1 = rv_store st" "rv_new s1 = rv_new st" "rv_max st \<le> rv_max s1"
      "limit = None \<longrightarrow> rej = []" by blast
    obtain i r where p: "p = (i, r)" by (cases p)
    have "p \<in> set ps" using split by simp
    then have i: "i < length fl" "r = overlap_of h0 (fl ! i)" "i \<notin> S" using ps(2) p by auto
    have new: "i \<notin> fst ` set ys" using ps(1) split p by auto
    have shi: "RangeSha1 r = sha i" using i(2) sha by (simp add: slot_of_def)
    define after where "after = rv_stashed s1 + (if slot_used (sha i) (rv_stashes s1) then 0 else rs_size r)"
    show "\<exists>q'. explicit_stash RangeSha1 limit sm q p = Inr q' \<and> ?P (ys @ [p]) q'"
    proof (cases "exceeds limit after")
      case True
      then have "explicit_stash RangeSha1 limit sm q p = Inr (s1, map (user fl) (rej @ [i]))"
        using map_exact_cmds(1)[OF sm i(1)] by (simp add: explicit_stash_def q(1) p shi after_def[symmetric] Let_def)
      moreover have same: "fst ` set (ys @ [p]) - set (rej @ [i]) = fst ` set ys - set rej" using p new q(2) by auto
      have "limit \<noteq> None" using True by (auto simp: exceeds_def split: option.splits)
      moreover have "distinct (rej @ [i])" using q(2,3) new by auto
      moreover have "set (rej @ [i]) \<subseteq> fst ` set (ys @ [p])" using q(2) p by auto
      ultimately show ?thesis using q(4-7) same by (metis (no_types, lifting))
    next
      case False
      let ?s = "s1\<lparr>rv_stashes := slot_add (sha i) (rv_stashes s1), rv_stashed := after, rv_max := max (rv_max s1) after\<rparr>"
      have "explicit_stash RangeSha1 limit sm q p = Inr (?s, map (user fl) rej)"
        using False by (simp add: explicit_stash_def q(1) p shi after_def[symmetric] Let_def)
      moreover have "S \<union> (fst ` set (ys @ [p]) - set rej) = insert i (S \<union> (fst ` set ys - set rej))" using p new q(2) by auto
      moreover have "wf_table (rv_stashes s1)" using q(4) by (simp add: acct_def covers_def)
      then have "acct sha sz limit (insert i (S \<union> (fst ` set ys - set rej))) ?s"
        using q(4) covers_add[of sha "S \<union> (fst ` set ys - set rej)" "rv_stashes s1" i] i new sz not_exceeds_max[OF _ False]
        by (auto simp: acct_def st.space_add after_def)
      moreover have "rv_store ?s = rv_store st" "rv_new ?s = rv_new st" "rv_max st \<le> rv_max ?s" using q(5-7) by auto
      moreover have "set rej \<subseteq> fst ` set (ys @ [p])" using q(2) by auto
      ultimately show ?thesis using q(3,8) by (metis (no_types, lifting))
    qed
  qed
  then show ?thesis by blast
qed

lemma free_stashes_ok:
  assumes sha: "sha = slot_of RangeSha1 h0 fl" and sz: "\<forall>i<length fl. sz (sha i) = rs_size (overlap_of h0 (fl ! i))"
    "\<forall>k. 0 \<le> sz k"
    and us: "distinct (map fst us)" "\<forall>(i, r)\<in>set us. i < length fl \<and> r = overlap_of h0 (fl ! i) \<and> i \<in> S"
    and st: "acct sha sz limit S st"
  shows "\<exists>st'. for_each (free_stash RangeSha1) st us = Inr st' \<and> acct sha sz limit (S - fst ` set us) st' \<and>
    rv_store st' = rv_store st \<and> rv_new st' = rv_new st \<and> rv_max st' = rv_max st"
  using us st
proof (induction us arbitrary: st S)
  case (Cons p us)
  obtain i r where p: "p = (i, r)" by (cases p)
  have i: "i < length fl" "r = overlap_of h0 (fl ! i)" "i \<in> S" "i \<notin> fst ` set us" using Cons.prems p by auto
  have shi: "RangeSha1 r = sha i" using i(2) sha by (simp add: slot_of_def)
  have cov: "covers sha S (rv_stashes st)" using Cons.prems(3) by (simp add: acct_def)
  from covers_drop[OF cov i(3), of sz] obtain freed tab where d: "slot_drop (sha i) (rv_stashes st) = Inr (freed, tab)"
    "covers sha (S - {i}) tab" "st.space sz tab = st.space sz (rv_stashes st) - (if freed then sz (sha i) else 0)" by blast
  let ?s = "st\<lparr>rv_stashes := tab, rv_stashed := rv_stashed st - (if freed then rs_size r else 0)\<rparr>"
  have step: "free_stash RangeSha1 st p = Inr ?s" using d(1) by (simp add: free_stash_def p shi)
  have size: "sz (sha i) = rs_size r" "0 \<le> rs_size r" using sz(1)[rule_format, OF i(1)] sz(2)[rule_format, of "sha i"] i(2) by auto
  have a: "acct sha sz limit (S - {i}) ?s" using Cons.prems(3) d(2,3) size by (simp add: acct_def)
  have us: "distinct (map fst us)" "\<forall>(j, r)\<in>set us. j < length fl \<and> r = overlap_of h0 (fl ! j) \<and> j \<in> S - {i}"
    using Cons.prems(1,2) i(4) p by (auto simp: image_iff)
  obtain st' where st': "for_each (free_stash RangeSha1) ?s us = Inr st'" "acct sha sz limit (S - {i} - fst ` set us) st'"
    "rv_store st' = rv_store ?s" "rv_new st' = rv_new ?s" "rv_max st' = rv_max ?s" using Cons.IH[OF us a] by blast
  have "S - {i} - fst ` set us = S - fst ` set (p # us)" using p by auto
  then show ?case using step st' by auto
qed simp

section \<open>One transfer\<close>

text \<open>The blocks that step \<open>k\<close> needs to have stashed: every slot held during the step, counted once,
  and the whole source when a \<open>diff\<close> overlaps its own target.\<close>

definition implicit_need :: "store \<Rightarrow> nat set \<Rightarrow> nat \<Rightarrow> int" where
  "implicit_need h0 C x = (if x \<notin> C \<and> xf_style (h0 ! x) = Diff \<and> rs_overlaps (src_ranges (h0 ! x)) (tgt_ranges (h0 ! x))
     then rs_size (src_ranges (h0 ! x)) else 0)"

definition peak :: "(nat \<Rightarrow> string) \<Rightarrow> (string \<Rightarrow> int) \<Rightarrow> store \<Rightarrow> (nat \<times> nat) list \<Rightarrow> nat list \<Rightarrow> nat set \<Rightarrow> nat \<Rightarrow> int" where
  "peak sha sz h0 fl ts C k = (\<Sum>s\<in>sha ` held ts fl C k. sz s) + implicit_need h0 C (ts ! k)"

definition styles_ok :: "store \<Rightarrow> (nat \<times> nat) list \<Rightarrow> nat list \<Rightarrow> bool" where
  "styles_ok h0 fl ts = ((\<forall>i<length fl. xf_style (h0 ! user fl i) \<noteq> New) \<and>
     (\<forall>x\<in>set ts. 0 \<le> rs_size (src_ranges (h0 ! x)) \<and>
        (xf_style (h0 ! x) = Diff \<longrightarrow> rs_bool (tgt_ranges (h0 ! x)) \<and> rs_bool (src_ranges (h0 ! x)))))"

lemma finite_held [simp]: "finite (held ts fl C k)" "finite (live ts fl C k)"
  by (simp_all add: held_def live_def)

lemma peak_antimono:
  assumes "C \<subseteq> C'" "\<forall>s. 0 \<le> sz s" "0 \<le> rs_size (src_ranges (h0 ! (ts ! k)))"
  shows "peak sha sz h0 fl ts C' k \<le> peak sha sz h0 fl ts C k"
proof -
  have "sha ` held ts fl C' k \<subseteq> sha ` held ts fl C k" using assms(1) by (auto simp: held_def)
  then have "(\<Sum>s\<in>sha ` held ts fl C' k. sz s) \<le> (\<Sum>s\<in>sha ` held ts fl C k. sz s)"
    using assms(2) by (intro sum_mono2) auto
  moreover have "implicit_need h0 C' (ts ! k) \<le> implicit_need h0 C (ts ! k)"
    using assms(1,3) by (auto simp: implicit_need_def)
  ultimately show ?thesis by (simp add: peak_def)
qed

definition rinv :: "(nat \<Rightarrow> string) \<Rightarrow> (string \<Rightarrow> int) \<Rightarrow> rat option \<Rightarrow> store \<Rightarrow> (nat \<times> nat) list \<Rightarrow> nat list \<Rightarrow> nat \<Rightarrow> nat set \<Rightarrow> revise \<Rightarrow> bool" where
  "rinv sha sz limit h0 fl ts k C st = (converted h0 fl ts C (rv_store st) \<and> acct sha sz limit (live ts fl C k) st \<and>
     C \<subseteq> {x \<in> set ts. xf_style (h0 ! x) \<noteq> New} \<and> (\<forall>j<k. peak sha sz h0 fl ts C j \<le> rv_max st) \<and>
     rv_new st = (\<Sum>x\<in>C. rs_size (tgt_ranges (h0 ! x))) \<and> (limit = None \<longrightarrow> C = {}))"

lemma implicit_stash_ok:
  assumes "converted h0 fl ts C (rv_store st)" "styles_ok h0 fl ts" "x \<in> set ts" "acct sha sz limit S st"
  shows "\<exists>st' extra. implicit_stash limit x (st, replaced) = Inr (st', replaced @ extra) \<and>
    acct sha sz limit S st' \<and> rv_store st' = rv_store st \<and> rv_new st' = rv_new st \<and> rv_stashes st' = rv_stashes st \<and>
    rv_stashed st' = rv_stashed st \<and> rv_max st \<le> rv_max st' \<and> (limit = None \<longrightarrow> extra = []) \<and>
    (extra = [] \<and> rv_stashed st + implicit_need h0 C x \<le> rv_max st' \<or>
     extra = [x] \<and> x \<notin> C \<and> xf_style (h0 ! x) \<noteq> New)"
proof -
  let ?x = "rv_store st ! x" and ?src = "src_ranges (h0 ! x)"
  have f: "tgt_ranges ?x = tgt_ranges (h0 ! x)" "src_ranges ?x = (if x \<in> C then rs_empty else ?src)"
    "xf_style ?x = (if x \<in> C then New else xf_style (h0 ! x))" using assms(1,3) by (auto simp: converted_def)
  show ?thesis
  proof (cases "x \<notin> C \<and> xf_style (h0 ! x) = Diff \<and> rs_overlaps ?src (tgt_ranges (h0 ! x))")
    case False
    have "implicit_stash limit x (st, replaced) = Inr (st, replaced)"
    proof (cases "x \<in> C \<or> xf_style (h0 ! x) \<noteq> Diff")
      case True
      then have "xf_style ?x \<noteq> Diff" using f(3) by auto
      then show ?thesis by (simp add: implicit_stash_def Let_def)
    next
      case diff: False
      then have "rs_bool (tgt_ranges (h0 ! x))" "rs_bool ?src" using assms(2,3) by (simp_all add: styles_ok_def)
      then show ?thesis using diff False f by (simp add: implicit_stash_def Let_def)
    qed
    moreover have "implicit_need h0 C x = 0" using False unfolding implicit_need_def by (rule if_not_P)
    ultimately show ?thesis using assms(4) by (intro exI[of _ st] exI[of _ "[]"]) (simp add: acct_def)
  next
    case True
    then have need: "implicit_need h0 C x = rs_size ?src" and b: "rs_bool (tgt_ranges (h0 ! x))" "rs_bool ?src"
      using assms(2,3) by (simp_all add: implicit_need_def styles_ok_def)
    show ?thesis
    proof (cases "exceeds limit (rv_stashed st + rs_size ?src)")
      case ex: True
      then have "implicit_stash limit x (st, replaced) = Inr (st, replaced @ [x])"
        using True f b by (simp add: implicit_stash_def)
      moreover have "limit \<noteq> None" using ex by (auto simp: exceeds_def split: option.splits)
      ultimately show ?thesis using True assms(4) by (intro exI[of _ st] exI[of _ "[x]"]) simp
    next
      case ex: False
      let ?s = "st\<lparr>rv_max := max (rv_max st) (rv_stashed st + rs_size ?src)\<rparr>"
      have "implicit_stash limit x (st, replaced) = Inr (?s, replaced)"
        using True ex f b by (simp add: implicit_stash_def)
      moreover have "acct sha sz limit S ?s" using assms(4) not_exceeds_max[OF _ ex] by (auto simp: acct_def)
      ultimately show ?thesis using need by (intro exI[of _ ?s] exI[of _ "[]"]) simp
    qed
  qed
qed

lemma acct_mono: "acct sha sz limit S st \<Longrightarrow> S' \<subseteq> S \<Longrightarrow> acct sha sz limit S' st"
  using covers_mono[of sha S "rv_stashes st" S'] by (simp add: acct_def)

lemma acct_peak:
  assumes "acct sha sz limit S st" "held ts fl C k \<subseteq> S" "\<forall>s. 0 \<le> sz s" "rv_stashed st + implicit_need h0 C (ts ! k) \<le> m"
  shows "peak sha sz h0 fl ts C k \<le> m"
proof -
  have "sha ` held ts fl C k \<subseteq> set_mset (table_bag (rv_stashes st))"
    using covers_slots[of sha S "rv_stashes st"] assms(1,2) by (auto simp: acct_def)
  then have "(\<Sum>s\<in>sha ` held ts fl C k. sz s) \<le> (\<Sum>s\<in>set_mset (table_bag (rv_stashes st)). sz s)"
    using assms(3) by (intro sum_mono2) auto
  then show ?thesis using assms(1,4) by (simp add: peak_def acct_def st.space_def)
qed

lemma revise_transfer_ok:
  assumes plan: "stash_plan h0 fl ts" and sm: "map_exact h0 fl sm" and sty: "styles_ok h0 fl ts"
    and sha: "sha = slot_of RangeSha1 h0 fl"
    and sz: "\<forall>i<length fl. sz (sha i) = rs_size (overlap_of h0 (fl ! i))" "\<forall>s. 0 \<le> sz s"
    and k: "k < length ts" and inv: "rinv sha sz limit h0 fl ts k C st"
  shows "\<exists>C' st'. revise_transfer RangeSha1 limit sm st (ts ! k) = Inr st' \<and> rinv sha sz limit h0 fl ts (Suc k) C' st'"
proof -
  let ?x = "ts ! k"
  have x: "?x \<in> set ts" and dist: "distinct ts" "distinct fl" using k plan by (auto simp: stash_plan_def)
  have tk: "set (take (Suc k) ts) = insert ?x (set (take k ts))" "?x \<notin> set (take k ts)"
    using take_Suc_conv_app_nth[OF k] in_set_take_nth[OF dist(1) k k] by auto
  have conv: "converted h0 fl ts C (rv_store st)" and ac: "acct sha sz limit (live ts fl C k) st" using inv by (auto simp: rinv_def)
  define ps where "ps = filter (\<lambda>p. user fl (fst p) \<notin> C) (stash_log h0 fl snd ?x)"
  have sb: "stash_before (rv_store st ! ?x) = ps" using conv x by (simp add: converted_def ps_def)
  have ps_in: "(i, r) \<in> set ps \<longleftrightarrow> i < length fl \<and> maker fl i = ?x \<and> r = overlap_of h0 (fl ! i) \<and> user fl i \<notin> C" for i r
    by (auto simp: ps_def in_stash_log)
  have ids: "fst ` set ps = {i. i < length fl \<and> maker fl i = ?x \<and> user fl i \<notin> C}" using ps_in by force
  have dps: "distinct (map fst ps)" unfolding ps_def by (rule distinct_map_filter[OF stash_log_distinct])
  have fresh: "\<forall>(i, r)\<in>set ps. i < length fl \<and> r = overlap_of h0 (fl ! i) \<and> i \<notin> live ts fl C k"
    using ps_in tk(2) by (auto simp: live_def)
  obtain st1 rej where s1: "for_each (explicit_stash RangeSha1 limit sm) (st, []) ps = Inr (st1, map (user fl) rej)"
    "set rej \<subseteq> fst ` set ps" "distinct rej" "acct sha sz limit (live ts fl C k \<union> (fst ` set ps - set rej)) st1"
    "rv_store st1 = rv_store st" "rv_new st1 = rv_new st" "rv_max st \<le> rv_max st1" "limit = None \<longrightarrow> rej = []"
    using explicit_stashes_ok[OF sm sha sz(1) dps fresh ac] by blast
  define S where "S = live ts fl C k \<union> (fst ` set ps - set rej)"
  have conv1: "converted h0 fl ts C (rv_store st1)" using conv s1(5) by simp
  obtain st2 extra where s2: "implicit_stash limit ?x (st1, map (user fl) rej) = Inr (st2, map (user fl) rej @ extra)"
    "acct sha sz limit S st2" "rv_store st2 = rv_store st1" "rv_new st2 = rv_new st1" "rv_stashes st2 = rv_stashes st1"
    "rv_stashed st2 = rv_stashed st1" "rv_max st1 \<le> rv_max st2" "limit = None \<longrightarrow> extra = []"
    "extra = [] \<and> rv_stashed st1 + implicit_need h0 C ?x \<le> rv_max st2 \<or> extra = [?x] \<and> ?x \<notin> C \<and> xf_style (h0 ! ?x) \<noteq> New"
    using implicit_stash_ok[OF conv1 sty x s1(4)] unfolding S_def by blast
  let ?cmds = "map (user fl) rej @ extra"
  have rej_in: "i < length fl \<and> maker fl i = ?x \<and> user fl i \<notin> C" if "i \<in> set rej" for i using that s1(2) ids by auto
  have user_late: "user fl i \<noteq> ?x" if "i < length fl" "maker fl i = ?x" for i
    using plan k that tk(2) unfolding stash_plan_def by metis
  have "inj_on (user fl) (set rej)"
  proof (rule inj_onI)
    fix i j assume ij: "i \<in> set rej" "j \<in> set rej" "user fl i = user fl j"
    then have "fl ! i = fl ! j" using rej_in by (metis prod_eqI)
    then show "i = j" using rej_in ij(1,2) dist(2) by (simp add: nth_eq_iff_index_eq)
  qed
  then have "distinct ?cmds" using s1(3) s2(9) rej_in user_late by (auto simp: distinct_map)
  moreover have "set ?cmds \<subseteq> set ts" using plan rej_in s2(9) x by (auto simp: stash_plan_def)
  moreover have "set ?cmds \<inter> C = {}" using rej_in s2(9) by auto
  moreover have "\<forall>c\<in>set ?cmds. xf_style (h0 ! c) \<noteq> New" using sty rej_in s2(9) by (auto simp: styles_ok_def)
  ultimately obtain g where g: "for_each (replace_cmd sm) st2 ?cmds =
      Inr (st2\<lparr>rv_store := g, rv_new := rv_new st2 + sum_list (map (\<lambda>c. rs_size (tgt_ranges (h0 ! c))) ?cmds)\<rparr>)"
    "converted h0 fl ts (C \<union> set ?cmds) g"
    using replace_cmds_ok[OF plan sm, of C st2 ?cmds] conv1 s2(3) by auto
  define C' where "C' = C \<union> set ?cmds"
  define st3 where "st3 = st2\<lparr>rv_store := g, rv_new := rv_new st2 + sum_list (map (\<lambda>c. rs_size (tgt_ranges (h0 ! c))) ?cmds)\<rparr>"
  have us: "use_stash (rv_store st3 ! ?x) = (if ?x \<in> C' then [] else stash_log h0 fl fst ?x)"
    using g(2) x by (simp add: converted_def st3_def C'_def)
  have used: "i \<in> S" if "i < length fl" "user fl i = ?x" "?x \<notin> C'" for i
  proof -
    have "maker fl i \<in> set (take k ts)" using plan k that(1,2) unfolding stash_plan_def by metis
    then show ?thesis using that tk(2) by (auto simp: S_def live_def C'_def)
  qed
  have us_in: "\<forall>(i, r)\<in>set (use_stash (rv_store st3 ! ?x)). i < length fl \<and> r = overlap_of h0 (fl ! i) \<and> i \<in> S"
    using used unfolding us by (auto simp: in_stash_log)
  have dus: "distinct (map fst (use_stash (rv_store st3 ! ?x)))" unfolding us using stash_log_distinct by simp
  have ac3: "acct sha sz limit S st3" using s2(2) by (simp add: acct_def st3_def)
  obtain st4 where s4: "for_each (free_stash RangeSha1) st3 (use_stash (rv_store st3 ! ?x)) = Inr st4"
    "acct sha sz limit (S - fst ` set (use_stash (rv_store st3 ! ?x))) st4"
    "rv_store st4 = rv_store st3" "rv_new st4 = rv_new st3" "rv_max st4 = rv_max st3"
    using free_stashes_ok[OF sha sz dus us_in ac3] by blast
  have run: "revise_transfer RangeSha1 limit sm st ?x = Inr st4"
    using s1(1) s2(1) g(1) s4(1) by (simp add: revise_transfer_def sb st3_def)
  have stashed: "i \<in> S" if "i < length fl" "maker fl i = ?x" "user fl i \<notin> C'" for i
    using that ids by (auto simp: S_def C'_def)
  have older: "i \<in> S" if "i < length fl" "maker fl i \<in> set (take k ts)" "user fl i \<notin> set (take k ts)" "user fl i \<notin> C'" for i
    using that by (simp add: S_def live_def C'_def)
  have held: "held ts fl C' k \<subseteq> S"
    using stashed older unfolding held_def tk(1) by blast
  have "user fl i = ?x" if "i \<in> fst ` set (use_stash (rv_store st3 ! ?x))" for i
    using that stash_log_ids[of h0 fl fst ?x] unfolding us by (auto split: if_splits)
  then have "live ts fl C' (Suc k) \<subseteq> S - fst ` set (use_stash (rv_store st3 ! ?x))"
    using stashed older unfolding live_def tk(1) by blast
  note ac4 = acct_mono[OF s4(2) this]
  have CC: "C \<subseteq> C'" by (simp add: C'_def)
  have "rv_stashed st2 + implicit_need h0 C' ?x \<le> rv_max st4"
    using s2(2,6,9) s4(5) CC sty x by (auto simp: implicit_need_def acct_def st3_def C'_def styles_ok_def split: if_splits)
  note pk = acct_peak[OF s2(2) held sz(2) this]
  have peaks: "peak sha sz h0 fl ts C' j \<le> rv_max st4" if "j < Suc k" for j
  proof (cases "j = k")
    case False
    then have j: "j < k" "ts ! j \<in> set ts" using that k by auto
    then have "peak sha sz h0 fl ts C' j \<le> peak sha sz h0 fl ts C j"
      using sty by (intro peak_antimono[OF CC sz(2)]) (simp add: styles_ok_def)
    also have "\<dots> \<le> rv_max st" using inv j(1) by (simp add: rinv_def)
    also have "\<dots> \<le> rv_max st4" using s1(7) s2(7) s4(5) by (simp add: st3_def)
    finally show ?thesis .
  qed (use pk in simp)
  have "rv_new st4 = (\<Sum>x\<in>C'. rs_size (tgt_ranges (h0 ! x)))"
  proof -
    have fin: "finite C" using inv finite_subset[of C "set ts"] by (auto simp: rinv_def)
    have "rv_new st4 = (\<Sum>x\<in>C. rs_size (tgt_ranges (h0 ! x))) + (\<Sum>x\<in>set ?cmds. rs_size (tgt_ranges (h0 ! x)))"
      using inv s1(6) s2(4) s4(4) sum_list_distinct_conv_sum_set[OF \<open>distinct ?cmds\<close>, of "\<lambda>c. rs_size (tgt_ranges (h0 ! c))"]
      by (simp add: rinv_def st3_def)
    then show ?thesis using fin \<open>set ?cmds \<inter> C = {}\<close> by (simp add: C'_def sum.union_disjoint Int_commute)
  qed
  moreover have "limit = None \<longrightarrow> C' = {}" using inv s1(8) s2(8) by (auto simp: C'_def rinv_def)
  moreover have "C' \<subseteq> {x \<in> set ts. xf_style (h0 ! x) \<noteq> New}"
    using inv \<open>set ?cmds \<subseteq> set ts\<close> \<open>\<forall>c\<in>set ?cmds. xf_style (h0 ! c) \<noteq> New\<close> unfolding C'_def rinv_def by blast
  moreover have "converted h0 fl ts C' (rv_store st4)" using g(2) s4(3) by (simp add: st3_def C'_def)
  ultimately have "rinv sha sz limit h0 fl ts (Suc k) C' st4" using ac4 peaks by (simp add: rinv_def)
  then show ?thesis using run by blast
qed

section \<open>The whole method\<close>

lemma ReviseStashSize_ok:
  assumes plan: "stash_plan h0 fl ts" and h: "converted h0 fl ts {} h" and sty: "styles_ok h0 fl ts"
    and sha: "sha = slot_of RangeSha1 h0 fl"
    and sz: "\<forall>i<length fl. sz (sha i) = rs_size (overlap_of h0 (fl ! i))" "\<forall>s. 0 \<le> sz s"
    and limit: "\<not> exceeds limit 0"
  shows "\<exists>C mx h'. ReviseStashSize RangeSha1 limit ts h = Inr (\<Sum>x\<in>C. rs_size (tgt_ranges (h0 ! x)), mx, h') \<and>
    converted h0 fl ts C h' \<and> C \<subseteq> {x \<in> set ts. xf_style (h0 ! x) \<noteq> New} \<and> \<not> exceeds limit mx \<and>
    (\<forall>j<length ts. peak sha sz h0 fl ts C j \<le> mx) \<and> (limit = None \<longrightarrow> C = {}) \<and> 0 \<le> mx"
proof -
  obtain sm where sm: "build_stash_map ts h = Inr sm" "map_exact h0 fl sm"
    using build_stash_map_ok[OF plan h] by (auto simp: map_exact_def)
  let ?st = "\<lparr>rv_store = h, rv_stashes = [], rv_stashed = 0, rv_new = 0, rv_max = 0\<rparr>"
  have none: "live ts fl {} 0 = {}" by (simp add: live_def)
  have "\<exists>st. for_each (revise_transfer RangeSha1 limit sm) ?st ts = Inr st \<and> (\<exists>C. rinv sha sz limit h0 fl ts (length ts) C st)"
  proof (rule for_each_invariant[where P = "\<lambda>ys st. \<exists>C. rinv sha sz limit h0 fl ts (length ys) C st"])
    show "\<exists>C. rinv sha sz limit h0 fl ts (length []) C ?st"
      using h limit none by (intro exI[of _ "{}"]) (simp add: rinv_def acct_def covers_def st.inv_new st.space_new)
    fix ys x zs st assume split: "ts = ys @ x # zs" and "\<exists>C. rinv sha sz limit h0 fl ts (length ys) C st"
    then obtain C where "rinv sha sz limit h0 fl ts (length ys) C st" by blast
    from revise_transfer_ok[OF plan sm(2) sty sha sz _ this] split
    show "\<exists>st'. revise_transfer RangeSha1 limit sm st x = Inr st' \<and> (\<exists>C. rinv sha sz limit h0 fl ts (length (ys @ [x])) C st')"
      by auto
  qed
  then obtain st C where st: "for_each (revise_transfer RangeSha1 limit sm) ?st ts = Inr st" "rinv sha sz limit h0 fl ts (length ts) C st"
    by blast
  have "0 \<le> st.space sz (rv_stashes st)" using sz(2) by (simp add: st.space_def sum_nonneg)
  then have "0 \<le> rv_max st" using st(2) by (simp add: rinv_def acct_def)
  moreover have "ReviseStashSize RangeSha1 limit ts h = Inr (\<Sum>x\<in>C. rs_size (tgt_ranges (h0 ! x)), rv_max st, rv_store st)"
    using sm(1) st by (simp add: ReviseStashSize_def rinv_def)
  ultimately show ?thesis using st(2) unfolding rinv_def acct_def by (intro exI conjI) auto
qed

text \<open>The size of a slot, when equal hashes mean equal sizes.\<close>

lemma slot_sizes:
  assumes "\<forall>a b. RangeSha1 a = RangeSha1 b \<longrightarrow> rs_size a = rs_size b" "\<forall>i<length fl. 0 \<le> rs_size (overlap_of h0 (fl ! i))"
  shows "\<exists>sz. (\<forall>i<length fl. sz (slot_of RangeSha1 h0 fl i) = rs_size (overlap_of h0 (fl ! i))) \<and> (\<forall>s. 0 \<le> sz s)"
proof -
  let ?slot = "slot_of RangeSha1 h0 fl"
  define c where "c = (\<lambda>s. SOME i. i < length fl \<and> ?slot i = s)"
  have c: "c (?slot i) < length fl \<and> ?slot (c (?slot i)) = ?slot i" if "i < length fl" for i
    unfolding c_def by (rule someI[of "\<lambda>j. j < length fl \<and> ?slot j = ?slot i" i]) (use that in simp)
  define sz where "sz = (\<lambda>s. if c s < length fl then rs_size (overlap_of h0 (fl ! c s)) else 0)"
  have "sz (?slot i) = rs_size (overlap_of h0 (fl ! i))" if "i < length fl" for i
  proof -
    have "RangeSha1 (overlap_of h0 (fl ! c (?slot i))) = RangeSha1 (overlap_of h0 (fl ! i))"
      using c[OF that] by (simp add: slot_of_def)
    then have "rs_size (overlap_of h0 (fl ! c (?slot i))) = rs_size (overlap_of h0 (fl ! i))" by (rule assms(1)[rule_format])
    moreover have "c (?slot i) < length fl" using c[OF that] by (rule conjunct1)
    ultimately show ?thesis by (simp only: sz_def if_True)
  qed
  moreover have "0 \<le> sz s" for s using assms(2) by (simp add: sz_def)
  ultimately show ?thesis by blast
qed

text \<open>The styles \<open>FindTransfers\<close> gives: a \<open>diff\<close> has both ranges, a \<open>new\<close> has no source.\<close>

definition well_styled :: "store \<Rightarrow> bool" where
  "well_styled h = (\<forall>x\<in>set h. (xf_style x = Diff \<longrightarrow> rs_bool (tgt_ranges x) \<and> rs_bool (src_ranges x)) \<and>
     (xf_style x = New \<longrightarrow> \<not> rs_bool (src_ranges x)))"

lemma styles_of_sequence:
  assumes "wf_seq ts h" "sequence_ok ts h fl ts' h'" "well_styled h" "set ts = {..<length h}"
  shows "styles_ok h fl ts'" "\<forall>i<length fl. 0 \<le> rs_size (overlap_of h (fl ! i))"
proof -
  have ms: "set ts' = set ts" using assms(2) mset_same_set[of ts' ts] by (simp add: sequence_ok_def)
  have wf: "wf_rs (src_ranges (h ! x))" "wf_rs (tgt_ranges (h ! x))" if "x \<in> set ts" for x
    using assms(1) that by (auto simp: wf_seq_def wf_xf_def nonneg_rs_def)
  have dep: "fl ! i \<in> reads_from h ts" if "i < length fl" for i using assms(2) nth_mem[OF that] by (auto simp: sequence_ok_def)
  have "xf_style (h ! user fl i) \<noteq> New" if "i < length fl" for i
  proof -
    have u: "user fl i \<in> set ts" "src_blocks (h ! user fl i) \<noteq> {}" using dep[OF that] by (auto simp: reads_from_def)
    then have "rs_bool (src_ranges (h ! user fl i))" using rs.nonempty_iff wf by blast
    then show ?thesis using assms(3,4) u(1) by (auto simp: well_styled_def)
  qed
  moreover have "0 \<le> rs_size (src_ranges (h ! x))" if "x \<in> set ts" for x using rs.size_card[OF wf(1)[OF that]] by simp
  ultimately show "styles_ok h fl ts'" using assms(3,4) ms by (auto simp: styles_ok_def well_styled_def)
  have "wf_rs (overlap_of h (fl ! i))" if "i < length fl" for i
    using dep[OF that] blocks_overlap[OF assms(1), of "user fl i" "maker fl i"] by (auto simp: reads_from_def)
  then show "\<forall>i<length fl. 0 \<le> rs_size (overlap_of h (fl ! i))" using rs.size_card by fastforce
qed

lemma converted_good:
  assumes wf: "wf_seq ts h" and ok: "sequence_ok ts h fl ts' h'" and dj: "disjoint_targets ts h"
    and tb: "\<forall>x\<in>set ts. tgt_blocks (h ! x) \<subseteq> {..<tb}" and g: "converted h fl ts' C g"
  shows "seq_good tb g ts'" "\<forall>x\<in>set ts'. wf_use (g ! x)" "written g ts' = written h ts"
proof -
  have ms: "set ts' = set ts" using ok mset_same_set[of ts' ts] by (simp add: sequence_ok_def)
  note f = sequence_ok_fields[OF wf ok]
  have gx: "tgt_ranges (g ! x) = tgt_ranges (h ! x)" "src_ranges (g ! x) = (if x \<in> C then rs_empty else src_ranges (h' ! x))"
    "use_stash (g ! x) = (if x \<in> C then [] else use_stash (h' ! x))" if "x \<in> set ts" for x
    using g f[OF that] that ms by (auto simp: converted_def)
  have un: "unstashed (g ! x) \<subseteq> unstashed (h' ! x)" if "x \<in> set ts" for x
    using gx[OF that] by (auto simp: unstashed_def rs.abs_empty)
  show "written g ts' = written h ts" using gx ms by (simp add: written_def)
  have w: "written g (take k ts') = written h' (take k ts')" for k
    unfolding written_def
  proof (rule SUP_cong)
    fix x assume "x \<in> set (take k ts')"
    then have "x \<in> set ts" using ms by (auto dest: in_set_takeD)
    then show "tgt_blocks (g ! x) = tgt_blocks (h' ! x)" using gx(1) f(1) by simp
  qed simp
  have mem: "ts' ! k \<in> set ts" if "k < length ts'" for k using nth_mem[OF that] ms by simp
  show "seq_good tb g ts'"
    using found_sequence_good[OF wf ok dj tb] un[OF mem] gx(1)[OF mem] f(1)[OF mem] w unfolding seq_good_def by fastforce
  show "\<forall>x\<in>set ts'. wf_use (g ! x)"
  proof
    fix x assume "x \<in> set ts'"
    then have x: "x \<in> set ts" using ms by simp
    show "wf_use (g ! x)"
      using f(5)[OF x] gx[OF x] f(1)[OF x] rs.inv_empty by (simp add: wf_use_def wf_xf_def nonneg_rs_def rs_empty_def)
  qed
qed

section \<open>Properties\<close>

lemma ordered_then_revised:
  assumes wf: "wf_seq ts h" "set ts = {..<length h}" and sty: "well_styled h"
    and hash: "\<forall>a b. RangeSha1 a = RangeSha1 b \<longrightarrow> rs_size a = rs_size b" and limit: "\<not> exceeds limit 0"
  shows "\<exists>ts1 h1 fl C mx h2 sz. FindSequenceForTransfers ts h = Inr (ts1, h1) \<and> sequence_ok ts h fl ts1 h1 \<and>
    ReviseStashSize RangeSha1 limit ts1 h1 = Inr (\<Sum>x\<in>C. rs_size (tgt_ranges (h ! x)), mx, h2) \<and>
    converted h fl ts1 C h2 \<and> stash_plan h fl ts1 \<and> \<not> exceeds limit mx \<and> (limit = None \<longrightarrow> C = {}) \<and> C \<subseteq> set ts \<and> 0 \<le> mx \<and>
    (\<forall>i<length fl. sz (slot_of RangeSha1 h fl i) = rs_size (overlap_of h (fl ! i))) \<and> (\<forall>s. 0 \<le> sz s) \<and>
    (\<forall>j<length ts1. peak (slot_of RangeSha1 h fl) sz h fl ts1 C j \<le> mx)"
proof -
  obtain ts1 h1 fl where r: "FindSequenceForTransfers ts h = Inr (ts1, h1)" and ok: "sequence_ok ts h fl ts1 h1"
    using FindSequenceForTransfers_spec[OF wf] by blast
  note plan = plan_of_sequence[OF wf(1) ok wf(2)] and s = styles_of_sequence[OF wf(1) ok sty wf(2)]
  have ms: "set ts1 = set ts" using ok mset_same_set[of ts1 ts] by (simp add: sequence_ok_def)
  obtain sz where sz: "\<forall>i<length fl. sz (slot_of RangeSha1 h fl i) = rs_size (overlap_of h (fl ! i))" "\<forall>s. 0 \<le> sz s"
    using slot_sizes[OF hash s(2)] by blast
  obtain C mx h2 where rev: "ReviseStashSize RangeSha1 limit ts1 h1 = Inr (\<Sum>x\<in>C. rs_size (tgt_ranges (h ! x)), mx, h2)"
    "converted h fl ts1 C h2" "C \<subseteq> {x \<in> set ts1. xf_style (h ! x) \<noteq> New}" "\<not> exceeds limit mx"
    "\<forall>j<length ts1. peak (slot_of RangeSha1 h fl) sz h fl ts1 C j \<le> mx" "limit = None \<longrightarrow> C = {}" "0 \<le> mx"
    using ReviseStashSize_ok[OF plan s(1) refl sz limit] by blast
  have "C \<subseteq> set ts" using rev(3) ms by blast
  then show ?thesis using r ok rev(1,2,4-7) plan(1) sz by blast
qed

text \<open>C12: after the ordering, \<open>ReviseStashSize\<close> with a positive limit raises nothing (no missing stash,
  no double conversion), reports a maximum of simultaneously stashed blocks that is within the limit
  and the number of target blocks it turned into \<open>new\<close> data, and the revised sequence still passes
  \<open>AssertSequenceGood\<close>. Equal hashes have to come from ranges of equal size.\<close>

theorem revise_keeps_stash_within_limit:
  assumes "wf_seq ts h" "set ts = {..<length h}" "well_styled h" "disjoint_targets ts h"
    and "\<forall>x\<in>set ts. tgt_blocks (h ! x) \<subseteq> {..<tb}" "0 \<le> tb" "nonneg_rs care" "blocks care \<subseteq> written h ts"
    and "\<forall>a b. RangeSha1 a = RangeSha1 b \<longrightarrow> rs_size a = rs_size b" "0 < limit"
  shows "\<exists>ts1 h1 C mx h2. FindSequenceForTransfers ts h = Inr (ts1, h1) \<and>
    ReviseStashSize RangeSha1 (Some limit) ts1 h1 = Inr (\<Sum>x\<in>C. rs_size (tgt_ranges (h ! x)), mx, h2) \<and>
    of_int mx \<le> limit \<and> (\<forall>x\<in>set ts. xf_style (h2 ! x) = (if x \<in> C then New else xf_style (h ! x))) \<and>
    AssertSequenceGood tb care ts1 h2 = Inr ()"
proof -
  have "\<not> exceeds (Some limit) 0" using assms(10) by (simp add: exceeds_def)
  from ordered_then_revised[OF assms(1-3,9) this]
  obtain ts1 h1 fl C mx h2 where r: "FindSequenceForTransfers ts h = Inr (ts1, h1)" "sequence_ok ts h fl ts1 h1"
    "ReviseStashSize RangeSha1 (Some limit) ts1 h1 = Inr (\<Sum>x\<in>C. rs_size (tgt_ranges (h ! x)), mx, h2)"
    "converted h fl ts1 C h2" "\<not> exceeds (Some limit) mx" by metis
  note good = converted_good[OF assms(1) r(2) assms(4,5) r(4)]
  have ms: "set ts1 = set ts" using r(2) mset_same_set[of ts1 ts] by (simp add: sequence_ok_def)
  have "AssertSequenceGood tb care ts1 h2 = Inr ()"
    using AssertSequenceGood_iff[OF good(2) assms(6,7)] good(1,3) assms(8) by simp
  moreover have "of_int mx \<le> limit" using r(5) assms(10) by (simp add: exceeds_def)
  moreover have "\<forall>x\<in>set ts. xf_style (h2 ! x) = (if x \<in> C then New else xf_style (h ! x))"
    using r(4) ms by (simp add: converted_def)
  ultimately show ?thesis using r(1,3) by blast
qed

lemma size_hash: "str_int (rs_size a) = str_int (rs_size b) \<Longrightarrow> rs_size a = rs_size b"
  by (metis py_int_str_int Inr_inject)

theorem revise_keeps_stash_within_limit_witness:
  "\<exists>ts1 h1 C mx h2. FindSequenceForTransfers [0, 1] swap_store = Inr (ts1, h1) \<and>
     ReviseStashSize (\<lambda>r. str_int (rs_size r)) (Some 1) ts1 h1 = Inr (\<Sum>x\<in>C. rs_size (tgt_ranges (swap_store ! x)), mx, h2) \<and>
     mx \<le> 1 \<and> AssertSequenceGood 4 (rs_of_data [0, 4]) ts1 h2 = Inr ()"
proof -
  have "well_styled swap_store"
    by (auto simp: well_styled_def swap_store_def Transfer_init_def rs_of_data_def remove_pairs_def rs_bool_def)
  moreover have "\<forall>a b. str_int (rs_size a) = str_int (rs_size b) \<longrightarrow> rs_size a = rs_size b" using size_hash by blast
  ultimately obtain ts1 h1 C mx h2 where "FindSequenceForTransfers [0, 1] swap_store = Inr (ts1, h1)"
    "ReviseStashSize (\<lambda>r. str_int (rs_size r)) (Some 1) ts1 h1 = Inr (\<Sum>x\<in>C. rs_size (tgt_ranges (swap_store ! x)), mx, h2)"
    "rat_of_int mx \<le> 1" "AssertSequenceGood 4 (rs_of_data [0, 4]) ts1 h2 = Inr ()"
    using revise_keeps_stash_within_limit[OF swap_store_ok(1,2) _ swap_store_ok(3,4) _ swap_store_ok(6,5), of "\<lambda>r. str_int (rs_size r)" 1]
    by auto
  then show ?thesis by auto
qed

end
