(* ===== verification/WriteTransfers.thy ===== *)
theory WriteTransfers
  imports ReviseStash
begin

text \<open>
  \<open>BlockImageDiff.WriteTransfers\<close>: the text of the transfer list. The lines are strings, as the
  code builds them; writing them to the file is left out. The stash accounting is the one of
  \<open>ReviseStash\<close>, on the final transfers.
\<close>

section \<open>State\<close>

text \<open>The attributes of the target image and of \<open>common.OPTIONS\<close> that the method reads.\<close>

record target_info =
  ti_total_blocks :: int
  ti_care_map :: range_set
  ti_extended :: range_set
  ti_blocksize :: int

type_synonym cache_options = "(int \<times> rat) option"

record write_state =
  wt_out :: "string list"
  wt_total :: int
  wt_stashes :: stash_table
  wt_stashed :: int
  wt_max :: int
  wt_touched :: range_set

section \<open>Operations\<close>

definition line :: "string list \<Rightarrow> string" where
  "line ws = join '' '' ws @ [CHR 0x0A]"

text \<open>\<open>WriteSplitTransfers\<close>: the \<open>while target_blocks\<close> loop. Every round takes at least one block, so
  as many rounds as there are blocks are enough.\<close>

fun split_loop :: "nat \<Rightarrow> string \<Rightarrow> range_set \<Rightarrow> string list \<Rightarrow> int \<Rightarrow> (string list \<times> int) res" where
  "split_loop n style target_blocks out total_size =
     (if \<not> rs_bool target_blocks then Inr (out, total_size)
      else case n of
        0 \<Rightarrow> Inl Diverges
      | Suc m \<Rightarrow>
          (let blocks_to_write = rs_first target_blocks 1024 in
           try_bind (rs_to_string_raw blocks_to_write) (\<lambda>raw.
             split_loop m style (rs_subtract target_blocks blocks_to_write)
               (out @ [line [style, raw]]) (total_size + rs_size blocks_to_write))))"

declare split_loop.simps [simp del]

definition WriteSplitTransfers :: "string list \<Rightarrow> style \<Rightarrow> range_set \<Rightarrow> (string list \<times> int) res" where
  "WriteSplitTransfers out style target_blocks =
     try_bind (py_assert (style = New \<or> style = Zero)) (\<lambda>_.
       split_loop (nat (rs_size target_blocks)) (style_str style) target_blocks out 0)"

text \<open>The \<open>stash\<close> commands.\<close>

definition write_stash :: "(range_set \<Rightarrow> string) \<Rightarrow> write_state \<Rightarrow> nat \<times> range_set \<Rightarrow> write_state res" where
  "write_stash RangeSha1 st = (\<lambda>(_, sr).
     let sh = RangeSha1 sr in
     if slot_used sh (wt_stashes st) then Inr (st\<lparr>wt_stashes := slot_add sh (wt_stashes st)\<rparr>)
     else try_bind (rs_to_string_raw sr) (\<lambda>raw.
       Inr (st\<lparr>wt_stashes := slot_add sh (wt_stashes st), wt_stashed := wt_stashed st + rs_size sr,
               wt_touched := rs_union (wt_touched st) sr, wt_out := wt_out st @ [line [''stash'', sh, raw]]\<rparr>)))"

text \<open>The source string. The loop over \<open>use_stash\<close> keeps
  \<open>(unstashed_src_ranges, mapped_stashes, references, stashes, free_string, free_size)\<close>.\<close>

record source_state =
  ss_unstashed :: range_set
  ss_mapped :: "range_set list"
  ss_refs :: "string list"
  ss_stashes :: stash_table
  ss_free :: string
  ss_free_size :: int

definition use_one :: "(range_set \<Rightarrow> string) \<Rightarrow> range_set \<Rightarrow> source_state \<Rightarrow> nat \<times> range_set \<Rightarrow> source_state res" where
  "use_one RangeSha1 src ss = (\<lambda>(_, sr).
     let sh = RangeSha1 sr in
     try_bind (rs_map_within src sr) (\<lambda>m.
       try_bind (slot_drop sh (ss_stashes ss)) (\<lambda>(freed, tab).
         try_bind (rs_to_string_raw m) (\<lambda>raw.
           Inr (ss\<lparr>ss_unstashed := rs_subtract (ss_unstashed ss) sr, ss_mapped := ss_mapped ss @ [m],
                   ss_refs := ss_refs ss @ [sh @ '':'' @ raw], ss_stashes := tab,
                   ss_free := ss_free ss @ (if freed then line [''free'', sh] else []),
                   ss_free_size := ss_free_size ss + (if freed then rs_size m else 0)\<rparr>)))))"

definition source_string ::
  "(range_set \<Rightarrow> string) \<Rightarrow> transfer \<Rightarrow> stash_table \<Rightarrow> (string \<times> source_state) res" where
  "source_string RangeSha1 xf tab =
     (let size = rs_size (src_ranges xf) in
      try_bind (for_each (use_one RangeSha1 (src_ranges xf))
                  \<lparr>ss_unstashed = src_ranges xf, ss_mapped = [], ss_refs = [], ss_stashes = tab, ss_free = [], ss_free_size = 0\<rparr>
                  (use_stash xf)) (\<lambda>ss.
        if rs_bool (ss_unstashed ss) then
          try_bind (rs_to_string_raw (ss_unstashed ss)) (\<lambda>raw.
            if use_stash xf \<noteq> [] then
              try_bind (rs_map_within (src_ranges xf) (ss_unstashed ss)) (\<lambda>mapped.
                try_bind (rs_to_string_raw mapped) (\<lambda>mraw.
                  try_bind (AssertPartition (rs_of_data [0, size]) (ss_mapped ss @ [mapped])) (\<lambda>_.
                    Inr (join '' '' ([str_int size, raw, mraw] @ ss_refs ss), ss))))
            else Inr (join '' '' ([str_int size, raw] @ ss_refs ss), ss))
        else try_bind (AssertPartition (rs_of_data [0, size]) (ss_mapped ss)) (\<lambda>_.
               Inr (join '' '' ([str_int size, ''-''] @ ss_refs ss), ss))))"

text \<open>The automatic stash of a source that overlaps the target.\<close>

definition auto_stash :: "transfer \<Rightarrow> write_state \<Rightarrow> write_state" where
  "auto_stash xf st =
     (if rs_overlaps (src_ranges xf) (tgt_ranges xf)
      then st\<lparr>wt_max := max (wt_max st) (wt_stashed st + rs_size (src_ranges xf))\<rparr> else st)"

definition touch_source :: "transfer \<Rightarrow> write_state \<Rightarrow> write_state" where
  "touch_source xf st = st\<lparr>wt_touched := rs_union (wt_touched st) (src_ranges xf)\<rparr>"

text \<open>The command of the transfer, by its style.\<close>

definition write_command :: "transfer \<Rightarrow> string \<Rightarrow> write_state \<Rightarrow> write_state res" where
  "write_command xf src_str st =
     (let tgt_size = rs_size (tgt_ranges xf) in
      case xf_style xf of
        New \<Rightarrow>
          try_bind (py_assert (rs_bool (tgt_ranges xf))) (\<lambda>_.
            try_bind (WriteSplitTransfers (wt_out st) New (tgt_ranges xf)) (\<lambda>(out, n).
              try_bind (py_assert (tgt_size = n)) (\<lambda>_.
                Inr (st\<lparr>wt_out := out, wt_total := wt_total st + tgt_size\<rparr>))))
      | Move \<Rightarrow>
          try_bind (py_assert (rs_bool (tgt_ranges xf))) (\<lambda>_.
            try_bind (py_assert (rs_size (src_ranges xf) = tgt_size)) (\<lambda>_.
              if \<not> rs_eq (src_ranges xf) (tgt_ranges xf) then
                let st1 = touch_source xf (auto_stash xf st) in
                try_bind (rs_to_string_raw (tgt_ranges xf)) (\<lambda>raw.
                  Inr (st1\<lparr>wt_out := wt_out st1 @ [line [''move'', tgt_sha1 xf, raw, src_str]],
                           wt_total := wt_total st1 + tgt_size\<rparr>))
              else Inr st))
      | Zero \<Rightarrow>
          try_bind (py_assert (rs_bool (tgt_ranges xf))) (\<lambda>_.
            let to_zero = rs_subtract (tgt_ranges xf) (src_ranges xf) in
            try_bind (WriteSplitTransfers (wt_out st) Zero to_zero) (\<lambda>(out, n).
              try_bind (py_assert (n = rs_size to_zero)) (\<lambda>_.
                Inr (st\<lparr>wt_out := out, wt_total := wt_total st + rs_size to_zero\<rparr>))))
      | Diff \<Rightarrow> Inl ValueError
      | _ \<Rightarrow>
          try_bind (py_assert (rs_bool (tgt_ranges xf))) (\<lambda>_.
            try_bind (py_assert (rs_bool (src_ranges xf))) (\<lambda>_.
              let st1 = touch_source xf (auto_stash xf st) in
              try_bind (rs_to_string_raw (tgt_ranges xf)) (\<lambda>raw.
                Inr (st1\<lparr>wt_out := wt_out st1 @ [line [style_str (xf_style xf), str_int (patch_start xf),
                           str_int (patch_len xf), src_sha1 xf, tgt_sha1 xf, raw, src_str]],
                         wt_total := wt_total st1 + tgt_size\<rparr>)))))"

text \<open>\<open>assert max_stashed_blocks * blocksize <= cache_size * stash_threshold\<close>.\<close>

definition check_stash_limit :: "cache_options \<Rightarrow> int \<Rightarrow> write_state \<Rightarrow> unit res" where
  "check_stash_limit opts blocksize st =
     (case opts of None \<Rightarrow> Inr ()
      | Some (cache_size, stash_threshold) \<Rightarrow>
          py_assert (of_int (wt_max st * blocksize) \<le> of_int cache_size * stash_threshold))"

definition write_transfer ::
  "(range_set \<Rightarrow> string) \<Rightarrow> cache_options \<Rightarrow> int \<Rightarrow> store \<Rightarrow> write_state \<Rightarrow> nat \<Rightarrow> write_state res" where
  "write_transfer RangeSha1 opts blocksize h st0 x =
     (let xf = h ! x in
      try_bind (for_each (write_stash RangeSha1) st0 (stash_before xf)) (\<lambda>st1.
        let st2 = st1\<lparr>wt_max := max (wt_max st1) (wt_stashed st1)\<rparr> in
        try_bind (source_string RangeSha1 xf (wt_stashes st2)) (\<lambda>(src_str, ss).
          try_bind (write_command xf src_str (st2\<lparr>wt_stashes := ss_stashes ss\<rparr>)) (\<lambda>st3.
            let st4 = (if ss_free ss \<noteq> [] then st3\<lparr>wt_out := wt_out st3 @ [ss_free ss],
                                                   wt_stashed := wt_stashed st3 - ss_free_size ss\<rparr> else st3)
            in try_bind (check_stash_limit opts blocksize st4) (\<lambda>_. Inr st4)))))"

text \<open>The part after the loop: the extended blocks, the \<open>erase\<close> commands and the header lines.\<close>

definition finish_list :: "int \<Rightarrow> target_info \<Rightarrow> write_state \<Rightarrow> (string list \<times> write_state) res" where
  "finish_list version ti st =
     try_bind (if rs_bool (ti_extended ti)
               then try_bind (WriteSplitTransfers (wt_out st) Zero (ti_extended ti)) (\<lambda>(out, n).
                      try_bind (py_assert (n = rs_size (ti_extended ti))) (\<lambda>_.
                        Inr (st\<lparr>wt_out := out, wt_total := wt_total st + rs_size (ti_extended ti)\<rparr>)))
               else Inr st) (\<lambda>st1.
       let all_tgt = rs_of_data [0, ti_total_blocks ti];
           new_dontcare = rs_subtract (rs_subtract all_tgt (ti_extended ti)) (ti_care_map ti);
           erase_first = rs_subtract new_dontcare (wt_touched st1);
           erase_last = rs_subtract new_dontcare erase_first;
           first_line = (if rs_bool erase_first then map_res rs_to_string_raw [erase_first] else Inr []);
           last_line = (if rs_bool erase_last then map_res rs_to_string_raw [erase_last] else Inr [])
       in try_bind first_line (\<lambda>f. try_bind last_line (\<lambda>l.
            Inr ([line [str_int version], line [str_int (wt_total st1)], line [''0''], line [str_int (wt_max st1)]]
                 @ map (\<lambda>raw. line [''erase'', raw]) f @ wt_out st1 @ map (\<lambda>raw. line [''erase'', raw]) l, st1))))"

definition WriteTransfers ::
  "(range_set \<Rightarrow> string) \<Rightarrow> cache_options \<Rightarrow> int \<Rightarrow> target_info \<Rightarrow> nat list \<Rightarrow> store \<Rightarrow> range_set \<Rightarrow>
   (string list \<times> int \<times> range_set \<times> string) res" where
  "WriteTransfers RangeSha1 opts version ti ts h touched_src_ranges =
     try_bind (for_each (write_transfer RangeSha1 opts (ti_blocksize ti) h)
        \<lparr>wt_out = [], wt_total = 0, wt_stashes = [], wt_stashed = 0, wt_max = 0, wt_touched = touched_src_ranges\<rparr> ts) (\<lambda>st.
       let touched_src_sha1 = RangeSha1 (wt_touched st) in
       try_bind (finish_list version ti st) (\<lambda>(lines, st1).
         Inr (lines, wt_max st1 * ti_blocksize ti, wt_touched st1, touched_src_sha1)))"

section \<open>Splitting \<open>new\<close> and \<open>zero\<close>\<close>

definition raw_of :: "range_set \<Rightarrow> string" where
  "raw_of r = str_int (int (length (rs_data r))) @ '','' @ join '','' (map str_int (rs_data r))"

lemma raw_nonempty: "rs_bool r \<Longrightarrow> rs_to_string_raw r = Inr (raw_of r)"
  by (simp add: rs_to_string_raw_def rs_bool_def raw_of_def)

text \<open>The pieces a set of blocks is written in.\<close>

definition chunks_of :: "range_set \<Rightarrow> range_set list \<Rightarrow> bool" where
  "chunks_of target cs = ((\<forall>c\<in>set cs. wf_rs c \<and> 0 < rs_size c \<and> rs_size c \<le> 1024) \<and>
     disjoint_seq {} (map blocks cs) \<and> \<Union> (blocks ` set cs) = blocks target)"

lemma split_loop_ok:
  assumes "wf_rs target" "nat (rs_size target) \<le> n"
  shows "\<exists>cs. split_loop n style target out t = Inr (out @ map (\<lambda>c. line [style, raw_of c]) cs, t + rs_size target) \<and>
    chunks_of target cs"
  using assms
proof (induction n arbitrary: target out t)
  case 0
  then have "rs_size target = 0" using rs.size_card[of target] by simp
  then have "blocks target = {}" "\<not> rs_bool target" using 0 rs.size_zero_iff rs.nonempty_iff by auto
  then show ?case using \<open>rs_size target = 0\<close> by (intro exI[of _ "[]"]) (simp add: split_loop.simps chunks_of_def)
next
  case (Suc n)
  show ?case
  proof (cases "rs_bool target")
    case False
    then have "blocks target = {}" using Suc.prems rs.nonempty_iff by blast
    then show ?thesis using False Suc.prems(1) rs.size_zero_iff[of target]
      by (intro exI[of _ "[]"]) (simp add: split_loop.simps[of "Suc n"] chunks_of_def)
  next
    case True
    let ?c = "rs_first target 1024" and ?rest = "rs_subtract target (rs_first target 1024)"
    have pos: "0 < rs_size target"
      using True Suc.prems(1) rs.nonempty_iff[of target] rs.finite_abs[of target] rs.size_card[of target] by (simp add: card_gt_0_iff)
    have c: "wf_rs ?c" "blocks ?c \<subseteq> blocks target" "rs_size ?c = min 1024 (rs_size target)"
      using rs_first_spec[OF Suc.prems(1), of 1024] by auto
    have "blocks ?c \<noteq> {}" using c(1,3) pos rs.size_zero_iff[of ?c] by auto
    then have raw: "rs_to_string_raw ?c = Inr (raw_of ?c)" using raw_nonempty rs.nonempty_iff[OF c(1)] by blast
    have rest: "wf_rs ?rest" "blocks ?rest = blocks target - blocks ?c" "rs_size ?rest = rs_size target - rs_size ?c"
      using rs.inv_diff rs.abs_diff rs.size_diff_subset Suc.prems(1) c by auto
    have "nat (rs_size ?rest) \<le> n" using rest(3) c(3) pos Suc.prems(2) by linarith
    from Suc.IH[OF rest(1) this, of "out @ [line [style, raw_of ?c]]" "t + rs_size ?c"]
    obtain cs where cs: "split_loop n style ?rest (out @ [line [style, raw_of ?c]]) (t + rs_size ?c) =
        Inr ((out @ [line [style, raw_of ?c]]) @ map (\<lambda>c. line [style, raw_of c]) cs, t + rs_size ?c + rs_size ?rest)"
      "chunks_of ?rest cs" by blast
    have "split_loop (Suc n) style target out t = Inr (out @ map (\<lambda>c. line [style, raw_of c]) (?c # cs), t + rs_size target)"
      using True raw cs(1) rest(3) by (simp add: split_loop.simps[of "Suc n"] Let_def)
    moreover have "chunks_of target (?c # cs)"
      using cs(2) c pos rest(2) disjoint_seq_Un[of "blocks ?c" "map blocks cs"] by (auto simp: chunks_of_def)
    ultimately show ?thesis by blast
  qed
qed

lemma WriteSplitTransfers_ok:
  assumes "wf_rs target" "style = New \<or> style = Zero"
  shows "\<exists>cs. WriteSplitTransfers out style target = Inr (out @ map (\<lambda>c. line [style_str style, raw_of c]) cs, rs_size target) \<and>
    chunks_of target cs"
  using split_loop_ok[OF assms(1) order_refl, of "style_str style" out 0] assms(2) by (simp add: WriteSplitTransfers_def)

section \<open>Positions within a source\<close>

lemma rank_bij:
  fixes A :: "int set"
  assumes "finite A"
  shows "bij_betw (\<lambda>x. int (card {y \<in> A. y < x})) A {0..<int (card A)}"
proof -
  let ?r = "\<lambda>x. int (card {y \<in> A. y < x})"
  have mono: "?r x < ?r y" if "x \<in> A" "x < y" for x y
    using that assms by (auto intro!: psubset_card_mono)
  then have inj: "inj_on ?r A" by (metis (no_types, lifting) inj_onI less_irrefl neq_iff)
  have "?r x < int (card A)" if "x \<in> A" for x
    using that assms by (auto intro!: psubset_card_mono)
  then have "?r ` A \<subseteq> {0..<int (card A)}" by auto
  moreover have "card (?r ` A) = card {0..<int (card A)}" using inj by (simp add: card_image)
  ultimately have "?r ` A = {0..<int (card A)}" by (intro card_subset_eq) auto
  then show ?thesis using inj by (simp add: bij_betw_def)
qed

lemma mapped_within:
  assumes "wf_rs src" "wf_rs sr" "blocks sr \<subseteq> blocks src"
  shows "\<exists>m. rs_map_within src sr = Inr m \<and> wf_rs m \<and>
    blocks m = (\<lambda>x. int (card {y \<in> blocks src. y < x})) ` blocks sr \<and> rs_size m = rs_size sr"
proof -
  obtain m where m: "rs_map_within src sr = Inr m" "wf_rs m"
    "blocks m = (\<lambda>x. int (card {y \<in> blocks src. y < x})) ` blocks sr"
    using rs_map_within_spec[OF assms] by blast
  have "inj_on (\<lambda>x. int (card {y \<in> blocks src. y < x})) (blocks sr)"
    using rank_bij[OF rs.finite_abs[OF assms(1)]] assms(3) by (meson bij_betw_def inj_on_subset)
  then show ?thesis using m rs.size_card[OF m(2)] rs.size_card[OF assms(2)] by (simp add: card_image)
qed

section \<open>The stash commands\<close>

text \<open>The table now holds exactly the slots of the ids in \<open>S\<close>.\<close>

definition holds :: "('i \<Rightarrow> string) \<Rightarrow> (string \<Rightarrow> int) \<Rightarrow> 'i set \<Rightarrow> stash_table \<Rightarrow> int \<Rightarrow> bool" where
  "holds sha sz S tab n = (wf_table tab \<and> finite S \<and> table_bag tab = image_mset sha (mset_set S) \<and> n = (\<Sum>s\<in>sha ` S. sz s))"

lemma holds_space: "holds sha sz S tab n \<Longrightarrow> n = st.space sz tab"
  by (simp add: holds_def st.space_def)

lemma holds_add:
  assumes "holds sha sz S tab n" "i \<notin> S"
  shows "holds sha sz (insert i S) (slot_add (sha i) tab) (n + (if slot_used (sha i) tab then 0 else sz (sha i)))"
  using assms st.space_add[of tab sz "sha i"]
  by (auto simp: holds_def st.inv_add st.bag_add st.used_iff st.space_def)

lemma holds_drop:
  assumes "holds sha sz S tab n" "i \<in> S"
  shows "\<exists>freed tab'. slot_drop (sha i) tab = Inr (freed, tab') \<and>
    holds sha sz (S - {i}) tab' (n - (if freed then sz (sha i) else 0))"
proof -
  have wf: "wf_table tab" "finite S" "table_bag tab = image_mset sha (mset_set S)" using assms(1) by (auto simp: holds_def)
  have split: "image_mset sha (mset_set S) = add_mset (sha i) (image_mset sha (mset_set (S - {i})))"
    using mset_set.remove[OF wf(2) assms(2)] by simp
  then have "sha i \<in># table_bag tab" using wf(3) by simp
  from st.drop_space[OF wf(1) this, of sz] obtain freed tab' where d: "slot_drop (sha i) tab = Inr (freed, tab')" "wf_table tab'"
    "table_bag tab' = table_bag tab - {#sha i#}" "st.space sz tab' = st.space sz tab - (if freed then sz (sha i) else 0)" by blast
  have bag: "table_bag tab' = image_mset sha (mset_set (S - {i}))" using d(3) wf(3) split by simp
  then have "st.space sz tab' = (\<Sum>s\<in>sha ` (S - {i}). sz s)" using wf(2) by (simp add: st.space_def)
  then show ?thesis using d bag wf holds_space[OF assms(1)] by (auto simp: holds_def)
qed

lemma write_stashes_ok:
  assumes sha: "sha = slot_of RangeSha1 h0 fl" and sz: "\<forall>i<length fl. sz (sha i) = rs_size (overlap_of h0 (fl ! i))"
    and ps: "distinct (map fst ps)" "\<forall>(i, r)\<in>set ps. i < length fl \<and> r = overlap_of h0 (fl ! i) \<and> rs_bool r \<and> wf_rs r \<and> i \<notin> S"
    and st: "holds sha sz S (wt_stashes st) (wt_stashed st)" "wf_rs (wt_touched st)"
  shows "\<exists>st'. for_each (write_stash RangeSha1) st ps = Inr st' \<and>
    holds sha sz (S \<union> fst ` set ps) (wt_stashes st') (wt_stashed st') \<and> wf_rs (wt_touched st') \<and>
    wt_max st' = wt_max st \<and> wt_total st' = wt_total st"
  using ps st
proof (induction ps arbitrary: st S)
  case (Cons p ps)
  obtain i r where p: "p = (i, r)" by (cases p)
  have i: "i < length fl" "r = overlap_of h0 (fl ! i)" "rs_bool r" "wf_rs r" "i \<notin> S" "i \<notin> fst ` set ps" using Cons.prems p by auto
  have shi: "RangeSha1 r = sha i" using i(2) sha by (simp add: slot_of_def)
  obtain s1 where s1: "write_stash RangeSha1 st p = Inr s1" "wt_stashes s1 = slot_add (sha i) (wt_stashes st)"
    "wt_stashed s1 = wt_stashed st + (if slot_used (sha i) (wt_stashes st) then 0 else sz (sha i))"
    "wf_rs (wt_touched s1)" "wt_max s1 = wt_max st" "wt_total s1 = wt_total st"
  proof (cases "slot_used (sha i) (wt_stashes st)")
    case True
    then show ?thesis using that Cons.prems(4) by (simp add: write_stash_def p shi Let_def)
  next
    case False
    have "sz (sha i) = rs_size r" "wf_rs (rs_union (wt_touched st) r)" using sz i(1,2,4) Cons.prems(4) rs.inv_union by auto
    then show ?thesis using False that raw_nonempty[OF i(3)] by (simp add: write_stash_def p shi Let_def)
  qed
  have h1: "holds sha sz (insert i S) (wt_stashes s1) (wt_stashed s1)"
    using holds_add[OF Cons.prems(3) i(5)] s1(2,3) by simp
  have ps: "distinct (map fst ps)" "\<forall>(j, r)\<in>set ps. j < length fl \<and> r = overlap_of h0 (fl ! j) \<and> rs_bool r \<and> wf_rs r \<and> j \<notin> insert i S"
    using Cons.prems(1,2) i(6) p by (auto simp: image_iff)
  obtain st' where st': "for_each (write_stash RangeSha1) s1 ps = Inr st'"
    "holds sha sz (insert i S \<union> fst ` set ps) (wt_stashes st') (wt_stashed st')" "wf_rs (wt_touched st')"
    "wt_max st' = wt_max s1" "wt_total st' = wt_total s1"
    using Cons.IH[OF ps h1 s1(4)] by blast
  then show ?case using s1 p by auto
qed simp

section \<open>The source string\<close>

lemma use_all_ok:
  assumes sha: "sha = slot_of RangeSha1 h0 fl" and sz: "\<forall>i<length fl. sz (sha i) = rs_size (overlap_of h0 (fl ! i))"
    and src: "wf_rs src"
    and us: "distinct (map fst us)" "\<forall>(i, r)\<in>set us. i < length fl \<and> r = overlap_of h0 (fl ! i) \<and> rs_bool r \<and> wf_rs r \<and> blocks r \<subseteq> blocks src \<and> i \<in> S"
    and ss: "holds sha sz S (ss_stashes ss) (n - ss_free_size ss)" "wf_rs (ss_unstashed ss)" "\<forall>m\<in>set (ss_mapped ss). wf_rs m"
  shows "\<exists>ss'. for_each (use_one RangeSha1 src) ss us = Inr ss' \<and>
    holds sha sz (S - fst ` set us) (ss_stashes ss') (n - ss_free_size ss') \<and>
    wf_rs (ss_unstashed ss') \<and> blocks (ss_unstashed ss') = blocks (ss_unstashed ss) - \<Union> (blocks ` snd ` set us) \<and>
    (\<forall>m\<in>set (ss_mapped ss'). wf_rs m) \<and>
    map blocks (ss_mapped ss') = map blocks (ss_mapped ss) @ map (\<lambda>(i, r). (\<lambda>x. int (card {y \<in> blocks src. y < x})) ` blocks r) us \<and>
    ((ss_free ss' = [] \<longrightarrow> ss_free_size ss' = 0) \<or> \<not> (ss_free ss = [] \<longrightarrow> ss_free_size ss = 0))"
  using us ss
proof (induction us arbitrary: ss S)
  case (Cons p us)
  obtain i r where p: "p = (i, r)" by (cases p)
  have i: "i < length fl" "r = overlap_of h0 (fl ! i)" "rs_bool r" "wf_rs r" "blocks r \<subseteq> blocks src" "i \<in> S" "i \<notin> fst ` set us"
    using Cons.prems p by auto
  have shi: "RangeSha1 r = sha i" using i(2) sha by (simp add: slot_of_def)
  obtain m where m: "rs_map_within src r = Inr m" "wf_rs m" "blocks m = (\<lambda>x. int (card {y \<in> blocks src. y < x})) ` blocks r" "rs_size m = rs_size r"
    using mapped_within[OF src i(4,5)] by blast
  have "blocks m \<noteq> {}" using m(3) i(3,4) rs.nonempty_iff by auto
  then have raw: "rs_to_string_raw m = Inr (raw_of m)" using raw_nonempty rs.nonempty_iff[OF m(2)] by blast
  obtain freed tab where d: "slot_drop (sha i) (ss_stashes ss) = Inr (freed, tab)"
    "holds sha sz (S - {i}) tab (n - ss_free_size ss - (if freed then sz (sha i) else 0))"
    using holds_drop[OF Cons.prems(3) i(6)] by blast
  define s1 where "s1 = ss\<lparr>ss_unstashed := rs_subtract (ss_unstashed ss) r, ss_mapped := ss_mapped ss @ [m],
      ss_refs := ss_refs ss @ [sha i @ '':'' @ raw_of m], ss_stashes := tab,
      ss_free := ss_free ss @ (if freed then line [''free'', sha i] else []),
      ss_free_size := ss_free_size ss + (if freed then rs_size m else 0)\<rparr>"
  have step: "use_one RangeSha1 src ss p = Inr s1" using m(1) d(1) raw by (simp add: use_one_def p shi s1_def Let_def)
  have size: "sz (sha i) = rs_size m" using sz i m(4) by simp
  have h1: "holds sha sz (S - {i}) (ss_stashes s1) (n - ss_free_size s1)"
    using d(2) size by (simp add: s1_def algebra_simps split: if_splits)
  have wf1: "wf_rs (ss_unstashed s1)" "\<forall>m\<in>set (ss_mapped s1). wf_rs m"
    using Cons.prems(4,5) i(4) m(2) rs.inv_diff by (auto simp: s1_def)
  have us: "distinct (map fst us)" "\<forall>(j, r)\<in>set us. j < length fl \<and> r = overlap_of h0 (fl ! j) \<and> rs_bool r \<and> wf_rs r \<and> blocks r \<subseteq> blocks src \<and> j \<in> S - {i}"
    using Cons.prems(1,2) i(7) p by (auto simp: image_iff)
  have fr: "(ss_free s1 = [] \<longrightarrow> ss_free_size s1 = 0) \<or> \<not> (ss_free ss = [] \<longrightarrow> ss_free_size ss = 0)"
    by (auto simp: s1_def line_def)
  from Cons.IH[OF us h1 wf1] obtain s2 where s2: "for_each (use_one RangeSha1 src) s1 us = Inr s2"
    "holds sha sz (S - {i} - fst ` set us) (ss_stashes s2) (n - ss_free_size s2)" "wf_rs (ss_unstashed s2)"
    "blocks (ss_unstashed s2) = blocks (ss_unstashed s1) - \<Union> (blocks ` snd ` set us)" "\<forall>m\<in>set (ss_mapped s2). wf_rs m"
    "map blocks (ss_mapped s2) = map blocks (ss_mapped s1) @ map (\<lambda>(i, r). (\<lambda>x. int (card {y \<in> blocks src. y < x})) ` blocks r) us"
    "(ss_free s2 = [] \<longrightarrow> ss_free_size s2 = 0) \<or> \<not> (ss_free s1 = [] \<longrightarrow> ss_free_size s1 = 0)" by blast
  have "S - {i} - fst ` set us = S - fst ` set (p # us)" using p by auto
  moreover have "blocks (ss_unstashed s1) = blocks (ss_unstashed ss) - blocks r" using Cons.prems(4) i(4) by (simp add: s1_def rs.abs_diff)
  ultimately show ?case
    using step s2 fr p m(3) by (intro exI[of _ s2]) (auto simp: s1_def)
qed simp

lemma disjoint_seq_image:
  assumes "disjoint_seq {} Bs" "inj_on f A" "\<Union> (set Bs) \<subseteq> A"
  shows "disjoint_seq {} (map (\<lambda>B. f ` B) Bs)"
  unfolding disjoint_seq_iff
proof (intro allI impI)
  fix i j assume ij: "i < length (map ((`) f) Bs)" "j < length (map ((`) f) Bs)" "i \<noteq> j"
  have "Bs ! i \<in> set Bs" "Bs ! j \<in> set Bs" using ij by auto
  then have "Bs ! i \<subseteq> A" "Bs ! j \<subseteq> A" using assms(3) by blast+
  then have "f ` (Bs ! i) \<inter> f ` (Bs ! j) = f ` (Bs ! i \<inter> Bs ! j)" using inj_on_image_Int[OF assms(2)] by blast
  then show "map ((`) f) Bs ! i \<inter> map ((`) f) Bs ! j = {}" using ij disjoint_seq_nth[OF assms(1), of i j] by simp
qed

text \<open>The positions of the pieces of a partition of the source partition the positions.\<close>

lemma mapped_partition:
  assumes "wf_rs src" "\<forall>m\<in>set ms. wf_rs m" "map blocks ms = map (\<lambda>B. (\<lambda>x. int (card {y \<in> blocks src. y < x})) ` B) Bs"
    "disjoint_seq {} Bs" "\<Union> (set Bs) = blocks src"
  shows "AssertPartition (rs_of_data [0, rs_size src]) ms = Inr ()"
proof -
  let ?f = "\<lambda>x. int (card {y \<in> blocks src. y < x})"
  have bij: "bij_betw ?f (blocks src) {0..<rs_size src}"
    using rank_bij[OF rs.finite_abs[OF assms(1)]] rs.size_card[OF assms(1)] by simp
  have "disjoint_seq {} (map blocks ms)"
    unfolding assms(3) using disjoint_seq_image[OF assms(4) bij_betw_imp_inj_on[OF bij]] assms(5) by simp
  moreover have "\<Union> (blocks ` set ms) = \<Union> (set (map blocks ms))" by simp
  then have "\<Union> (blocks ` set ms) = ?f ` blocks src" unfolding assms(3) assms(5)[symmetric] by auto
  ultimately show ?thesis
    using AssertPartition_iff[of "rs_of_data [0, rs_size src]" ms] blocks_interval[of "rs_size src"] assms(2)
      rs.size_card[OF assms(1)] bij_betw_imp_surj_on[OF bij] by simp
qed

lemma source_string_ok:
  assumes sha: "sha = slot_of RangeSha1 h0 fl" and sz: "\<forall>i<length fl. sz (sha i) = rs_size (overlap_of h0 (fl ! i))"
    and src: "wf_rs (src_ranges xf)"
    and us: "distinct (map fst (use_stash xf))"
      "\<forall>(i, r)\<in>set (use_stash xf). i < length fl \<and> r = overlap_of h0 (fl ! i) \<and> rs_bool r \<and> wf_rs r \<and> blocks r \<subseteq> src_blocks xf \<and> i \<in> S"
      "disjoint_seq {} (map (\<lambda>(i, r). blocks r) (use_stash xf))"
    and tab: "holds sha sz S tab n"
  shows "\<exists>s ss. source_string RangeSha1 xf tab = Inr (s, ss) \<and>
    holds sha sz (S - fst ` set (use_stash xf)) (ss_stashes ss) (n - ss_free_size ss) \<and> (ss_free ss = [] \<longrightarrow> ss_free_size ss = 0)"
proof -
  let ?src = "src_ranges xf" and ?us = "use_stash xf" and ?f = "\<lambda>x. int (card {y \<in> src_blocks xf. y < x})"
  let ?ss = "\<lparr>ss_unstashed = ?src, ss_mapped = [], ss_refs = [], ss_stashes = tab, ss_free = [], ss_free_size = 0\<rparr>"
  let ?U = "\<Union> (blocks ` snd ` set ?us)" and ?Bs = "map (\<lambda>(i, r). blocks r) ?us"
  obtain ss where ss: "for_each (use_one RangeSha1 ?src) ?ss ?us = Inr ss"
    "holds sha sz (S - fst ` set ?us) (ss_stashes ss) (n - ss_free_size ss)" "wf_rs (ss_unstashed ss)"
    "blocks (ss_unstashed ss) = src_blocks xf - ?U" "\<forall>m\<in>set (ss_mapped ss). wf_rs m"
    "map blocks (ss_mapped ss) = map (\<lambda>(i, r). ?f ` blocks r) ?us" "ss_free ss = [] \<longrightarrow> ss_free_size ss = 0"
    using use_all_ok[OF sha sz src us(1,2), of ?ss n] tab src by auto
  have mb: "map blocks (ss_mapped ss) = map (\<lambda>B. ?f ` B) ?Bs" using ss(6) by (simp add: comp_def split_def)
  have U: "\<Union> (set ?Bs) = ?U" by (auto simp: split_def)
  have sub: "?U \<subseteq> src_blocks xf" using us(2) by fastforce
  have "\<exists>s. source_string RangeSha1 xf tab = Inr (s, ss)"
  proof (cases "rs_bool (ss_unstashed ss)")
    case False
    then have "\<Union> (set ?Bs) = src_blocks xf" using rs.nonempty_iff[OF ss(3)] ss(4) sub U by auto
    from mapped_partition[OF src ss(5) mb us(3) this] show ?thesis
      using ss(1) False by (simp add: source_string_def Let_def)
  next
    case True
    note raw = raw_nonempty[OF True]
    show ?thesis
    proof (cases "?us = []")
      case nil: True
      then show ?thesis using ss(1) True raw by (simp add: source_string_def Let_def)
    next
      case False
      obtain m where m: "rs_map_within ?src (ss_unstashed ss) = Inr m" "wf_rs m" "blocks m = ?f ` blocks (ss_unstashed ss)"
        using mapped_within[OF src ss(3)] ss(4) by auto
      have "blocks m \<noteq> {}" using m(3) True rs.nonempty_iff[OF ss(3)] by simp
      then have mraw: "rs_to_string_raw m = Inr (raw_of m)" using raw_nonempty rs.nonempty_iff[OF m(2)] by blast
      have w: "\<forall>m'\<in>set (ss_mapped ss @ [m]). wf_rs m'" using ss(5) m(2) by simp
      have e: "map blocks (ss_mapped ss @ [m]) = map (\<lambda>B. ?f ` B) (?Bs @ [src_blocks xf - ?U])"
        using mb m(3) ss(4) by simp
      have d: "disjoint_seq {} (?Bs @ [src_blocks xf - ?U])" using us(3) U by (simp add: disjoint_seq_append)
      have "\<Union> (set (?Bs @ [src_blocks xf - ?U])) = src_blocks xf" using U sub by auto
      from mapped_partition[OF src w e d this]
      have "AssertPartition (rs_of_data [0, rs_size ?src]) (ss_mapped ss @ [m]) = Inr ()" .
      then show ?thesis using ss(1) True False raw m(1) mraw by (simp add: source_string_def Let_def)
    qed
  qed
  then show ?thesis using ss(2,7) by blast
qed

section \<open>One transfer\<close>

text \<open>The transfers as they are when the list is written: the stash records of the transfers not in
  \<open>C\<close>, and a final style for each.\<close>

definition final_style :: "store \<Rightarrow> nat set \<Rightarrow> nat \<Rightarrow> style \<Rightarrow> bool" where
  "final_style h0 C x sty = (rs_bool (tgt_ranges (h0 ! x)) \<and> (case sty of
       New \<Rightarrow> True
     | Zero \<Rightarrow> True
     | Diff \<Rightarrow> False
     | Move \<Rightarrow> x \<notin> C \<and> xf_style (h0 ! x) = Diff \<and> rs_size (src_ranges (h0 ! x)) = rs_size (tgt_ranges (h0 ! x))
     | _ \<Rightarrow> x \<notin> C \<and> xf_style (h0 ! x) = Diff \<and> rs_bool (src_ranges (h0 ! x))))"

definition writable :: "store \<Rightarrow> (nat \<times> nat) list \<Rightarrow> nat list \<Rightarrow> nat set \<Rightarrow> store \<Rightarrow> bool" where
  "writable h0 fl ts C h = (\<forall>x\<in>set ts.
     use_stash (h ! x) = (if x \<in> C then [] else stash_log h0 fl fst x) \<and>
     stash_before (h ! x) = filter (\<lambda>p. user fl (fst p) \<notin> C) (stash_log h0 fl snd x) \<and>
     tgt_ranges (h ! x) = tgt_ranges (h0 ! x) \<and>
     src_ranges (h ! x) = (if x \<in> C then rs_empty else src_ranges (h0 ! x)) \<and>
     final_style h0 C x (xf_style (h ! x)))"

definition wf_ranges :: "store \<Rightarrow> (nat \<times> nat) list \<Rightarrow> nat list \<Rightarrow> bool" where
  "wf_ranges h0 fl ts = ((\<forall>x\<in>set ts. wf_rs (tgt_ranges (h0 ! x)) \<and> wf_rs (src_ranges (h0 ! x))) \<and>
     disjoint_targets ts h0 \<and> (\<forall>i<length fl. fl ! i \<in> reads_from h0 ts))"

definition winv ::
  "(nat \<Rightarrow> string) \<Rightarrow> (string \<Rightarrow> int) \<Rightarrow> (nat \<times> nat) list \<Rightarrow> nat list \<Rightarrow> nat set \<Rightarrow> int \<Rightarrow> nat \<Rightarrow> write_state \<Rightarrow> bool" where
  "winv sha sz fl ts C m k st = (holds sha sz (live ts fl C k) (wt_stashes st) (wt_stashed st) \<and>
     wf_rs (wt_touched st) \<and> wt_max st \<le> m)"

lemma overlap_facts:
  assumes "wf_ranges h0 fl ts" "i < length fl"
  shows "wf_rs (overlap_of h0 (fl ! i))" "rs_bool (overlap_of h0 (fl ! i))"
    "blocks (overlap_of h0 (fl ! i)) = src_blocks (h0 ! user fl i) \<inter> tgt_blocks (h0 ! maker fl i)"
proof -
  have "fl ! i \<in> reads_from h0 ts" using assms by (simp add: wf_ranges_def)
  then have e: "user fl i \<in> set ts" "maker fl i \<in> set ts" "src_blocks (h0 ! user fl i) \<inter> tgt_blocks (h0 ! maker fl i) \<noteq> {}"
    by (auto simp: reads_from_def)
  have eq: "overlap_of h0 (fl ! i) = rs_intersect (src_ranges (h0 ! user fl i)) (tgt_ranges (h0 ! maker fl i))"
    by (simp add: overlap_of_def split_def)
  show wf: "wf_rs (overlap_of h0 (fl ! i))"
    and bl: "blocks (overlap_of h0 (fl ! i)) = src_blocks (h0 ! user fl i) \<inter> tgt_blocks (h0 ! maker fl i)"
    unfolding eq using e assms(1) by (simp_all add: wf_ranges_def rs.inv_inter rs.abs_inter)
  show "rs_bool (overlap_of h0 (fl ! i))" using rs.nonempty_iff[OF wf] bl e(3) by simp
qed

lemma stash_log_disjoint:
  assumes "wf_ranges h0 fl ts" "distinct fl"
  shows "disjoint_seq {} (map (\<lambda>(i, r). blocks r) (stash_log h0 fl fst x))"
proof -
  let ?ids = "filter (\<lambda>i. user fl i = x) [0..<length fl]"
  have eq: "map (\<lambda>(i, r). blocks r) (stash_log h0 fl fst x) = map (\<lambda>i. blocks (overlap_of h0 (fl ! i))) ?ids"
    by (simp add: stash_log_def comp_def)
  have ids: "?ids ! a < length fl \<and> user fl (?ids ! a) = x" if "a < length ?ids" for a
    using nth_mem[OF that] by auto
  have "blocks (overlap_of h0 (fl ! (?ids ! a))) \<inter> blocks (overlap_of h0 (fl ! (?ids ! b))) = {}"
    if ab: "a < length ?ids" "b < length ?ids" "a \<noteq> b" for a b
  proof -
    note a = ids[OF ab(1)] and b = ids[OF ab(2)]
    have "distinct ?ids" by (rule distinct_filter) simp
    then have "?ids ! a \<noteq> ?ids ! b" using nth_eq_iff_index_eq ab by blast
    then have "fl ! (?ids ! a) \<noteq> fl ! (?ids ! b)" using nth_eq_iff_index_eq[OF assms(2)] a b by blast
    then have ne: "maker fl (?ids ! a) \<noteq> maker fl (?ids ! b)" using a b by (metis prod_eqI)
    have "fl ! (?ids ! a) \<in> reads_from h0 ts" "fl ! (?ids ! b) \<in> reads_from h0 ts" using assms(1) a b unfolding wf_ranges_def by blast+
    then have "maker fl (?ids ! a) \<in> set ts" "maker fl (?ids ! b) \<in> set ts" unfolding reads_from_def by (metis (no_types, lifting) case_prodD mem_Collect_eq prod.collapse)+
    then have "tgt_blocks (h0 ! maker fl (?ids ! a)) \<inter> tgt_blocks (h0 ! maker fl (?ids ! b)) = {}"
      using assms(1) ne unfolding wf_ranges_def disjoint_targets_def by blast
    then show ?thesis using overlap_facts(3)[OF assms(1)] a b by blast
  qed
  then show ?thesis unfolding eq disjoint_seq_iff by simp
qed

lemma write_command_ok:
  assumes fs: "final_style h0 C x (xf_style xf)" and tgt: "tgt_ranges xf = tgt_ranges (h0 ! x)"
    and src: "src_ranges xf = (if x \<in> C then rs_empty else src_ranges (h0 ! x))"
    and wf: "wf_rs (tgt_ranges (h0 ! x))" "wf_rs (src_ranges (h0 ! x))" "wf_rs (wt_touched st)"
    and m: "wt_stashed st + implicit_need h0 C x \<le> m" "wt_max st \<le> m"
  shows "\<exists>st'. write_command xf s st = Inr st' \<and> wt_stashes st' = wt_stashes st \<and> wt_stashed st' = wt_stashed st \<and>
    wf_rs (wt_touched st') \<and> wt_max st' \<le> m"
proof -
  have b: "rs_bool (tgt_ranges xf)" and raw: "rs_to_string_raw (tgt_ranges xf) = Inr (raw_of (tgt_ranges xf))"
    using fs tgt raw_nonempty by (auto simp: final_style_def)
  have wfs: "wf_rs (src_ranges xf)" "wf_rs (tgt_ranges xf)" using src tgt wf rs.inv_empty by auto
  have auto: "wt_max (auto_stash xf st) \<le> m" "wt_stashes (auto_stash xf st) = wt_stashes st"
    "wt_stashed (auto_stash xf st) = wt_stashed st" "wt_touched (auto_stash xf st) = wt_touched st"
    if "x \<notin> C" "xf_style (h0 ! x) = Diff"
    using that m src tgt by (auto simp: auto_stash_def implicit_need_def)
  have touched: "wf_rs (rs_union (wt_touched st) (src_ranges xf))" using wf(3) wfs(1) by (rule rs.inv_union)
  show ?thesis
  proof (cases "xf_style xf")
    case Zero
    have "wf_rs (rs_subtract (tgt_ranges xf) (src_ranges xf))" using wfs rs.inv_diff by blast
    from WriteSplitTransfers_ok[OF this, of Zero "wt_out st"] show ?thesis
      using Zero b wf(3) m(2) by (auto simp: write_command_def Let_def)
  next
    case New
    from WriteSplitTransfers_ok[OF wfs(2), of New "wt_out st"] show ?thesis
      using New b wf(3) m(2) by (auto simp: write_command_def Let_def)
  next
    case Move
    then have "x \<notin> C" "xf_style (h0 ! x) = Diff" "rs_size (src_ranges xf) = rs_size (tgt_ranges xf)"
      using fs src tgt by (auto simp: final_style_def)
    then show ?thesis using Move b raw auto touched wf(3) m(2) by (simp add: write_command_def touch_source_def Let_def)
  next
    case Bsdiff
    then have "x \<notin> C" "xf_style (h0 ! x) = Diff" "rs_bool (src_ranges xf)" using fs src by (auto simp: final_style_def)
    then show ?thesis using Bsdiff b raw auto touched by (simp add: write_command_def touch_source_def Let_def)
  next
    case Imgdiff
    then have "x \<notin> C" "xf_style (h0 ! x) = Diff" "rs_bool (src_ranges xf)" using fs src by (auto simp: final_style_def)
    then show ?thesis using Imgdiff b raw auto touched by (simp add: write_command_def touch_source_def Let_def)
  qed (use fs in \<open>simp add: final_style_def\<close>)
qed

lemma held_live:
  assumes "stash_plan h0 fl ts" "k < length ts"
  shows "held ts fl C k = live ts fl C k \<union> {i. i < length fl \<and> maker fl i = ts ! k \<and> user fl i \<notin> C}"
    and "{i. i < length fl \<and> maker fl i = ts ! k \<and> user fl i \<notin> C} \<inter> live ts fl C k = {}"
    and "held ts fl C k - {i. i < length fl \<and> user fl i = ts ! k} = live ts fl C (Suc k)"
    and "{i. i < length fl \<and> user fl i = ts ! k \<and> ts ! k \<notin> C} \<subseteq> held ts fl C k"
proof -
  have t: "set (take (Suc k) ts) = insert (ts ! k) (set (take k ts))" using assms(2) by (simp add: take_Suc_conv_app_nth)
  have d: "distinct ts" and dep: "\<And>i j. i < length fl \<Longrightarrow> j < length ts \<Longrightarrow> user fl i = ts ! j \<Longrightarrow> maker fl i \<in> set (take j ts)"
    using assms(1) by (auto simp: stash_plan_def)
  have fresh: "ts ! k \<notin> set (take k ts)" using d assms(2) by (auto simp: in_set_conv_nth nth_eq_iff_index_eq)
  have un: "user fl i \<notin> set (take k ts)" if "i < length fl" "maker fl i = ts ! k" for i
  proof
    assume "user fl i \<in> set (take k ts)"
    then obtain j where j: "j < k" "j < length ts" "user fl i = ts ! j" by (auto simp: in_set_conv_nth)
    then have "ts ! k \<in> set (take j ts)" using dep[OF that(1) j(2,3)] that(2) by simp
    then show False using fresh j(1) set_take_subset_set_take[of j k ts] by auto
  qed
  have mk: "maker fl i \<in> set (take k ts)" if "i < length fl" "user fl i = ts ! k" for i using dep[OF that(1) assms(2) that(2)] .
  show "held ts fl C k = live ts fl C k \<union> {i. i < length fl \<and> maker fl i = ts ! k \<and> user fl i \<notin> C}"
    unfolding held_def live_def t using un by auto
  show "{i. i < length fl \<and> maker fl i = ts ! k \<and> user fl i \<notin> C} \<inter> live ts fl C k = {}"
    unfolding live_def using fresh by auto
  show "held ts fl C k - {i. i < length fl \<and> user fl i = ts ! k} = live ts fl C (Suc k)"
    unfolding held_def live_def t by auto
  show "{i. i < length fl \<and> user fl i = ts ! k \<and> ts ! k \<notin> C} \<subseteq> held ts fl C k"
    unfolding held_def t using fresh mk by auto
qed

lemma stash_log_fields:
  "distinct (map fst (stash_log h0 fl f x))"
  "(i, r) \<in> set (stash_log h0 fl f x) \<longleftrightarrow> i < length fl \<and> f (fl ! i) = x \<and> r = overlap_of h0 (fl ! i)"
  by (auto simp: stash_log_def comp_def)

lemma write_transfer_ok:
  assumes plan: "stash_plan h0 fl ts" and wr: "writable h0 fl ts C h" and wf: "wf_ranges h0 fl ts"
    and sha: "sha = slot_of RangeSha1 h0 fl" and sz: "\<forall>i<length fl. sz (sha i) = rs_size (overlap_of h0 (fl ! i))"
    and k: "k < length ts" "peak sha sz h0 fl ts C k \<le> m" and inv: "winv sha sz fl ts C m k st"
    and limit: "\<And>s. wt_max s \<le> m \<Longrightarrow> check_stash_limit opts blocksize s = Inr ()"
    and nonneg: "0 \<le> implicit_need h0 C (ts ! k)"
  shows "\<exists>st'. write_transfer RangeSha1 opts blocksize h st (ts ! k) = Inr st' \<and> winv sha sz fl ts C m (Suc k) st'"
proof -
  let ?x = "ts ! k" and ?H = "held ts fl C k"
  let ?xf = "h ! ?x"
  have x: "?x \<in> set ts" using k(1) by simp
  have xf: "use_stash ?xf = (if ?x \<in> C then [] else stash_log h0 fl fst ?x)"
    "stash_before ?xf = filter (\<lambda>p. user fl (fst p) \<notin> C) (stash_log h0 fl snd ?x)"
    "tgt_ranges ?xf = tgt_ranges (h0 ! ?x)" "src_ranges ?xf = (if ?x \<in> C then rs_empty else src_ranges (h0 ! ?x))"
    "final_style h0 C ?x (xf_style ?xf)" using wr x unfolding writable_def by blast+
  note hl = held_live[OF plan k(1), of C] and ov = overlap_facts[OF wf]
  have st: "holds sha sz (live ts fl C k) (wt_stashes st) (wt_stashed st)" "wf_rs (wt_touched st)" "wt_max st \<le> m"
    using inv by (auto simp: winv_def)
  have ids: "fst ` set (stash_before ?xf) = {i. i < length fl \<and> maker fl i = ?x \<and> user fl i \<notin> C}"
    unfolding xf(2) by (force simp: stash_log_fields(2) image_iff)
  have d1: "distinct (map fst (stash_before ?xf))" unfolding xf(2) by (simp add: distinct_map_filter stash_log_fields(1))
  have f1: "\<forall>(i, r)\<in>set (stash_before ?xf). i < length fl \<and> r = overlap_of h0 (fl ! i) \<and> rs_bool r \<and> wf_rs r \<and> i \<notin> live ts fl C k"
  proof (clarify)
    fix i r assume p: "(i, r) \<in> set (stash_before ?xf)"
    then have "i \<in> fst ` set (stash_before ?xf)" by force
    then have "i \<notin> live ts fl C k" using hl(2) ids by blast
    then show "i < length fl \<and> r = overlap_of h0 (fl ! i) \<and> rs_bool r \<and> wf_rs r \<and> i \<notin> live ts fl C k"
      using p ov by (auto simp: xf(2) stash_log_fields(2))
  qed
  obtain s1 where s1: "for_each (write_stash RangeSha1) st (stash_before ?xf) = Inr s1"
    "holds sha sz ?H (wt_stashes s1) (wt_stashed s1)" "wf_rs (wt_touched s1)" "wt_max s1 = wt_max st"
    using write_stashes_ok[OF sha sz d1 f1 st(1,2)] hl(1) ids by auto
  define s2 where "s2 = s1\<lparr>wt_max := max (wt_max s1) (wt_stashed s1)\<rparr>"
  have need: "wt_stashed s1 + implicit_need h0 C ?x \<le> m" using s1(2) k(2) by (simp add: holds_def peak_def)
  have src: "wf_rs (src_ranges ?xf)" and wfx: "wf_rs (tgt_ranges (h0 ! ?x))" "wf_rs (src_ranges (h0 ! ?x))"
    using wf x xf(4) rs.inv_empty by (auto simp: wf_ranges_def)
  have f2: "\<forall>(i, r)\<in>set (use_stash ?xf). i < length fl \<and> r = overlap_of h0 (fl ! i) \<and> rs_bool r \<and> wf_rs r \<and> blocks r \<subseteq> src_blocks ?xf \<and> i \<in> ?H"
    using ov hl(4) xf(1,4) by (auto simp: stash_log_fields(2) split: if_splits)
  have d2: "distinct (map fst (use_stash ?xf))" "disjoint_seq {} (map (\<lambda>(i, r). blocks r) (use_stash ?xf))"
    using xf(1) stash_log_fields(1) stash_log_disjoint[OF wf] plan by (auto simp: stash_plan_def)
  have s2h: "holds sha sz ?H (wt_stashes s2) (wt_stashed s2)" using s1(2) by (simp add: s2_def)
  obtain s ss where ss: "source_string RangeSha1 ?xf (wt_stashes s2) = Inr (s, ss)"
    "holds sha sz (?H - fst ` set (use_stash ?xf)) (ss_stashes ss) (wt_stashed s2 - ss_free_size ss)" "ss_free ss = [] \<longrightarrow> ss_free_size ss = 0"
    using source_string_ok[OF sha sz src d2(1) f2 d2(2) s2h] by blast
  have used: "?H - fst ` set (use_stash ?xf) = live ts fl C (Suc k)"
  proof (cases "?x \<in> C")
    case True
    then have "?H - {i. i < length fl \<and> user fl i = ts ! k} = ?H" by (auto simp: held_def)
    then show ?thesis using hl(3) xf(1) True by simp
  next
    case False
    then have "fst ` set (use_stash ?xf) = {i. i < length fl \<and> user fl i = ?x}"
      using xf(1) stash_log_ids[of h0 fl fst ?x] by simp
    then show ?thesis using hl(3) by simp
  qed
  define s3 where "s3 = s2\<lparr>wt_stashes := ss_stashes ss\<rparr>"
  have m3: "wf_rs (wt_touched s3)" "wt_stashed s3 + implicit_need h0 C ?x \<le> m" "wt_max s3 \<le> m"
    using s1(3,4) st(3) need nonneg by (auto simp: s3_def s2_def)
  obtain s4 where s4: "write_command ?xf s s3 = Inr s4" "wt_stashes s4 = wt_stashes s3" "wt_stashed s4 = wt_stashed s3"
    "wf_rs (wt_touched s4)" "wt_max s4 \<le> m"
    using write_command_ok[OF xf(5,3,4) wfx m3] by blast
  define s5 where "s5 = (if ss_free ss \<noteq> [] then s4\<lparr>wt_out := wt_out s4 @ [ss_free ss], wt_stashed := wt_stashed s4 - ss_free_size ss\<rparr> else s4)"
  have "winv sha sz fl ts C m (Suc k) s5" using ss(2,3) used s4 by (auto simp: s5_def winv_def s3_def)
  moreover have "wt_max s5 \<le> m" using s4(5) by (simp add: s5_def)
  then have "write_transfer RangeSha1 opts blocksize h st ?x = Inr s5"
    using s1(1) ss(1) s4(1) limit unfolding write_transfer_def s2_def s3_def s5_def by (simp add: Let_def)
  ultimately show ?thesis by blast
qed

section \<open>The whole list\<close>

definition wf_target :: "target_info \<Rightarrow> bool" where
  "wf_target ti = (0 \<le> ti_total_blocks ti \<and> wf_rs (ti_care_map ti) \<and> wf_rs (ti_extended ti))"

text \<open>The blocks the two \<open>erase\<close> commands name: together the blocks that the target does not care for.\<close>

definition erased_first :: "target_info \<Rightarrow> int set \<Rightarrow> int set" where
  "erased_first ti touched = {0..<ti_total_blocks ti} - blocks (ti_extended ti) - blocks (ti_care_map ti) - touched"

definition erased_last :: "target_info \<Rightarrow> int set \<Rightarrow> int set" where
  "erased_last ti touched = ({0..<ti_total_blocks ti} - blocks (ti_extended ti) - blocks (ti_care_map ti)) \<inter> touched"

text \<open>An \<open>erase\<close> line for a set of blocks, none for the empty set.\<close>

definition erase_lines :: "range_set \<Rightarrow> string list" where
  "erase_lines r = (if rs_bool r then [line [''erase'', raw_of r]] else [])"

lemma finish_list_ok:
  assumes ti: "wf_target ti" and w: "wf_rs (wt_touched st)"
  shows "\<exists>cs ef el. finish_list version ti st =
      Inr ([line [str_int version], line [str_int (wt_total st + rs_size (ti_extended ti))], line [''0''], line [str_int (wt_max st)]]
           @ erase_lines ef @ (wt_out st @ map (\<lambda>c. line [''zero'', raw_of c]) cs) @ erase_lines el,
           st\<lparr>wt_out := wt_out st @ map (\<lambda>c. line [''zero'', raw_of c]) cs, wt_total := wt_total st + rs_size (ti_extended ti)\<rparr>) \<and>
      chunks_of (ti_extended ti) cs \<and> wf_rs ef \<and> wf_rs el \<and>
      blocks ef = erased_first ti (blocks (wt_touched st)) \<and> blocks el = erased_last ti (blocks (wt_touched st))"
proof -
  let ?ext = "ti_extended ti"
  have wf: "wf_rs ?ext" "wf_rs (ti_care_map ti)" "0 \<le> ti_total_blocks ti" using ti by (auto simp: wf_target_def)
  define dc where "dc = rs_subtract (rs_subtract (rs_of_data [0, ti_total_blocks ti]) ?ext) (ti_care_map ti)"
  define ef where "ef = rs_subtract dc (wt_touched st)"
  define el where "el = rs_subtract dc ef"
  have dc: "wf_rs dc" "blocks dc = {0..<ti_total_blocks ti} - blocks ?ext - blocks (ti_care_map ti)"
    using wf blocks_interval[OF wf(3)] unfolding dc_def by (simp_all add: rs.inv_diff rs.abs_diff)
  have ef: "wf_rs ef" "blocks ef = erased_first ti (blocks (wt_touched st))"
    using dc w unfolding ef_def by (simp_all add: rs.inv_diff rs.abs_diff erased_first_def)
  have el: "wf_rs el" "blocks el = erased_last ti (blocks (wt_touched st))"
    using dc ef unfolding el_def by (auto simp: rs.inv_diff rs.abs_diff erased_first_def erased_last_def)
  obtain cs where cs: "WriteSplitTransfers (wt_out st) Zero ?ext = Inr (wt_out st @ map (\<lambda>c. line [''zero'', raw_of c]) cs, rs_size ?ext)" "chunks_of ?ext cs"
    using WriteSplitTransfers_ok[OF wf(1), of Zero "wt_out st"] by auto
  show ?thesis
  proof (cases "rs_bool ?ext")
    case True
    show ?thesis
      by (rule exI[of _ cs], rule exI[of _ ef], rule exI[of _ el], intro conjI ef el cs(2))
        (simp add: finish_list_def True cs(1) Let_def dc_def[symmetric] ef_def[symmetric] el_def[symmetric] raw_nonempty erase_lines_def)
  next
    case False
    then have "blocks ?ext = {}" using rs.nonempty_iff[OF wf(1)] by blast
    then have z: "chunks_of ?ext []" "rs_size ?ext = 0" using rs.size_zero_iff[OF wf(1)] by (simp_all add: chunks_of_def)
    show ?thesis
      by (rule exI[of _ "[]"], rule exI[of _ ef], rule exI[of _ el], intro conjI ef el z(1))
        (simp add: finish_list_def False z(2) Let_def dc_def[symmetric] ef_def[symmetric] el_def[symmetric] raw_nonempty erase_lines_def)
  qed
qed

text \<open>\<open>m\<close> blocks are within the limit the last assertion of the loop checks.\<close>

definition within_cache :: "cache_options \<Rightarrow> int \<Rightarrow> int \<Rightarrow> bool" where
  "within_cache opts blocksize m =
     (case opts of None \<Rightarrow> True | Some (cache_size, thr) \<Rightarrow> of_int (m * blocksize) \<le> (of_int cache_size * thr :: rat))"

lemma within_cache_check:
  assumes "within_cache opts blocksize m" "0 \<le> blocksize" "wt_max s \<le> m"
  shows "check_stash_limit opts blocksize s = Inr ()"
proof (cases opts)
  case (Some p)
  obtain c t where p: "p = (c, t)" by (cases p)
  have "wt_max s * blocksize \<le> m * blocksize" using assms(2,3) by (simp add: mult_right_mono)
  then have "(of_int (wt_max s * blocksize) :: rat) \<le> of_int (m * blocksize)" by (simp only: of_int_le_iff)
  then show ?thesis using assms(1) Some p by (simp add: within_cache_def check_stash_limit_def)
qed (simp add: check_stash_limit_def)

lemma WriteTransfers_ok:
  assumes plan: "stash_plan h0 fl ts" and wr: "writable h0 fl ts C h" and wf: "wf_ranges h0 fl ts"
    and sha: "sha = slot_of RangeSha1 h0 fl" and sz: "\<forall>i<length fl. sz (sha i) = rs_size (overlap_of h0 (fl ! i))"
    and peak: "\<forall>k<length ts. peak sha sz h0 fl ts C k \<le> m" "0 \<le> m"
    and limit: "within_cache opts (ti_blocksize ti) m" "0 \<le> ti_blocksize ti"
    and ti: "wf_target ti" and touched: "wf_rs touched0"
  shows "\<exists>lines mx touched. WriteTransfers RangeSha1 opts version ti ts h touched0 =
      Inr (lines, mx * ti_blocksize ti, touched, RangeSha1 touched) \<and> mx \<le> m \<and>
      lines ! 3 = line [str_int mx] \<and> 4 \<le> length lines"
proof -
  let ?st = "\<lparr>wt_out = [], wt_total = 0, wt_stashes = [], wt_stashed = 0, wt_max = 0, wt_touched = touched0\<rparr>"
  let ?f = "write_transfer RangeSha1 opts (ti_blocksize ti) h"
  have "\<exists>st. for_each ?f ?st ts = Inr st \<and> winv sha sz fl ts C m (length ts) st"
  proof (rule for_each_invariant[where P = "\<lambda>ys st. winv sha sz fl ts C m (length ys) st"])
    show "winv sha sz fl ts C m (length []) ?st"
      using peak(2) touched by (simp add: winv_def holds_def live_def st.inv_new st.bag_new)
    fix ys x zs st assume split: "ts = ys @ x # zs" and inv: "winv sha sz fl ts C m (length ys) st"
    have k: "length ys < length ts" "ts ! length ys = x" using split by auto
    have "wf_rs (src_ranges (h0 ! x))" using wf split by (auto simp: wf_ranges_def)
    then have "0 \<le> implicit_need h0 C x" using rs.size_card by (simp add: implicit_need_def)
    then show "\<exists>st'. ?f st x = Inr st' \<and> winv sha sz fl ts C m (length (ys @ [x])) st'"
      using write_transfer_ok[OF plan wr wf sha sz k(1) _ inv within_cache_check[OF limit]] peak(1) k by simp
  qed
  then obtain st where st: "for_each ?f ?st ts = Inr st" "wf_rs (wt_touched st)" "wt_max st \<le> m" by (auto simp: winv_def)
  show ?thesis
    using finish_list_ok[OF ti st(2), of version] st by (fastforce simp: WriteTransfers_def Let_def)
qed

end
