(* ===== verification/SplitApks.thy ===== *)
theory SplitApks
  imports AddTransfers WriteTransfers
begin

text \<open>
  The second half of \<open>FindTransfers\<close>: \<open>ParseAndValidateSplitInfo\<close> and the threads that run
  \<open>SplitLargeApks\<close>. The program \<open>imgdiff\<close> is a parameter; \<open>None\<close> stands for a non-zero exit code.
  The threads are a step relation, one step per atomic access to the shared lists.
\<close>

section \<open>The split information\<close>

text \<open>\<open>(patch_start, patch_length, split_tgt_ranges, split_src_ranges)\<close>.\<close>

type_synonym split_entry = "int \<times> int \<times> range_set \<times> range_set"

definition add_source :: "range_set \<Rightarrow> range_set \<Rightarrow> int \<times> int \<Rightarrow> range_set res" where
  "add_source sources split_src_ranges = (\<lambda>(a, b).
     let curr_range = rs_subtract (rs_first sources b) (rs_first sources a) in
     try_bind (py_assert (\<not> rs_overlaps split_src_ranges curr_range)) (\<lambda>_. Inr (rs_union split_src_ranges curr_range)))"

definition split_line ::
  "range_set \<Rightarrow> int \<times> range_set \<times> split_entry list \<Rightarrow> string \<Rightarrow> (int \<times> range_set \<times> split_entry list) res" where
  "split_line sources = (\<lambda>(patch_start, tgt_remain, split_info_list) ln.
     let info = split_ws ln in
     try_bind (py_assert (length info = 3)) (\<lambda>_.
     try_bind (py_int (info ! 0)) (\<lambda>patch_length.
     try_bind (py_int (info ! 1)) (\<lambda>split_tgt_size.
     try_bind (py_assert (split_tgt_size mod 4096 = 0)) (\<lambda>_.
     try_bind (py_assert (split_tgt_size div 4096 \<le> rs_size tgt_remain)) (\<lambda>_.
       let split_tgt_ranges = rs_first tgt_remain (split_tgt_size div 4096) in
       try_bind (rs_parse_raw (info ! 2)) (\<lambda>split_src_indices.
       try_bind (for_each (add_source sources) rs_empty (rs_iter split_src_indices)) (\<lambda>split_src_ranges.
         Inr (patch_start + patch_length, rs_subtract tgt_remain split_tgt_ranges,
              split_info_list @ [(patch_start, patch_length, split_tgt_ranges, split_src_ranges)])))))))))"

definition ParseAndValidateSplitInfo ::
  "int \<Rightarrow> range_set \<Rightarrow> range_set \<Rightarrow> string list \<Rightarrow> split_entry list res" where
  "ParseAndValidateSplitInfo patch_size targets sources split_info =
     try_bind (try_bind (py_get split_info 0) py_int) (\<lambda>version.
     try_bind (py_assert (version = 2)) (\<lambda>_.
     try_bind (try_bind (py_get split_info 1) py_int) (\<lambda>count.
     try_bind (py_assert (int (length split_info) - 2 = count)) (\<lambda>_.
     try_bind (for_each (split_line sources) (0, targets, []) (drop 2 split_info)) (\<lambda>(patch_start, tgt_remain, split_info_list).
     try_bind (py_assert (rs_size tgt_remain = 0)) (\<lambda>_.
     try_bind (py_assert (patch_start = patch_size)) (\<lambda>_. Inr split_info_list)))))))"

section \<open>One apk\<close>

text \<open>\<open>(split_tgt_name, split_src_name, split_tgt_ranges, split_src_ranges, patch_content)\<close>.\<close>

type_synonym apk_piece = "string \<times> string \<times> range_set \<times> range_set \<times> string"

text \<open>\<open>imgdiff -z --block-limit --split-info src tgt patch\<close>: the patch file and the lines of the split
  information.\<close>

type_synonym split_diff = "int \<Rightarrow> string \<Rightarrow> string \<Rightarrow> (string \<times> string list) option"

text \<open>\<open>f.seek(patch_start)\<close> and \<open>f.read(patch_length)\<close>.\<close>

definition read_patch :: "string \<Rightarrow> int \<Rightarrow> int \<Rightarrow> string res" where
  "read_patch content start len =
     (if start < 0 then Inl OSError
      else if len < -1 then Inl ValueError
      else if len = -1 then Inr (drop (nat start) content)
      else Inr (take (nat len) (drop (nat start) content)))"

text \<open>The loop that appends the pieces: what has been appended before an exception stays.\<close>

fun cut_pieces :: "string \<Rightarrow> string \<Rightarrow> string \<Rightarrow> nat \<Rightarrow> split_entry list \<Rightarrow> apk_piece list \<times> py_error option" where
  "cut_pieces patch tn sn index [] = ([], None)"
| "cut_pieces patch tn sn index ((start, len, tr, sr) # es) =
     (case read_patch patch start len of
        Inl e \<Rightarrow> ([], Some e)
      | Inr content \<Rightarrow>
          (let (ps, e) = cut_pieces patch tn sn (Suc index) es
           in ((numbered tn index, numbered sn index, tr, sr, content) # ps, e)))"

text \<open>One round of \<open>SplitLargeApks\<close> after the apk is taken: the pieces it appends, and the exception that
  ends the thread, if any.\<close>

definition split_apk :: "split_diff \<Rightarrow> find_env \<Rightarrow> large_apk \<Rightarrow> apk_piece list \<times> py_error option" where
  "split_apk imgdiff fe = (\<lambda>(tn, sn, tr, sr).
     case try_bind (dk_data (fe_src fe) sr) (\<lambda>src_data.
       try_bind (dk_data (fe_tgt fe) tr) (\<lambda>tgt_data.
         case imgdiff (fe_max_blocks fe) src_data tgt_data of
           None \<Rightarrow> Inl AssertionError
         | Some (patch, lns) \<Rightarrow>
             try_bind (ParseAndValidateSplitInfo (int (length patch)) tr sr lns) (\<lambda>infos. Inr (patch, infos)))) of
       Inl e \<Rightarrow> ([], Some e)
     | Inr (patch, infos) \<Rightarrow> cut_pieces patch tn sn 0 infos)"

section \<open>The threads\<close>

datatype splitter = Waiting | Emitting "apk_piece list" "py_error option" | Stopped

record split_pool =
  sp_apks :: "large_apk list"
  sp_threads :: "splitter list"
  sp_pieces :: "apk_piece list"

text \<open>\<open>large_apks.pop(0)\<close> under the lock, one \<open>split_large_apks.append\<close>, the end of a round, and the
  end of a thread.\<close>

inductive split_step :: "(large_apk \<Rightarrow> apk_piece list \<times> py_error option) \<Rightarrow> split_pool \<Rightarrow> split_pool \<Rightarrow> bool" for run where
  pop: "i < length (sp_threads p) \<Longrightarrow> sp_threads p ! i = Waiting \<Longrightarrow> sp_apks p = a # as \<Longrightarrow> run a = (ps, e) \<Longrightarrow>
     split_step run p (p\<lparr>sp_apks := as, sp_threads := (sp_threads p)[i := Emitting ps e]\<rparr>)"
| no_apk: "i < length (sp_threads p) \<Longrightarrow> sp_threads p ! i = Waiting \<Longrightarrow> sp_apks p = [] \<Longrightarrow>
     split_step run p (p\<lparr>sp_threads := (sp_threads p)[i := Stopped]\<rparr>)"
| emit: "i < length (sp_threads p) \<Longrightarrow> sp_threads p ! i = Emitting (q # ps) e \<Longrightarrow>
     split_step run p (p\<lparr>sp_threads := (sp_threads p)[i := Emitting ps e], sp_pieces := sp_pieces p @ [q]\<rparr>)"
| again: "i < length (sp_threads p) \<Longrightarrow> sp_threads p ! i = Emitting [] None \<Longrightarrow>
     split_step run p (p\<lparr>sp_threads := (sp_threads p)[i := Waiting]\<rparr>)"
| dies: "i < length (sp_threads p) \<Longrightarrow> sp_threads p ! i = Emitting [] (Some e) \<Longrightarrow>
     split_step run p (p\<lparr>sp_threads := (sp_threads p)[i := Stopped]\<rparr>)"

inductive_cases split_stepE: "split_step run p p'"

abbreviation split_steps :: "(large_apk \<Rightarrow> apk_piece list \<times> py_error option) \<Rightarrow> split_pool \<Rightarrow> split_pool \<Rightarrow> bool" where
  "split_steps run \<equiv> (split_step run)\<^sup>*\<^sup>*"

definition split_start :: "nat \<Rightarrow> large_apk list \<Rightarrow> split_pool" where
  "split_start n apks = \<lparr>sp_apks = apks, sp_threads = replicate n Waiting, sp_pieces = []\<rparr>"

definition all_stopped :: "split_pool \<Rightarrow> bool" where
  "all_stopped p = (\<forall>t\<in>set (sp_threads p). t = Stopped)"

text \<open>The same with one thread, as a function.\<close>

fun SplitLargeApks :: "(large_apk \<Rightarrow> apk_piece list \<times> py_error option) \<Rightarrow> large_apk list \<Rightarrow> apk_piece list" where
  "SplitLargeApks run [] = []"
| "SplitLargeApks run (a # as) =
     (case run a of (ps, None) \<Rightarrow> ps @ SplitLargeApks run as | (ps, Some e) \<Rightarrow> ps)"

text \<open>\<open>split_large_apks.sort()\<close>: tuples are compared component by component; two RangeSets that are not
  equal cannot be ordered.\<close>

definition same_names :: "apk_piece \<Rightarrow> apk_piece \<Rightarrow> bool" where
  "same_names = (\<lambda>(tn, sn, _) (tn', sn', _). tn = tn' \<and> sn = sn')"

definition same_ranges :: "apk_piece \<Rightarrow> apk_piece \<Rightarrow> bool" where
  "same_ranges = (\<lambda>(_, _, tr, sr, _) (_, _, tr', sr', _). rs_eq tr tr' \<and> rs_eq sr sr')"

definition sort_pieces :: "apk_piece list \<Rightarrow> apk_piece list res" where
  "sort_pieces ps =
     (if \<exists>p\<in>set ps. \<exists>q\<in>set ps. same_names p q \<and> \<not> same_ranges p q then Inl TypeError
      else Inr (sort_key (\<lambda>(tn, sn, _, _, content). (tn, sn, content)) ps))"

section \<open>Positions and prefixes\<close>

abbreviation rank :: "range_set \<Rightarrow> int \<Rightarrow> int" where
  "rank r x \<equiv> int (card {y \<in> blocks r. y < x})"

lemma blocks_first:
  assumes "wf_rs r" "0 \<le> n"
  shows "blocks (rs_first r n) = {x \<in> blocks r. rank r x < n}"
proof (intro set_eqI iffI)
  note f = rs_first_spec[OF assms]
  have fin: "finite (blocks r)" "finite (blocks (rs_first r n))" using finite_blocks assms(1) f(1) by auto
  have sz: "int (card (blocks (rs_first r n))) = min n (int (card (blocks r)))" using f(3) rs_size_card assms(1) f(1) by simp
  fix x
  show "x \<in> {x \<in> blocks r. rank r x < n}" if x: "x \<in> blocks (rs_first r n)"
  proof -
    have "{y \<in> blocks r. y < x} \<subset> blocks (rs_first r n)" using f(4)[OF x] x by force
    then have "card {y \<in> blocks r. y < x} < card (blocks (rs_first r n))" using fin(2) by (intro psubset_card_mono)
    then show ?thesis using sz x f(2) by auto
  qed
  show "x \<in> blocks (rs_first r n)" if x: "x \<in> {x \<in> blocks r. rank r x < n}"
  proof (rule ccontr)
    assume no: "x \<notin> blocks (rs_first r n)"
    then have "blocks (rs_first r n) \<subseteq> {y \<in> blocks r. y < x}" using x f(2) f(4)[of _ x] by auto
    then have "card (blocks (rs_first r n)) \<le> card {y \<in> blocks r. y < x}" using fin(1) by (intro card_mono) auto
    moreover have "card {y \<in> blocks r. y < x} < card (blocks r)" using x fin(1) by (intro psubset_card_mono) auto
    ultimately show False using sz x by auto
  qed
qed

text \<open>The source blocks at the positions \<open>r\<close>.\<close>

definition at_positions :: "range_set \<Rightarrow> int set \<Rightarrow> int set" where
  "at_positions sr P = {x \<in> blocks sr. rank sr x \<in> P}"

lemma at_positions_nonempty:
  assumes "wf_rs sr" "P \<subseteq> {0..<rs_size sr}" "P \<noteq> {}"
  shows "at_positions sr P \<noteq> {}"
proof -
  obtain p where p: "p \<in> P" "p \<in> {0..<int (card (blocks sr))}" using assms rs_size_card by fastforce
  then obtain x where "x \<in> blocks sr" "rank sr x = p"
    using rank_bij[OF finite_blocks[OF assms(1)]] by (metis (no_types, lifting) bij_betw_imp_surj_on imageE)
  then show ?thesis using p by (auto simp: at_positions_def)
qed

lemma add_source_ok:
  assumes "wf_rs sr" "wf_rs acc" "blocks acc = at_positions sr P" "0 \<le> a" "a \<le> b" "P \<inter> {a..<b} = {}"
  shows "\<exists>acc'. add_source sr acc (a, b) = Inr acc' \<and> wf_rs acc' \<and> blocks acc' = at_positions sr (P \<union> {a..<b})"
proof -
  let ?c = "rs_subtract (rs_first sr b) (rs_first sr a)"
  have b0: "0 \<le> b" using assms by simp
  note f = rs_first_spec(1)[OF assms(1) assms(4)] rs_first_spec(1)[OF assms(1) b0]
  have c: "wf_rs ?c" "blocks ?c = at_positions sr {a..<b}"
    using f blocks_first[OF assms(1) assms(4)] blocks_first[OF assms(1) b0] assms(4) by (auto simp: at_positions_def)
  have "\<not> rs_overlaps acc ?c" using rs_overlaps_iff[OF assms(2) c(1)] assms(3,6) c(2) by (auto simp: at_positions_def)
  then show ?thesis using assms(2,3) c by (auto simp: add_source_def at_positions_def)
qed

lemma add_sources_ok:
  assumes "wf_rs sr" "wf_data ds" "\<forall>p\<in>set ds. 0 \<le> p" "wf_rs acc" "blocks acc = at_positions sr P" "P \<inter> {x. par ds x} = {}"
  shows "\<exists>acc'. for_each (add_source sr) acc (pairs ds) = Inr acc' \<and> wf_rs acc' \<and> blocks acc' = at_positions sr (P \<union> {x. par ds x})"
  using assms(2-)
proof (induction ds arbitrary: acc P rule: pairs.induct)
  case (2 s e r)
  have w: "s < e" "wf_data r" "\<forall>p\<in>set r. 0 \<le> p" "0 \<le> s" using "2.prems"(1,2) by (auto simp: wf_data_Cons2)
  have m: "{x. par (s # e # r) x} = {s..<e} \<union> {x. par r x}" "{s..<e} \<inter> {x. par r x} = {}" using members_Cons2[OF "2.prems"(1)] .
  have "P \<inter> {s..<e} = {}" using "2.prems"(5) m(1) by blast
  then obtain acc1 where a: "add_source sr acc (s, e) = Inr acc1" "wf_rs acc1" "blocks acc1 = at_positions sr (P \<union> {s..<e})"
    using add_source_ok[OF assms(1) "2.prems"(3,4) w(4) less_imp_le[OF w(1)]] by blast
  have "(P \<union> {s..<e}) \<inter> {x. par r x} = {}" using "2.prems"(5) m by blast
  from "2.IH"[OF w(2,3) a(2,3) this] a(1) m(1) show ?case by (simp add: Un_assoc)
qed auto

section \<open>Reading what \<open>imgdiff\<close> prints\<close>

text \<open>A line \<open><patch_size> <tgt_size> <src_ranges>\<close> of the split information, for the patch size, the number
  of target blocks and the positions of the source blocks, and the whole file.\<close>

type_synonym split_spec = "int \<times> int \<times> range_set"

definition info_line :: "split_spec \<Rightarrow> string" where
  "info_line = (\<lambda>(p, t, r). line [str_int p, str_int (4096 * t), raw_of r])"

definition split_info_lines :: "split_spec list \<Rightarrow> string list" where
  "split_info_lines es = [line [''2''], line [str_int (int (length es))]] @ map info_line es"

definition spec_ok :: "range_set \<Rightarrow> split_spec \<Rightarrow> bool" where
  "spec_ok sr = (\<lambda>(p, t, r). 0 \<le> p \<and> 0 < t \<and> nonneg_rs r \<and> rs_bool r \<and> blocks r \<subseteq> {0..<rs_size sr})"

lemma split_ws_newline: "split_ws (s @ [CHR 0x0A]) = split_ws s"
proof -
  have "split_ws_from w (s @ [CHR 0x0A]) = split_ws_from w s" for w by (induction s arbitrary: w) (auto simp: is_space_def)
  then show ?thesis by (simp add: split_ws_def)
qed

lemma word_int: "str_int i \<noteq> [] \<and> (\<forall>c\<in>set (str_int i). \<not> is_space c)"
  using str_int_chars digit_not_special by (fastforce simp: is_space_def)

lemma word_raw: "raw_of r \<noteq> [] \<and> (\<forall>c\<in>set (raw_of r). \<not> is_space c)"
proof -
  have "\<not> is_space c" if "c \<in> set (join '','' (map str_int ds))" for c ds
    using that by (induction ds rule: induct_list012) (use word_int in \<open>auto simp: is_space_def\<close>)
  then show ?thesis using word_int by (auto simp: raw_of_def is_space_def)
qed

lemma info_words: "split_ws (info_line (p, t, r)) = [str_int p, str_int (4096 * t), raw_of r]"
proof -
  have "split_ws (join '' '' [str_int p, str_int (4096 * t), raw_of r]) = [str_int p, str_int (4096 * t), raw_of r]"
    by (rule split_ws_join) (use word_int word_raw in auto)
  then show ?thesis by (simp only: info_line_def prod.case line_def split_ws_newline)
qed

lemma int_line: "py_int (line [str_int i]) = Inr i"
proof -
  have s: "strip (str_int i @ [CHR 0x0A]) = str_int i"
  proof -
    have "lstrip (str_int i @ [CHR 0x0A]) = str_int i @ [CHR 0x0A]"
      using word_int[of i] by (cases "str_int i") (auto simp: lstrip_def)
    moreover have "rstrip (str_int i @ [CHR 0x0A]) = rstrip (str_int i)" by (simp add: rstrip_def is_space_def)
    moreover have "rstrip (str_int i) = str_int i"
      using word_int[of i] strip_no_space[of "str_int i"] by (cases "str_int i") (auto simp: strip_def lstrip_def)
    ultimately show ?thesis by (simp add: strip_def)
  qed
  have "strip (str_int i) = str_int i" using word_int[of i] by (intro strip_no_space) auto
  then show ?thesis using py_int_str_int[of i] s by (simp add: py_int_def line_def)
qed

lemma parse_raw_of: "wf_rs r \<Longrightarrow> rs_bool r \<Longrightarrow> rs_parse_raw (raw_of r) = Inr (RangeSet (rs_data r) True [])"
  using rs_parse_raw_to_string_raw[of r] raw_nonempty[of r] by (simp add: rs_bool_def)

text \<open>The entry of a line, when \<open>start\<close> bytes of the patch and the target blocks outside \<open>rest\<close> are used up.\<close>

definition entry_ok :: "range_set \<Rightarrow> split_spec \<Rightarrow> int \<Rightarrow> range_set \<Rightarrow> split_entry \<Rightarrow> bool" where
  "entry_ok sr = (\<lambda>(p, t, r) start rest (start', len, tr', sr'). start' = start \<and> len = p \<and> tr' = rs_first rest t \<and>
     wf_rs sr' \<and> blocks sr' = at_positions sr (blocks r))"

lemma split_line_ok:
  assumes sr: "wf_rs sr" and spec: "spec_ok sr (p, t, r)" and t: "t \<le> rs_size rest"
  shows "\<exists>e. split_line sr (start, rest, acc) (info_line (p, t, r)) = Inr (start + p, rs_subtract rest (rs_first rest t), acc @ [e]) \<and>
    entry_ok sr (p, t, r) start rest e"
proof -
  have r: "0 \<le> p" "0 < t" "wf_rs r" "rs_bool r" "\<forall>x\<in>set (rs_data r). 0 \<le> x" using spec by (auto simp: spec_ok_def nonneg_rs_def)
  have d: "wf_data (rs_data r)" "blocks r = {x. par (rs_data r) x}" using r(3) by (auto simp: wf_rs_def blocks_def)
  have "\<exists>s. for_each (add_source sr) rs_empty (pairs (rs_data r)) = Inr s \<and> wf_rs s \<and> blocks s = at_positions sr ({} \<union> {x. par (rs_data r) x})"
    by (rule add_sources_ok[OF sr d(1) r(5)]) (auto simp: at_positions_def)
  then obtain s where s: "for_each (add_source sr) rs_empty (pairs (rs_data r)) = Inr s" "wf_rs s" "blocks s = at_positions sr (blocks r)"
    unfolding d(2) by auto
  have "split_line sr (start, rest, acc) (info_line (p, t, r)) =
      Inr (start + p, rs_subtract rest (rs_first rest t), acc @ [(start, p, rs_first rest t, s)])"
    using s(1) t parse_raw_of[OF r(3,4)] by (simp add: split_line_def info_words rs_iter_def Let_def)
  then show ?thesis using s(2,3) by (auto simp: entry_ok_def)
qed

text \<open>The entries of all lines.\<close>

fun entries_ok :: "range_set \<Rightarrow> int \<Rightarrow> range_set \<Rightarrow> split_spec list \<Rightarrow> split_entry list \<Rightarrow> bool" where
  "entries_ok sr start rest [] es = (es = [])"
| "entries_ok sr start rest ((p, t, r) # ss) es =
     (\<exists>e es'. es = e # es' \<and> entry_ok sr (p, t, r) start rest e \<and> entries_ok sr (start + p) (rs_subtract rest (rs_first rest t)) ss es')"

lemma split_lines_ok:
  assumes sr: "wf_rs sr"
  shows "\<forall>s\<in>set ss. spec_ok sr s \<Longrightarrow> wf_rs rest \<Longrightarrow> sum_list (map (\<lambda>(p, t, r). t) ss) = rs_size rest \<Longrightarrow>
    \<exists>es rest'. for_each (split_line sr) (start, rest, acc) (map info_line ss) = Inr (start + sum_list (map fst ss), rest', acc @ es) \<and>
      wf_rs rest' \<and> rs_size rest' = 0 \<and> entries_ok sr start rest ss es"
proof (induction ss arbitrary: start rest acc)
  case Nil
  then show ?case by simp
next
  case (Cons s ss)
  obtain p t r where s: "s = (p, t, r)" by (cases s)
  have nn: "0 \<le> sum_list (map (\<lambda>(p, t, r). t) ss)" using Cons.prems(1) by (intro sum_list_nonneg) (auto simp: spec_ok_def)
  then have t: "0 < t" "t \<le> rs_size rest" using Cons.prems(1,3) s by (auto simp: spec_ok_def)
  note f = rs_first_spec[OF Cons.prems(2), of t]
  let ?rest = "rs_subtract rest (rs_first rest t)"
  obtain e where e: "split_line sr (start, rest, acc) (info_line (p, t, r)) = Inr (start + p, ?rest, acc @ [e])" "entry_ok sr (p, t, r) start rest e"
    using split_line_ok[OF sr _ t(2)] Cons.prems(1) s by (meson list.set_intros(1))
  have "rs_size ?rest = rs_size rest - t" using size_subtract[OF Cons.prems(2) f(1,2)] f(3) t by simp
  then have "sum_list (map (\<lambda>(p, t, r). t) ss) = rs_size ?rest" using Cons.prems(3) s by simp
  moreover have "wf_rs ?rest" using Cons.prems(2) f(1) t by simp
  ultimately obtain es rest' where "for_each (split_line sr) (start + p, ?rest, acc @ [e]) (map info_line ss) =
      Inr (start + p + sum_list (map fst ss), rest', (acc @ [e]) @ es)" "wf_rs rest'" "rs_size rest' = 0" "entries_ok sr (start + p) ?rest ss es"
    using Cons.IH[of ?rest "start + p" "acc @ [e]"] Cons.prems(1) by auto
  then show ?case using e s by (intro exI[of _ "e # es"] exI[of _ rest']) (auto simp: add.assoc)
qed

lemma ParseAndValidateSplitInfo_ok:
  assumes "wf_rs sr" "wf_rs tr" "\<forall>s\<in>set ss. spec_ok sr s" "sum_list (map (\<lambda>(p, t, r). t) ss) = rs_size tr"
  shows "\<exists>es. ParseAndValidateSplitInfo (sum_list (map fst ss)) tr sr (split_info_lines ss) = Inr es \<and> entries_ok sr 0 tr ss es"
proof -
  obtain es rest' where r: "for_each (split_line sr) (0, tr, []) (map info_line ss) = Inr (0 + sum_list (map fst ss), rest', [] @ es)"
    "rs_size rest' = 0" "entries_ok sr 0 tr ss es" using split_lines_ok[OF assms(1,3,2,4)] by blast
  have "str_int 2 = ''2''" by code_simp
  then have "py_int (line [''2'']) = Inr 2" using int_line[of 2] by simp
  moreover have "drop 2 (split_info_lines ss) = map info_line ss" by (simp add: split_info_lines_def)
  moreover have "py_get (split_info_lines ss) 0 = Inr (line [''2''])" "py_get (split_info_lines ss) 1 = Inr (line [str_int (int (length ss))])"
    "length (split_info_lines ss) = length ss + 2" by (simp_all add: split_info_lines_def)
  ultimately show ?thesis using r by (simp add: ParseAndValidateSplitInfo_def int_line)
qed

text \<open>What the entries say together: consecutive target pieces that tile the file, consecutive patch slices,
  and the source blocks at the given positions.\<close>

lemma entries_tile:
  assumes "\<forall>s\<in>set ss. spec_ok sr s" "wf_rs rest" "sum_list (map (\<lambda>(p, t, r). t) ss) = rs_size rest" "entries_ok sr start rest ss es"
  shows "tiles (blocks rest) (map (\<lambda>(_, _, tr, _). blocks tr) es) \<and> length es = length ss \<and>
    (\<forall>k<length ss. case ss ! k of (p, t, r) \<Rightarrow> case es ! k of (start', len, tr', sr') \<Rightarrow>
      start' = start + sum_list (map fst (take k ss)) \<and> len = p \<and> wf_rs tr' \<and> rs_size tr' = t \<and> wf_rs sr' \<and> blocks sr' = at_positions sr (blocks r))"
  using assms
proof (induction ss arbitrary: start rest es)
  case Nil
  then have "blocks rest = {}" using rs_size_card[of rest] by simp
  then show ?case using Nil by simp
next
  case (Cons s ss)
  obtain p t r where s: "s = (p, t, r)" by (cases s)
  have nn: "0 \<le> sum_list (map (\<lambda>(p, t, r). t) ss)" using Cons.prems(1) by (intro sum_list_nonneg) (auto simp: spec_ok_def)
  then have t: "0 < t" "t \<le> rs_size rest" using Cons.prems(1,3) s by (auto simp: spec_ok_def)
  note f = rs_first_spec[OF Cons.prems(2), of t]
  let ?rest = "rs_subtract rest (rs_first rest t)"
  obtain e es' where e: "es = e # es'" "entry_ok sr (p, t, r) start rest e" "entries_ok sr (start + p) ?rest ss es'"
    using Cons.prems(4) s by auto
  have "rs_size ?rest = rs_size rest - t" using size_subtract[OF Cons.prems(2) f(1,2)] f(3) t by simp
  then have sum: "sum_list (map (\<lambda>(p, t, r). t) ss) = rs_size ?rest" using Cons.prems(3) s by simp
  have wf: "wf_rs ?rest" using Cons.prems(2) f(1) t by simp
  note IH = Cons.IH[OF _ wf sum e(3)]
  obtain sr' where e': "e = (start, p, rs_first rest t, sr')" "wf_rs sr'" "blocks sr' = at_positions sr (blocks r)"
    using e(2) by (cases e) (auto simp: entry_ok_def)
  have "tiles (blocks (rs_first rest t) \<union> blocks ?rest) ([blocks (rs_first rest t)] @ map (\<lambda>(_, _, tr, _). blocks tr) es')"
    using IH Cons.prems(1,2) f(1) t by (intro tiles_append) auto
  moreover have "blocks (rs_first rest t) \<union> blocks ?rest = blocks rest" using Cons.prems(2) f(1,2) t by auto
  ultimately have "tiles (blocks rest) (map (\<lambda>(_, _, tr, _). blocks tr) es)" using e(1) e'(1) by simp
  moreover have "rs_size (rs_first rest t) = t" "wf_rs (rs_first rest t)" using f(1,3) t by auto
  ultimately show ?case using IH Cons.prems(1) e(1) e' s by (auto simp: nth_Cons split: nat.splits)
qed

section \<open>One apk is split completely\<close>

text \<open>Documented behaviour of \<open>imgdiff\<close> with \<open>--split-info\<close>: it succeeds, and prints the sizes of consecutive
  target pieces and patches and the positions of the source blocks.\<close>

definition imgdiff_ok :: "split_diff \<Rightarrow> find_env \<Rightarrow> large_apk \<Rightarrow> bool" where
  "imgdiff_ok imgdiff fe = (\<lambda>(tn, sn, tr, sr). \<exists>src_data tgt_data patch ss.
     dk_data (fe_src fe) sr = Inr src_data \<and> dk_data (fe_tgt fe) tr = Inr tgt_data \<and>
     imgdiff (fe_max_blocks fe) src_data tgt_data = Some (patch, split_info_lines ss) \<and>
     (\<forall>s\<in>set ss. spec_ok sr s) \<and> sum_list (map (\<lambda>(p, t, r). t) ss) = rs_size tr \<and> sum_list (map fst ss) = int (length patch))"

text \<open>A piece of an apk of the file \<open>tn\<close>.\<close>

definition piece_of :: "large_apk \<Rightarrow> nat \<Rightarrow> apk_piece \<Rightarrow> bool" where
  "piece_of = (\<lambda>(tn, sn, tr, sr) k (tn', sn', tr', sr', c). tn' = numbered tn k \<and> sn' = numbered sn k \<and>
     nonneg_rs tr' \<and> rs_bool tr' \<and> blocks tr' \<subseteq> blocks tr \<and> nonneg_rs sr' \<and> rs_bool sr' \<and> blocks sr' \<subseteq> blocks sr)"

definition piece_blocks :: "apk_piece \<Rightarrow> int set" where
  "piece_blocks = (\<lambda>(_, _, tr, _). blocks tr)"

definition usable :: "large_apk \<Rightarrow> split_entry \<Rightarrow> bool" where
  "usable = (\<lambda>(tn, sn, tr, sr) (start, len, tr', sr'). 0 \<le> start \<and> 0 \<le> len \<and> nonneg_rs tr' \<and> rs_bool tr' \<and>
     blocks tr' \<subseteq> blocks tr \<and> nonneg_rs sr' \<and> rs_bool sr' \<and> blocks sr' \<subseteq> blocks sr)"

lemma cut_pieces_ok:
  assumes "\<forall>e\<in>set es. usable (tn, sn, tr, sr) e"
  shows "\<exists>ps. cut_pieces patch tn sn index es = (ps, None) \<and> length ps = length es \<and>
    map piece_blocks ps = map (\<lambda>(_, _, tr, _). blocks tr) es \<and> (\<forall>k<length ps. piece_of (tn, sn, tr, sr) (index + k) (ps ! k))"
  using assms
proof (induction es arbitrary: index)
  case Nil
  then show ?case by simp
next
  case (Cons e es)
  obtain start len tr' sr' where e: "e = (start, len, tr', sr')" by (cases e)
  have u: "usable (tn, sn, tr, sr) (start, len, tr', sr')" using Cons.prems e by simp
  then obtain c where c: "read_patch patch start len = Inr c" by (auto simp: usable_def read_patch_def)
  obtain ps where ps: "cut_pieces patch tn sn (Suc index) es = (ps, None)" "length ps = length es"
    "map piece_blocks ps = map (\<lambda>(_, _, tr, _). blocks tr) es" "\<forall>k<length ps. piece_of (tn, sn, tr, sr) (Suc index + k) (ps ! k)"
    using Cons.IH[of "Suc index"] Cons.prems by auto
  let ?p = "(numbered tn index, numbered sn index, tr', sr', c)"
  have "piece_of (tn, sn, tr, sr) index ?p" using u by (simp add: usable_def piece_of_def)
  then have "\<forall>k<length (?p # ps). piece_of (tn, sn, tr, sr) (index + k) ((?p # ps) ! k)"
    using ps(4) by (auto simp: nth_Cons split: nat.splits)
  moreover have "cut_pieces patch tn sn index (e # es) = (?p # ps, None)" using e c ps(1) by simp
  ultimately show ?case using ps(2,3) e by (intro exI[of _ "?p # ps"]) (auto simp: piece_blocks_def)
qed

lemma tiles_member: "tiles A Bs \<Longrightarrow> B \<in> set Bs \<Longrightarrow> B \<subseteq> A"
  by (auto simp: tiles_def)

lemma split_apk_ok:
  assumes apk: "apk_ok SF a" and img: "imgdiff_ok imgdiff fe a"
  shows "\<exists>ps. split_apk imgdiff fe a = (ps, None) \<and> tiles (apk_blocks a) (map piece_blocks ps) \<and> (\<forall>k<length ps. piece_of a k (ps ! k))"
proof -
  obtain tn sn tr sr where a: "a = (tn, sn, tr, sr)" by (cases a)
  obtain src_data tgt_data patch ss where i: "dk_data (fe_src fe) sr = Inr src_data" "dk_data (fe_tgt fe) tr = Inr tgt_data"
    "imgdiff (fe_max_blocks fe) src_data tgt_data = Some (patch, split_info_lines ss)"
    "\<forall>s\<in>set ss. spec_ok sr s" "sum_list (map (\<lambda>(p, t, r). t) ss) = rs_size tr" "sum_list (map fst ss) = int (length patch)"
    using img a by (auto simp: imgdiff_ok_def)
  have nn: "nonneg_rs tr" "nonneg_rs sr" using apk a by auto
  note wf = nn[THEN nonneg_rsD]
  obtain es where es: "ParseAndValidateSplitInfo (int (length patch)) tr sr (split_info_lines ss) = Inr es" "entries_ok sr 0 tr ss es"
    using ParseAndValidateSplitInfo_ok[OF wf(2,1) i(4,5)] i(6) by auto
  note et = entries_tile[OF i(4) wf(1) i(5) es(2)]
  have "usable a e" if mem: "e \<in> set es" for e
  proof -
    have "length es = length ss" using et by blast
    then obtain k where k: "k < length ss" "es ! k = e" using mem by (metis in_set_conv_nth)
    obtain p t r where s: "ss ! k = (p, t, r)" by (cases "ss ! k")
    have spec: "spec_ok sr (p, t, r)" using i(4) k(1) s by (metis nth_mem)
    obtain start len tr' sr' where e: "e = (start, len, tr', sr')" by (cases e)
    have f: "start = sum_list (map fst (take k ss))" "len = p" "wf_rs tr'" "rs_size tr' = t" "wf_rs sr'" "blocks sr' = at_positions sr (blocks r)"
      using et k s e by fastforce+
    have "0 \<le> start" unfolding f(1) using i(4) by (intro sum_list_nonneg) (force simp: spec_ok_def dest: in_set_takeD)
    moreover have "blocks tr' \<subseteq> blocks tr" using et mem e by (intro tiles_member[of _ "map (\<lambda>(_, _, tr, _). blocks tr) es"]) force+
    moreover have "rs_bool tr'" using bool_size[OF f(3)] f(4) spec by (simp add: spec_ok_def)
    moreover have sub: "blocks sr' \<subseteq> blocks sr" using f(6) by (auto simp: at_positions_def)
    moreover have "blocks r \<noteq> {}" using spec rs_bool_blocks[of r] by (auto simp: spec_ok_def nonneg_rs_def)
    then have "rs_bool sr'" using f(5,6) spec at_positions_nonempty[OF wf(2)] rs_bool_blocks[OF f(5)] by (auto simp: spec_ok_def)
    ultimately show ?thesis using f(2,3,5) spec e a nonneg_sub[OF nn(1) f(3)] nonneg_sub[OF nn(2) f(5)]
      by (auto simp: usable_def spec_ok_def)
  qed
  then obtain ps where ps: "cut_pieces patch tn sn 0 es = (ps, None)" "map piece_blocks ps = map (\<lambda>(_, _, tr, _). blocks tr) es"
    "\<forall>k<length ps. piece_of a (0 + k) (ps ! k)" using cut_pieces_ok[of es tn sn tr sr patch 0] a by auto
  have "split_apk imgdiff fe a = (ps, None)" using a i(1-3) es(1) ps(1) by (simp add: split_apk_def)
  then show ?thesis using ps(2,3) et a by simp
qed

section \<open>Every interleaving gives the same pieces\<close>

fun pending :: "splitter \<Rightarrow> apk_piece list" where
  "pending Waiting = []"
| "pending (Emitting ps e) = ps"
| "pending Stopped = []"

text \<open>The pieces made so far, under way and still to come.\<close>

definition all_pieces :: "(large_apk \<Rightarrow> apk_piece list \<times> py_error option) \<Rightarrow> split_pool \<Rightarrow> apk_piece multiset" where
  "all_pieces run p = mset (sp_pieces p) + sum_list (map (mset \<circ> pending) (sp_threads p)) + mset (concat (map (fst \<circ> run) (sp_apks p)))"

fun thread_weight :: "splitter \<Rightarrow> nat" where
  "thread_weight Waiting = 1"
| "thread_weight (Emitting ps e) = length ps + 2"
| "thread_weight Stopped = 0"

definition split_weight :: "(large_apk \<Rightarrow> apk_piece list \<times> py_error option) \<Rightarrow> split_pool \<Rightarrow> nat" where
  "split_weight run p = sum_list (map (\<lambda>a. length (fst (run a)) + 2) (sp_apks p)) + sum_list (map thread_weight (sp_threads p))"

lemma sum_list_replace:
  fixes f :: "'a \<Rightarrow> 'b :: comm_monoid_add"
  shows "i < length xs \<Longrightarrow> sum_list (map f (xs[i := y])) + f (xs ! i) = sum_list (map f xs) + f y"
proof (induction xs arbitrary: i)
  case (Cons x xs)
  then show ?case
  proof (cases i)
    case 0
    then show ?thesis by (simp add: ac_simps)
  next
    case (Suc j)
    then have "sum_list (map f (xs[j := y])) + f (xs ! j) = sum_list (map f xs) + f y" using Cons by simp
    then show ?thesis using Suc by (simp add: add.assoc)
  qed
qed simp

text \<open>No thread has failed, and a thread stops only when there are no more apks.\<close>

definition no_failure :: "split_pool \<Rightarrow> bool" where
  "no_failure p = ((\<forall>t\<in>set (sp_threads p). (\<forall>ps e. t = Emitting ps e \<longrightarrow> e = None) \<and> (t = Stopped \<longrightarrow> sp_apks p = [])))"

lemma split_step_weight: "split_step run p p' \<Longrightarrow> split_weight run p' < split_weight run p"
proof (induction rule: split_step.induct)
  case (pop i p a as ps e)
  show ?case using sum_list_replace[OF pop(1), of thread_weight "Emitting ps e"] pop by (simp add: split_weight_def)
next
  case (no_apk i p)
  show ?case using sum_list_replace[OF no_apk(1), of thread_weight Stopped] no_apk by (simp add: split_weight_def)
next
  case (emit i p q ps e)
  show ?case using sum_list_replace[OF emit(1), of thread_weight "Emitting ps e"] emit by (simp add: split_weight_def)
next
  case (again i p)
  show ?case using sum_list_replace[OF again(1), of thread_weight Waiting] again by (simp add: split_weight_def)
next
  case (dies i p e)
  show ?case using sum_list_replace[OF dies(1), of thread_weight Stopped] dies by (simp add: split_weight_def)
qed

lemma split_progress:
  assumes "\<not> all_stopped p"
  shows "\<exists>p'. split_step run p p'"
proof -
  obtain i where i: "i < length (sp_threads p)" "sp_threads p ! i \<noteq> Stopped" using assms by (auto simp: all_stopped_def in_set_conv_nth)
  show ?thesis
  proof (cases "sp_threads p ! i")
    case Waiting
    then show ?thesis using i(1) split_step.pop[OF i(1)] split_step.no_apk[OF i(1)] by (cases "sp_apks p"; metis surj_pair)
  next
    case (Emitting ps e)
    then show ?thesis using split_step.emit[OF i(1)] split_step.again[OF i(1)] split_step.dies[OF i(1)] by (cases ps; cases e; metis)
  qed (use i in simp)
qed

lemma all_pieces_step: "split_step run p p' \<Longrightarrow> all_pieces run p' = all_pieces run p"
proof (induction rule: split_step.induct)
  case (pop i p a as ps e)
  show ?case using sum_list_replace[OF pop(1), of "mset \<circ> pending" "Emitting ps e"] pop by (simp add: all_pieces_def ac_simps)
next
  case (no_apk i p)
  show ?case using sum_list_replace[OF no_apk(1), of "mset \<circ> pending" Stopped] no_apk by (simp add: all_pieces_def)
next
  case (emit i p q ps e)
  show ?case using sum_list_replace[OF emit(1), of "mset \<circ> pending" "Emitting ps e"] emit by (simp add: all_pieces_def ac_simps)
next
  case (again i p)
  show ?case using sum_list_replace[OF again(1), of "mset \<circ> pending" Waiting] again by (simp add: all_pieces_def)
next
  case (dies i p e)
  show ?case using sum_list_replace[OF dies(1), of "mset \<circ> pending" Stopped] dies by (simp add: all_pieces_def)
qed

lemma no_failure_step:
  assumes "split_step run p p'" "no_failure p" "\<forall>a\<in>set (sp_apks p). snd (run a) = None"
  shows "no_failure p' \<and> set (sp_apks p') \<subseteq> set (sp_apks p) \<and> length (sp_threads p') = length (sp_threads p)"
  using assms
proof (cases rule: split_step.cases)
  case (dies i e)
  then have "Emitting [] (Some e) \<in> set (sp_threads p)" by (metis nth_mem)
  then show ?thesis using assms(2) by (auto simp: no_failure_def)
next
  case (emit i q ps e)
  then have "Emitting (q # ps) e \<in> set (sp_threads p)" by (metis nth_mem)
  then have "e = None" using assms(2) by (auto simp: no_failure_def)
  then show ?thesis using assms(2) emit by (auto simp: no_failure_def dest!: set_update_subset_insert[THEN subsetD])
qed (auto simp: no_failure_def dest!: set_update_subset_insert[THEN subsetD])

lemma split_reachable:
  assumes "split_steps run (split_start n apks) p" "\<forall>a\<in>set apks. snd (run a) = None"
  shows "all_pieces run p = mset (concat (map (fst \<circ> run) apks)) \<and> no_failure p \<and> set (sp_apks p) \<subseteq> set apks \<and> length (sp_threads p) = n"
  using assms(1)
proof (induction rule: rtranclp_induct)
  case base
  have "sum_list (map (mset \<circ> pending) (replicate n Waiting)) = {#}" by (induction n) auto
  then have "all_pieces run (split_start n apks) = mset (concat (map (fst \<circ> run) apks))" by (simp only: all_pieces_def split_start_def split_pool.simps mset.simps empty_neutral)
  then show ?case by (auto simp: split_start_def no_failure_def comp_def)
next
  case (step p p')
  then show ?case using all_pieces_step[OF step(2)] no_failure_step[OF step(2)] assms(2) by (metis subset_iff)
qed

lemma SplitLargeApks_concat: "\<forall>a\<in>set apks. snd (run a) = None \<Longrightarrow> SplitLargeApks run apks = concat (map (fst \<circ> run) apks)"
  by (induction apks) (auto simp: split: prod.splits option.splits)

lemma split_joined:
  assumes "split_steps run (split_start n apks) p" "all_stopped p" "\<forall>a\<in>set apks. snd (run a) = None" "0 < n"
  shows "mset (sp_pieces p) = mset (SplitLargeApks run apks)"
proof -
  note r = split_reachable[OF assms(1,3)]
  obtain t where "t \<in> set (sp_threads p)" using r assms(4) by (metis length_greater_0_conv list.set_intros(1) neq_Nil_conv)
  then have "sp_apks p = []" using r assms(2) by (auto simp: no_failure_def all_stopped_def)
  moreover have "sum_list (map (mset \<circ> pending) (sp_threads p)) = {#}"
  proof -
    have "sum_list (map (mset \<circ> pending) ts) = {#}" if "\<forall>t\<in>set ts. t = Stopped" for ts using that by (induction ts) auto
    then show ?thesis using assms(2) by (simp add: all_stopped_def)
  qed
  ultimately show ?thesis using r SplitLargeApks_concat[OF assms(3)] by (simp add: all_pieces_def)
qed

section \<open>The sorted pieces\<close>

lemma str_nat_inj: "str_nat m = str_nat n \<Longrightarrow> m = n"
  by (metis option.inject parse_nat_str_nat)

lemma numbered_inj:
  assumes "numbered a k = numbered b l"
  shows "a = b \<and> k = l"
proof -
  let ?d = "\<lambda>k. rev (str_nat k)"
  have d: "\<forall>c\<in>set (?d k). c \<noteq> CHR ''-''" for k using str_nat_digits digit_not_special by fastforce
  have eq: "?d k @ CHR ''-'' # rev a = ?d l @ CHR ''-'' # rev b" using arg_cong[OF assms, of rev] by (simp add: numbered_def)
  have take: "takeWhile (\<lambda>c. c \<noteq> CHR ''-'') (?d k @ CHR ''-'' # xs) = ?d k" for k xs
    using takeWhile_append2[of "?d k" "\<lambda>c. c \<noteq> CHR ''-''" "CHR ''-'' # xs"] d by simp
  have "?d k = ?d l" using arg_cong[OF eq, of "takeWhile (\<lambda>c. c \<noteq> CHR ''-'')"] unfolding take .
  then show ?thesis using eq str_nat_inj by auto
qed

lemma sort_key_same:
  assumes "mset xs = mset ys" "inj_on f (set xs)"
  shows "sort_key f xs = sort_key f ys"
proof -
  have "map f (sort_key f xs) = map f (sort_key f ys)"
    using properties_for_sort[of "map f (sort_key f xs)" "map f ys"] properties_for_sort[of "map f (sort_key f ys)" "map f ys"] assms(1)
    by simp
  moreover have "set (sort_key f xs) \<union> set (sort_key f ys) = set xs" using mset_eq_setD[OF assms(1)] by simp
  ultimately show ?thesis using assms(2) by (simp add: inj_on_map_eq_map)
qed

lemma sort_pieces_ok:
  assumes "distinct (map fst ps)"
  shows "\<exists>qs. sort_pieces ps = Inr qs \<and> mset qs = mset ps"
    "mset ps' = mset ps \<Longrightarrow> sort_pieces ps' = sort_pieces ps"
proof -
  have inj: "inj_on fst (set ps)" using assms by (simp add: distinct_map)
  have same: "p = q" if "p \<in> set ps" "q \<in> set ps" "same_names p q" for p q
    using inj_onD[OF inj _ that(1,2)] that(3) by (simp add: same_names_def split_beta)
  have refl: "same_ranges p p" for p by (auto simp: same_ranges_def rs_eq_def)
  then have ok: "\<not> (\<exists>p\<in>set ps. \<exists>q\<in>set ps. same_names p q \<and> \<not> same_ranges p q)" using same by blast
  then show "\<exists>qs. sort_pieces ps = Inr qs \<and> mset qs = mset ps" unfolding sort_pieces_def if_not_P[OF ok] by simp
  assume m: "mset ps' = mset ps"
  have "inj_on (\<lambda>(tn, sn, _, _, content). (tn, sn, content)) (set ps)" 
    by (rule inj_onI, rule inj_onD[OF inj]) (auto split: prod.splits)
  then have "sort_key (\<lambda>(tn, sn, _, _, content). (tn, sn, content)) ps' = sort_key (\<lambda>(tn, sn, _, _, content). (tn, sn, content)) ps"
    by (rule sort_key_same[OF m[symmetric], symmetric])
  then show "sort_pieces ps' = sort_pieces ps" using mset_eq_setD[OF m] by (simp only: sort_pieces_def)
qed

text \<open>The apks that \<open>FindTransfers\<close> collects, with an \<open>imgdiff\<close> that behaves as documented.\<close>

definition splittable :: "split_diff \<Rightarrow> find_env \<Rightarrow> int set set \<Rightarrow> large_apk list \<Rightarrow> bool" where
  "splittable imgdiff fe SF apks = (distinct (map fst apks) \<and> (\<forall>a\<in>set apks. apk_ok SF a \<and> imgdiff_ok imgdiff fe a))"

lemma split_all_ok:
  assumes "splittable imgdiff fe SF apks"
  shows "\<forall>a\<in>set apks. snd (split_apk imgdiff fe a) = None"
    and "SplitLargeApks (split_apk imgdiff fe) apks = concat (map (fst \<circ> split_apk imgdiff fe) apks)"
    and "distinct (map fst (SplitLargeApks (split_apk imgdiff fe) apks))"
    and "tiles A (map apk_blocks apks) \<Longrightarrow> tiles A (map piece_blocks (SplitLargeApks (split_apk imgdiff fe) apks))"
    and "q \<in> set (SplitLargeApks (split_apk imgdiff fe) apks) \<Longrightarrow> \<exists>a\<in>set apks. \<exists>k. piece_of a k q"
proof -
  let ?run = "split_apk imgdiff fe"
  have ok: "\<exists>ps. ?run a = (ps, None) \<and> tiles (apk_blocks a) (map piece_blocks ps) \<and> (\<forall>k<length ps. piece_of a k (ps ! k))" if "a \<in> set apks" for a
    using split_apk_ok assms that unfolding splittable_def by blast
  then show none: "\<forall>a\<in>set apks. snd (?run a) = None" by force
  then show eq: "SplitLargeApks ?run apks = concat (map (fst \<circ> ?run) apks)" by (rule SplitLargeApks_concat)
  have names: "map fst (fst (?run a)) = map (numbered (fst a)) [0..<length (fst (?run a))]" if "a \<in> set apks" for a
    using ok[OF that] by (intro nth_equalityI) (auto simp: piece_of_def split_beta)
  have one: "distinct (map fst (fst (?run a)))" if "a \<in> set apks" for a
    unfolding names[OF that] using numbered_inj by (auto simp: distinct_map inj_on_def)
  have "distinct (map fst (concat (map (fst \<circ> ?run) as)))" if "distinct (map fst as)" "set as \<subseteq> set apks" for as
    using that
  proof (induction as)
    case (Cons a as)
    have "fst p \<noteq> fst q" if pq: "p \<in> set (fst (?run a))" "b \<in> set as" "q \<in> set (fst (?run b))" for p b q
    proof -
      have ab: "a \<in> set apks" "b \<in> set apks" using Cons.prems(2) pq(2) by auto
      have "fst p \<in> set (map fst (fst (?run a)))" "fst q \<in> set (map fst (fst (?run b)))" using pq by auto
      then obtain k l where "fst p = numbered (fst a) k" "fst q = numbered (fst b) l"
        unfolding names[OF ab(1)] names[OF ab(2)] by auto
      moreover have "fst a \<noteq> fst b" using Cons.prems(1) pq(2) by auto
      ultimately show ?thesis using numbered_inj by metis
    qed
    then show ?case using Cons one[of a] by (auto simp: image_iff)
  qed simp
  then show "distinct (map fst (SplitLargeApks ?run apks))" using eq assms by (simp add: splittable_def)
  show "tiles A (map piece_blocks (SplitLargeApks ?run apks))" if "tiles A (map apk_blocks apks)"
  proof -
    have "tiles A (concat (map (\<lambda>a. map piece_blocks (fst (?run a))) apks))" by (rule tiles_concat[OF that]) (use ok in force)
    then show ?thesis by (simp add: eq map_concat comp_def)
  qed
  show "\<exists>a\<in>set apks. \<exists>k. piece_of a k q" if q: "q \<in> set (SplitLargeApks ?run apks)"
  proof -
    obtain a where a: "a \<in> set apks" "q \<in> set (fst (?run a))" using q eq by auto
    then show ?thesis using ok[OF a(1)] by (metis fst_conv in_set_conv_nth)
  qed
qed

section \<open>Properties\<close>




definition sample_disk :: disk where
  "sample_disk = \<lparr>dk_blocksize = 4096, dk_total_blocks = 30, dk_care_map = RangeSet [0, 30] True [], dk_extended = RangeSet [0, 30] True [],
     dk_file_map = [], dk_RangeSha1 = (\<lambda>r. []), dk_ReadRangeSet = (\<lambda>r. []), dk_data = (\<lambda>r. Inr [])\<rparr>"


end
