(* ===== verification/FindTransfers.thy ===== *)
theory FindTransfers
  imports SplitApks SequenceCheck
begin

text \<open>
  \<open>BlockImageDiff.FindTransfers\<close> and \<open>BlockImageDiff.AbbreviateSourceNames\<close>: which source file a target
  file is patched from, and the list of all transfers. \<open>cache_size * 0.125 / blocksize\<close> is computed with
  rationals; the float is exact below 2 to the 53.
\<close>

section \<open>Looking for a source file\<close>

text \<open>\<open>os.path.basename\<close> and \<open>re.sub("[0-9]+", "#", b)\<close>; the flag says that the last character was a digit.\<close>

definition basename :: "string \<Rightarrow> string" where
  "basename path = last (split_on CHR ''/'' path)"

fun sub_digits :: "bool \<Rightarrow> string \<Rightarrow> string" where
  "sub_digits in_run [] = []"
| "sub_digits in_run (c # cs) =
     (if is_digit c then (if in_run then sub_digits True cs else CHR ''#'' # sub_digits True cs)
      else c # sub_digits False cs)"

record name_tables =
  src_basenames :: "(string, string) odict"
  src_numpatterns :: "(string, string) odict"

definition AbbreviateSourceNames :: "disk \<Rightarrow> name_tables \<Rightarrow> name_tables" where
  "AbbreviateSourceNames src nt =
     foldl (\<lambda>nt k. let b = basename k in
       nt\<lparr>src_basenames := dict_set b k (src_basenames nt),
          src_numpatterns := dict_set (sub_digits False b) k (src_numpatterns nt)\<rparr>) nt (keys (dk_file_map src))"

section \<open>All transfers\<close>

text \<open>One round of the loop over the sorted target files.\<close>

definition find_for_file :: "find_env \<Rightarrow> name_tables \<Rightarrow> finder \<Rightarrow> string \<times> range_set \<Rightarrow> finder res" where
  "find_for_file fe nt st = (\<lambda>(tgt_fn, tr).
     let src_map = dk_file_map (fe_src fe);
         diff_from = (\<lambda>src_fn. try_bind (dict_get src_map src_fn) (\<lambda>sr. AddTransfer fe tgt_fn (Some src_fn) tr sr Diff True st));
         b = basename tgt_fn
     in if tgt_fn = ''__ZERO'' then
          AddTransfer fe tgt_fn (Some ''__ZERO'') tr (case map_of src_map ''__ZERO'' of None \<Rightarrow> rs_empty | Some r \<Rightarrow> r) Zero False st
        else if tgt_fn = ''__COPY'' then AddTransfer fe tgt_fn None tr rs_empty New False st
        else if tgt_fn = ''__HASHTREE'' then Inr st
        else if tgt_fn \<in> kset src_map then diff_from tgt_fn
        else (case map_of (src_basenames nt) b of
          Some src_fn \<Rightarrow> diff_from src_fn
        | None \<Rightarrow> (case map_of (src_numpatterns nt) (sub_digits False b) of
            Some src_fn \<Rightarrow> diff_from src_fn
          | None \<Rightarrow> AddTransfer fe tgt_fn None tr rs_empty New False st)))"

text \<open>\<open>int(cache_size * split_threshold / self.tgt.blocksize)\<close>.\<close>

definition max_blocks_per_transfer :: "int \<Rightarrow> int \<Rightarrow> int res" where
  "max_blocks_per_transfer cache_size blocksize =
     (if blocksize = 0 then Inl ZeroDivisionError
      else let q = (of_int cache_size / 8 / of_int blocksize :: rat) in Inr (if 0 \<le> q then \<lfloor>q\<rfloor> else \<lceil>q\<rceil>))"

definition add_piece :: "find_env \<Rightarrow> store \<Rightarrow> apk_piece \<Rightarrow> store res" where
  "add_piece fe by_id = (\<lambda>(tn, sn, tr, sr, patch).
     let h = new_transfer fe tn (Some sn) tr sr Diff by_id in
     try_bind (set_patch_info (Some \<lparr>pi_imgdiff = True, pi_content = patch\<rparr>) (last h)) (\<lambda>xf. Inr (butlast h @ [xf])))"

text \<open>The files in the order of their names; the threads of \<open>SplitLargeApks\<close> give the same sorted pieces as
  one thread.\<close>

definition FindTransfers ::
  "split_diff \<Rightarrow> disk \<Rightarrow> disk \<Rightarrow> bool \<Rightarrow> int option \<Rightarrow> name_tables \<Rightarrow> imgdiff_stats option \<Rightarrow> store \<Rightarrow>
   (store \<times> imgdiff_stats option) res" where
  "FindTransfers imgdiff src tgt disable_imgdiff cache_size nt stats by_id =
     (case cache_size of
        None \<Rightarrow> Inl AssertionError
      | Some cs \<Rightarrow>
          try_bind (max_blocks_per_transfer cs (dk_blocksize tgt)) (\<lambda>max_blocks.
            let fe = \<lparr>fe_src = src, fe_tgt = tgt, fe_disabled = disable_imgdiff, fe_max_blocks = max_blocks\<rparr> in
            try_bind (for_each (find_for_file fe nt) \<lparr>fd_by_id = by_id, fd_large = [], fd_stats = stats\<rparr> (sort_key fst (dk_file_map tgt))) (\<lambda>st.
              try_bind (sort_pieces (SplitLargeApks (split_apk imgdiff fe) (fd_large st))) (\<lambda>pieces.
                try_bind (for_each (add_piece fe) (fd_by_id st) pieces) (\<lambda>h. Inr (h, fd_stats st))))))"

section \<open>Correctness\<close>

text \<open>The contract of an image: file names are different, files are non-empty sets of blocks of the image, and
  they partition the care map.\<close>

definition good_disk :: "disk \<Rightarrow> bool" where
  "good_disk d = (distinct (keys (dk_file_map d)) \<and> (\<forall>r\<in>snd ` set (dk_file_map d). nonneg_rs r \<and> rs_bool r) \<and> nonneg_rs (dk_care_map d) \<and>
     AssertPartition (dk_care_map d) (map snd (dk_file_map d)) = Inr ())"

definition file_blocks :: "disk \<Rightarrow> int set set" where
  "file_blocks d = blocks ` snd ` set (dk_file_map d)"

definition tables_ok :: "disk \<Rightarrow> name_tables \<Rightarrow> bool" where
  "tables_ok src nt = (ran (map_of (src_basenames nt)) \<subseteq> kset (dk_file_map src) \<and> ran (map_of (src_numpatterns nt)) \<subseteq> kset (dk_file_map src))"

lemma ran_upd: "ran (m(k \<mapsto> v)) \<subseteq> insert v (ran m)"
  by (auto simp: ran_def split: if_splits)

lemma AbbreviateSourceNames_ok:
  assumes "tables_ok src nt"
  shows "tables_ok src (AbbreviateSourceNames src nt)"
proof -
  let ?f = "\<lambda>nt k. let b = basename k in
       nt\<lparr>src_basenames := dict_set b k (src_basenames nt), src_numpatterns := dict_set (sub_digits False b) k (src_numpatterns nt)\<rparr>"
  have "tables_ok src (foldl ?f nt ks)" if "set ks \<subseteq> kset (dk_file_map src)" for ks
    using that
  proof (induction ks rule: rev_induct)
    case (snoc k ks)
    then show ?case using ran_upd unfolding tables_ok_def foldl_append foldl.simps Let_def
      by (simp add: kset_def) (blast dest: ran_upd[THEN subsetD])
  qed (use assms in simp)
  then show ?thesis by (simp add: AbbreviateSourceNames_def kset_def)
qed

lemma file_of:
  assumes "good_disk src" "fn \<in> kset (dk_file_map src)"
  obtains sr where "dict_get (dk_file_map src) fn = Inr sr" "nonneg_rs sr" "rs_bool sr" "blocks sr \<in> file_blocks src"
proof -
  obtain sr where "map_of (dk_file_map src) fn = Some sr" using assms(2) by (auto simp: kset_dom)
  moreover from map_of_SomeD[OF this] have "sr \<in> snd ` set (dk_file_map src)" by force
  ultimately show thesis using assms(1) by (intro that) (auto simp: dict_get_def good_disk_def file_blocks_def)
qed

text \<open>What is written for a target file: everything but the hash tree.\<close>

definition to_cover :: "string \<times> range_set \<Rightarrow> int set" where
  "to_cover = (\<lambda>(fn, r). if fn = ''__HASHTREE'' then {} else blocks r)"

lemma AddTransfer_plain_ok:
  assumes "stats_present (fe_disabled fe) (fd_stats st)" "nonneg_rs tr" "rs_bool tr" "nonneg_rs sr"
    and "sty = New \<and> sr = rs_empty \<or> sty = Zero \<and> (sr = rs_empty \<or> blocks sr \<in> SF)"
  shows "\<exists>st'. AddTransfer fe tn sn tr sr sty False st = Inr st' \<and> adds fe SF ns (blocks tr) st st'"
proof -
  obtain x where x: "new_transfer fe tn sn tr sr sty (fd_by_id st) = fd_by_id st @ [x]" "piece fe SF x" "tgt_ranges x = tr"
    using assms(2-5) by (force simp: new_transfer_def Transfer_init_def piece_def)
  then have "AddTransfer fe tn sn tr sr sty False st = Inr (st\<lparr>fd_by_id := fd_by_id st @ [x]\<rparr>)" by (simp add: AddTransfer_def)
  then show ?thesis using x(2,3) assms(1) by (auto intro: adds_new[of "[x]"])
qed

lemma find_for_file_ok:
  assumes src: "good_disk (fe_src fe)" "tables_ok (fe_src fe) nt" and maxb: "1 \<le> fe_max_blocks fe"
    and stats: "stats_present (fe_disabled fe) (fd_stats st)" and tr: "nonneg_rs tr" "rs_bool tr"
  shows "\<exists>st'. find_for_file fe nt st (fn, tr) = Inr st' \<and> adds fe (file_blocks (fe_src fe)) [fn] (to_cover (fn, tr)) st st'"
proof -
  let ?m = "dk_file_map (fe_src fe)" and ?SF = "file_blocks (fe_src fe)"
  have diff: "\<exists>st'. try_bind (dict_get ?m sfn) (\<lambda>sr. AddTransfer fe fn (Some sfn) tr sr Diff True st) = Inr st' \<and> adds fe ?SF [fn] (blocks tr) st st'"
    if sfn: "sfn \<in> kset ?m" for sfn
  proof -
    obtain sr where sr: "dict_get ?m sfn = Inr sr" "nonneg_rs sr" "rs_bool sr" "blocks sr \<in> ?SF" using file_of[OF src(1) sfn] .
    show ?thesis using AddTransfer_diff_ok[OF maxb sr(4) stats tr(1) sr(2) tr(2) sr(3) order_refl] sr(1) by simp
  qed
  have new: "\<exists>st'. AddTransfer fe fn None tr rs_empty New False st = Inr st' \<and> adds fe ?SF [fn] (blocks tr) st st'"
    using AddTransfer_plain_ok[OF stats tr, of rs_empty New] by (simp add: nonneg_rs_def)
  consider (zero) "fn = ''__ZERO''" | (copy) "fn = ''__COPY''" | (tree) "fn = ''__HASHTREE''"
    | (path) "fn \<notin> {''__ZERO'', ''__COPY'', ''__HASHTREE''}" "fn \<in> kset ?m"
    | (other) "fn \<notin> {''__ZERO'', ''__COPY'', ''__HASHTREE''}" "fn \<notin> kset ?m" by blast
  then show ?thesis
  proof cases
    case zero
    define sr where "sr = (case map_of ?m ''__ZERO'' of None \<Rightarrow> rs_empty | Some r \<Rightarrow> r)"
    have "nonneg_rs sr \<and> (sr = rs_empty \<or> blocks sr \<in> ?SF)"
      using src(1) map_of_SomeD[of ?m "''__ZERO''"] unfolding sr_def good_disk_def file_blocks_def
      by (cases "map_of ?m ''__ZERO''") (force simp: nonneg_rs_def)+
    then show ?thesis using AddTransfer_plain_ok[OF stats tr, of sr Zero ?SF fn "Some ''__ZERO''" "[fn]"] zero
      by (simp add: find_for_file_def to_cover_def Let_def sr_def)
  next
    case copy
    then show ?thesis using new by (simp add: find_for_file_def to_cover_def Let_def)
  next
    case tree
    then show ?thesis using adds_mono[OF adds_refl[of fe st ?SF], of "[fn]"] stats by (simp add: find_for_file_def to_cover_def Let_def)
  next
    case path
    then show ?thesis using diff[OF path(2)] by (simp add: find_for_file_def to_cover_def Let_def)
  next
    case other
    have "sfn \<in> kset ?m" if "map_of (src_basenames nt) (basename fn) = Some sfn \<or> map_of (src_numpatterns nt) (sub_digits False (basename fn)) = Some sfn" for sfn
      using src(2) that by (auto simp: tables_ok_def ran_def)
    then show ?thesis using other new diff
      by (cases "map_of (src_basenames nt) (basename fn)"; cases "map_of (src_numpatterns nt) (sub_digits False (basename fn))")
        (simp_all add: find_for_file_def to_cover_def Let_def)
  qed
qed

lemma find_all_ok:
  assumes src: "good_disk (fe_src fe)" "tables_ok (fe_src fe) nt" and maxb: "1 \<le> fe_max_blocks fe"
    and stats: "stats_present (fe_disabled fe) (fd_stats st0)"
    and files: "\<forall>r\<in>snd ` set files. nonneg_rs r \<and> rs_bool r" "disjoint_seq {} (map to_cover files)"
  shows "\<exists>st. for_each (find_for_file fe nt) st0 files = Inr st \<and>
    adds fe (file_blocks (fe_src fe)) (map fst files) (\<Union> (set (map to_cover files))) st0 st"
proof (rule for_each_invariant[where P = "\<lambda>ys st. adds fe (file_blocks (fe_src fe)) (map fst ys) (\<Union> (set (map to_cover ys))) st0 st"])
  show "adds fe (file_blocks (fe_src fe)) (map fst []) (\<Union> (set (map to_cover []))) st0 st0" using adds_refl[OF stats] by simp
  fix ys f zs st
  assume split: "files = ys @ f # zs" and st: "adds fe (file_blocks (fe_src fe)) (map fst ys) (\<Union> (set (map to_cover ys))) st0 st"
  obtain fn tr where f: "f = (fn, tr)" by (cases f)
  have "stats_present (fe_disabled fe) (fd_stats st)" using st by (simp add: adds_def)
  moreover have "nonneg_rs tr" "rs_bool tr" using files(1) split f by auto
  ultimately obtain st' where st': "find_for_file fe nt st f = Inr st'" "adds fe (file_blocks (fe_src fe)) [fn] (to_cover f) st st'"
    using find_for_file_ok[OF src maxb] f by blast
  have "\<Union> (set (map to_cover ys)) \<inter> to_cover f = {}" using files(2) split by (auto simp: disjoint_seq_append)
  from adds_trans[OF st st'(2) this] st'(1) f
  show "\<exists>st'. find_for_file fe nt st f = Inr st' \<and>
      adds fe (file_blocks (fe_src fe)) (map fst (ys @ [f])) (\<Union> (set (map to_cover (ys @ [f])))) st0 st'" by (auto simp: Un_commute)
qed

lemma add_piece_ok:
  assumes "piece_of a k q" "apk_ok SF a"
  shows "\<exists>x. add_piece fe by_id q = Inr (by_id @ [x]) \<and> piece fe SF x \<and> tgt_blocks x = piece_blocks q"
proof -
  obtain tn sn tr sr where a: "a = (tn, sn, tr, sr)" by (cases a)
  obtain tn' sn' tr' sr' c where q: "q = (tn', sn', tr', sr', c)" by (cases q)
  obtain F where "F \<in> SF" "blocks sr' \<subseteq> F" using assms a q by (auto simp: piece_of_def)
  then show ?thesis using assms(1) a q
    by (auto simp: add_piece_def new_transfer_def Transfer_init_def set_patch_info_def piece_of_def piece_def piece_blocks_def)
qed

lemma add_pieces_ok:
  assumes "\<forall>q\<in>set qs. \<exists>a k. piece_of a k q \<and> apk_ok SF a"
  shows "\<exists>new. for_each (add_piece fe) by_id qs = Inr (by_id @ new) \<and> (\<forall>x\<in>set new. piece fe SF x) \<and> map tgt_blocks new = map piece_blocks qs"
  using assms
proof (induction qs arbitrary: by_id)
  case (Cons q qs)
  obtain x where x: "add_piece fe by_id q = Inr (by_id @ [x])" "piece fe SF x" "tgt_blocks x = piece_blocks q"
    using add_piece_ok Cons.prems by (meson list.set_intros(1))
  obtain new where "for_each (add_piece fe) (by_id @ [x]) qs = Inr ((by_id @ [x]) @ new)" "\<forall>x\<in>set new. piece fe SF x"
    "map tgt_blocks new = map piece_blocks qs" using Cons.IH[of "by_id @ [x]"] Cons.prems by auto
  then show ?case using x by (intro exI[of _ "x # new"]) auto
qed simp

lemma tiles_split: "tiles A (Bs @ Cs) \<Longrightarrow> tiles (\<Union> (set Bs)) Bs \<and> tiles (\<Union> (set Cs)) Cs \<and> \<Union> (set Bs) \<inter> \<Union> (set Cs) = {} \<and> \<Union> (set Bs) \<union> \<Union> (set Cs) = A"
  using disjoint_seq_Un[of "\<Union> (set Bs)" Cs] by (auto simp: tiles_def disjoint_seq_append)

lemma tiles_without:
  assumes "distinct (map fst m)" "tiles A (map (\<lambda>f. blocks (snd f)) m)"
  shows "tiles (A - (case map_of m k of None \<Rightarrow> {} | Some r \<Rightarrow> blocks r)) (map (\<lambda>(fn, r). if fn = k then {} else blocks r) m)"
  using assms
proof (induction m arbitrary: A)
  case (Cons f m)
  obtain fn r where f: "f = (fn, r)" by (cases f)
  let ?g = "\<lambda>(fn, r). if fn = k then {} else blocks r"
  have t: "tiles (\<Union> (set (map (\<lambda>f. blocks (snd f)) m))) (map (\<lambda>f. blocks (snd f)) m)" "blocks r \<inter> \<Union> (set (map (\<lambda>f. blocks (snd f)) m)) = {}"
    "A = blocks r \<union> \<Union> (set (map (\<lambda>f. blocks (snd f)) m))"
    using tiles_split[of A "[blocks r]" "map (\<lambda>f. blocks (snd f)) m"] Cons.prems(2) f by simp_all
  note IH = Cons.IH[OF _ t(1)]
  show ?case
  proof (cases "fn = k")
    case True
    then have "map_of m k = None" using Cons.prems(1) f by (auto simp: map_of_eq_None_iff)
    then show ?thesis using IH Cons.prems(1) f True t(2,3) tiles_append[of "{}" "[{}]"] by (simp add: Un_Diff Diff_triv Int_commute)
  next
    case False
    have sub: "(case map_of m k of None \<Rightarrow> {} | Some r \<Rightarrow> blocks r) \<subseteq> \<Union> (set (map (\<lambda>f. blocks (snd f)) m))"
      by (cases "map_of m k") (auto dest!: map_of_SomeD)
    let ?U = "\<Union> (set (map (\<lambda>f. blocks (snd f)) m)) - (case map_of m k of None \<Rightarrow> {} | Some r \<Rightarrow> blocks r)"
    have "tiles (blocks r \<union> ?U) ([blocks r] @ map ?g m)" using IH Cons.prems(1) f t(2) by (intro tiles_append) auto
    moreover have "blocks r \<union> ?U = A - (case map_of m k of None \<Rightarrow> {} | Some r \<Rightarrow> blocks r)" using sub t(2,3) by blast
    ultimately show ?thesis using f False by simp
  qed
qed simp

lemma tiles_covered:
  assumes "good_disk d"
  shows "tiles (blocks (dk_care_map d) - (case map_of (dk_file_map d) ''__HASHTREE'' of None \<Rightarrow> {} | Some r \<Rightarrow> blocks r))
    (map to_cover (sort_key fst (dk_file_map d)))"
proof -
  let ?m = "dk_file_map d"
  have wf: "wf_rs r" if "r \<in> snd ` set ?m" for r using assms(1) that by (auto simp: good_disk_def nonneg_rs_def)
  have "disjoint_seq {} (map blocks (map snd ?m))" "\<Union> (blocks ` set (map snd ?m)) = blocks (dk_care_map d)"
    using AssertPartition_iff[of "dk_care_map d" "map snd ?m"] assms(1) wf by (auto simp: good_disk_def nonneg_rs_def)
  then have "tiles (blocks (dk_care_map d)) (map (\<lambda>f. blocks (snd f)) ?m)" by (simp add: tiles_def image_image comp_def)
  from tiles_without[OF _ this, of "''__HASHTREE''"] assms(1)
  have "tiles (blocks (dk_care_map d) - (case map_of ?m ''__HASHTREE'' of None \<Rightarrow> {} | Some r \<Rightarrow> blocks r)) (map to_cover ?m)"
    by (simp add: good_disk_def to_cover_def)
  then show ?thesis by (subst tiles_mset[of _ "map to_cover ?m"]) simp_all
qed

lemma subseq_distinct: "subseq xs ys \<Longrightarrow> distinct ys \<Longrightarrow> distinct xs"
  by (induction rule: list_emb.induct) (auto dest: list_emb_set)

lemma max_blocks_ok:
  assumes "32768 \<le> cs"
  shows "\<exists>m. max_blocks_per_transfer cs 4096 = Inr m \<and> 1 \<le> m"
proof -
  have "(1 :: rat) \<le> of_int cs / 8 / of_int 4096" using assms by (simp add: field_simps)
  then show ?thesis by (auto simp: max_blocks_per_transfer_def le_floor_iff)
qed

lemma FindTransfers_ok:
  assumes src: "good_disk src" and tgt: "good_disk tgt" "dk_blocksize tgt = 4096" and nt: "tables_ok src nt" and cs: "32768 \<le> cs"
    and stats: "stats_present disabled stats"
    and img: "\<forall>a m. apk_ok (file_blocks src) a \<longrightarrow> imgdiff_ok imgdiff \<lparr>fe_src = src, fe_tgt = tgt, fe_disabled = disabled, fe_max_blocks = m\<rparr> a"
  shows "\<exists>fe h stats'. FindTransfers imgdiff src tgt disabled (Some cs) nt stats [] = Inr (h, stats') \<and>
    fe_src fe = src \<and> fe_tgt fe = tgt \<and> (\<forall>x\<in>set h. piece fe (file_blocks src) x) \<and> stats_present disabled stats' \<and>
    tiles (blocks (dk_care_map tgt) - (case map_of (dk_file_map tgt) ''__HASHTREE'' of None \<Rightarrow> {} | Some r \<Rightarrow> blocks r)) (map tgt_blocks h)"
proof -
  obtain m where m: "max_blocks_per_transfer cs 4096 = Inr m" "1 \<le> m" using max_blocks_ok[OF cs] by blast
  let ?fe = "\<lparr>fe_src = src, fe_tgt = tgt, fe_disabled = disabled, fe_max_blocks = m\<rparr>" and ?SF = "file_blocks src"
  let ?files = "sort_key fst (dk_file_map tgt)" and ?st = "\<lparr>fd_by_id = [], fd_large = [], fd_stats = stats\<rparr>"
  note cov = tiles_covered[OF tgt(1)]
  let ?A = "blocks (dk_care_map tgt) - (case map_of (dk_file_map tgt) ''__HASHTREE'' of None \<Rightarrow> {} | Some r \<Rightarrow> blocks r)"
  have cover: "\<Union> (set (map to_cover ?files)) = ?A" using cov by (simp only: tiles_def)
  have "\<forall>r\<in>snd ` set ?files. nonneg_rs r \<and> rs_bool r" using tgt(1) by (simp add: good_disk_def)
  then obtain st where st: "for_each (find_for_file ?fe nt) ?st ?files = Inr st"
    "adds ?fe ?SF (map fst ?files) (\<Union> (set (map to_cover ?files))) ?st st"
    using find_all_ok[of ?fe nt ?st ?files] src nt m(2) stats cov by (auto simp: tiles_def)
  obtain new apks where a: "fd_by_id st = new" "fd_large st = apks" "\<forall>x\<in>set new. piece ?fe ?SF x" "\<forall>a\<in>set apks. apk_ok ?SF a"
    "subseq (map fst apks) (map fst ?files)" "tiles (\<Union> (set (map to_cover ?files))) (map tgt_blocks new @ map apk_blocks apks)"
    "stats_present disabled (fd_stats st)" using st(2) by (auto simp: adds_def)
  have "distinct (map fst ?files)" 
    using tgt(1) mset_eq_imp_distinct_iff[of "map fst ?files" "keys (dk_file_map tgt)"] by (simp add: good_disk_def)
  then have "distinct (map fst apks)" using subseq_distinct[OF a(5)] by simp
  then have sp: "splittable imgdiff ?fe ?SF apks" using a(4) img unfolding splittable_def by blast
  note ps = split_all_ok[OF sp]
  let ?ps = "SplitLargeApks (split_apk imgdiff ?fe) apks"
  obtain qs where qs: "sort_pieces ?ps = Inr qs" "mset qs = mset ?ps" using sort_pieces_ok(1)[OF ps(3)] by blast
  have "\<forall>q\<in>set qs. \<exists>a k. piece_of a k q \<and> apk_ok ?SF a" using ps(5) a(4) mset_eq_setD[OF qs(2)] by blast
  then obtain new2 where n2: "for_each (add_piece ?fe) new qs = Inr (new @ new2)" "\<forall>x\<in>set new2. piece ?fe ?SF x"
    "map tgt_blocks new2 = map piece_blocks qs" using add_pieces_ok by blast
  have run: "FindTransfers imgdiff src tgt disabled (Some cs) nt stats [] = Inr (new @ new2, fd_stats st)"
    using m(1) tgt(2) st(1) a(1,2) qs(1) n2(1) by (simp add: FindTransfers_def Let_def)
  obtain U V where UV: "tiles U (map tgt_blocks new)" "tiles V (map apk_blocks apks)" "U \<inter> V = {}" "U \<union> V = \<Union> (set (map to_cover ?files))"
    using tiles_split[OF a(6)] by blast
  have "tiles V (map piece_blocks qs)" using ps(4)[OF UV(2)] tiles_mset[of "map piece_blocks qs" "map piece_blocks ?ps"] qs(2) by simp
  then have "tiles (U \<union> V) (map tgt_blocks new @ map piece_blocks qs)" using tiles_append[OF UV(1) _ UV(3)] by blast
  then have "tiles (\<Union> (set (map to_cover ?files))) (map tgt_blocks (new @ new2))" using UV(4) n2(3) by simp
  then show ?thesis using run a(3,7) n2(2) unfolding cover
    by (intro exI[of _ ?fe] exI[of _ "new @ new2"] exI[of _ "fd_stats st"]) auto
qed

section \<open>A concrete instance\<close>

text \<open>Images whose blocks are all equal, and an \<open>imgdiff\<close> that makes one piece.\<close>

definition plain_disk :: "range_set \<Rightarrow> (string, range_set) odict \<Rightarrow> disk" where
  "plain_disk care files = \<lparr>dk_blocksize = 4096, dk_total_blocks = 10, dk_care_map = care, dk_extended = rs_empty, dk_file_map = files,
     dk_RangeSha1 = (\<lambda>r. str_int (rs_size r)), dk_ReadRangeSet = (\<lambda>r. []), dk_data = (\<lambda>r. Inr (replicate (4096 * nat (rs_size r)) CHR ''x''))\<rparr>"

definition one_piece :: split_diff where
  "one_piece = (\<lambda>m s t. Some ([], split_info_lines [(0, int (length t div 4096), RangeSet [0, int (length s div 4096)] True [])]))"

lemma one_piece_ok:
  assumes "apk_ok SF a" "dk_data (fe_src fe) = dk_data (plain_disk care files)" "dk_data (fe_tgt fe) = dk_data (plain_disk care files)"
  shows "imgdiff_ok one_piece fe a"
proof -
  obtain tn sn tr sr where a: "a = (tn, sn, tr, sr)" by (cases a)
  have b: "0 < rs_size tr" "0 < rs_size sr" using assms(1) a bool_size by (auto simp: nonneg_rs_def)
  let ?x = "\<lambda>r. replicate (4096 * nat (rs_size r)) CHR ''x''"
  let ?spec = "(0, rs_size tr, RangeSet [0, rs_size sr] True []) :: split_spec"
  have "one_piece (fe_max_blocks fe) (?x sr) (?x tr) = Some ([], split_info_lines [?spec])" using b by (simp add: one_piece_def)
  moreover have "spec_ok sr ?spec" using b
    by (auto simp: spec_ok_def nonneg_rs_def wf_rs_def wf_data_def rs_bool_def blocks_def split: if_splits)
  moreover have "dk_data (plain_disk care files) r = Inr (?x r)" for r by (simp add: plain_disk_def)
  ultimately show ?thesis unfolding imgdiff_ok_def a prod.case assms(2,3)
    by (intro exI[of _ "?x sr"] exI[of _ "?x tr"] exI[of _ "[]"] exI[of _ "[?spec]"]) simp
qed

lemma plain_disk_good: "good_disk (plain_disk (RangeSet [0, 4] True []) [(''/a.apk'', RangeSet [0, 2] True []), (''/b.so'', RangeSet [2, 4] True [])])"
proof -
  have "AssertPartition (RangeSet [0, 4] True []) [RangeSet [0, 2] True [], RangeSet [2, 4] True []] = Inr ()" by code_simp
  then show ?thesis by (simp add: good_disk_def plain_disk_def nonneg_rs_def wf_rs_def wf_data_def rs_bool_def)
qed

section \<open>Properties\<close>



end
