(* ===== verification/PatchQueue.thy ===== *)
theory PatchQueue
  imports ImgdiffStats
begin

text \<open>
  \<open>BlockImageDiff.ComputePatchesForInputList\<close>: worker threads take jobs from the end of a shared queue
  and store each result at the index of the job. The threads are a step relation on the shared state, one
  step per lock region; the theorems hold for every interleaving. A worker that raises dies silently, as a
  Python thread does: its result stays \<open>None\<close>.

  Parameters: the data of the images, the external programs \<open>bsdiff\<close> and \<open>imgdiff\<close>
  (\<open>None\<close> for a non-zero exit code) and the size of the deflated data (\<open>None\<close> for \<open>zlib.error\<close>).
\<close>

section \<open>One job\<close>

text \<open>\<open>(xf_index, imgdiff, patch_index)\<close> and \<open>(xf_index, patch_info, compressed_size)\<close>.\<close>

type_synonym job = "nat \<times> bool \<times> nat"
type_synonym job_result = "nat \<times> patch_info \<times> int option"

record diff_env =
  de_src :: "range_set \<Rightarrow> string res"
  de_tgt :: "range_set \<Rightarrow> string res"
  de_diff :: "bool \<Rightarrow> string \<Rightarrow> string \<Rightarrow> string option"
  de_deflate :: "string \<Rightarrow> int option"

definition compute_patch :: "diff_env \<Rightarrow> string \<Rightarrow> string \<Rightarrow> bool \<Rightarrow> patch_info res" where
  "compute_patch env src_data tgt_data imgdiff =
     (case de_diff env imgdiff src_data tgt_data of
        None \<Rightarrow> Inl ValueError
      | Some content \<Rightarrow> Inr \<lparr>pi_imgdiff = imgdiff, pi_content = content\<rparr>)"

text \<open>The handlers of the two \<open>except\<close> clauses read \<open>e.message\<close>, which Python 3 exceptions do not have: a
  failed diff or compression ends the worker with \<open>AttributeError\<close>.\<close>

definition handled :: "py_error \<Rightarrow> 'a res \<Rightarrow> 'a res" where
  "handled exc r = (case r of Inl e \<Rightarrow> Inl (if e = exc then AttributeError else e) | Inr x \<Rightarrow> Inr x)"

definition job_patch :: "diff_env \<Rightarrow> transfer \<Rightarrow> bool \<Rightarrow> patch_info res" where
  "job_patch env xf imgdiff =
     (case xf_patch_info xf of
        Some pinfo \<Rightarrow> Inr pinfo
      | None \<Rightarrow>
          try_bind (de_src env (src_ranges xf)) (\<lambda>src_data.
            try_bind (de_tgt env (tgt_ranges xf)) (\<lambda>tgt_data.
              handled ValueError (compute_patch env src_data tgt_data imgdiff))))"

definition job_compress :: "diff_env \<Rightarrow> transfer \<Rightarrow> int option res" where
  "job_compress env xf =
     try_bind (de_tgt env (tgt_ranges xf)) (\<lambda>tgt_data.
       case de_deflate env tgt_data of None \<Rightarrow> Inl AttributeError | Some n \<Rightarrow> Inr (Some n))"

definition run_job :: "diff_env \<Rightarrow> bool \<Rightarrow> nat list \<Rightarrow> store \<Rightarrow> job \<Rightarrow> job_result res" where
  "run_job env compress_target ts h = (\<lambda>(xf_index, imgdiff, _).
     try_bind (py_get ts (int xf_index)) (\<lambda>x.
       let xf = h ! x in
       try_bind (job_patch env xf imgdiff) (\<lambda>patch_info.
         try_bind (if compress_target then job_compress env xf else Inr None) (\<lambda>compressed_size.
           Inr (xf_index, patch_info, compressed_size)))))"

section \<open>The workers\<close>

datatype worker = Idle | Working job | Finished

record pool =
  pl_queue :: "job list"
  pl_workers :: "worker list"
  pl_patches :: "job_result option list"

text \<open>The lock region at the head of the loop takes a job or ends the thread; the last lock region stores
  the result; an exception ends the thread.\<close>

inductive pool_step :: "(job \<Rightarrow> job_result res) \<Rightarrow> pool \<Rightarrow> pool \<Rightarrow> bool" for run where
  take_job: "i < length (pl_workers p) \<Longrightarrow> pl_workers p ! i = Idle \<Longrightarrow> pl_queue p \<noteq> [] \<Longrightarrow>
     pool_step run p (p\<lparr>pl_queue := butlast (pl_queue p), pl_workers := (pl_workers p)[i := Working (last (pl_queue p))]\<rparr>)"
| no_job: "i < length (pl_workers p) \<Longrightarrow> pl_workers p ! i = Idle \<Longrightarrow> pl_queue p = [] \<Longrightarrow>
     pool_step run p (p\<lparr>pl_workers := (pl_workers p)[i := Finished]\<rparr>)"
| store_result: "i < length (pl_workers p) \<Longrightarrow> pl_workers p ! i = Working (x, b, k) \<Longrightarrow> run (x, b, k) = Inr r \<Longrightarrow>
     k < length (pl_patches p) \<Longrightarrow>
     pool_step run p (p\<lparr>pl_workers := (pl_workers p)[i := Idle], pl_patches := (pl_patches p)[k := Some r]\<rparr>)"
| raises: "i < length (pl_workers p) \<Longrightarrow> pl_workers p ! i = Working (x, b, k) \<Longrightarrow>
     run (x, b, k) = Inl e \<or> length (pl_patches p) \<le> k \<Longrightarrow>
     pool_step run p (p\<lparr>pl_workers := (pl_workers p)[i := Finished]\<rparr>)"

inductive_cases pool_stepE: "pool_step run p p'"

abbreviation pool_steps :: "(job \<Rightarrow> job_result res) \<Rightarrow> pool \<Rightarrow> pool \<Rightarrow> bool" where
  "pool_steps run \<equiv> (pool_step run)\<^sup>*\<^sup>*"

definition pool_start :: "nat \<Rightarrow> job list \<Rightarrow> pool" where
  "pool_start threads diff_queue =
     \<lparr>pl_queue = diff_queue, pl_workers = replicate threads Idle, pl_patches = replicate (length diff_queue) None\<rparr>"

definition all_joined :: "pool \<Rightarrow> bool" where
  "all_joined p = (\<forall>w\<in>set (pl_workers p). w = Finished)"

text \<open>The same method with one thread, as a function: the loop of \<open>diff_worker\<close> on the queue.\<close>

fun diff_worker :: "(job \<Rightarrow> job_result res) \<Rightarrow> job list \<Rightarrow> job_result option list \<Rightarrow> job_result option list" where
  "diff_worker run [] patches = patches"
| "diff_worker run ((x, b, k) # rest) patches =
     (case run (x, b, k) of
        Inl e \<Rightarrow> patches
      | Inr r \<Rightarrow> if k < length patches then diff_worker run rest (patches[k := Some r]) else patches)"

definition ComputePatchesForInputList :: "(job \<Rightarrow> job_result res) \<Rightarrow> job list \<Rightarrow> job_result option list" where
  "ComputePatchesForInputList run diff_queue =
     diff_worker run (rev diff_queue) (replicate (length diff_queue) None)"

section \<open>Every interleaving ends\<close>

fun worker_weight :: "worker \<Rightarrow> nat" where
  "worker_weight Idle = 1"
| "worker_weight (Working j) = 3"
| "worker_weight Finished = 0"

definition pool_weight :: "pool \<Rightarrow> nat" where
  "pool_weight p = 3 * length (pl_queue p) + sum_list (map worker_weight (pl_workers p))"

lemma weight_update:
  "i < length ws \<Longrightarrow> sum_list (map worker_weight (ws[i := w])) + worker_weight (ws ! i) = sum_list (map worker_weight ws) + worker_weight w"
  by (induction ws arbitrary: i) (auto split: nat.splits)

lemma pool_step_weight: "pool_step run p p' \<Longrightarrow> pool_weight p' < pool_weight p"
proof (induction rule: pool_step.induct)
  case (take_job i p)
  then show ?case using weight_update[of i "pl_workers p" "Working (last (pl_queue p))"]
    by (cases "pl_queue p") (auto simp: pool_weight_def)
next
  case (no_job i p)
  then show ?case using weight_update[of i "pl_workers p" Finished] by (simp add: pool_weight_def)
next
  case (store_result i p x b k r)
  then show ?case using weight_update[of i "pl_workers p" Idle] by (simp add: pool_weight_def)
next
  case (raises i p x b k e)
  then show ?case using weight_update[of i "pl_workers p" Finished] by (simp add: pool_weight_def)
qed

lemma pool_progress:
  assumes "\<not> all_joined p"
  shows "\<exists>p'. pool_step run p p'"
proof -
  obtain i where i: "i < length (pl_workers p)" "pl_workers p ! i \<noteq> Finished"
    using assms by (auto simp: all_joined_def in_set_conv_nth)
  show ?thesis
  proof (cases "pl_workers p ! i")
    case Idle
    then show ?thesis using i pool_step.take_job[of i p run] pool_step.no_job[of i p run] by blast
  next
    case (Working j)
    obtain x b k where j: "j = (x, b, k)" by (cases j)
    show ?thesis
    proof (cases "run (x, b, k)")
      case (Inl e)
      then show ?thesis using pool_step.raises[OF i(1)] Working j by blast
    next
      case (Inr r)
      then show ?thesis using pool_step.raises[OF i(1)] pool_step.store_result[OF i(1)] Working j by (metis not_less)
    qed
  qed (use i in simp)
qed

section \<open>Every interleaving computes the same patches\<close>

text \<open>The patch indices are the positions in the queue.\<close>

definition indexed :: "job list \<Rightarrow> bool" where
  "indexed q = (map (\<lambda>(x, b, k). k) q = [0..<length q])"

text \<open>The jobs are waiting, running, or done and stored.\<close>

definition pool_inv :: "(job \<Rightarrow> job_result res) \<Rightarrow> job list \<Rightarrow> pool \<Rightarrow> bool" where
  "pool_inv run q p = (length (pl_patches p) = length q \<and> set (pl_queue p) \<subseteq> set q \<and>
     (\<forall>j. Working j \<in> set (pl_workers p) \<longrightarrow> j \<in> set q) \<and>
     (\<forall>i<length q. q ! i \<in> set (pl_queue p) \<or> Working (q ! i) \<in> set (pl_workers p) \<or> pl_patches p ! i = Some (projr (run (q ! i)))
        \<or> isl (run (q ! i))) \<and>
     (\<forall>i<length q. pl_patches p ! i = None \<or> (\<not> isl (run (q ! i)) \<and> pl_patches p ! i = Some (projr (run (q ! i))))) \<and>
     ((\<forall>j\<in>set q. \<not> isl (run j)) \<longrightarrow> Finished \<in> set (pl_workers p) \<longrightarrow> pl_queue p = []))"

lemma indexed_nth: "indexed q \<Longrightarrow> (x, b, k) \<in> set q \<Longrightarrow> k < length q \<and> q ! k = (x, b, k)"
proof -
  assume a: "indexed q" "(x, b, k) \<in> set q"
  then obtain i where i: "i < length q" "q ! i = (x, b, k)" by (auto simp: in_set_conv_nth)
  then have "k = map (\<lambda>(x, b, k). k) q ! i" by simp
  then have "k = [0..<length q] ! i" using a(1) unfolding indexed_def by (rule trans[OF _ arg_cong[where f = "\<lambda>l. l ! i"]])
  then have "k = i" using i(1) by simp
  then show "k < length q \<and> q ! k = (x, b, k)" using i by simp
qed

lemma set_update_other: "x \<in> set xs \<Longrightarrow> x \<noteq> xs ! i \<Longrightarrow> x \<in> set (xs[i := y])"
  by (metis in_set_conv_nth length_list_update nth_list_update_neq)

lemma pool_inv_start: "indexed q \<Longrightarrow> pool_inv run q (pool_start n q)"
  by (auto simp: pool_inv_def pool_start_def set_replicate_conv_if split: if_splits)

lemma butlast_last: "x \<in> set xs \<Longrightarrow> x \<noteq> last xs \<Longrightarrow> x \<in> set (butlast xs)"
  by (metis append_butlast_last_id empty_iff list.set(1) set_ConsD Un_iff set_append)

lemma pool_inv_step:
  assumes "pool_step run p p'" "indexed q" "pool_inv run q p"
  shows "pool_inv run q p'"
  using assms(1)
proof cases
  case (take_job i)
  let ?ws = "pl_workers p" and ?j = "last (pl_queue p)"
  have q: "?j \<in> set q" "set (butlast (pl_queue p)) \<subseteq> set q"
    using assms(3) last_in_set[OF take_job(4)] in_set_butlastD[of _ "pl_queue p"] unfolding pool_inv_def by blast+
  have w: "Working j \<in> set (?ws[i := Working ?j]) \<longleftrightarrow> Working j \<in> set ?ws \<or> j = ?j" for j
    using take_job(2,3) set_update_memI[of i ?ws "Working ?j"] set_update_other[of "Working j" ?ws i "Working ?j"]
      set_update_subset_insert[of ?ws i "Working ?j"] by auto
  have f: "Finished \<in> set (?ws[i := Working ?j]) \<Longrightarrow> Finished \<in> set ?ws"
    using set_update_subset_insert[of ?ws i "Working ?j"] by auto
  show ?thesis unfolding pool_inv_def
  proof (intro conjI allI impI)
    fix l assume l: "l < length q"
    show "q ! l \<in> set (pl_queue p') \<or> Working (q ! l) \<in> set (pl_workers p') \<or> pl_patches p' ! l = Some (projr (run (q ! l))) \<or> isl (run (q ! l))"
      using assms(3) l take_job(1) w[of "q ! l"] butlast_last[of "q ! l" "pl_queue p"] by (auto simp: pool_inv_def)
  qed (use assms(3) take_job(1,4) q w f in \<open>auto simp: pool_inv_def\<close>)
next
  case (no_job i)
  have w: "Working j \<in> set ((pl_workers p)[i := Finished]) \<longleftrightarrow> Working j \<in> set (pl_workers p)" for j
    using no_job(2,3) set_update_other[of "Working j" "pl_workers p" i Finished] set_update_subset_insert[of "pl_workers p" i Finished] by auto
  show ?thesis using assms(3) no_job(1,4) w unfolding pool_inv_def by simp
next
  case (store_result i x b k r)
  let ?ws = "pl_workers p"
  have "Working (x, b, k) \<in> set ?ws" using store_result(2,3) nth_mem by metis
  then have j: "(x, b, k) \<in> set q" using assms(3) by (auto simp: pool_inv_def)
  note k = indexed_nth[OF assms(2) this]
  have w: "Working j \<in> set (?ws[i := Idle]) \<Longrightarrow> Working j \<in> set ?ws" for j using set_update_subset_insert[of ?ws i Idle] by auto
  have w': "Working j \<in> set ?ws \<Longrightarrow> j \<noteq> (x, b, k) \<Longrightarrow> Working j \<in> set (?ws[i := Idle])" for j
    using set_update_other[of "Working j" ?ws i Idle] store_result(3) by simp
  have f: "Finished \<in> set (?ws[i := Idle]) \<Longrightarrow> Finished \<in> set ?ws" using set_update_subset_insert[of ?ws i Idle] by auto
  have ne: "q ! l \<noteq> (x, b, k)" if "l < length q" "l \<noteq> k" for l
  proof
    assume eq: "q ! l = (x, b, k)"
    have "map (\<lambda>(x, b, k). k) q ! l = [0..<length q] ! l" using assms(2) unfolding indexed_def by simp
    then show False using that eq by simp
  qed
  show ?thesis unfolding pool_inv_def
  proof (intro conjI allI impI)
    fix l assume l: "l < length q"
    show "q ! l \<in> set (pl_queue p') \<or> Working (q ! l) \<in> set (pl_workers p') \<or> pl_patches p' ! l = Some (projr (run (q ! l))) \<or> isl (run (q ! l))"
      using assms(3) l store_result(1,4,5) k ne[OF l] w'[of "q ! l"] by (cases "l = k") (auto simp: pool_inv_def)
    show "pl_patches p' ! l = None \<or> \<not> isl (run (q ! l)) \<and> pl_patches p' ! l = Some (projr (run (q ! l)))"
      using assms(3) l store_result(1,4,5) k by (cases "l = k") (auto simp: pool_inv_def)
  qed (use assms(3) store_result(1) w f in \<open>auto simp: pool_inv_def\<close>)
next
  case (raises i x b k e)
  let ?ws = "pl_workers p"
  have "Working (x, b, k) \<in> set ?ws" using raises(2,3) nth_mem by metis
  then have j: "(x, b, k) \<in> set q" using assms(3) by (auto simp: pool_inv_def)
  note k = indexed_nth[OF assms(2) this]
  have l: "isl (run (x, b, k))" using raises(4) k assms(3) by (auto simp: pool_inv_def)
  have w: "Working j \<in> set (?ws[i := Finished]) \<Longrightarrow> Working j \<in> set ?ws" for j using set_update_subset_insert[of ?ws i Finished] by auto
  have w': "Working j \<in> set ?ws \<Longrightarrow> j \<noteq> (x, b, k) \<Longrightarrow> Working j \<in> set (?ws[i := Finished])" for j
    using set_update_other[of "Working j" ?ws i Finished] raises(3) by simp
  show ?thesis unfolding pool_inv_def
  proof (intro conjI allI impI)
    fix i' assume i': "i' < length q"
    show "q ! i' \<in> set (pl_queue p') \<or> Working (q ! i') \<in> set (pl_workers p') \<or> pl_patches p' ! i' = Some (projr (run (q ! i'))) \<or> isl (run (q ! i'))"
      using assms(3) i' raises(1) l w'[of "q ! i'"] by (cases "q ! i' = (x, b, k)") (auto simp: pool_inv_def)
  qed (use assms(3) raises(1) w l j in \<open>auto simp: pool_inv_def\<close>)
qed

lemma pool_inv_reachable:
  assumes "pool_steps run (pool_start n q) p" "indexed q"
  shows "pool_inv run q p"
  using assms by (induction rule: rtranclp_induct) (auto intro: pool_inv_start pool_inv_step)

lemma workers_reachable: "pool_steps run p p' \<Longrightarrow> length (pl_workers p') = length (pl_workers p)"
  by (induction rule: rtranclp_induct) (auto elim: pool_stepE)

text \<open>When no job raises, a joined pool has every patch.\<close>

lemma joined_pool:
  assumes "pool_steps run (pool_start n q) p" "all_joined p" "indexed q" "0 < n" "\<forall>j\<in>set q. \<not> isl (run j)"
  shows "pl_patches p = map (\<lambda>j. Some (projr (run j))) q"
proof -
  have inv: "pool_inv run q p" using pool_inv_reachable[OF assms(1,3)] .
  have "length (pl_workers p) = n" using workers_reachable[OF assms(1)] by (simp add: pool_start_def)
  then have "pl_workers p \<noteq> []" using assms(4) by auto
  then have fin: "Finished \<in> set (pl_workers p)" using assms(2) by (cases "pl_workers p") (auto simp: all_joined_def)
  then have "pl_queue p = []" using inv assms(5) by (auto simp: pool_inv_def)
  moreover have "Working j \<notin> set (pl_workers p)" for j using assms(2) by (auto simp: all_joined_def)
  ultimately show ?thesis using inv assms(5) by (intro nth_equalityI) (auto simp: pool_inv_def)
qed

text \<open>A job that raises leaves \<open>None\<close> in the result.\<close>

lemma failed_job_none:
  assumes "pool_steps run (pool_start n q) p" "indexed q" "i < length q" "isl (run (q ! i))"
  shows "pl_patches p ! i = None"
  using pool_inv_reachable[OF assms(1,2)] assms(3,4) by (auto simp: pool_inv_def)

section \<open>The single worker\<close>

lemma one_worker_steps:
  assumes "pl_workers p = [Idle]" "pl_queue p = rev js"
  shows "\<exists>p'. pool_steps run p p' \<and> all_joined p' \<and> pl_patches p' = diff_worker run js (pl_patches p)"
  using assms
proof (induction run js "pl_patches p" arbitrary: p rule: diff_worker.induct)
  case (1 run)
  have "pool_step run p (p\<lparr>pl_workers := [Finished]\<rparr>)" using pool_step.no_job[of 0 p run] 1 by simp
  then show ?case by (intro exI[of _ "p\<lparr>pl_workers := [Finished]\<rparr>"]) (auto simp: all_joined_def)
next
  case (2 run x b k rest)
  let ?p1 = "p\<lparr>pl_queue := rev rest, pl_workers := [Working (x, b, k)]\<rparr>"
  have s1: "pool_step run p ?p1" using pool_step.take_job[of 0 p run] "2.prems" by simp
  show ?case
  proof (cases "\<exists>r. run (x, b, k) = Inr r \<and> k < length (pl_patches p)")
    case True
    then obtain r where r: "run (x, b, k) = Inr r" "k < length (pl_patches p)" by blast
    let ?p2 = "?p1\<lparr>pl_workers := [Idle], pl_patches := (pl_patches p)[k := Some r]\<rparr>"
    have s2: "pool_step run ?p1 ?p2" using pool_step.store_result[of 0 ?p1 x b k run r] r by simp
    have "(pl_patches p)[k := Some r] = pl_patches ?p2" by simp
    from 2(1)[OF r this] obtain p' where "pool_steps run ?p2 p'" "all_joined p'" "pl_patches p' = diff_worker run rest (pl_patches ?p2)" by auto
    then show ?thesis using s1 s2 r by (intro exI[of _ p']) (auto intro: converse_rtranclp_into_rtranclp)
  next
    case False
    let ?p2 = "?p1\<lparr>pl_workers := [Finished]\<rparr>"
    obtain e where e: "run (x, b, k) = Inl e \<or> length (pl_patches ?p1) \<le> k" using False by (cases "run (x, b, k)") auto
    have s2: "pool_step run ?p1 ?p2" using pool_step.raises[of 0 ?p1 x b k run e] e by simp
    have "diff_worker run ((x, b, k) # rest) (pl_patches p) = pl_patches p" using False by (auto split: sum.splits)
    then show ?thesis using s1 s2 by (intro exI[of _ ?p2]) (auto simp: all_joined_def intro: converse_rtranclp_into_rtranclp)
  qed
qed

lemma single_thread_run:
  "\<exists>p. pool_steps run (pool_start 1 q) p \<and> all_joined p \<and> pl_patches p = ComputePatchesForInputList run q"
  using one_worker_steps[of "pool_start 1 q" "rev q" run] by (simp add: pool_start_def ComputePatchesForInputList_def)

lemma ComputePatchesForInputList_ok:
  assumes "indexed q" "\<forall>j\<in>set q. \<not> isl (run j)"
  shows "ComputePatchesForInputList run q = map (\<lambda>j. Some (projr (run j))) q"
  using single_thread_run[of run q] joined_pool[of run 1 q] assms by auto

lemma ComputePatchesForInputList_failed:
  assumes "indexed q" "i < length q" "isl (run (q ! i))"
  shows "ComputePatchesForInputList run q ! i = None"
  using single_thread_run[of run q] failed_job_none[of run 1 q _ i] assms by metis

section \<open>Properties\<close>



end
