(* ===== verification/ComputePatches.thy ===== *)
theory ComputePatches
  imports PatchQueue WriteTransfers
begin

text \<open>
  \<open>BlockImageDiff.ComputePatches\<close> (the final styles, \<open>new.dat\<close> and \<open>patch.dat\<close>), \<open>AssertSha1Good\<close> and
  \<open>SelectAndConvertDiffTransfersToNew\<close>. Log messages are left out, apart from the divisions in their
  arguments, which may raise.
\<close>

section \<open>Computing the patches\<close>

record patch_state =
  ps_store :: store
  ps_queue :: "job list"
  ps_stats :: "imgdiff_stats option"
  ps_new :: string

text \<open>One round of the loop that fixes the styles; \<open>patch_num\<close> is the length of the queue.\<close>

definition choose_style ::
  "diff_env \<Rightarrow> bool \<Rightarrow> patch_state \<Rightarrow> nat \<times> nat \<Rightarrow> patch_state res" where
  "choose_style env disable_imgdiff st = (\<lambda>(index, x).
     let xf = ps_store st ! x in
     case xf_style xf of
       Zero \<Rightarrow> Inr st
     | New \<Rightarrow> try_bind (de_tgt env (tgt_ranges xf)) (\<lambda>d. Inr (st\<lparr>ps_new := ps_new st @ d\<rparr>))
     | Diff \<Rightarrow>
         if src_sha1 xf = tgt_sha1 xf then
           try_bind (set_patch_info None (xf\<lparr>xf_style := Move\<rparr>)) (\<lambda>xf'.
             Inr (st\<lparr>ps_store := (ps_store st)[x := xf']\<rparr>))
         else
           try_bind (case xf_patch_info xf of
                       Some pinfo \<Rightarrow> Inr (pi_imgdiff pinfo, ps_stats st)
                     | None \<Rightarrow> CanUseImgdiff disable_imgdiff (ps_stats st) (tgt_name xf) (tgt_ranges xf) (src_ranges xf) False)
             (\<lambda>(imgdiff, stats).
               Inr (st\<lparr>ps_store := upd x (\<lambda>y. y\<lparr>xf_style := (if imgdiff then Imgdiff else Bsdiff)\<rparr>) (ps_store st),
                       ps_stats := stats, ps_queue := ps_queue st @ [(index, imgdiff, length (ps_queue st))]\<rparr>))
     | _ \<Rightarrow> Inl AssertionError)"

text \<open>One round of the loop that writes \<open>patch.dat\<close>: a missing result cannot be unpacked, and the log
  message divides by the size of the target.\<close>

definition place_patch ::
  "int \<Rightarrow> nat list \<Rightarrow> store \<times> string \<Rightarrow> job_result option \<Rightarrow> (store \<times> string) res" where
  "place_patch blocksize ts = (\<lambda>(h, patch_dat) r.
     case r of
       None \<Rightarrow> Inl TypeError
     | Some (index, pinfo, _) \<Rightarrow>
         try_bind (py_get ts (int index)) (\<lambda>x.
           let h' = upd x (\<lambda>y. y\<lparr>patch_len := int (length (pi_content pinfo)), patch_start := int (length patch_dat)\<rparr>) h in
           if rs_size (tgt_ranges (h ! x)) * blocksize = 0 then Inl ZeroDivisionError
           else Inr (h', patch_dat @ pi_content pinfo)))"

definition ComputePatches ::
  "diff_env \<Rightarrow> bool \<Rightarrow> imgdiff_stats option \<Rightarrow> int \<Rightarrow> nat list \<Rightarrow> store \<Rightarrow> (store \<times> imgdiff_stats option \<times> string \<times> string) res" where
  "ComputePatches env disable_imgdiff stats blocksize ts h =
     try_bind (for_each (choose_style env disable_imgdiff) \<lparr>ps_store = h, ps_queue = [], ps_stats = stats, ps_new = []\<rparr>
                 (enumerate 0 ts)) (\<lambda>st.
       try_bind (for_each (place_patch blocksize ts) (ps_store st, [])
                   (ComputePatchesForInputList (run_job env False ts (ps_store st)) (ps_queue st))) (\<lambda>(h', patch_dat).
         Inr (h', ps_stats st, ps_new st, patch_dat)))"

definition AssertSha1Good :: "(range_set \<Rightarrow> string) \<Rightarrow> (range_set \<Rightarrow> string) \<Rightarrow> nat list \<Rightarrow> store \<Rightarrow> unit res" where
  "AssertSha1Good src_RangeSha1 tgt_RangeSha1 ts h =
     for_each (\<lambda>_ x. let xf = h ! x in
       try_bind (py_assert (tgt_sha1 xf = tgt_RangeSha1 (tgt_ranges xf))) (\<lambda>_.
         if xf_style xf = Diff then py_assert (src_sha1 xf = src_RangeSha1 (src_ranges xf)) else Inr ())) () ts"

section \<open>Converting expensive transfers\<close>

definition queue_diff :: "bool \<Rightarrow> store \<Rightarrow> job list \<times> imgdiff_stats option \<Rightarrow> nat \<Rightarrow> (job list \<times> imgdiff_stats option) res" where
  "queue_diff disable_imgdiff h = (\<lambda>(diff_queue, stats) x.
     let xf = h ! x in
     if xf_style xf = Diff \<and> src_sha1 xf \<noteq> tgt_sha1 xf then
       try_bind (CanUseImgdiff disable_imgdiff stats (tgt_name xf) (tgt_ranges xf) (src_ranges xf) False) (\<lambda>(use_imgdiff, stats').
         Inr (diff_queue @ [(xf_order xf, use_imgdiff, length diff_queue)], stats'))
     else Inr (diff_queue, stats))"

text \<open>A candidate: \<open>TransferSizeScore(xf, used_stash_blocks, score)\<close>; the score is a rational here.\<close>

type_synonym candidate = "nat \<times> int \<times> rat"

definition candidate_of :: "transfer \<Rightarrow> nat \<Rightarrow> patch_info \<Rightarrow> int \<Rightarrow> candidate option" where
  "candidate_of xf x pinfo compressed_size =
     (let n = int (length (pi_content pinfo)); used = sum_list (map (\<lambda>(_, sr). rs_size sr) (use_stash xf)) in
      if compressed_size \<le> n then Some (x, used, -1)
      else if 0 < used then Some (x, used, of_int ((compressed_size - n) * 100) / of_int used)
      else None)"

definition add_candidate ::
  "nat list \<Rightarrow> store \<times> candidate list \<Rightarrow> job_result option \<Rightarrow> (store \<times> candidate list) res" where
  "add_candidate ts = (\<lambda>(h, cands) r.
     case r of
       None \<Rightarrow> Inl TypeError
     | Some (xf_index, pinfo, compressed) \<Rightarrow>
         try_bind (py_get ts (int xf_index)) (\<lambda>x.
           try_bind (if xf_patch_info (h ! x) = None then set_patch_info (Some pinfo) (h ! x) else Inr (h ! x)) (\<lambda>xf.
             case compressed of
               None \<Rightarrow> Inl TypeError
             | Some c \<Rightarrow>
                 if c = 0 then Inl ZeroDivisionError
                 else Inr (h[x := xf], cands @ (case candidate_of xf x (the (xf_patch_info xf)) c of None \<Rightarrow> [] | Some d \<Rightarrow> [d])))))"

text \<open>The conversion loop, which stops once enough stashed blocks are removed.\<close>

fun convert_loop :: "rat \<Rightarrow> candidate list \<Rightarrow> int \<Rightarrow> store \<Rightarrow> (int \<times> store) res" where
  "convert_loop violated [] removed h = Inr (removed, h)"
| "convert_loop violated ((x, used, _) # cands) removed h =
     try_bind (ConvertToNew (h ! x)) (\<lambda>xf.
       let removed' = removed + used; h' = h[x := xf] in
       if violated \<le> of_int removed' then Inr (removed', h') else convert_loop violated cands removed' h')"

definition SelectAndConvertDiffTransfersToNew ::
  "diff_env \<Rightarrow> bool \<Rightarrow> imgdiff_stats option \<Rightarrow> rat \<Rightarrow> nat list \<Rightarrow> store \<Rightarrow> (store \<times> imgdiff_stats option) res" where
  "SelectAndConvertDiffTransfersToNew env disable_imgdiff stats violated_stash_blocks ts h =
     try_bind (for_each (queue_diff disable_imgdiff h) ([], stats) ts) (\<lambda>(diff_queue, stats').
       try_bind (for_each (add_candidate ts) (h, []) (ComputePatchesForInputList (run_job env True ts h) diff_queue)) (\<lambda>(h1, cands).
         try_bind (convert_loop violated_stash_blocks (sort_key (\<lambda>(_, _, score). score) cands) 0 h1) (\<lambda>(_, h2).
           Inr (h2, stats'))))"

section \<open>What stays the same\<close>

text \<open>The attributes no step after \<open>FindTransfers\<close> changes.\<close>

definition labels :: "transfer \<Rightarrow> string \<times> string option \<times> string \<times> string \<times> range_set" where
  "labels x = (tgt_name x, src_name x, tgt_sha1 x, src_sha1 x, tgt_ranges x)"

lemma labels_fields:
  assumes "map labels h' = map labels h" "x < length h"
  shows "tgt_name (h' ! x) = tgt_name (h ! x)" "src_name (h' ! x) = src_name (h ! x)" "tgt_sha1 (h' ! x) = tgt_sha1 (h ! x)"
    "src_sha1 (h' ! x) = src_sha1 (h ! x)" "tgt_ranges (h' ! x) = tgt_ranges (h ! x)" "length h' = length h"
proof -
  show l: "length h' = length h" using assms(1) by (metis length_map)
  have "labels (h' ! x) = labels (h ! x)" using assms l by (metis nth_map)
  then show "tgt_name (h' ! x) = tgt_name (h ! x)" "src_name (h' ! x) = src_name (h ! x)" "tgt_sha1 (h' ! x) = tgt_sha1 (h ! x)"
    "src_sha1 (h' ! x) = src_sha1 (h ! x)" "tgt_ranges (h' ! x) = tgt_ranges (h ! x)" by (simp_all add: labels_def)
qed

lemma map_same_update: "f y = f (h ! x) \<Longrightarrow> map f (h[x := y]) = map f h"
  by (metis list_update_id map_update)

lemma map_same_upd: "f (g (h ! x)) = f (h ! x) \<Longrightarrow> map f (upd x g h) = map f h"
  by (simp add: upd_def map_same_update)

lemma ConvertToNew_fields:
  "ConvertToNew x = Inr y \<Longrightarrow> xf_style x \<noteq> New \<and> y = x\<lparr>use_stash := [], xf_style := New, src_ranges := rs_empty, xf_patch_info := None\<rparr>"
  by (auto simp: ConvertToNew_def set_patch_info_def)

text \<open>\<open>ReviseStashSize\<close> changes the stash lists, and the attributes that \<open>ConvertToNew\<close> changes.\<close>

lemma revise_keeps:
  assumes run: "ReviseStashSize RangeSha1 limit ts h = Inr (a, b, h')"
    and stash: "\<And>x s. lab (x\<lparr>stash_before := s\<rparr>) = lab x"
    and conv: "\<And>x. lab (x\<lparr>use_stash := [], xf_style := New, src_ranges := rs_empty, xf_patch_info := None\<rparr>) = lab x"
  shows "map lab h' = map lab h"
proof -
  let ?P = "\<lambda>st. map lab (rv_store st) = map lab h"
  have rd: "map lab g' = map lab h" if "remove_def sm g p = Inr g'" "map lab g = map lab h" for sm g g' p
    using that by (auto simp: remove_def_def map_same_upd stash)
  have rc: "?P st'" if a: "replace_cmd sm st c = Inr st'" "?P st" for sm st st' c
  proof -
    obtain g x where g: "for_each (remove_def sm) (rv_store st) (use_stash (rv_store st ! c)) = Inr g" "ConvertToNew (g ! c) = Inr x"
      "rv_store st' = g[c := x]" using a(1) by (auto simp: replace_cmd_def)
    have "map lab g = map lab h"
      by (rule for_each_partial_invariant[where P = "\<lambda>g. map lab g = map lab h", OF g(1) a(2)]) (rule rd)
    moreover have "lab x = lab (g ! c)" using ConvertToNew_fields[OF g(2)] by (simp add: conv)
    ultimately show ?thesis using g(3) by (simp add: map_same_update)
  qed
  have ex: "?P (fst q)" if "explicit_stash RangeSha1 limit sm p s = Inr q" "?P (fst p)" for sm p q s
    using that by (auto simp: explicit_stash_def Let_def split: if_splits prod.splits)
  have im: "?P (fst q)" if "implicit_stash limit x p = Inr q" "?P (fst p)" for x p q
    using that by (auto simp: implicit_stash_def Let_def split: if_splits prod.splits)
  have fr: "?P st'" if "free_stash RangeSha1 st s = Inr st'" "?P st" for st st' s
    using that by (auto simp: free_stash_def split: prod.splits)
  have step: "?P st'" if step: "revise_transfer RangeSha1 limit sm st x = Inr st'" "?P st" for sm st st' x
  proof -
    obtain p q s2 where s: "for_each (explicit_stash RangeSha1 limit sm) (st, []) (stash_before (rv_store st ! x)) = Inr p"
      "implicit_stash limit x p = Inr q" "for_each (replace_cmd sm) (fst q) (snd q) = Inr s2"
      "for_each (free_stash RangeSha1) s2 (use_stash (rv_store s2 ! x)) = Inr st'" using step(1) by (auto simp: revise_transfer_def)
    have "?P (fst p)" by (rule for_each_partial_invariant[where P = "\<lambda>p. ?P (fst p)", OF s(1)]) (use step(2) ex in auto)
    then have "?P (fst q)" using im[OF s(2)] by simp
    then have "?P s2" by (rule for_each_partial_invariant[where P = ?P, OF s(3)]) (rule rc)
    then show ?thesis by (rule for_each_partial_invariant[where P = ?P, OF s(4)]) (rule fr)
  qed
  obtain sm st where st: "for_each (revise_transfer RangeSha1 limit sm) \<lparr>rv_store = h, rv_stashes = [], rv_stashed = 0, rv_new = 0, rv_max = 0\<rparr> ts = Inr st"
    "h' = rv_store st" using run by (auto simp: ReviseStashSize_def)
  have "?P st" by (rule for_each_partial_invariant[where P = ?P, OF st(1)]) (use step in auto)
  then show ?thesis using st(2) by simp
qed

lemma revise_labels:
  assumes "ReviseStashSize RangeSha1 limit ts h = Inr (a, b, h')"
  shows "map labels h' = map labels h" "map xf_order h' = map xf_order h"
  by (rule revise_keeps[OF assms]; simp add: labels_def)+

section \<open>The final styles\<close>

text \<open>Documented behaviour of the environment: the data of the transfers can be read and the diff programs
  succeed.\<close>

definition env_ok :: "diff_env \<Rightarrow> nat list \<Rightarrow> store \<Rightarrow> bool" where
  "env_ok env ts h = ((\<forall>x\<in>set ts. (\<exists>d. de_tgt env (tgt_ranges (h ! x)) = Inr d) \<and>
       (xf_style (h ! x) = Diff \<longrightarrow> (\<exists>d. de_src env (src_ranges (h ! x)) = Inr d))) \<and>
     (\<forall>b s t. \<exists>c. de_diff env b s t = Some c))"

definition needs_patch :: "transfer \<Rightarrow> bool" where
  "needs_patch xf = (xf_style xf = Diff \<and> src_sha1 xf \<noteq> tgt_sha1 xf)"

text \<open>What the first loop makes of a transfer, with the choice of imgdiff.\<close>

definition styled :: "transfer \<Rightarrow> bool \<Rightarrow> transfer" where
  "styled xf b = (if xf_style xf \<noteq> Diff then xf
     else if src_sha1 xf = tgt_sha1 xf then xf\<lparr>xf_style := Move, xf_patch_info := None\<rparr>
     else xf\<lparr>xf_style := (if b then Imgdiff else Bsdiff)\<rparr>)"

lemma styled_fields [simp]:
  "tgt_ranges (styled xf b) = tgt_ranges xf" "src_ranges (styled xf b) = src_ranges xf"
  "use_stash (styled xf b) = use_stash xf" "stash_before (styled xf b) = stash_before xf" "labels (styled xf b) = labels xf"
  by (simp_all add: styled_def labels_def)

definition new_data :: "diff_env \<Rightarrow> store \<Rightarrow> nat list \<Rightarrow> string" where
  "new_data env h xs = concat (map (\<lambda>x. projr (de_tgt env (tgt_ranges (h ! x)))) (filter (\<lambda>x. xf_style (h ! x) = New) xs))"

text \<open>After the rounds for the first transfers \<open>ys\<close> of the sequence; \<open>ch\<close> is the choice of imgdiff.\<close>

definition styling :: "diff_env \<Rightarrow> bool \<Rightarrow> nat list \<Rightarrow> store \<Rightarrow> nat list \<Rightarrow> (nat \<Rightarrow> bool) \<Rightarrow> patch_state \<Rightarrow> bool" where
  "styling env disabled ts h ys ch st = (length (ps_store st) = length h \<and> stats_present disabled (ps_stats st) \<and>
     ps_new st = new_data env h ys \<and>
     (\<forall>x<length h. ps_store st ! x = (if x \<in> set ys then styled (h ! x) (ch x) else h ! x)) \<and>
     ps_queue st = map (\<lambda>(k, i). (i, ch (ts ! i), k)) (enumerate 0 (filter (\<lambda>i. needs_patch (h ! (ts ! i))) [0..<length ys])))"

lemma enumerate_snoc: "enumerate n (xs @ [x]) = enumerate n xs @ [(n + length xs, x)]"
  by (induction xs arbitrary: n) auto

lemma enumerate_mem: "(k, x) \<in> set (enumerate n xs) \<Longrightarrow> x \<in> set xs"
  by (auto simp: in_set_enumerate_eq)

lemma choose_style_ok:
  assumes ts: "distinct ts" "\<forall>x\<in>set ts. x < length h" "ts = ys @ x # zs"
    and sty: "xf_style (h ! x) \<in> {Zero, New, Diff}" and env: "env_ok env ts h" and st: "styling env disabled ts h ys ch st"
  shows "\<exists>st' ch'. choose_style env disabled st (length ys, x) = Inr st' \<and> styling env disabled ts h (ys @ [x]) ch' st'"
proof -
  have x: "x \<in> set ts" "x < length h" "x \<notin> set ys" "ts ! length ys = x" using ts by auto
  have hx: "ps_store st ! x = h ! x" and len: "length (ps_store st) = length h" using st x by (auto simp: styling_def)
  have old: "ts ! i = ys ! i" if "i < length ys" for i using that ts(3) by (simp add: nth_append)
  have up: "[0..<length (ys @ [x])] = [0..<length ys] @ [length ys]" by simp
  consider "xf_style (h ! x) = Zero" | "xf_style (h ! x) = New" | "xf_style (h ! x) = Diff" "src_sha1 (h ! x) = tgt_sha1 (h ! x)"
    | "needs_patch (h ! x)" using sty by (auto simp: needs_patch_def)
  then show ?thesis
  proof cases
    case 1
    then have "choose_style env disabled st (length ys, x) = Inr st" using hx by (simp add: choose_style_def)
    moreover have "styling env disabled ts h (ys @ [x]) ch st"
      using st 1 x by (auto simp: styling_def styled_def new_data_def needs_patch_def)
    ultimately show ?thesis by blast
  next
    case 2
    obtain d where d: "de_tgt env (tgt_ranges (h ! x)) = Inr d" using env x(1) by (auto simp: env_ok_def)
    then have "choose_style env disabled st (length ys, x) = Inr (st\<lparr>ps_new := ps_new st @ d\<rparr>)" using 2 hx by (simp add: choose_style_def)
    moreover have "styling env disabled ts h (ys @ [x]) ch (st\<lparr>ps_new := ps_new st @ d\<rparr>)"
      using st 2 x d by (auto simp: styling_def styled_def new_data_def needs_patch_def)
    ultimately show ?thesis by blast
  next
    case 3
    let ?y = "(h ! x)\<lparr>xf_style := Move, xf_patch_info := None\<rparr>"
    have "choose_style env disabled st (length ys, x) = Inr (st\<lparr>ps_store := (ps_store st)[x := ?y]\<rparr>)"
      using 3 hx by (simp add: choose_style_def set_patch_info_def)
    moreover have "styling env disabled ts h (ys @ [x]) ch (st\<lparr>ps_store := (ps_store st)[x := ?y]\<rparr>)"
      using st 3 x len by (auto simp: styling_def styled_def new_data_def needs_patch_def nth_list_update)
    ultimately show ?thesis by blast
  next
    case 4
    have n: "xf_style (h ! x) = Diff" "src_sha1 (h ! x) \<noteq> tgt_sha1 (h ! x)" using 4 by (auto simp: needs_patch_def)
    have pres: "stats_present disabled (ps_stats st)" using st by (simp add: styling_def)
    obtain b stats where b: "(case xf_patch_info (h ! x) of Some pinfo \<Rightarrow> Inr (pi_imgdiff pinfo, ps_stats st)
        | None \<Rightarrow> CanUseImgdiff disabled (ps_stats st) (tgt_name (h ! x)) (tgt_ranges (h ! x)) (src_ranges (h ! x)) False) = Inr (b, stats)"
      "stats_present disabled stats"
      using CanUseImgdiff_ok[OF pres] pres by (cases "xf_patch_info (h ! x)") (auto, blast)
    let ?st = "st\<lparr>ps_store := upd x (\<lambda>y. y\<lparr>xf_style := (if b then Imgdiff else Bsdiff)\<rparr>) (ps_store st),
        ps_stats := stats, ps_queue := ps_queue st @ [(length ys, b, length (ps_queue st))]\<rparr>"
    have "choose_style env disabled st (length ys, x) = Inr ?st"
      using n hx b(1) by (cases "xf_patch_info (h ! x)") (simp_all add: choose_style_def Let_def)
    moreover have "styling env disabled ts h (ys @ [x]) (ch(x := b)) ?st"
    proof -
      have q: "ps_queue st = map (\<lambda>(k, i). (i, ch (ts ! i), k)) (enumerate 0 (filter (\<lambda>i. needs_patch (h ! (ts ! i))) [0..<length ys]))"
        using st by (simp add: styling_def)
      have "ts ! i \<noteq> x" if "i < length ys" for i using old[OF that] x(3) that by auto
      then have "ps_queue st = map (\<lambda>(k, i). (i, (ch(x := b)) (ts ! i), k)) (enumerate 0 (filter (\<lambda>i. needs_patch (h ! (ts ! i))) [0..<length ys]))"
        unfolding q by (intro map_cong refl) (auto dest!: enumerate_mem)
      then have "ps_queue ?st = map (\<lambda>(k, i). (i, (ch(x := b)) (ts ! i), k)) (enumerate 0 (filter (\<lambda>i. needs_patch (h ! (ts ! i))) [0..<length (ys @ [x])]))"
        unfolding up filter_append using 4 x(4) by (simp add: enumerate_snoc)
      then show ?thesis using st n x len b(2)
        by (auto simp: styling_def styled_def new_data_def nth_upd)
    qed
    ultimately show ?thesis by blast
  qed
qed

lemma choose_styles_ok:
  assumes ts: "distinct ts" "\<forall>x\<in>set ts. x < length h" and sty: "\<forall>x\<in>set ts. xf_style (h ! x) \<in> {Zero, New, Diff}"
    and env: "env_ok env ts h" and stats: "stats_present disabled stats"
  shows "\<exists>st ch. for_each (choose_style env disabled) \<lparr>ps_store = h, ps_queue = [], ps_stats = stats, ps_new = []\<rparr> (enumerate 0 ts) = Inr st \<and>
    styling env disabled ts h ts ch st"
proof -
  have "\<exists>st. for_each (choose_style env disabled) \<lparr>ps_store = h, ps_queue = [], ps_stats = stats, ps_new = []\<rparr> (enumerate 0 ts) = Inr st \<and>
      (\<exists>ch. styling env disabled ts h (map snd (enumerate 0 ts)) ch st)"
  proof (rule for_each_invariant[where P = "\<lambda>ys st. \<exists>ch. styling env disabled ts h (map snd ys) ch st"])
    show "\<exists>ch. styling env disabled ts h (map snd []) ch \<lparr>ps_store = h, ps_queue = [], ps_stats = stats, ps_new = []\<rparr>"
      using stats by (simp add: styling_def new_data_def)
    fix ys p zs st assume split: "enumerate 0 ts = ys @ p # zs" and "\<exists>ch. styling env disabled ts h (map snd ys) ch st"
    then obtain ch where ch: "styling env disabled ts h (map snd ys) ch st" by blast
    have m: "ts = map snd ys @ snd p # map snd zs" using arg_cong[OF split, of "map snd"] by simp
    have "length ys < length (enumerate 0 ts)" using split by simp
    then have "fst (enumerate 0 ts ! length ys) = length ys" by (simp add: nth_enumerate_eq)
    then have p: "p = (length (map snd ys), snd p)" using split by (simp add: nth_append) (metis prod.collapse)
    have "snd p \<in> set ts" using m by (metis in_set_conv_decomp)
    then show "\<exists>st'. choose_style env disabled st p = Inr st' \<and> (\<exists>ch. styling env disabled ts h (map snd (ys @ [p])) ch st')"
      using choose_style_ok[OF ts m _ env ch] sty p by (metis map_append list.map(1,2))
  qed
  then show ?thesis by auto
qed

section \<open>The patch file\<close>

text \<open>The patch that the transfer at a position of the sequence gets.\<close>

definition patch_of :: "diff_env \<Rightarrow> store \<Rightarrow> (nat \<Rightarrow> bool) \<Rightarrow> nat \<Rightarrow> patch_info" where
  "patch_of env h ch x = projr (job_patch env (h ! x) (ch x))"

lemma job_patch_ok:
  assumes "env_ok env ts h" "x \<in> set ts" "xf_style (h ! x) = Diff"
  shows "\<exists>p. job_patch env (h ! x) b = Inr p"
proof -
  obtain s t where "de_src env (src_ranges (h ! x)) = Inr s" "de_tgt env (tgt_ranges (h ! x)) = Inr t"
    using assms by (force simp: env_ok_def)
  moreover obtain c where "de_diff env b s t = Some c" using assms(1) unfolding env_ok_def by blast
  ultimately show ?thesis by (auto simp: job_patch_def compute_patch_def handled_def split: option.splits)
qed

lemma job_patch_cases:
  assumes "job_patch env xf b = Inr p"
  shows "case xf_patch_info xf of Some q \<Rightarrow> p = q
    | None \<Rightarrow> (\<exists>s d. de_src env (src_ranges xf) = Inr s \<and> de_tgt env (tgt_ranges xf) = Inr d \<and> de_diff env b s d = Some (pi_content p))"
  using assms by (cases "de_src env (src_ranges xf)"; cases "de_tgt env (tgt_ranges xf)")
    (auto simp: job_patch_def compute_patch_def handled_def split: option.splits)

lemma job_patch_styled: "needs_patch xf \<Longrightarrow> job_patch env (styled xf b) c = job_patch env xf c"
  by (cases "xf_patch_info xf") (auto simp: needs_patch_def styled_def job_patch_def)

lemma py_get_nth: "i < length xs \<Longrightarrow> py_get xs (int i) = Inr (xs ! i)"
  by (simp add: py_get_def py_index_def)

lemma run_styled_job:
  assumes ts: "\<forall>x\<in>set ts. x < length h" and env: "env_ok env ts h" and st: "styling env disabled ts h ts ch st"
    and i: "i < length ts" "needs_patch (h ! (ts ! i))"
  shows "run_job env False ts (ps_store st) (i, ch (ts ! i), k) = Inr (i, patch_of env h ch (ts ! i), None)"
proof -
  have x: "ts ! i \<in> set ts" "ts ! i < length h" using i(1) ts by auto
  have "ps_store st ! (ts ! i) = styled (h ! (ts ! i)) (ch (ts ! i))" using st x by (simp add: styling_def)
  moreover obtain p where "job_patch env (h ! (ts ! i)) (ch (ts ! i)) = Inr p"
    using job_patch_ok[OF env x(1)] i(2) by (auto simp: needs_patch_def)
  ultimately show ?thesis using i by (simp add: run_job_def py_get_nth job_patch_styled patch_of_def)
qed

text \<open>Writing \<open>patch.dat\<close>: the patches lie one after the other.\<close>

definition placed :: "diff_env \<Rightarrow> store \<Rightarrow> (nat \<Rightarrow> bool) \<Rightarrow> nat list \<Rightarrow> store \<Rightarrow> nat list \<Rightarrow> store \<times> string \<Rightarrow> bool" where
  "placed env h ch ts h1 is = (\<lambda>(g, dat). length g = length h1 \<and>
     (\<forall>x<length h1. \<exists>l s. g ! x = (h1 ! x)\<lparr>patch_len := l, patch_start := s\<rparr>) \<and>
     dat = concat (map (\<lambda>i. pi_content (patch_of env h ch (ts ! i))) is) \<and>
     (\<forall>i\<in>set is. 0 \<le> patch_start (g ! (ts ! i)) \<and> patch_start (g ! (ts ! i)) + patch_len (g ! (ts ! i)) \<le> int (length dat) \<and>
        take (nat (patch_len (g ! (ts ! i)))) (drop (nat (patch_start (g ! (ts ! i)))) dat) = pi_content (patch_of env h ch (ts ! i))))"

lemma place_patch_ok:
  assumes pl: "placed env h ch ts h1 is (g, dat)" and ts: "distinct ts" "\<forall>x\<in>set ts. x < length h1"
    and i: "i < length ts" "i \<notin> set is" "\<forall>j\<in>set is. j < length ts" and sz: "rs_size (tgt_ranges (h1 ! (ts ! i))) * blocksize \<noteq> 0"
  shows "\<exists>q. place_patch blocksize ts (g, dat) (Some (i, patch_of env h ch (ts ! i), None)) = Inr q \<and> placed env h ch ts h1 (is @ [i]) q"
proof -
  let ?x = "ts ! i" and ?c = "pi_content (patch_of env h ch (ts ! i))"
  let ?g = "upd ?x (\<lambda>y. y\<lparr>patch_len := int (length ?c), patch_start := int (length dat)\<rparr>) g"
  have x: "?x < length h1" "length g = length h1" using i(1) ts(2) pl by (auto simp: placed_def)
  have same: "\<exists>l s. g ! y = (h1 ! y)\<lparr>patch_len := l, patch_start := s\<rparr>" if "y < length h1" for y using pl that by (auto simp: placed_def)
  have "tgt_ranges (g ! ?x) = tgt_ranges (h1 ! ?x)" using same[OF x(1)] by auto
  then have run: "place_patch blocksize ts (g, dat) (Some (i, patch_of env h ch ?x, None)) = Inr (?g, dat @ ?c)"
    using i(1) sz by (simp add: place_patch_def py_get_nth Let_def)
  have other: "?g ! (ts ! j) = g ! (ts ! j)" if "j \<in> set is" for j
  proof -
    have "j < length ts" "j \<noteq> i" using that i by auto
    then have "ts ! j \<noteq> ?x" "ts ! j < length g" using nth_eq_iff_index_eq[OF ts(1)] i(1) ts(2) x(2) by auto
    then show ?thesis by (simp add: nth_upd)
  qed
  have "placed env h ch ts h1 (is @ [i]) (?g, dat @ ?c)" unfolding placed_def prod.case
  proof (intro conjI allI ballI impI)
    show "length ?g = length h1" using x(2) by simp
    show "dat @ ?c = concat (map (\<lambda>i. pi_content (patch_of env h ch (ts ! i))) (is @ [i]))" using pl by (simp add: placed_def)
  next
    fix y assume y: "y < length h1"
    obtain l s where g: "g ! y = (h1 ! y)\<lparr>patch_len := l, patch_start := s\<rparr>" using same[OF y] by blast
    show "\<exists>l s. ?g ! y = (h1 ! y)\<lparr>patch_len := l, patch_start := s\<rparr>"
    proof (cases "y = ?x")
      case True
      then have "?g ! y = (h1 ! y)\<lparr>patch_len := int (length ?c), patch_start := int (length dat)\<rparr>" using g x by (simp add: nth_upd)
      then show ?thesis by blast
    next
      case False
      then show ?thesis using g y x(2) by (auto simp: nth_upd)
    qed
  next
    fix j assume j: "j \<in> set (is @ [i])"
    have *: "0 \<le> patch_start (?g ! (ts ! j)) \<and> patch_start (?g ! (ts ! j)) + patch_len (?g ! (ts ! j)) \<le> int (length (dat @ ?c)) \<and>
        take (nat (patch_len (?g ! (ts ! j)))) (drop (nat (patch_start (?g ! (ts ! j)))) (dat @ ?c)) = pi_content (patch_of env h ch (ts ! j))"
    proof (cases "j = i")
      case True
      then show ?thesis using x by (simp add: nth_upd)
    next
      case False
      then have jis: "j \<in> set is" using j by simp
      let ?s = "patch_start (g ! (ts ! j))" and ?l = "patch_len (g ! (ts ! j))"
      have o: "0 \<le> ?s" "?s + ?l \<le> int (length dat)" "take (nat ?l) (drop (nat ?s) dat) = pi_content (patch_of env h ch (ts ! j))"
        using pl jis by (auto simp: placed_def)
      have "nat ?s \<le> length dat \<or> nat ?l = 0" using o by linarith
      moreover have "nat ?l - (length dat - nat ?s) = 0" using o(1,2) by linarith
      ultimately have "take (nat ?l) (drop (nat ?s) (dat @ ?c)) = take (nat ?l) (drop (nat ?s) dat)" by auto
      then show ?thesis using o other[OF jis] by simp
    qed
    show "0 \<le> patch_start (?g ! (ts ! j))" "patch_start (?g ! (ts ! j)) + patch_len (?g ! (ts ! j)) \<le> int (length (dat @ ?c))"
      "take (nat (patch_len (?g ! (ts ! j)))) (drop (nat (patch_start (?g ! (ts ! j)))) (dat @ ?c)) = pi_content (patch_of env h ch (ts ! j))"
      using * by auto
  qed
  then show ?thesis using run by blast
qed

lemma place_patches_ok:
  assumes ts: "distinct ts" "\<forall>x\<in>set ts. x < length h1" and "is": "distinct is" "\<forall>i\<in>set is. i < length ts"
    and sz: "\<forall>i\<in>set is. rs_size (tgt_ranges (h1 ! (ts ! i))) * blocksize \<noteq> 0"
  shows "\<exists>q. for_each (place_patch blocksize ts) (h1, []) (map (\<lambda>i. Some (i, patch_of env h ch (ts ! i), None)) is) = Inr q \<and>
    placed env h ch ts h1 is q"
  using "is" sz
proof (induction "is" rule: rev_induct)
  case Nil
  have "\<exists>l s. h1 ! x = (h1 ! x)\<lparr>patch_len := l, patch_start := s\<rparr>" for x
    by (rule exI[of _ "patch_len (h1 ! x)"], rule exI[of _ "patch_start (h1 ! x)"]) simp
  then show ?case by (simp add: placed_def)
next
  case (snoc i "is")
  then obtain g dat where q: "for_each (place_patch blocksize ts) (h1, []) (map (\<lambda>i. Some (i, patch_of env h ch (ts ! i), None)) is) = Inr (g, dat)"
    "placed env h ch ts h1 is (g, dat)" by auto
  then show ?case using place_patch_ok[OF q(2) ts, of i blocksize] snoc.prems by (auto simp: for_each_append)
qed

lemma styling_queue:
  assumes "styling env disabled ts h ts ch st"
  defines "is \<equiv> filter (\<lambda>i. needs_patch (h ! (ts ! i))) [0..<length ts]"
  shows "indexed (ps_queue st)" "ps_queue st = map (\<lambda>(k, i). (i, ch (ts ! i), k)) (enumerate 0 is)"
proof -
  show q: "ps_queue st = map (\<lambda>(k, i). (i, ch (ts ! i), k)) (enumerate 0 is)" using assms by (simp add: styling_def)
  have "map (\<lambda>(x, b, k). k) (ps_queue st) = map fst (enumerate 0 is)" unfolding q by (simp add: comp_def split_def)
  then show "indexed (ps_queue st)" unfolding indexed_def q by simp
qed

text \<open>The outcome of \<open>ComputePatches\<close>.\<close>

definition patched :: "diff_env \<Rightarrow> nat list \<Rightarrow> store \<Rightarrow> (nat \<Rightarrow> bool) \<Rightarrow> store \<Rightarrow> string \<Rightarrow> bool" where
  "patched env ts h ch h' dat = (length h' = length h \<and>
     (\<forall>x\<in>set ts. \<exists>l s. h' ! x = (styled (h ! x) (ch x))\<lparr>patch_len := l, patch_start := s\<rparr>) \<and>
     (\<forall>x\<in>set ts. needs_patch (h ! x) \<longrightarrow> (\<exists>p. job_patch env (h ! x) (ch x) = Inr p \<and>
        take (nat (patch_len (h' ! x))) (drop (nat (patch_start (h' ! x))) dat) = pi_content p)))"

lemma ComputePatches_ok:
  assumes ts: "distinct ts" "\<forall>x\<in>set ts. x < length h" and sty: "\<forall>x\<in>set ts. xf_style (h ! x) \<in> {Zero, New, Diff}"
    and env: "env_ok env ts h" and stats: "stats_present disabled stats"
    and sz: "\<forall>x\<in>set ts. xf_style (h ! x) = Diff \<longrightarrow> rs_size (tgt_ranges (h ! x)) \<noteq> 0" "blocksize \<noteq> 0"
  shows "\<exists>h' stats' dat ch. ComputePatches env disabled stats blocksize ts h = Inr (h', stats', new_data env h ts, dat) \<and>
    stats_present disabled stats' \<and> patched env ts h ch h' dat"
proof -
  obtain st ch where st: "for_each (choose_style env disabled) \<lparr>ps_store = h, ps_queue = [], ps_stats = stats, ps_new = []\<rparr> (enumerate 0 ts) = Inr st"
    "styling env disabled ts h ts ch st" using choose_styles_ok[OF ts sty env stats] by blast
  define "is" where "is = filter (\<lambda>i. needs_patch (h ! (ts ! i))) [0..<length ts]"
  note q = styling_queue[OF st(2), folded is_def]
  let ?run = "run_job env False ts (ps_store st)"
  have len: "length (ps_store st) = length h" and sx: "\<And>x. x \<in> set ts \<Longrightarrow> ps_store st ! x = styled (h ! x) (ch x)"
    using st(2) ts(2) by (auto simp: styling_def)
  have run: "?run (i, ch (ts ! i), k) = Inr (i, patch_of env h ch (ts ! i), None)" if "i \<in> set is" for i k
    using run_styled_job[OF ts(2) env st(2)] that by (simp add: is_def)
  have "\<forall>j\<in>set (ps_queue st). \<not> isl (?run j)" unfolding q(2) using run by (auto dest!: enumerate_mem)
  then have "ComputePatchesForInputList ?run (ps_queue st) = map (\<lambda>j. Some (projr (?run j))) (ps_queue st)"
    by (rule ComputePatchesForInputList_ok[OF q(1)])
  also have "\<dots> = map (\<lambda>(k, i). Some (i, patch_of env h ch (ts ! i), None)) (enumerate 0 is)"
    unfolding q(2) map_map by (intro map_cong refl) (auto simp: run dest!: enumerate_mem)
  also have "\<dots> = map (\<lambda>i. Some (i, patch_of env h ch (ts ! i), None)) (map snd (enumerate 0 is))" by (simp only: map_map comp_def split_def)
  finally have res: "ComputePatchesForInputList ?run (ps_queue st) = map (\<lambda>i. Some (i, patch_of env h ch (ts ! i), None)) is" by simp
  have isd: "distinct is" "\<forall>i\<in>set is. i < length ts" by (auto simp: is_def)
  have nz: "\<forall>i\<in>set is. rs_size (tgt_ranges (ps_store st ! (ts ! i))) * blocksize \<noteq> 0"
    using sz sx by (auto simp: is_def needs_patch_def)
  have ts1: "\<forall>x\<in>set ts. x < length (ps_store st)" using ts(2) len by simp
  obtain g dat where g: "for_each (place_patch blocksize ts) (ps_store st, []) (map (\<lambda>i. Some (i, patch_of env h ch (ts ! i), None)) is) = Inr (g, dat)"
    "placed env h ch ts (ps_store st) is (g, dat)" using place_patches_ok[OF ts(1) ts1 isd nz, of env h ch] by auto
  have run': "ComputePatches env disabled stats blocksize ts h = Inr (g, ps_stats st, new_data env h ts, dat)"
    using st g(1) res by (simp add: ComputePatches_def styling_def)
  have "patched env ts h ch g dat" unfolding patched_def
  proof (intro conjI ballI impI)
    show "length g = length h" using g(2) len by (simp add: placed_def)
    fix x assume x: "x \<in> set ts"
    show "\<exists>l s. g ! x = (styled (h ! x) (ch x))\<lparr>patch_len := l, patch_start := s\<rparr>"
    proof -
      have "x < length (ps_store st)" using ts1 x by blast
      then show ?thesis using g(2) unfolding placed_def prod.case sx[OF x, symmetric] by blast
    qed
    assume n: "needs_patch (h ! x)"
    obtain i where i: "i < length ts" "ts ! i = x" using x by (auto simp: in_set_conv_nth)
    then have "i \<in> set is" using n by (simp add: is_def)
    moreover obtain p where "job_patch env (h ! x) (ch x) = Inr p" using job_patch_ok[OF env x] n by (auto simp: needs_patch_def)
    ultimately show "\<exists>p. job_patch env (h ! x) (ch x) = Inr p \<and>
        take (nat (patch_len (g ! x))) (drop (nat (patch_start (g ! x))) dat) = pi_content p"
      using g(2) i by (auto simp: placed_def patch_of_def)
  qed
  then show ?thesis using run' st(2) by (auto simp: styling_def)
qed

lemma AssertSha1Good_ok:
  assumes "\<forall>x\<in>set ts. tgt_sha1 (h ! x) = tgt_RangeSha1 (tgt_ranges (h ! x)) \<and>
    (xf_style (h ! x) = Diff \<longrightarrow> src_sha1 (h ! x) = src_RangeSha1 (src_ranges (h ! x)))"
  shows "AssertSha1Good src_RangeSha1 tgt_RangeSha1 ts h = Inr ()"
  using assms unfolding AssertSha1Good_def by (induction ts) (auto simp: Let_def)

lemma AssertSha1Good_sound:
  assumes "AssertSha1Good src_RangeSha1 tgt_RangeSha1 ts h = Inr ()" "x \<in> set ts"
  shows "tgt_sha1 (h ! x) = tgt_RangeSha1 (tgt_ranges (h ! x)) \<and>
    (xf_style (h ! x) = Diff \<longrightarrow> src_sha1 (h ! x) = src_RangeSha1 (src_ranges (h ! x)))"
  using assms unfolding AssertSha1Good_def by (induction ts) (auto simp: Let_def split: if_splits)

section \<open>Selecting transfers to convert\<close>

text \<open>The store after the conversion of the transfers in \<open>S\<close>; the others may have gained a patch.\<close>

definition selected :: "nat list \<Rightarrow> store \<Rightarrow> nat set \<Rightarrow> store \<Rightarrow> bool" where
  "selected ts h S h' = (length h' = length h \<and> S \<subseteq> set ts \<and> (\<forall>x<length h.
     if x \<in> S then xf_style (h ! x) = Diff \<and>
       h' ! x = (h ! x)\<lparr>use_stash := [], xf_style := New, src_ranges := rs_empty, xf_patch_info := None\<rparr>
     else \<exists>p. h' ! x = (h ! x)\<lparr>xf_patch_info := p\<rparr> \<and> (p = None \<longrightarrow> xf_patch_info (h ! x) = None)))"

lemma selected_refl: "selected ts h {} h"
proof -
  have "\<exists>p. h ! x = (h ! x)\<lparr>xf_patch_info := p\<rparr> \<and> (p = None \<longrightarrow> xf_patch_info (h ! x) = None)" for x
    by (rule exI[of _ "xf_patch_info (h ! x)"]) simp
  then show ?thesis by (simp add: selected_def)
qed

lemma selected_add:
  assumes "selected ts h S g" "x \<in> set ts" "x < length h" "x \<notin> S" "xf_style (h ! x) = Diff"
  shows "\<exists>y. ConvertToNew (g ! x) = Inr y \<and> selected ts h (insert x S) (g[x := y])"
proof -
  obtain p where p: "g ! x = (h ! x)\<lparr>xf_patch_info := p\<rparr>" using assms(1,3,4) unfolding selected_def by metis
  let ?y = "(h ! x)\<lparr>use_stash := [], xf_style := New, src_ranges := rs_empty, xf_patch_info := None\<rparr>"
  have "ConvertToNew (g ! x) = Inr ?y" using p assms(5) by (simp add: ConvertToNew_def set_patch_info_def)
  moreover have "selected ts h (insert x S) (g[x := ?y])"
    using assms by (auto simp: selected_def nth_list_update)
  ultimately show ?thesis by blast
qed

lemma convert_loop_ok:
  assumes "selected ts h S g" "distinct (map fst cands)" "\<forall>c\<in>set cands. fst c \<in> set ts \<and> fst c < length h \<and> fst c \<notin> S \<and> xf_style (h ! fst c) = Diff"
  shows "\<exists>r g' S'. convert_loop violated cands removed g = Inr (r, g') \<and> selected ts h S' g' \<and> S \<subseteq> S' \<and> S' \<subseteq> S \<union> fst ` set cands \<and>
    (violated \<le> of_int r \<or> S' = S \<union> fst ` set cands)"
  using assms
proof (induction cands arbitrary: S g removed)
  case Nil
  then show ?case by auto
next
  case (Cons c cands)
  obtain x u sc where c: "c = (x, u, sc)" by (cases c)
  obtain y where y: "ConvertToNew (g ! x) = Inr y" "selected ts h (insert x S) (g[x := y])"
    using selected_add[OF Cons.prems(1), of x] Cons.prems(3) c by auto
  show ?case
  proof (cases "violated \<le> of_int (removed + u)")
    case True
    then show ?thesis using y c by (intro exI[of _ "removed + u"] exI[of _ "g[x := y]"] exI[of _ "insert x S"]) auto
  next
    case False
    have "\<forall>c\<in>set cands. fst c \<in> set ts \<and> fst c < length h \<and> fst c \<notin> insert x S \<and> xf_style (h ! fst c) = Diff"
      using Cons.prems(2,3) c by (auto simp: image_iff)
    from Cons.IH[OF y(2) _ this, of "removed + u"] Cons.prems(2) obtain r g' S' where
      r: "convert_loop violated cands (removed + u) (g[x := y]) = Inr (r, g')" "selected ts h S' g'" "insert x S \<subseteq> S'"
      "S' \<subseteq> insert x S \<union> fst ` set cands" "violated \<le> of_int r \<or> S' = insert x S \<union> fst ` set cands" by auto
    have "convert_loop violated (c # cands) removed g = Inr (r, g')" using y(1) False r(1) c by (simp add: Let_def)
    then show ?thesis using r(2-5) c by (intro exI[of _ r] exI[of _ g'] exI[of _ S']) auto
  qed
qed

text \<open>zlib compresses everything, to a non-empty stream.\<close>

definition deflate_ok :: "diff_env \<Rightarrow> bool" where
  "deflate_ok env = (\<forall>d. \<exists>n. de_deflate env d = Some n \<and> n \<noteq> 0)"

definition may_imgdiff :: "bool \<Rightarrow> store \<Rightarrow> nat \<Rightarrow> bool" where
  "may_imgdiff disabled h x = imgdiff_applicable disabled (tgt_name (h ! x)) (tgt_ranges (h ! x)) (src_ranges (h ! x))"

lemma queue_diffs_ok:
  assumes "stats_present disabled stats"
  shows "\<exists>stats'. for_each (queue_diff disabled h) ([], stats) ts =
      Inr (map (\<lambda>(k, x). (xf_order (h ! x), may_imgdiff disabled h x, k)) (enumerate 0 (filter (\<lambda>x. needs_patch (h ! x)) ts)), stats') \<and>
    stats_present disabled stats'"
proof (induction ts rule: rev_induct)
  case Nil
  then show ?case using assms by simp
next
  case (snoc x ts)
  then obtain stats' where IH: "for_each (queue_diff disabled h) ([], stats) ts =
      Inr (map (\<lambda>(k, x). (xf_order (h ! x), may_imgdiff disabled h x, k)) (enumerate 0 (filter (\<lambda>x. needs_patch (h ! x)) ts)), stats')"
    "stats_present disabled stats'" by blast
  obtain s2 where s2: "CanUseImgdiff disabled stats' (tgt_name (h ! x)) (tgt_ranges (h ! x)) (src_ranges (h ! x)) False = Inr (may_imgdiff disabled h x, s2)"
    "stats_present disabled s2" using CanUseImgdiff_ok[OF IH(2)] unfolding may_imgdiff_def by blast
  show ?case
    using IH s2 by (cases "needs_patch (h ! x)") (auto simp: for_each_append queue_diff_def needs_patch_def enumerate_snoc Let_def)
qed

text \<open>The jobs of the selection: the patch and the compressed size of a transfer.\<close>

definition sized :: "diff_env \<Rightarrow> bool \<Rightarrow> store \<Rightarrow> nat \<Rightarrow> job_result" where
  "sized env disabled h x = (xf_order (h ! x), projr (job_patch env (h ! x) (may_imgdiff disabled h x)), projr (job_compress env (h ! x)))"

lemma run_sized_job:
  assumes env: "env_ok env ts h" "deflate_ok env" and ord: "\<forall>k<length ts. xf_order (h ! (ts ! k)) = k" and x: "x \<in> set ts" "needs_patch (h ! x)"
  shows "run_job env True ts h (xf_order (h ! x), may_imgdiff disabled h x, k) = Inr (sized env disabled h x)"
    "\<exists>c. projr (job_compress env (h ! x)) = Some c \<and> c \<noteq> 0" "py_get ts (int (xf_order (h ! x))) = Inr x"
proof -
  obtain i where i: "i < length ts" "ts ! i = x" using x(1) by (auto simp: in_set_conv_nth)
  then show g: "py_get ts (int (xf_order (h ! x))) = Inr x" using ord by (auto simp: py_get_nth)
  obtain d where d: "de_tgt env (tgt_ranges (h ! x)) = Inr d" using env(1) x(1) by (auto simp: env_ok_def)
  obtain n where n: "de_deflate env d = Some n" "n \<noteq> 0" using env(2) unfolding deflate_ok_def by blast
  have c: "job_compress env (h ! x) = Inr (Some n)" using d n by (simp add: job_compress_def)
  then show "\<exists>c. projr (job_compress env (h ! x)) = Some c \<and> c \<noteq> 0" using n by simp
  obtain p where "job_patch env (h ! x) (may_imgdiff disabled h x) = Inr p"
    using job_patch_ok[OF env(1) x(1)] x(2) by (auto simp: needs_patch_def)
  then show "run_job env True ts h (xf_order (h ! x), may_imgdiff disabled h x, k) = Inr (sized env disabled h x)"
    using g c by (simp add: run_job_def sized_def Let_def)
qed

lemma add_candidates_ok:
  assumes env: "env_ok env ts h" "deflate_ok env" and ord: "\<forall>k<length ts. xf_order (h ! (ts ! k)) = k"
    and ts: "distinct ts" "\<forall>x\<in>set ts. x < length h" and xs: "distinct xs" "\<forall>x\<in>set xs. x \<in> set ts \<and> needs_patch (h ! x)"
  shows "\<exists>g cands. for_each (add_candidate ts) (h, []) (map (\<lambda>x. Some (sized env disabled h x)) xs) = Inr (g, cands) \<and>
    selected ts h {} g \<and> distinct (map fst cands) \<and> fst ` set cands \<subseteq> set xs"
  using xs
proof (induction xs rule: rev_induct)
  case Nil
  then show ?case using selected_refl by simp
next
  case (snoc x xs)
  then obtain g cands where IH: "for_each (add_candidate ts) (h, []) (map (\<lambda>x. Some (sized env disabled h x)) xs) = Inr (g, cands)"
    "selected ts h {} g" "distinct (map fst cands)" "fst ` set cands \<subseteq> set xs" by auto
  have x: "x \<in> set ts" "needs_patch (h ! x)" "x < length h" "x \<notin> set xs" using snoc.prems ts(2) by auto
  note job = run_sized_job[OF env ord x(1,2)]
  obtain c where c: "projr (job_compress env (h ! x)) = Some c" "c \<noteq> 0" using job(2) by blast
  obtain p where gx: "g ! x = (h ! x)\<lparr>xf_patch_info := p\<rparr>" using IH(2) x(3) by (auto simp: selected_def)
  define y where "y = (if p = None then (g ! x)\<lparr>xf_patch_info := Some (projr (job_patch env (h ! x) (may_imgdiff disabled h x)))\<rparr> else g ! x)"
  have sty: "xf_style (g ! x) = Diff" using gx x(2) by (simp add: needs_patch_def)
  have y: "(if xf_patch_info (g ! x) = None then set_patch_info (Some (projr (job_patch env (h ! x) (may_imgdiff disabled h x)))) (g ! x) else Inr (g ! x)) = Inr y"
    using gx sty by (simp add: set_patch_info_def y_def)
  have yp: "\<exists>p. y = (h ! x)\<lparr>xf_patch_info := p\<rparr> \<and> p \<noteq> None" using gx by (cases p) (auto simp: y_def)
  define cs where "cs = (case candidate_of y x (the (xf_patch_info y)) c of None \<Rightarrow> [] | Some d \<Rightarrow> [d])"
  have "add_candidate ts (g, cands) (Some (sized env disabled h x)) = Inr (g[x := y], cands @ cs)"
    unfolding add_candidate_def sized_def using job(3) y c by (simp add: cs_def)
  moreover have "selected ts h {} (g[x := y])"
    using IH(2) yp x(3) unfolding selected_def by (auto simp: nth_list_update)
  moreover have "set (map fst cs) \<subseteq> {x}" "length cs \<le> 1" by (auto simp: cs_def candidate_of_def Let_def split: option.splits if_splits)
  then have "distinct (map fst (cands @ cs))" "fst ` set (cands @ cs) \<subseteq> set (xs @ [x])"
    using IH(3,4) x(4) by (cases cs; force)+
  ultimately show ?case using IH(1) by (auto simp: for_each_append)
qed

lemma SelectAndConvert_ok:
  assumes env: "env_ok env ts h" "deflate_ok env" and ord: "\<forall>k<length ts. xf_order (h ! (ts ! k)) = k"
    and ts: "distinct ts" "\<forall>x\<in>set ts. x < length h" and stats: "stats_present disabled stats"
  shows "\<exists>h' stats' S. SelectAndConvertDiffTransfersToNew env disabled stats violated ts h = Inr (h', stats') \<and>
    stats_present disabled stats' \<and> selected ts h S h'"
proof -
  define xs where "xs = filter (\<lambda>x. needs_patch (h ! x)) ts"
  define q where "q = map (\<lambda>(k, x). (xf_order (h ! x), may_imgdiff disabled h x, k)) (enumerate 0 xs)"
  obtain stats' where st: "for_each (queue_diff disabled h) ([], stats) ts = Inr (q, stats')" "stats_present disabled stats'"
    using queue_diffs_ok[OF stats, of h ts] unfolding q_def xs_def by blast
  have ix: "indexed q" unfolding indexed_def q_def by (simp add: comp_def split_def enumerate_eq_zip)
  have xs: "distinct xs" "\<forall>x\<in>set xs. x \<in> set ts \<and> needs_patch (h ! x)" using ts(1) by (auto simp: xs_def)
  let ?run = "run_job env True ts h"
  have run: "?run (xf_order (h ! x), may_imgdiff disabled h x, k) = Inr (sized env disabled h x)" if "x \<in> set xs" for x k
    using run_sized_job(1)[OF env ord] xs(2) that by blast
  have "\<forall>j\<in>set q. \<not> isl (?run j)" unfolding q_def using run by (auto dest!: enumerate_mem)
  then have "ComputePatchesForInputList ?run q = map (\<lambda>j. Some (projr (?run j))) q" by (rule ComputePatchesForInputList_ok[OF ix])
  also have "\<dots> = map (\<lambda>(k, x). Some (sized env disabled h x)) (enumerate 0 xs)"
    unfolding q_def map_map by (intro map_cong refl) (auto simp: run dest!: enumerate_mem)
  also have "\<dots> = map (\<lambda>x. Some (sized env disabled h x)) (map snd (enumerate 0 xs))" by (simp only: map_map comp_def split_def)
  finally have res: "ComputePatchesForInputList ?run q = map (\<lambda>x. Some (sized env disabled h x)) xs" by simp
  obtain g cands where g: "for_each (add_candidate ts) (h, []) (map (\<lambda>x. Some (sized env disabled h x)) xs) = Inr (g, cands)"
    "selected ts h {} g" "distinct (map fst cands)" "fst ` set cands \<subseteq> set xs"
    using add_candidates_ok[OF env ord ts xs] by blast
  let ?cs = "sort_key (\<lambda>(_, _, score). score) cands"
  have d: "distinct (map fst ?cs)" using g(3) mset_eq_imp_distinct_iff[of "map fst ?cs" "map fst cands"] by simp
  have "\<forall>c\<in>set ?cs. fst c \<in> set ts \<and> fst c < length h \<and> fst c \<notin> {} \<and> xf_style (h ! fst c) = Diff"
    using g(4) xs(2) ts(2) by (auto simp: needs_patch_def)
  from convert_loop_ok[OF g(2) d this, of violated 0] obtain r g' S where
    "convert_loop violated ?cs 0 g = Inr (r, g')" "selected ts h S g'" by blast
  then show ?thesis using st res g(1) by (auto simp: SelectAndConvertDiffTransfersToNew_def)
qed

section \<open>Properties\<close>

text \<open>C19: the patch files. When the images can be read and the diff programs succeed, \<open>ComputePatches\<close>
  never raises on a sequence of zero, new and diff transfers with non-empty diff targets: \<open>new.dat\<close> is the
  target data of the new transfers in the order of the sequence; zero and new transfers stay as they are; a
  diff transfer whose source and target hashes agree becomes a move without a patch; every other diff
  transfer becomes imgdiff or bsdiff, and the slice of \<open>patch.dat\<close> at its \<open>patch_start\<close> and
  \<open>patch_len\<close> is the patch computed before, or else the output of that diff program on its source and
  target data.\<close>

theorem patch_files_contents:
  assumes ts: "distinct ts" "\<forall>x\<in>set ts. x < length h" and sty: "\<forall>x\<in>set ts. xf_style (h ! x) \<in> {Zero, New, Diff}"
    and env: "env_ok env ts h" and stats: "stats_present disabled stats"
    and sz: "\<forall>x\<in>set ts. xf_style (h ! x) = Diff \<longrightarrow> rs_size (tgt_ranges (h ! x)) \<noteq> 0" "blocksize \<noteq> 0"
  shows "\<exists>h' stats' dat. ComputePatches env disabled stats blocksize ts h = Inr (h', stats', new_data env h ts, dat) \<and>
    (\<forall>x\<in>set ts.
      if xf_style (h ! x) \<noteq> Diff then xf_style (h' ! x) = xf_style (h ! x)
      else if src_sha1 (h ! x) = tgt_sha1 (h ! x) then xf_style (h' ! x) = Move \<and> xf_patch_info (h' ! x) = None
      else xf_style (h' ! x) \<in> {Imgdiff, Bsdiff} \<and>
        (let p = take (nat (patch_len (h' ! x))) (drop (nat (patch_start (h' ! x))) dat) in
         case xf_patch_info (h ! x) of
           Some q \<Rightarrow> p = pi_content q
         | None \<Rightarrow> (\<exists>s d. de_src env (src_ranges (h ! x)) = Inr s \<and> de_tgt env (tgt_ranges (h ! x)) = Inr d \<and>
             de_diff env (xf_style (h' ! x) = Imgdiff) s d = Some p)))"
    (is "\<exists>h' stats' dat. _ \<and> (\<forall>x\<in>set ts. ?P h' dat x)")
proof -
  obtain h' stats' dat ch where run: "ComputePatches env disabled stats blocksize ts h = Inr (h', stats', new_data env h ts, dat)"
    and p: "patched env ts h ch h' dat" using ComputePatches_ok[OF assms] by blast
  have st: "xf_style (h' ! x) = xf_style (styled (h ! x) (ch x))" "xf_patch_info (h' ! x) = xf_patch_info (styled (h ! x) (ch x))"
    if "x \<in> set ts" for x using p that by (force simp: patched_def)+
  have slice: "\<exists>p. job_patch env (h ! x) (ch x) = Inr p \<and>
      take (nat (patch_len (h' ! x))) (drop (nat (patch_start (h' ! x))) dat) = pi_content p"
    if "x \<in> set ts" "needs_patch (h ! x)" for x using p that by (simp add: patched_def)
  have "?P h' dat x" if x: "x \<in> set ts" for x
  proof (cases "needs_patch (h ! x)")
    case True
    then obtain q where "job_patch env (h ! x) (ch x) = Inr q"
      "take (nat (patch_len (h' ! x))) (drop (nat (patch_start (h' ! x))) dat) = pi_content q" using slice x by blast
    moreover have "xf_style (h' ! x) = (if ch x then Imgdiff else Bsdiff)" using True st(1)[OF x] by (auto simp: styled_def needs_patch_def)
    ultimately show ?thesis using True by (auto simp: needs_patch_def Let_def dest!: job_patch_cases split: option.splits)
  next
    case False
    then show ?thesis using st[OF x] by (auto simp: styled_def needs_patch_def)
  qed
  then show ?thesis using run by blast
qed

theorem patch_files_contents_witness:
  "\<exists>h' stats' dat.
     ComputePatches \<lparr>de_src = \<lambda>r. Inr ''old'', de_tgt = \<lambda>r. Inr ''new'', de_diff = \<lambda>b s t. Some (s @ t), de_deflate = \<lambda>d. Some 1\<rparr>
       True None 4096 [1, 0]
       (Transfer_init ''b'' None (RangeSet [3, 4] True []) rs_empty ''t'' ''u'' New
         (Transfer_init ''a'' (Some ''a'') (RangeSet [0, 2] True []) (RangeSet [1, 3] True []) ''t'' ''s'' Diff []))
     = Inr (h', stats', ''new'', dat) \<and> xf_style (h' ! 0) \<in> {Imgdiff, Bsdiff} \<and>
     take (nat (patch_len (h' ! 0))) (drop (nat (patch_start (h' ! 0))) dat) = ''oldnew''"
proof -
  let ?h = "Transfer_init ''b'' None (RangeSet [3, 4] True []) rs_empty ''t'' ''u'' New
    (Transfer_init ''a'' (Some ''a'') (RangeSet [0, 2] True []) (RangeSet [1, 3] True []) ''t'' ''s'' Diff [])"
  let ?env = "\<lparr>de_src = \<lambda>r. Inr ''old'', de_tgt = \<lambda>r. Inr ''new'', de_diff = \<lambda>b s t. Some (s @ t), de_deflate = \<lambda>d. Some 1\<rparr>"
  have 1: "distinct [1, 0 :: nat]" "\<forall>x\<in>set [1, 0]. x < length ?h" "\<forall>x\<in>set [1, 0]. xf_style (?h ! x) \<in> {Zero, New, Diff}"
    by (simp_all add: Transfer_init_def)
  have 2: "env_ok ?env [1, 0] ?h" "stats_present True None" by (simp_all add: env_ok_def stats_present_def)
  have 3: "\<forall>x\<in>set [1, 0]. xf_style (?h ! x) = Diff \<longrightarrow> rs_size (tgt_ranges (?h ! x)) \<noteq> 0" by code_simp
  have n: "new_data ?env ?h [1, 0] = ''new''" by (simp add: new_data_def Transfer_init_def)
  show ?thesis
    using patch_files_contents[OF 1 2 3, of 4096] unfolding n
    by (simp add: Transfer_init_def Let_def) metis
qed

end
