(* ===== verification/Images.thy ===== *)
theory Images
  imports SequenceCheck
begin

text \<open>
  \<open>tools/releasetools/images.py\<close>: the image classes \<open>EmptyImage\<close>, \<open>DataImage\<close> and \<open>FileImage\<close> that
  \<open>BlockImageDiff\<close> works on. Attributes are records; a file on disk is its content; \<open>sha1\<close> is a
  parameter (the hash of the concatenated updates). The locale \<open>block_image\<close> states what
  \<open>BlockImageDiff\<close> relies on, and is interpreted on the classes.

  Python 3 keeps \<open>bytes\<close> and \<open>str\<close> apart: they never compare equal, and mixing them raises. The model
  keeps them apart too, because the code compares the data with the \<open>str\<close> constant \<open>'\0' * blocksize\<close>.
\<close>

section \<open>Data\<close>

datatype buffer = Bytes string | Str string

fun buf_chars :: "buffer \<Rightarrow> string" where
  "buf_chars (Bytes s) = s"
| "buf_chars (Str s) = s"

abbreviation buf_len :: "buffer \<Rightarrow> int" where
  "buf_len b \<equiv> int (length (buf_chars b))"

fun buf_slice :: "buffer \<Rightarrow> int \<Rightarrow> int \<Rightarrow> buffer" where
  "buf_slice (Bytes s) a b = Bytes (py_slice s a b)"
| "buf_slice (Str s) a b = Str (py_slice s a b)"

fun buf_add :: "buffer \<Rightarrow> buffer \<Rightarrow> buffer res" where
  "buf_add (Bytes a) (Bytes b) = Inr (Bytes (a @ b))"
| "buf_add (Str a) (Str b) = Inr (Str (a @ b))"
| "buf_add _ _ = Inl TypeError"

text \<open>Hashing and binary writes take \<open>bytes\<close> only.\<close>

fun as_bytes :: "buffer \<Rightarrow> string res" where
  "as_bytes (Bytes s) = Inr s"
| "as_bytes (Str s) = Inl TypeError"

definition nuls :: "int \<Rightarrow> buffer" where
  "nuls n = Str (replicate (nat n) (CHR 0x00))"

lemma bytes_not_nuls [simp]: "Bytes s \<noteq> nuls n"
  by (simp add: nuls_def)

text \<open>\<open>clobbered_blocks\<close> is a \<open>RangeSet\<close>, except in \<open>DataImage\<close>, which leaves a list there.\<close>

datatype clobbered = ClobSet range_set | ClobList "int list"

record image =
  im_blocksize :: int
  im_total_blocks :: int
  im_care_map :: range_set
  im_clobbered :: clobbered
  im_extended :: range_set
  im_file_map :: "(string, range_set) odict"

record data_image = image +
  di_data :: buffer

record file_image = image +
  fi_content :: string

section \<open>Operations\<close>

text \<open>The methods of the base class \<open>Image\<close>.\<close>

definition Image_method :: "range_set \<Rightarrow> 'a res" where
  "Image_method ranges = Inl NotImplementedError"

definition hash_pieces :: "(string \<Rightarrow> string) \<Rightarrow> buffer list \<Rightarrow> string res" where
  "hash_pieces sha1 ps = try_bind (map_res as_bytes ps) (\<lambda>bs. Inr (sha1 (concat bs)))"

definition write_pieces :: "buffer list \<Rightarrow> string res" where
  "write_pieces ps = try_bind (map_res as_bytes ps) (\<lambda>bs. Inr (concat bs))"

text \<open>\<open>EmptyImage\<close>.\<close>

definition EmptyImage_init :: image where
  "EmptyImage_init = \<lparr>im_blocksize = 4096, im_total_blocks = 0, im_care_map = rs_empty, im_clobbered = ClobSet rs_empty,
     im_extended = rs_empty, im_file_map = []\<rparr>"

definition EmptyImage_RangeSha1 :: "(string \<Rightarrow> string) \<Rightarrow> range_set \<Rightarrow> string res" where
  "EmptyImage_RangeSha1 sha1 ranges = Inr (sha1 [])"

definition EmptyImage_ReadRangeSet :: "range_set \<Rightarrow> buffer list" where
  "EmptyImage_ReadRangeSet ranges = []"

definition EmptyImage_TotalSha1 :: "(string \<Rightarrow> string) \<Rightarrow> image \<Rightarrow> bool \<Rightarrow> string res" where
  "EmptyImage_TotalSha1 sha1 im include_clobbered_blocks =
     (case im_clobbered im of
        ClobSet c \<Rightarrow> try_bind (py_assert (rs_size c = 0)) (\<lambda>_. Inr (sha1 []))
      | ClobList _ \<Rightarrow> Inl AttributeError)"

definition EmptyImage_WriteRangeDataToFd :: "range_set \<Rightarrow> string res" where
  "EmptyImage_WriteRangeDataToFd ranges = Inl ValueError"

text \<open>The loop that sorts the blocks into all-zero blocks and others, on the pair
  \<open>(zero_blocks, nonzero_blocks)\<close> of boundary lists.\<close>

definition classify_block :: "(int \<Rightarrow> bool) \<Rightarrow> int list \<times> int list \<Rightarrow> int \<Rightarrow> int list \<times> int list" where
  "classify_block is_zero = (\<lambda>(zero_blocks, nonzero_blocks) i.
     if is_zero i then (zero_blocks @ [i, i + 1], nonzero_blocks)
     else (zero_blocks, nonzero_blocks @ [i, i + 1]))"

text \<open>\<open>if blocks: self.file_map[name] = RangeSet(data=blocks)\<close>.\<close>

definition add_domain :: "string \<Rightarrow> int list \<Rightarrow> (string, range_set) odict \<Rightarrow> (string, range_set) odict res" where
  "add_domain name bs fm =
     (if bs \<noteq> [] then try_bind (RangeSet_init bs) (\<lambda>r. Inr (dict_set name r fm)) else Inr fm)"

text \<open>\<open>DataImage\<close>. The first part of the constructor trims or pads the data.\<close>

definition fit_data :: "buffer \<Rightarrow> bool \<Rightarrow> bool \<Rightarrow> (buffer \<times> bool) res" where
  "fit_data data trim pad =
     try_bind (py_assert (\<not> (trim \<and> pad))) (\<lambda>_.
       let partial = buf_len data mod 4096 in
       if 0 < partial then
         (if trim then Inr (buf_slice data 0 (- partial), False)
          else if pad then try_bind (buf_add data (nuls (4096 - partial))) (\<lambda>d. Inr (d, True))
          else Inl ValueError)
       else Inr (data, False))"

definition DataImage_init :: "buffer \<Rightarrow> bool \<Rightarrow> bool \<Rightarrow> data_image res" where
  "DataImage_init data0 trim pad =
     try_bind (fit_data data0 trim pad) (\<lambda>(data, padded).
       try_bind (py_assert (buf_len data mod 4096 = 0)) (\<lambda>_.
         let n = buf_len data div 4096 in
         try_bind (RangeSet_init [0, n]) (\<lambda>care_map.
           let clobbered_blocks = (if padded then [n - 1, n] else []);
               (zero_blocks, nonzero_blocks) =
                 foldl (classify_block (\<lambda>i. buf_slice data (i * 4096) ((i + 1) * 4096) = nuls 4096)) ([], [])
                   (py_range 0 (if padded then n - 1 else n))
           in try_bind (py_assert (zero_blocks \<noteq> [] \<or> nonzero_blocks \<noteq> [] \<or> clobbered_blocks \<noteq> [])) (\<lambda>_.
                try_bind (add_domain ''__ZERO'' zero_blocks []) (\<lambda>fm1.
                  try_bind (add_domain ''__NONZERO'' nonzero_blocks fm1) (\<lambda>fm2.
                    try_bind (add_domain ''__COPY'' clobbered_blocks fm2) (\<lambda>fm3.
                      Inr \<lparr>im_blocksize = 4096, im_total_blocks = n, im_care_map = care_map,
                           im_clobbered = ClobList clobbered_blocks, im_extended = rs_empty, im_file_map = fm3,
                           di_data = data\<rparr>)))))))"

definition DataImage_GetRangeData :: "data_image \<Rightarrow> range_set \<Rightarrow> buffer list" where
  "DataImage_GetRangeData im ranges =
     map (\<lambda>(s, e). buf_slice (di_data im) (s * im_blocksize im) (e * im_blocksize im)) (rs_iter ranges)"

definition DataImage_RangeSha1 :: "(string \<Rightarrow> string) \<Rightarrow> data_image \<Rightarrow> range_set \<Rightarrow> string res" where
  "DataImage_RangeSha1 sha1 im ranges = hash_pieces sha1 (DataImage_GetRangeData im ranges)"

definition DataImage_ReadRangeSet :: "data_image \<Rightarrow> range_set \<Rightarrow> buffer list" where
  "DataImage_ReadRangeSet im ranges = DataImage_GetRangeData im ranges"

definition DataImage_TotalSha1 :: "(string \<Rightarrow> string) \<Rightarrow> data_image \<Rightarrow> bool \<Rightarrow> string res" where
  "DataImage_TotalSha1 sha1 im include_clobbered_blocks =
     (if \<not> include_clobbered_blocks then
        (case im_clobbered im of
           ClobSet c \<Rightarrow> DataImage_RangeSha1 sha1 im (rs_subtract (im_care_map im) c)
         | ClobList _ \<Rightarrow> Inl AttributeError)
      else try_bind (as_bytes (di_data im)) (\<lambda>d. Inr (sha1 d)))"

definition DataImage_WriteRangeDataToFd :: "data_image \<Rightarrow> range_set \<Rightarrow> string res" where
  "DataImage_WriteRangeDataToFd im ranges = write_pieces (DataImage_GetRangeData im ranges)"

text \<open>\<open>FileImage\<close>. The message of the size error is formatted with too few arguments, which raises
  \<open>TypeError\<close> before the \<open>ValueError\<close> is built.\<close>

definition FileImage_init :: "string \<Rightarrow> file_image res" where
  "FileImage_init content =
     (if int (length content) mod 4096 \<noteq> 0 then Inl TypeError
      else let n = int (length content) div 4096 in
        try_bind (RangeSet_init [0, n]) (\<lambda>care_map.
          let (zero_blocks, nonzero_blocks) =
                foldl (classify_block (\<lambda>i. Bytes (py_slice content (i * 4096) ((i + 1) * 4096)) = nuls 4096)) ([], [])
                  (py_range 0 n)
          in try_bind (py_assert (zero_blocks \<noteq> [] \<or> nonzero_blocks \<noteq> [])) (\<lambda>_.
               try_bind (add_domain ''__ZERO'' zero_blocks []) (\<lambda>fm1.
                 try_bind (add_domain ''__NONZERO'' nonzero_blocks fm1) (\<lambda>fm2.
                   Inr \<lparr>im_blocksize = 4096, im_total_blocks = n, im_care_map = care_map,
                        im_clobbered = ClobSet rs_empty, im_extended = rs_empty, im_file_map = fm2,
                        fi_content = content\<rparr>)))))"

text \<open>One range: seek (which refuses a negative offset), then one read per block.\<close>

definition read_range :: "file_image \<Rightarrow> int \<times> int \<Rightarrow> buffer list res" where
  "read_range im = (\<lambda>(s, e).
     if s * im_blocksize im < 0 then Inl OSError
     else Inr (map (\<lambda>i. Bytes (py_slice (fi_content im) (i * im_blocksize im) ((i + 1) * im_blocksize im))) (py_range s e)))"

definition FileImage_GetRangeData :: "file_image \<Rightarrow> range_set \<Rightarrow> buffer list res" where
  "FileImage_GetRangeData im ranges = try_bind (map_res (read_range im) (rs_iter ranges)) (\<lambda>ps. Inr (concat ps))"

definition FileImage_RangeSha1 :: "(string \<Rightarrow> string) \<Rightarrow> file_image \<Rightarrow> range_set \<Rightarrow> string res" where
  "FileImage_RangeSha1 sha1 im ranges = try_bind (FileImage_GetRangeData im ranges) (hash_pieces sha1)"

definition FileImage_ReadRangeSet :: "file_image \<Rightarrow> range_set \<Rightarrow> buffer list res" where
  "FileImage_ReadRangeSet im ranges = FileImage_GetRangeData im ranges"

definition FileImage_TotalSha1 :: "(string \<Rightarrow> string) \<Rightarrow> file_image \<Rightarrow> bool \<Rightarrow> string res" where
  "FileImage_TotalSha1 sha1 im include_clobbered_blocks =
     (case im_clobbered im of
        ClobSet c \<Rightarrow> try_bind (py_assert (\<not> rs_bool c)) (\<lambda>_. FileImage_RangeSha1 sha1 im (im_care_map im))
      | ClobList c \<Rightarrow> try_bind (py_assert (c = [])) (\<lambda>_. FileImage_RangeSha1 sha1 im (im_care_map im)))"

definition FileImage_WriteRangeDataToFd :: "file_image \<Rightarrow> range_set \<Rightarrow> string res" where
  "FileImage_WriteRangeDataToFd im ranges = try_bind (FileImage_GetRangeData im ranges) write_pieces"

section \<open>Lists of unit ranges\<close>

text \<open>The boundary lists the constructors build: \<open>i, i + 1\<close> for every block of a class.\<close>

definition unit_ranges :: "int list \<Rightarrow> int list" where
  "unit_ranges bs = concat (map (\<lambda>i. [i, i + 1]) bs)"

lemma unit_ranges_simps [simp]:
  "unit_ranges [] = []" "unit_ranges (i # bs) = i # (i + 1) # unit_ranges bs"
  "unit_ranges (as @ bs) = unit_ranges as @ unit_ranges bs"
  by (simp_all add: unit_ranges_def)

lemma set_unit_ranges: "set (unit_ranges bs) = set bs \<union> (\<lambda>i. i + 1) ` set bs"
  by (induction bs) auto

lemma unit_ranges_even: "even (length (unit_ranges bs))"
  by (induction bs) auto

lemma unit_ranges_Nil [simp]: "unit_ranges bs = [] \<longleftrightarrow> bs = []"
  by (cases bs) auto

lemma sorted_unit_ranges: "sorted_wrt (<) bs \<Longrightarrow> sorted (unit_ranges bs)"
  by (induction bs) (auto simp: set_unit_ranges less_imp_le)

lemma par_unit_ranges: "distinct bs \<Longrightarrow> par (unit_ranges bs) x \<longleftrightarrow> x \<in> set bs"
proof (induction bs)
  case (Cons i bs)
  consider "i < x" | "i = x" | "x < i" by linarith
  then show ?case using Cons by cases (auto simp: par_def)
qed (simp add: par_def)

lemma unit_range_set:
  assumes "sorted_wrt (<) bs"
  shows "RangeSet_init (unit_ranges bs) = Inr (rs_of_data (unit_ranges bs))"
    "wf_rs (rs_of_data (unit_ranges bs))" "blocks (rs_of_data (unit_ranges bs)) = set bs"
  using assms par_unit_ranges[of bs] sorted_unit_ranges[OF assms]
  by (simp_all add: RangeSet_init_even unit_ranges_even wf_rs_of_data strict_sorted_iff)

lemma classify_blocks:
  "foldl (classify_block z) (unit_ranges as, unit_ranges bs) is =
     (unit_ranges (as @ filter z is), unit_ranges (bs @ filter (\<lambda>i. \<not> z i) is))"
proof (induction "is" arbitrary: as bs)
  case (Cons i "is")
  then show ?case using Cons.IH[of "as @ [i]" bs] Cons.IH[of as "bs @ [i]"] by (simp add: classify_block_def)
qed simp

lemmas classify_all = classify_blocks[of _ "[]" "[]", simplified]

lemma sorted_filter_range: "sorted_wrt (<) (filter P [a..b])"
  by (intro sorted_wrt_filter) (simp add: strict_sorted_iff)

text \<open>A domain is added for the blocks of a class, if there are any.\<close>

lemma add_domain_ok:
  assumes "sorted_wrt (<) bs" "name \<notin> fst ` set fm"
  shows "add_domain name (unit_ranges bs) fm = Inr (fm @ (if bs = [] then [] else [(name, rs_of_data (unit_ranges bs))]))"
proof -
  have "dict_set name v fm = fm @ [(name, v)]" for v :: range_set
    using assms(2) by (induction fm) (auto simp: image_iff)
  then show ?thesis using unit_range_set(1)[OF assms(1)] by (simp add: add_domain_def)
qed

text \<open>The domains built from classes of blocks that partition a set form a partition.\<close>

definition domains :: "(string \<times> int list) list \<Rightarrow> (string, range_set) odict" where
  "domains cs = map (\<lambda>(name, bs). (name, rs_of_data (unit_ranges bs))) (filter (\<lambda>c. snd c \<noteq> []) cs)"

lemma domains_partition:
  assumes cs: "\<forall>c\<in>set cs. sorted_wrt (<) (snd c)" "disjoint_seq {} (map (set \<circ> snd) cs)"
    and whole: "wf_rs whole" "blocks whole = (\<Union>c\<in>set cs. set (snd c))"
  shows "AssertPartition whole (map snd (domains cs)) = Inr ()" "\<forall>r\<in>set (map snd (domains cs)). wf_rs r"
proof -
  let ?cs = "filter (\<lambda>c. snd c \<noteq> []) cs"
  show wf: "\<forall>r\<in>set (map snd (domains cs)). wf_rs r" using cs(1) unit_range_set(2) by (auto simp: domains_def)
  have b: "map blocks (map snd (domains cs)) = map (set \<circ> snd) ?cs"
    using cs(1) unit_range_set(3) by (auto simp: domains_def split_def)
  have "disjoint_seq A (map (set \<circ> snd) cs) \<Longrightarrow> disjoint_seq A (map (set \<circ> snd) ?cs)" for A
    by (induction cs arbitrary: A) auto
  then have d: "disjoint_seq {} (map blocks (map snd (domains cs)))" using cs(2) b by simp
  have "\<Union> (blocks ` set (map snd (domains cs))) = \<Union> (set (map blocks (map snd (domains cs))))" by simp
  also have "\<dots> = (\<Union>c\<in>set cs. set (snd c))" unfolding b by auto
  finally show "AssertPartition whole (map snd (domains cs)) = Inr ()"
    using AssertPartition_iff[OF whole(1) wf] d whole(2) by simp
qed

section \<open>The contract of an image\<close>

text \<open>
  What \<open>BlockImageDiff\<close> relies on: the domains partition the care map, the constructor's partition
  assertion therefore passes, reading a set of blocks of the care map gives the blocks in increasing
  order, and the hash of a set of blocks is the hash of what is read.
\<close>

locale block_image =
  fixes valid :: "'im \<Rightarrow> bool" and care :: "'im \<Rightarrow> range_set" and parts :: "'im \<Rightarrow> range_set list"
    and block :: "'im \<Rightarrow> int \<Rightarrow> string"
    and read :: "'im \<Rightarrow> range_set \<Rightarrow> string res" and range_sha1 :: "(string \<Rightarrow> string) \<Rightarrow> 'im \<Rightarrow> range_set \<Rightarrow> string res"
  assumes care_wf: "valid im \<Longrightarrow> nonneg_rs (care im)"
    and parts_wf: "valid im \<Longrightarrow> r \<in> set (parts im) \<Longrightarrow> wf_rs r"
    and partition: "valid im \<Longrightarrow> AssertPartition (care im) (parts im) = Inr ()"
    and block_len: "valid im \<Longrightarrow> b \<in> blocks (care im) \<Longrightarrow> length (block im b) = 4096"
    and read_blocks: "valid im \<Longrightarrow> wf_rs r \<Longrightarrow> blocks r \<subseteq> blocks (care im) \<Longrightarrow>
      read im r = Inr (concat (map (block im) (rs_next_item r)))"
    and sha1_read: "valid im \<Longrightarrow> range_sha1 sha im r = try_bind (read im r) (\<lambda>d. Inr (sha d))"
begin

text \<open>The file map covers exactly the care map, without overlap.\<close>

lemma parts_cover: "valid im \<Longrightarrow> \<Union> (blocks ` set (parts im)) = blocks (care im)"
  and parts_disjoint: "valid im \<Longrightarrow> disjoint_seq {} (map blocks (parts im))"
  using AssertPartition_iff[of "care im" "parts im"] care_wf[of im] parts_wf[of im] partition[of im]
  by (auto simp: nonneg_rs_def)

lemma read_part:
  assumes "valid im" "r \<in> set (parts im)"
  shows "read im r = Inr (concat (map (block im) (rs_next_item r)))"
  using read_blocks[OF assms(1) parts_wf[OF assms]] parts_cover[OF assms(1)] assms(2) by blast

text \<open>The length of what is read is the size of the set, in bytes.\<close>

lemma read_length:
  assumes v: "valid im" and r: "wf_rs r" "blocks r \<subseteq> blocks (care im)" and d: "read im r = Inr d"
  shows "int (length d) = 4096 * rs_size r"
proof -
  have items: "rs_next_item r = sorted_list_of_set (blocks r)" using rs_next_item_eq[OF r(1)] .
  have "d = concat (map (block im) (rs_next_item r))" using read_blocks[OF v r] d by simp
  then have "length d = (\<Sum>b\<leftarrow>rs_next_item r. length (block im b))" by (simp add: length_concat comp_def)
  also have "\<dots> = (\<Sum>b\<leftarrow>rs_next_item r. 4096)"
    using block_len[OF v] r(2) items finite_blocks[OF r(1)] by (intro arg_cong[where f = sum_list] map_cong) auto
  also have "\<dots> = 4096 * card (blocks r)" using items by (simp add: sum_list_triv)
  finally show ?thesis using rs_size_card[OF r(1)] by simp
qed

text \<open>Two images with the same blocks give the same data and the same hash.\<close>

lemma same_blocks_same_sha1:
  assumes "valid a" "valid b" "wf_rs r" "blocks r \<subseteq> blocks (care a)" "blocks r \<subseteq> blocks (care b)"
    and "\<And>x. x \<in> blocks r \<Longrightarrow> block a x = block b x"
  shows "range_sha1 sha a r = range_sha1 sha b r"
proof -
  have eq: "map (block a) (rs_next_item r) = map (block b) (rs_next_item r)"
    using assms(3,6) by (auto simp: rs_next_item_eq)
  show ?thesis
    unfolding sha1_read[OF assms(1)] sha1_read[OF assms(2)] read_blocks[OF assms(1,3,4)] read_blocks[OF assms(2,3,5)] eq ..
qed

end

section \<open>The classes meet the contract\<close>

definition block_classes :: "(int \<Rightarrow> bool) \<Rightarrow> int \<Rightarrow> int \<Rightarrow> (string \<times> int list) list" where
  "block_classes z m n = [(''__ZERO'', filter z [0..m - 1]), (''__NONZERO'', filter (\<lambda>i. \<not> z i) [0..m - 1]), (''__COPY'', [m..n - 1])]"

lemma block_classes_partition:
  assumes "0 \<le> m" "m \<le> n"
  shows "AssertPartition (rs_of_data [0, n]) (map snd (domains (block_classes z m n))) = Inr ()"
    "\<forall>r\<in>set (map snd (domains (block_classes z m n))). wf_rs r"
proof -
  have wf: "wf_rs (rs_of_data [0, n])" "blocks (rs_of_data [0, n]) = {0..<n}" using blocks_interval[of n] assms by auto
  have s: "\<forall>c\<in>set (block_classes z m n). sorted_wrt (<) (snd c)"
    using sorted_filter_range sorted_filter_range[of "\<lambda>_. True"] by (simp add: block_classes_def)
  have d: "disjoint_seq {} (map (set \<circ> snd) (block_classes z m n))" by (auto simp: block_classes_def)
  have u: "blocks (rs_of_data [0, n]) = (\<Union>c\<in>set (block_classes z m n). set (snd c))"
    unfolding wf(2) using assms by (auto simp: block_classes_def)
  show "AssertPartition (rs_of_data [0, n]) (map snd (domains (block_classes z m n))) = Inr ()"
    "\<forall>r\<in>set (map snd (domains (block_classes z m n))). wf_rs r"
    using domains_partition[OF s d wf(1) u] by auto
qed

lemma add_domains:
  "try_bind (add_domain ''__ZERO'' (unit_ranges (filter z [0..m - 1])) []) (\<lambda>fm1.
     try_bind (add_domain ''__NONZERO'' (unit_ranges (filter (\<lambda>i. \<not> z i) [0..m - 1])) fm1) (\<lambda>fm2.
       try_bind (add_domain ''__COPY'' (unit_ranges [m..n - 1]) fm2) k)) = k (domains (block_classes z m n))"
  using sorted_filter_range sorted_filter_range[of "\<lambda>_. True"]
  by (simp add: add_domain_ok domains_def block_classes_def)

lemma fit_data_ok:
  assumes "fit_data data0 trim pad = Inr (data, padded)"
  shows "buf_len data mod 4096 = 0" "padded \<longrightarrow> 4096 \<le> buf_len data" "padded \<longrightarrow> (\<exists>s. data = Str s)"
    "\<not> padded \<longrightarrow> data = buf_slice data0 0 (buf_len data0 - buf_len data0 mod 4096)"
proof -
  let ?p = "buf_len data0 mod 4096"
  have full: "buf_slice b 0 (buf_len b) = b" for b by (cases b) (simp_all add: py_slice_inside)
  have p: "0 \<le> ?p" "?p < 4096" "?p \<le> buf_len data0" by (simp_all add: zmod_le_nonneg_dividend)
  consider "?p = 0" "data = data0" "\<not> padded" | "0 < ?p" "trim" "data = buf_slice data0 0 (- ?p)" "\<not> padded"
    | "0 < ?p" "padded" "buf_add data0 (nuls (4096 - ?p)) = Inr data"
    using assms p by (auto simp: fit_data_def Let_def split: if_splits)
  then have "buf_len data mod 4096 = 0 \<and> (padded \<longrightarrow> 4096 \<le> buf_len data) \<and> (padded \<longrightarrow> (\<exists>s. data = Str s)) \<and>
    (\<not> padded \<longrightarrow> data = buf_slice data0 0 (buf_len data0 - ?p))"
  proof cases
    case 1
    then show ?thesis using full by simp
  next
    case 2
    have eq: "buf_slice data0 0 (- ?p) = buf_slice data0 0 (buf_len data0 - ?p)"
      using 2(1) p by (cases data0) (simp_all add: py_slice_def slice_bound_def)
    have "buf_len (buf_slice data0 0 (buf_len data0 - ?p)) = buf_len data0 - ?p"
      using p by (cases data0) (simp_all add: length_py_slice)
    then show ?thesis using 2 eq by (simp add: mod_diff_eq[symmetric])
  next
    case 3
    then obtain s where s: "data0 = Str s" "data = Str (s @ replicate (nat (4096 - ?p)) (CHR 0x00))"
      by (cases data0) (auto simp: nuls_def)
    then have l: "buf_len data = buf_len data0 - ?p + 4096" using p by simp
    have "(buf_len data0 - ?p) mod 4096 = 0" by (simp add: mod_diff_eq[symmetric])
    then have "buf_len data mod 4096 = 0" using l by (metis mod_add_self2)
    then show ?thesis using 3 s l p by simp
  qed
  then show "buf_len data mod 4096 = 0" "padded \<longrightarrow> 4096 \<le> buf_len data" "padded \<longrightarrow> (\<exists>s. data = Str s)"
    "\<not> padded \<longrightarrow> data = buf_slice data0 0 (buf_len data0 - buf_len data0 mod 4096)" by auto
qed

lemma DataImage_init_fields:
  assumes "DataImage_init data0 trim pad = Inr im"
  obtains data padded z n m where "fit_data data0 trim pad = Inr (data, padded)"
    "buf_len data = 4096 * n" "0 < n" "m = (if padded then n - 1 else n)"
    "z = (\<lambda>i. buf_slice data (i * 4096) ((i + 1) * 4096) = nuls 4096)"
    "im = \<lparr>im_blocksize = 4096, im_total_blocks = n, im_care_map = rs_of_data [0, n],
           im_clobbered = ClobList (if padded then [n - 1, n] else []), im_extended = rs_empty,
           im_file_map = domains (block_classes z m n), di_data = data\<rparr>"
proof -
  obtain data padded where fd: "fit_data data0 trim pad = Inr (data, padded)"
    using assms by (auto simp: DataImage_init_def)
  define n where "n = buf_len data div 4096"
  define m where "m = (if padded then n - 1 else n)"
  define z where "z = (\<lambda>i. buf_slice data (i * 4096) ((i + 1) * 4096) = nuls 4096)"
  have len: "buf_len data = 4096 * n" using fit_data_ok(1)[OF fd] mult_div_mod_eq[of 4096 "buf_len data"] by (simp add: n_def)
  have clob: "(if padded then [n - 1, n] else []) = unit_ranges [m..n - 1]" by (simp add: m_def)
  have care: "RangeSet_init [0, n] = Inr (rs_of_data [0, n])" by (simp add: RangeSet_init_even)
  have fold: "foldl (classify_block (\<lambda>i. buf_slice data (i * 4096) ((i + 1) * 4096) = nuls 4096)) ([], []) [0..m - 1] =
      (unit_ranges (filter z [0..m - 1]), unit_ranges (filter (\<lambda>i. \<not> z i) [0..m - 1]))"
    using classify_all[of z "[0..m - 1]"] by (simp add: z_def)
  have e: "DataImage_init data0 trim pad = try_bind (py_assert
      (unit_ranges (filter z [0..m - 1]) \<noteq> [] \<or> unit_ranges (filter (\<lambda>i. \<not> z i) [0..m - 1]) \<noteq> [] \<or> unit_ranges [m..n - 1] \<noteq> []))
      (\<lambda>_. Inr \<lparr>im_blocksize = 4096, im_total_blocks = n, im_care_map = rs_of_data [0, n],
         im_clobbered = ClobList (unit_ranges [m..n - 1]), im_extended = rs_empty,
         im_file_map = domains (block_classes z m n), di_data = data\<rparr>)"
    unfolding DataImage_init_def fd try_bind_simps prod.case Let_def n_def[symmetric] care clob
      m_def[symmetric] fold add_domains using len by (simp only: mod_mult_self1_is_0 py_assert_simps simp_thms try_bind_simps)
  have ne: "filter z [0..m - 1] \<noteq> [] \<or> filter (\<lambda>i. \<not> z i) [0..m - 1] \<noteq> [] \<or> [m..n - 1] \<noteq> []"
    using assms unfolding e by (auto simp: py_assert_def split: if_splits)
  have "0 < n"
  proof (rule ccontr)
    assume "\<not> 0 < n"
    then have "m \<le> 0" "n \<le> 0" by (auto simp: m_def)
    moreover have "\<not> m \<le> n - 1"
      using fit_data_ok(2)[OF fd] len \<open>n \<le> 0\<close> by (auto simp: m_def)
    ultimately show False using ne by simp
  qed
  moreover have "im = \<lparr>im_blocksize = 4096, im_total_blocks = n, im_care_map = rs_of_data [0, n],
           im_clobbered = ClobList (if padded then [n - 1, n] else []), im_extended = rs_empty,
           im_file_map = domains (block_classes z m n), di_data = data\<rparr>"
    using assms unfolding e clob using ne by (simp add: py_assert_def)
  ultimately show ?thesis using that fd len m_def z_def by blast
qed

lemma concat_concat_map: "concat (map f (concat xss)) = concat (map (\<lambda>xs. concat (map f xs)) xss)"
  by (induction xss) auto

text \<open>The bytes of one block.\<close>

definition nth_block :: "string \<Rightarrow> int \<Rightarrow> string" where
  "nth_block d i = py_slice d (i * 4096) ((i + 1) * 4096)"

lemma nth_block_take:
  assumes "0 \<le> b" "nat ((b + 1) * 4096) \<le> k" "k \<le> length d"
  shows "nth_block (take k d) b = nth_block d b"
  using assms by (simp add: nth_block_def py_slice_inside drop_take min_def)

lemma slice_blocks:
  assumes "0 \<le> s" "s \<le> e" "e * 4096 \<le> int (length d)"
  shows "py_slice d (s * 4096) (e * 4096) = concat (map (nth_block d) [s..e - 1])"
  using assms
proof (induction "nat (e - s)" arbitrary: s)
  case 0
  then show ?case by (simp add: py_slice_inside)
next
  case (Suc n)
  then have l: "s < e" "n = nat (e - (s + 1))" by auto
  have "py_slice d (s * 4096) (e * 4096) = nth_block d s @ py_slice d ((s + 1) * 4096) (e * 4096)"
    unfolding nth_block_def using Suc.prems l(1) by (intro py_slice_append[symmetric]) auto
  also have "\<dots> = nth_block d s @ concat (map (nth_block d) [s + 1..e - 1])" using Suc.hyps(1)[OF l(2)] Suc.prems l(1) by simp
  finally show ?case using l(1) by (simp add: upto_rec1)
qed

lemma iter_inside:
  assumes "wf_rs r" "blocks r \<subseteq> {0..<n}" "(s, e) \<in> set (rs_iter r)"
  shows "0 \<le> s" "s < e" "e \<le> n"
proof -
  have "s < e" using assms(1,3) pairs_bounds[of "rs_data r" s e] by (auto simp: wf_rs_def rs_iter_def)
  then have "s \<in> blocks r" "e - 1 \<in> blocks r" using rs_iter_blocks[OF assms(1)] assms(3) by force+
  then show "0 \<le> s" "s < e" "e \<le> n" using assms(2) \<open>s < e\<close> by auto
qed

lemma read_all:
  assumes "wf_rs r" "blocks r \<subseteq> {0..<n}" "int (length d) = n * 4096"
  shows "concat (map (\<lambda>(s, e). py_slice d (s * 4096) (e * 4096)) (rs_iter r)) = concat (map (nth_block d) (rs_next_item r))"
proof -
  have eq: "map (\<lambda>(s, e). py_slice d (s * 4096) (e * 4096)) (rs_iter r) = map (\<lambda>(s, e). concat (map (nth_block d) [s..e - 1])) (rs_iter r)"
    using iter_inside[OF assms(1,2)] slice_blocks[of _ _ d] assms(3) by (fastforce intro!: map_cong)
  show ?thesis unfolding eq by (simp add: rs_next_item_def concat_concat_map comp_def split_def)
qed

lemma map_as_bytes: "map_res as_bytes (map (\<lambda>x. Bytes (f x)) xs) = Inr (map f xs)"
  by (induction xs) auto

definition valid_data :: "data_image \<Rightarrow> bool" where
  "valid_data im = (\<exists>d. di_data im = Bytes d \<and> im_blocksize im = 4096 \<and> 0 < im_total_blocks im \<and>
     int (length d) = im_total_blocks im * 4096 \<and> im_care_map im = rs_of_data [0, im_total_blocks im] \<and>
     AssertPartition (im_care_map im) (map snd (im_file_map im)) = Inr () \<and> (\<forall>r\<in>set (map snd (im_file_map im)). wf_rs r))"

definition valid_file :: "file_image \<Rightarrow> bool" where
  "valid_file im = (im_blocksize im = 4096 \<and> 0 < im_total_blocks im \<and>
     int (length (fi_content im)) = im_total_blocks im * 4096 \<and> im_care_map im = rs_of_data [0, im_total_blocks im] \<and>
     im_clobbered im = ClobSet rs_empty \<and>
     AssertPartition (im_care_map im) (map snd (im_file_map im)) = Inr () \<and> (\<forall>r\<in>set (map snd (im_file_map im)). wf_rs r))"

lemma care_nonneg: "0 \<le> n \<Longrightarrow> nonneg_rs (rs_of_data [0, n])"
  using blocks_interval[of n] by (auto simp: nonneg_rs_def rs_of_data_def remove_pairs_def)

lemma length_nth_block:
  "0 \<le> b \<Longrightarrow> b < n \<Longrightarrow> int (length d) = n * 4096 \<Longrightarrow> length (nth_block d b) = 4096"
  using length_py_slice[of "b * 4096" "(b + 1) * 4096" d] by (simp add: nth_block_def)

interpretation data_img: block_image valid_data im_care_map "\<lambda>im. map snd (im_file_map im)"
  "\<lambda>im. nth_block (buf_chars (di_data im))" DataImage_WriteRangeDataToFd DataImage_RangeSha1
proof
  fix im :: data_image and r sha b assume v: "valid_data im"
  then obtain d where d: "di_data im = Bytes d" "im_blocksize im = 4096" "0 < im_total_blocks im"
    "int (length d) = im_total_blocks im * 4096" "im_care_map im = rs_of_data [0, im_total_blocks im]" by (auto simp: valid_data_def)
  have c: "blocks (im_care_map im) = {0..<im_total_blocks im}" using d(3,5) blocks_interval[of "im_total_blocks im"] by simp
  show "nonneg_rs (im_care_map im)" using d care_nonneg by simp
  show "b \<in> blocks (im_care_map im) \<Longrightarrow> length (nth_block (buf_chars (di_data im)) b) = 4096"
    using c d(1,4) length_nth_block[of b "im_total_blocks im" d] unfolding c by simp
  have g: "map_res as_bytes (DataImage_GetRangeData im r) = Inr (map (\<lambda>(s, e). py_slice d (s * 4096) (e * 4096)) (rs_iter r))"
    using map_as_bytes[of "\<lambda>(s, e). py_slice d (s * 4096) (e * 4096)" "rs_iter r"] d(1,2)
    by (simp add: DataImage_GetRangeData_def split_def)
  show "wf_rs r \<Longrightarrow> blocks r \<subseteq> blocks (im_care_map im) \<Longrightarrow>
      DataImage_WriteRangeDataToFd im r = Inr (concat (map (nth_block (buf_chars (di_data im))) (rs_next_item r)))"
    using g read_all[of r "im_total_blocks im" d] c d by (simp add: DataImage_WriteRangeDataToFd_def write_pieces_def)
  show "DataImage_RangeSha1 sha im r = try_bind (DataImage_WriteRangeDataToFd im r) (\<lambda>d. Inr (sha d))"
    using g by (simp add: DataImage_RangeSha1_def DataImage_WriteRangeDataToFd_def write_pieces_def hash_pieces_def)
qed (auto simp: valid_data_def)

lemma FileImage_read:
  assumes "valid_file im" "wf_rs r" "blocks r \<subseteq> {0..<im_total_blocks im}"
  shows "FileImage_GetRangeData im r = Inr (map (\<lambda>b. Bytes (nth_block (fi_content im) b)) (rs_next_item r))"
proof -
  have bs: "im_blocksize im = 4096" using assms(1) by (simp add: valid_file_def)
  have "map_res (read_range im) (rs_iter r) = Inr (map (\<lambda>(s, e). map (\<lambda>b. Bytes (nth_block (fi_content im) b)) [s..e - 1]) (rs_iter r))"
    using iter_inside[OF assms(2,3)] bs
    by (intro map_res_Inr) (fastforce simp: read_range_def nth_block_def)
  then show ?thesis
    by (simp add: FileImage_GetRangeData_def rs_next_item_def map_concat comp_def split_def)
qed

text \<open>Outside the image the reads of a \<open>FileImage\<close> may raise, and then the hash raises the same.\<close>

lemma FileImage_bytes: "FileImage_GetRangeData im r = Inr ps \<Longrightarrow> \<exists>bs. map_res as_bytes ps = Inr bs"
proof -
  have "map_res (read_range im) rs = Inr pss \<Longrightarrow> \<forall>p\<in>set (concat pss). \<exists>s. p = Bytes s" for rs pss
    by (induction rs arbitrary: pss) (auto simp: read_range_def split: if_splits)
  moreover have "\<forall>p\<in>set qs. \<exists>s. p = Bytes s \<Longrightarrow> \<exists>bs. map_res as_bytes qs = Inr bs" for qs by (induction qs) auto
  ultimately show "FileImage_GetRangeData im r = Inr ps \<Longrightarrow> \<exists>bs. map_res as_bytes ps = Inr bs"
    unfolding FileImage_GetRangeData_def by blast
qed

interpretation file_img: block_image valid_file im_care_map "\<lambda>im. map snd (im_file_map im)"
  "\<lambda>im. nth_block (fi_content im)" FileImage_WriteRangeDataToFd FileImage_RangeSha1
proof
  fix im :: file_image and r sha b assume v: "valid_file im"
  then have d: "0 < im_total_blocks im" "int (length (fi_content im)) = im_total_blocks im * 4096"
    "im_care_map im = rs_of_data [0, im_total_blocks im]" by (auto simp: valid_file_def)
  have c: "blocks (im_care_map im) = {0..<im_total_blocks im}" using d(1,3) blocks_interval[of "im_total_blocks im"] by simp
  show "nonneg_rs (im_care_map im)" using d care_nonneg by simp
  show "b \<in> blocks (im_care_map im) \<Longrightarrow> length (nth_block (fi_content im) b) = 4096"
    using d(2) length_nth_block[of b "im_total_blocks im" "fi_content im"] unfolding c by simp
  show "wf_rs r \<Longrightarrow> blocks r \<subseteq> blocks (im_care_map im) \<Longrightarrow>
      FileImage_WriteRangeDataToFd im r = Inr (concat (map (nth_block (fi_content im)) (rs_next_item r)))"
    unfolding c using FileImage_read[OF v, of r] map_as_bytes[of "nth_block (fi_content im)" "rs_next_item r"]
    by (simp add: FileImage_WriteRangeDataToFd_def write_pieces_def)
  show "FileImage_RangeSha1 sha im r = try_bind (FileImage_WriteRangeDataToFd im r) (\<lambda>d. Inr (sha d))"
    using FileImage_bytes[of im r]
    by (cases "FileImage_GetRangeData im r") (auto simp: FileImage_RangeSha1_def FileImage_WriteRangeDataToFd_def hash_pieces_def write_pieces_def)
qed (auto simp: valid_file_def)

text \<open>What the constructors return is valid.\<close>

lemma py_slice_take: "k \<le> length d \<Longrightarrow> py_slice d 0 (int k) = take k d"
  by (simp add: py_slice_inside)

lemma DataImage_init_valid:
  assumes "DataImage_init (Bytes d) trim pad = Inr im"
  shows "valid_data im" "im_file_map im = [(''__NONZERO'', rs_of_data (unit_ranges [0..im_total_blocks im - 1]))]"
    "di_data im = Bytes (take (4096 * (length d div 4096)) d)"
proof -
  obtain data padded z n m where f: "fit_data (Bytes d) trim pad = Inr (data, padded)"
    "buf_len data = 4096 * n" "0 < n" "m = (if padded then n - 1 else n)"
    "z = (\<lambda>i. buf_slice data (i * 4096) ((i + 1) * 4096) = nuls 4096)"
    "im = \<lparr>im_blocksize = 4096, im_total_blocks = n, im_care_map = rs_of_data [0, n],
           im_clobbered = ClobList (if padded then [n - 1, n] else []), im_extended = rs_empty,
           im_file_map = domains (block_classes z m n), di_data = data\<rparr>" by (rule DataImage_init_fields[OF assms])
  have "buf_add (Bytes d) (nuls k) = Inl TypeError" for k by (simp add: nuls_def)
  then have np: "\<not> padded" using f(1) by (auto simp: fit_data_def Let_def split: if_splits)
  then have data: "data = Bytes (py_slice d 0 (int (length d) - int (length d) mod 4096))"
    using fit_data_ok(4)[OF f(1)] by simp
  have cut: "int (length d) - int (length d) mod 4096 = int (4096 * (length d div 4096))"
    unfolding minus_mod_eq_mult_div by (simp add: zdiv_int)
  have data: "data = Bytes (take (4096 * (length d div 4096)) d)"
    using data unfolding cut py_slice_take[OF times_div_less_eq_dividend] .
  show "di_data im = Bytes (take (4096 * (length d div 4096)) d)" using f(6) data by simp
  have z: "z = (\<lambda>i. False)" using f(5) data by simp
  have "m = n" using f(4) np by simp
  then show "im_file_map im = [(''__NONZERO'', rs_of_data (unit_ranges [0..im_total_blocks im - 1]))]"
    using f(3,6) z by (simp add: domains_def block_classes_def)
  show "valid_data im"
    using f(2,3,6) block_classes_partition[of m n z] \<open>m = n\<close> data by (simp add: valid_data_def)
qed

lemma FileImage_init_valid:
  assumes "FileImage_init content = Inr im"
  shows "valid_file im" "im_file_map im = [(''__NONZERO'', rs_of_data (unit_ranges [0..im_total_blocks im - 1]))]"
    "fi_content im = content"
proof -
  define n where "n = int (length content) div 4096"
  have m: "int (length content) mod 4096 = 0" using assms by (auto simp: FileImage_init_def split: if_splits)
  then have len: "int (length content) = 4096 * n" using mult_div_mod_eq[of 4096 "int (length content)"] by (simp add: n_def)
  have care: "RangeSet_init [0, n] = Inr (rs_of_data [0, n])" by (simp add: RangeSet_init_even)
  have fold: "foldl (classify_block (\<lambda>i. Bytes (py_slice content (i * 4096) ((i + 1) * 4096)) = nuls 4096)) ([], []) [0..n - 1] =
      ([], unit_ranges [0..n - 1])"
    using classify_all[of "\<lambda>i. False" "[0..n - 1]"] by simp
  have "FileImage_init content = try_bind (py_assert ([] \<noteq> ([] :: int list) \<or> unit_ranges [0..n - 1] \<noteq> [])) (\<lambda>_.
      try_bind (add_domain ''__ZERO'' [] []) (\<lambda>fm1. try_bind (add_domain ''__NONZERO'' (unit_ranges [0..n - 1]) fm1) (\<lambda>fm2.
        Inr \<lparr>im_blocksize = 4096, im_total_blocks = n, im_care_map = rs_of_data [0, n], im_clobbered = ClobSet rs_empty,
             im_extended = rs_empty, im_file_map = fm2, fi_content = content\<rparr>)))"
    using m care fold by (simp only: FileImage_init_def Let_def n_def[symmetric] if_False simp_thms try_bind_simps prod.case)
  also have "\<dots> = (if 0 < n then Inr \<lparr>im_blocksize = 4096, im_total_blocks = n, im_care_map = rs_of_data [0, n], im_clobbered = ClobSet rs_empty,
             im_extended = rs_empty, im_file_map = [(''__NONZERO'', rs_of_data (unit_ranges [0..n - 1]))], fi_content = content\<rparr> else Inl AssertionError)"
    using add_domain_ok[OF sorted_filter_range[of "\<lambda>_. True" 0 "n - 1"], of "''__NONZERO''" "[]"]
    by (simp add: add_domain_def[of _ "[]"] py_assert_def)
  finally have e: "0 < n" "im = \<lparr>im_blocksize = 4096, im_total_blocks = n, im_care_map = rs_of_data [0, n], im_clobbered = ClobSet rs_empty,
             im_extended = rs_empty, im_file_map = [(''__NONZERO'', rs_of_data (unit_ranges [0..n - 1]))], fi_content = content\<rparr>"
    using assms by (auto split: if_splits)
  have "domains (block_classes (\<lambda>_. False) n n) = [(''__NONZERO'', rs_of_data (unit_ranges [0..n - 1]))]"
    using e(1) by (simp add: domains_def block_classes_def)
  then show "valid_file im" using block_classes_partition[of n n "\<lambda>_. False"] e len by (simp add: valid_file_def)
  show "im_file_map im = [(''__NONZERO'', rs_of_data (unit_ranges [0..im_total_blocks im - 1]))]" "fi_content im = content"
    using e by auto
qed

section \<open>Properties\<close>

text \<open>C15: both image classes partition their blocks. Whatever the constructor of a \<open>DataImage\<close> (from
  bytes, trimmed or not) or of a \<open>FileImage\<close> returns passes the partition assertion of
  \<open>BlockImageDiff.__init__\<close>, its blocks are numbered from 0 to the size, and reading or hashing any set
  of those blocks gives the corresponding 4096-byte pieces of the data in increasing order.\<close>

theorem image_contract:
  assumes "DataImage_init (Bytes d) trim pad = Inr im" "FileImage_init content = Inr fim"
    and "wf_rs r" "blocks r \<subseteq> blocks (im_care_map im)" "wf_rs q" "blocks q \<subseteq> blocks (im_care_map fim)"
  shows "AssertPartition (im_care_map im) (map snd (im_file_map im)) = Inr () \<and>
    AssertPartition (im_care_map fim) (map snd (im_file_map fim)) = Inr () \<and>
    blocks (im_care_map im) = {0..<int (length d) div 4096} \<and> blocks (im_care_map fim) = {0..<int (length content) div 4096} \<and>
    DataImage_RangeSha1 sha im r = Inr (sha (concat (map (nth_block d) (rs_next_item r)))) \<and>
    FileImage_RangeSha1 sha fim q = Inr (sha (concat (map (nth_block content) (rs_next_item q))))"
proof -
  note v = DataImage_init_valid[OF assms(1)] and w = FileImage_init_valid[OF assms(2)]
  have le: "4096 * (length d div 4096) \<le> length d" by (rule times_div_less_eq_dividend)
  have t: "im_total_blocks im = int (length d div 4096)" using v(1,3) le by (auto simp: valid_data_def)
  have t2: "int (length d div 4096) = int (length d) div 4096" by (simp add: zdiv_int)
  have t': "im_total_blocks fim = int (length content) div 4096" using w(1,3) by (auto simp: valid_file_def)
  have c: "blocks (im_care_map im) = {0..<im_total_blocks im}" "blocks (im_care_map fim) = {0..<im_total_blocks fim}"
    using v(1) w(1) blocks_interval[of "im_total_blocks im"] blocks_interval[of "im_total_blocks fim"]
    by (auto simp: valid_data_def valid_file_def)
  have nb: "nth_block (take (4096 * (length d div 4096)) d) b = nth_block d b" if "b \<in> blocks r" for b
  proof -
    have b: "0 \<le> b" "b < int (length d div 4096)" using that assms(4) unfolding c(1) t by auto
    have "nat ((b + 1) * 4096) \<le> 4096 * K" if "b < int K" for K using that unfolding nat_le_iff by simp
    from nth_block_take[OF b(1) this[OF b(2)] le] show ?thesis .
  qed
  have eq: "map (nth_block (take (4096 * (length d div 4096)) d)) (rs_next_item r) = map (nth_block d) (rs_next_item r)"
    using nb by (auto simp: rs_next_item_eq[OF assms(3)] assms(3))
  have "DataImage_RangeSha1 sha im r = Inr (sha (concat (map (nth_block d) (rs_next_item r))))"
    unfolding data_img.sha1_read[OF v(1)] data_img.read_blocks[OF v(1) assms(3,4)] v(3) try_bind_simps buf_chars.simps eq ..
  moreover have "FileImage_RangeSha1 sha fim q = Inr (sha (concat (map (nth_block content) (rs_next_item q))))"
    unfolding file_img.sha1_read[OF w(1)] file_img.read_blocks[OF w(1) assms(5,6)] w(3) by simp
  ultimately show ?thesis
    using data_img.partition[OF v(1)] file_img.partition[OF w(1)] unfolding c t t' t2 by blast
qed

lemma image_of_block:
  assumes "length d = 4096"
  shows "\<exists>im. DataImage_init (Bytes d) trim False = Inr im" "\<exists>fim. FileImage_init d = Inr fim"
proof -
  have r: "[0..0 :: int] = [0]" by simp
  show "\<exists>im. DataImage_init (Bytes d) trim False = Inr im"
    using assms r by (simp add: DataImage_init_def fit_data_def RangeSet_init_even classify_block_def add_domain_def)
  show "\<exists>fim. FileImage_init d = Inr fim"
    using assms r by (simp add: FileImage_init_def RangeSet_init_even classify_block_def add_domain_def)
qed

theorem image_contract_witness:
  "\<exists>im fim. DataImage_init (Bytes (replicate 4096 (CHR ''a''))) False False = Inr im \<and>
     FileImage_init (replicate 4096 (CHR ''b'')) = Inr fim \<and>
     AssertPartition (im_care_map im) (map snd (im_file_map im)) = Inr () \<and>
     DataImage_RangeSha1 id im rs_empty = Inr '''' \<and> FileImage_RangeSha1 id fim rs_empty = Inr ''''"
proof -
  have l: "length (replicate 4096 c) = 4096" for c :: char by (rule length_replicate)
  obtain im fim where im: "DataImage_init (Bytes (replicate 4096 (CHR ''a''))) False False = Inr im"
    "FileImage_init (replicate 4096 (CHR ''b'')) = Inr fim" using image_of_block[OF l] by blast
  have e: "rs_next_item rs_empty = []" by (simp add: rs_next_item_eq)
  from image_contract[OF im rs_empty_simps(1) _ rs_empty_simps(1), of id] im e show ?thesis
    by (simp only: rs_empty_simps(2) empty_subsetI list.map concat.simps id_apply) blast
qed

text \<open>C16: an image file and its content held in memory are the same image: the constructors of
  \<open>FileImage\<close> and of \<open>DataImage\<close> on the same bytes succeed together, with the same block count, care
  map and file map, and every set of blocks of the image has the same hash in both.\<close>

theorem file_and_data_image_agree:
  assumes "int (length content) mod 4096 = 0" "0 < length content"
  shows "\<exists>im fim. DataImage_init (Bytes content) False False = Inr im \<and> FileImage_init content = Inr fim \<and>
    im_total_blocks im = im_total_blocks fim \<and> im_care_map im = im_care_map fim \<and> im_file_map im = im_file_map fim \<and>
    (\<forall>r sha. wf_rs r \<longrightarrow> blocks r \<subseteq> blocks (im_care_map im) \<longrightarrow> DataImage_RangeSha1 sha im r = FileImage_RangeSha1 sha fim r)"
proof -
  define n where "n = int (length content) div 4096"
  have len: "int (length content) = 4096 * n" using assms(1) mult_div_mod_eq[of 4096 "int (length content)"] by (simp add: n_def)
  then have n: "0 < n" using assms(2) by linarith
  have ne: "unit_ranges [0..n - 1] \<noteq> []" using n by simp
  have care: "RangeSet_init [0, n] = Inr (rs_of_data [0, n])" by (simp add: RangeSet_init_even)
  have dom: "add_domain ''__NONZERO'' (unit_ranges [0..n - 1]) [] = Inr [(''__NONZERO'', rs_of_data (unit_ranges [0..n - 1]))]"
    using add_domain_ok[OF sorted_filter_range[of "\<lambda>_. True" 0 "n - 1"], of "''__NONZERO''" "[]"] n by simp
  have c0: "foldl (classify_block (\<lambda>i. False)) ([], []) [0..n - 1] = ([], unit_ranges [0..n - 1])"
    using classify_all[of "\<lambda>i. False" "[0..n - 1]"] by simp
  obtain im where im: "DataImage_init (Bytes content) False False = Inr im"
    using assms(1) care dom c0 ne n
    by (simp add: DataImage_init_def fit_data_def Let_def n_def[symmetric] add_domain_def[of _ "[]"])
  obtain fim where fim: "FileImage_init content = Inr fim"
    using assms(1) care dom c0 ne n by (simp add: FileImage_init_def Let_def n_def[symmetric] add_domain_def[of _ "[]"])
  note v = DataImage_init_valid[OF im] and w = FileImage_init_valid[OF fim]
  have whole: "di_data im = Bytes content"
  proof -
    have "length content mod 4096 = 0" using assms(1) by (metis of_nat_0_eq_iff of_nat_mod of_nat_numeral)
    then have "4096 * (length content div 4096) = length content" using mult_div_mod_eq[of 4096 "length content"] by simp
    then show ?thesis using v(3) by simp
  qed
  have t: "im_total_blocks im = im_total_blocks fim" using v(1) w(1,3) whole by (auto simp: valid_data_def valid_file_def)
  then have care: "im_care_map im = im_care_map fim" using v(1) w(1) by (auto simp: valid_data_def valid_file_def)
  have "DataImage_RangeSha1 sha im r = FileImage_RangeSha1 sha fim r" if "wf_rs r" "blocks r \<subseteq> blocks (im_care_map im)" for r sha
    using data_img.sha1_read[OF v(1)] data_img.read_blocks[OF v(1) that] file_img.sha1_read[OF w(1)]
      file_img.read_blocks[OF w(1) that(1) that(2)[unfolded care]] whole w(3) by simp
  then show ?thesis using im fim t care v(2) w(2) by auto
qed

theorem file_and_data_image_agree_witness:
  "\<exists>im fim. DataImage_init (Bytes (replicate 8192 (CHR ''a''))) False False = Inr im \<and>
     FileImage_init (replicate 8192 (CHR ''a'')) = Inr fim \<and> im_file_map im = im_file_map fim"
proof -
  have l: "length (replicate 8192 (CHR ''a'')) = 8192" by (rule length_replicate)
  have "int (length (replicate 8192 (CHR ''a''))) mod 4096 = 0" "0 < length (replicate 8192 (CHR ''a''))" unfolding l by auto
  from file_and_data_image_agree[OF this] show ?thesis by blast
qed



end
