(* ===== verification/BlockDiff.thy ===== *)
theory BlockDiff
  imports FindTransfers ComputePatches Images
begin

text \<open>
  The class \<open>BlockImageDiff\<close> as a whole: \<open>__init__\<close> and \<open>Compute\<close>, which composes the steps modelled in the
  other theories, and the theorem on the complete run.
\<close>

section \<open>The object\<close>

record differ =
  df_tgt :: disk
  df_src :: disk
  df_threads :: int
  df_version :: int
  df_disabled :: bool
  df_stats :: "imgdiff_stats option"
  df_names :: name_tables
  df_transfers :: "nat list"
  df_store :: store
  df_max_stashed_size :: int
  df_touched :: range_set
  df_touched_sha1 :: "string option"

text \<open>The object \<open>EmptyImage()\<close> as an image; \<open>sha1\<close> is the hash of a byte string.\<close>

definition empty_disk :: "(string \<Rightarrow> string) \<Rightarrow> disk" where
  "empty_disk sha1 = \<lparr>dk_blocksize = im_blocksize EmptyImage_init, dk_total_blocks = im_total_blocks EmptyImage_init,
     dk_care_map = im_care_map EmptyImage_init, dk_extended = im_extended EmptyImage_init, dk_file_map = im_file_map EmptyImage_init,
     dk_RangeSha1 = (\<lambda>r. sha1 []), dk_ReadRangeSet = (\<lambda>r. []), dk_data = EmptyImage_WriteRangeDataToFd\<rparr>"

definition BlockImageDiff_init ::
  "(string \<Rightarrow> string) \<Rightarrow> int \<Rightarrow> disk \<Rightarrow> disk option \<Rightarrow> int option \<Rightarrow> int \<Rightarrow> bool \<Rightarrow> differ res" where
  "BlockImageDiff_init sha1 cpu_count tgt src threads version disable_imgdiff =
     (let n = (case threads of Some t \<Rightarrow> t | None \<Rightarrow> if cpu_count div 2 = 0 then 1 else cpu_count div 2);
          src' = (case src of None \<Rightarrow> empty_disk sha1 | Some s \<Rightarrow> s) in
      try_bind (py_assert (version = 3 \<or> version = 4)) (\<lambda>_.
      try_bind (py_assert (dk_blocksize tgt = 4096)) (\<lambda>_.
      try_bind (py_assert (dk_blocksize src' = 4096)) (\<lambda>_.
      try_bind (AssertPartition (dk_care_map src') (map snd (dk_file_map src'))) (\<lambda>_.
      try_bind (AssertPartition (dk_care_map tgt) (map snd (dk_file_map tgt))) (\<lambda>_.
        Inr \<lparr>df_tgt = tgt, df_src = src', df_threads = n, df_version = version, df_disabled = disable_imgdiff,
             df_stats = (if disable_imgdiff then None else Some []), df_names = \<lparr>src_basenames = [], src_numpatterns = []\<rparr>,
             df_transfers = [], df_store = [], df_max_stashed_size = 0, df_touched = rs_empty, df_touched_sha1 = None\<rparr>))))))"

section \<open>The run\<close>

text \<open>The external programs: \<open>bsdiff\<close> and \<open>imgdiff\<close>, the size of deflated data, and \<open>imgdiff --split-info\<close>.\<close>

record programs =
  pg_diff :: "bool \<Rightarrow> string \<Rightarrow> string \<Rightarrow> string option"
  pg_deflate :: "string \<Rightarrow> int option"
  pg_split :: split_diff

definition env_of :: "programs \<Rightarrow> differ \<Rightarrow> diff_env" where
  "env_of pg d = \<lparr>de_src = dk_data (df_src d), de_tgt = dk_data (df_tgt d), de_diff = pg_diff pg, de_deflate = pg_deflate pg\<rparr>"

text \<open>The part of \<open>Compute\<close> that keeps the stash under the limit.\<close>

definition fit_stash :: "programs \<Rightarrow> int \<times> rat \<Rightarrow> differ \<Rightarrow> differ res" where
  "fit_stash pg = (\<lambda>(cache_size, stash_threshold) d.
     let stash_limit = allowed_blocks cache_size stash_threshold (dk_blocksize (df_tgt d)); sha = dk_RangeSha1 (df_src d) in
     try_bind (ReviseStashSize sha None (df_transfers d) (df_store d)) (\<lambda>(_, max_stashed_blocks, h1).
     try_bind (if stash_limit + 1024 < of_int max_stashed_blocks then
                 try_bind (SelectAndConvertDiffTransfersToNew (env_of pg d) (df_disabled d) (df_stats d)
                             (of_int max_stashed_blocks - stash_limit) (df_transfers d) h1) (\<lambda>(h2, stats).
                 try_bind (FindSequenceForTransfers (df_transfers d) h2) (\<lambda>(ts, h3).
                   Inr (d\<lparr>df_transfers := ts, df_store := h3, df_stats := stats\<rparr>)))
               else Inr (d\<lparr>df_store := h1\<rparr>)) (\<lambda>d'.
     try_bind (ReviseStashSize sha (Some stash_limit) (df_transfers d') (df_store d')) (\<lambda>(_, _, h').
       Inr (d'\<lparr>df_store := h'\<rparr>)))))"

definition target_of :: "disk \<Rightarrow> target_info" where
  "target_of tgt = \<lparr>ti_total_blocks = dk_total_blocks tgt, ti_care_map = dk_care_map tgt, ti_extended = dk_extended tgt, ti_blocksize = dk_blocksize tgt\<rparr>"

text \<open>\<open>Compute\<close>: the object, the lines of the transfer list, \<open>new.dat\<close>, \<open>patch.dat\<close> and the report.\<close>

definition Compute ::
  "programs \<Rightarrow> cache_options \<Rightarrow> differ \<Rightarrow> (differ \<times> string list \<times> string \<times> string \<times> (string \<times> string list) list) res" where
  "Compute pg opts d =
     (let names = AbbreviateSourceNames (df_src d) (df_names d) in
      try_bind (FindTransfers (pg_split pg) (df_src d) (df_tgt d) (df_disabled d) (map_option fst opts) names (df_stats d) (df_store d)) (\<lambda>(h0, stats0).
      try_bind (FindSequenceForTransfers [0..<length h0] h0) (\<lambda>(ts1, h1).
      let d1 = d\<lparr>df_names := names, df_transfers := ts1, df_store := h1, df_stats := stats0\<rparr> in
      try_bind (case opts of None \<Rightarrow> Inr d1 | Some limits \<Rightarrow> fit_stash pg limits d1) (\<lambda>d2.
      try_bind (AssertSequenceGood (dk_total_blocks (df_tgt d)) (dk_care_map (df_tgt d)) (df_transfers d2) (df_store d2)) (\<lambda>_.
      try_bind (AssertSha1Good (dk_RangeSha1 (df_src d)) (dk_RangeSha1 (df_tgt d)) (df_transfers d2) (df_store d2)) (\<lambda>_.
      try_bind (ComputePatches (env_of pg d2) (df_disabled d) (df_stats d2) (dk_blocksize (df_tgt d)) (df_transfers d2) (df_store d2)) (\<lambda>(h3, stats3, new_dat, patch_dat).
      try_bind (WriteTransfers (dk_RangeSha1 (df_src d)) opts (df_version d) (target_of (df_tgt d)) (df_transfers d2) h3 (df_touched d2)) (\<lambda>(ls, size, touched, sha).
      try_bind (if df_disabled d then Inr [] else case stats3 of None \<Rightarrow> Inl AttributeError | Some s \<Rightarrow> Inr (Report s)) (\<lambda>report.
        Inr (d2\<lparr>df_store := h3, df_stats := stats3, df_max_stashed_size := size, df_touched := touched, df_touched_sha1 := Some sha\<rparr>,
             ls, new_dat, patch_dat, report))))))))))"

section \<open>Transfers that may lose their source\<close>

text \<open>The transfers of \<open>h'\<close> are those of \<open>h\<close>, except that some have become \<open>new\<close>.\<close>

definition demoted :: "store \<Rightarrow> store \<Rightarrow> bool" where
  "demoted h h' = (map labels h' = map labels h \<and> (\<forall>x<length h.
     src_ranges (h' ! x) = src_ranges (h ! x) \<and> xf_style (h' ! x) = xf_style (h ! x) \<or>
     src_ranges (h' ! x) = rs_empty \<and> xf_style (h' ! x) = New))"

text \<open>What every step needs of a transfer.\<close>

definition sound_xf :: "disk \<Rightarrow> disk \<Rightarrow> transfer \<Rightarrow> bool" where
  "sound_xf src tgt x = (nonneg_rs (tgt_ranges x) \<and> nonneg_rs (src_ranges x) \<and> rs_bool (tgt_ranges x) \<and>
     tgt_sha1 x = dk_RangeSha1 tgt (tgt_ranges x) \<and> xf_style x \<in> {Zero, New, Diff} \<and>
     (xf_style x = Diff \<longrightarrow> rs_bool (src_ranges x) \<and> src_sha1 x = dk_RangeSha1 src (src_ranges x)) \<and>
     (xf_style x = New \<longrightarrow> src_ranges x = rs_empty))"

lemma piece_sound: "piece fe SF x \<Longrightarrow> sound_xf (fe_src fe) (fe_tgt fe) x"
  by (cases "xf_style x") (auto simp: piece_def sound_xf_def)

lemma demoted_length: "demoted h h' \<Longrightarrow> length h' = length h"
  by (metis demoted_def length_map)

lemma demoted_labels: "demoted h h' \<Longrightarrow> x < length h \<Longrightarrow> labels (h' ! x) = labels (h ! x)"
  by (metis demoted_def length_map nth_map)

lemma demoted_trans: "demoted h h' \<Longrightarrow> demoted h' h'' \<Longrightarrow> demoted h h''"
  using demoted_length[of h h'] by (auto simp: demoted_def) metis+

lemma demoted_sound:
  assumes "demoted h h'" "\<forall>x\<in>set h. sound_xf src tgt x"
  shows "\<forall>x\<in>set h'. sound_xf src tgt x"
proof -
  have "sound_xf src tgt (h' ! x)" if x: "x < length h" for x
  proof -
    have "sound_xf src tgt (h ! x)" using assms(2) x by simp
    moreover have "labels (h' ! x) = labels (h ! x)" using demoted_labels[OF assms(1) x] .
    moreover have "nonneg_rs rs_empty" by (simp add: nonneg_rs_def)
    ultimately show ?thesis using assms(1) x by (auto simp: demoted_def sound_xf_def labels_def)
  qed
  then show ?thesis using demoted_length[OF assms(1)] by (metis in_set_conv_nth)
qed

lemma static_labels: "static x = static y \<Longrightarrow> labels x = labels y \<and> src_ranges x = src_ranges y \<and> xf_style x = xf_style y"
  unfolding static_def labels_def by (cases x; cases y) simp

lemma static_demoted:
  assumes "map static h' = map static h"
  shows "demoted h h'"
proof -
  have l: "length h' = length h" using assms by (metis length_map)
  have "labels (h' ! x) = labels (h ! x) \<and> src_ranges (h' ! x) = src_ranges (h ! x) \<and> xf_style (h' ! x) = xf_style (h ! x)" if "x < length h" for x
    using static_labels[OF static_nth[OF assms that]] .
  then show ?thesis unfolding demoted_def using l by (auto intro: nth_equalityI)
qed

lemma converted_demoted:
  assumes "converted h0 fl ts C h'" "map labels h' = map labels h0" "set ts = {..<length h0}"
  shows "demoted h0 h'"
  using assms unfolding demoted_def converted_def by auto

lemma selected_demoted:
  assumes "selected ts h S h'"
  shows "demoted h h'"
proof -
  have "labels (h' ! x) = labels (h ! x) \<and> (src_ranges (h' ! x) = src_ranges (h ! x) \<and> xf_style (h' ! x) = xf_style (h ! x) \<or>
     src_ranges (h' ! x) = rs_empty \<and> xf_style (h' ! x) = New)" if "x < length h" for x
    using assms that by (cases "x \<in> S") (force simp: selected_def labels_def)+
  then show ?thesis using assms unfolding demoted_def selected_def by (auto intro: nth_equalityI)
qed

lemma sound_ready:
  assumes "\<forall>x\<in>set h. sound_xf src tgt x" "distinct ts" "set ts = {..<length h}"
  shows "wf_seq ts h" "well_styled h"
  using assms by (auto simp: wf_seq_def wf_xf_def well_styled_def sound_xf_def rs_bool_def)

lemma env_ok_demoted:
  assumes "env_ok env ts h" "demoted h h'" "set ts' = set ts" "set ts \<subseteq> {..<length h}"
  shows "env_ok env ts' h'"
proof -
  have "tgt_ranges (h' ! x) = tgt_ranges (h ! x)" "xf_style (h' ! x) = Diff \<Longrightarrow> xf_style (h ! x) = Diff \<and> src_ranges (h' ! x) = src_ranges (h ! x)"
    if "x \<in> set ts" for x
    using assms(2,4) that demoted_labels[OF assms(2), of x] by (auto simp: demoted_def labels_def)
  then show ?thesis using assms(1,3) unfolding env_ok_def by metis
qed

section \<open>Keeping the stash under the limit\<close>

text \<open>The outcome of \<open>fit_stash\<close>: the transfers of \<open>h\<close> stem from an ordered list \<open>g0\<close> with a stash plan whose
  peaks are within the limit.\<close>

definition fitted :: "(range_set \<Rightarrow> string) \<Rightarrow> rat \<Rightarrow> store \<Rightarrow> nat list \<Rightarrow> store \<Rightarrow> bool" where
  "fitted sha limit h0 ts h = (\<exists>us g0 g1 fl C mx sz. demoted h0 g0 \<and> wf_seq us g0 \<and> sequence_ok us g0 fl ts g1 \<and> stash_plan g0 fl ts \<and>
     converted g0 fl ts C h \<and> map labels h = map labels g0 \<and> 0 \<le> mx \<and> \<not> exceeds (Some limit) mx \<and> set us = {..<length g0} \<and>
     (\<forall>i<length fl. sz (slot_of sha g0 fl i) = rs_size (overlap_of g0 (fl ! i))) \<and>
     (\<forall>j<length ts. peak (slot_of sha g0 fl) sz g0 fl ts C j \<le> mx))"

lemma fittedI:
  assumes "demoted h0 g0" "wf_seq us g0" "sequence_ok us g0 fl ts g1" "stash_plan g0 fl ts" "converted g0 fl ts C h" "map labels h = map labels g0"
    "0 \<le> mx" "\<not> exceeds (Some limit) mx" "set us = {..<length g0}"
    "\<forall>i<length fl. sz (slot_of sha g0 fl i) = rs_size (overlap_of g0 (fl ! i))"
    "\<forall>j<length ts. peak (slot_of sha g0 fl) sz g0 fl ts C j \<le> mx"
  shows "fitted sha limit h0 ts h"
  unfolding fitted_def by (intro exI conjI) (fact assms)+

lemma ordered_and_fitted:
  assumes sound: "\<forall>x\<in>set h0. sound_xf src tgt x" and us: "distinct us" "set us = {..<length h0}"
    and hash: "\<forall>a b. sha a = sha b \<longrightarrow> rs_size a = rs_size b" and limit: "0 < limit" and dem: "demoted h h0"
  shows "\<exists>ts h1 a b h2. FindSequenceForTransfers us h0 = Inr (ts, h1) \<and> ReviseStashSize sha (Some limit) ts h1 = Inr (a, b, h2) \<and>
    set ts = set us \<and> distinct ts \<and> fitted sha limit h ts h2"
proof -
  note ready = sound_ready[OF sound us]
  have "\<not> exceeds (Some limit) 0" using limit by (simp add: exceeds_def)
  from ordered_then_revised[OF ready(1) us(2) ready(2) hash this]
  obtain ts1 h1 fl C mx h2 sz where r: "FindSequenceForTransfers us h0 = Inr (ts1, h1)" "sequence_ok us h0 fl ts1 h1"
    "ReviseStashSize sha (Some limit) ts1 h1 = Inr (\<Sum>x\<in>C. rs_size (tgt_ranges (h0 ! x)), mx, h2)" "converted h0 fl ts1 C h2"
    "stash_plan h0 fl ts1" "\<not> exceeds (Some limit) mx" "0 \<le> mx"
    "\<forall>i<length fl. sz (slot_of sha h0 fl i) = rs_size (overlap_of h0 (fl ! i))"
    "\<forall>j<length ts1. peak (slot_of sha h0 fl) sz h0 fl ts1 C j \<le> mx" by (elim exE conjE) (rule that, assumption+)
  have "map static h1 = map static h0" using r(2) by (simp add: sequence_ok_def)
  then have lab: "map labels h2 = map labels h0" using revise_labels(1)[OF r(3)] static_demoted[of h1 h0] by (simp add: demoted_def)
  have ms: "mset ts1 = mset us" using r(2) by (simp only: sequence_ok_def)
  have "set ts1 = set us" "distinct ts1" using mset_same_set[OF ms] mset_eq_imp_distinct_iff[OF ms] us(1) by simp_all
  with fittedI[OF dem ready(1) r(2,5,4) lab r(7,6) us(2) r(8,9)] r(1,3) show ?thesis by (intro exI conjI) assumption+
qed

lemma fit_stash_ok:
  fixes d :: differ
  assumes sound: "\<forall>x\<in>set h0. sound_xf (df_src d) (df_tgt d) x"
    and found: "FindSequenceForTransfers [0..<length h0] h0 = Inr (df_transfers d, df_store d)"
    and hash: "\<forall>a b. dk_RangeSha1 (df_src d) a = dk_RangeSha1 (df_src d) b \<longrightarrow> rs_size a = rs_size b"
    and limit: "0 < cs" "0 < thr" "dk_blocksize (df_tgt d) = 4096"
    and env: "env_ok (env_of pg d) [0..<length h0] h0" "deflate_ok (env_of pg d)" and stats: "stats_present (df_disabled d) (df_stats d)"
  shows "\<exists>ts h stats'. fit_stash pg (cs, thr) d = Inr (d\<lparr>df_transfers := ts, df_store := h, df_stats := stats'\<rparr>) \<and>
    set ts = {..<length h0} \<and> distinct ts \<and> stats_present (df_disabled d) stats' \<and>
    fitted (dk_RangeSha1 (df_src d)) (allowed_blocks cs thr 4096) h0 ts h"
proof -
  let ?sha = "dk_RangeSha1 (df_src d)" and ?lim = "allowed_blocks cs thr 4096" and ?ts = "df_transfers d"
  have lim: "0 < ?lim" using limit by (simp add: allowed_blocks_def)
  have us: "distinct [0..<length h0]" "set [0..<length h0] = {..<length h0}" by auto
  note ready = sound_ready[OF sound us]
  have "\<not> exceeds None 0" by (simp add: exceeds_def)
  from ordered_then_revised[OF ready(1) us(2) ready(2) hash this]
  obtain fl mx h2 sz where r: "sequence_ok [0..<length h0] h0 fl ?ts (df_store d)"
    "ReviseStashSize ?sha None ?ts (df_store d) = Inr (0, mx, h2)" "converted h0 fl ?ts {} h2" "stash_plan h0 fl ?ts"
    "\<forall>i<length fl. sz (slot_of ?sha h0 fl i) = rs_size (overlap_of h0 (fl ! i))" "\<forall>s. 0 \<le> sz s" using found by fastforce
  have ts: "set ?ts = {..<length h0}" "distinct ?ts"
    using r(1) mset_same_set[of ?ts "[0..<length h0]"] mset_eq_imp_distinct_iff[of ?ts "[0..<length h0]"] by (auto simp: sequence_ok_def)
  have st: "map static (df_store d) = map static h0" and ord: "\<forall>k<length ?ts. xf_order (df_store d ! (?ts ! k)) = k"
    using r(1) by (simp_all add: sequence_ok_def)
  have lab: "map labels h2 = map labels h0" using revise_labels(1)[OF r(2)] static_demoted[OF st] by (simp add: demoted_def)
  note dem = converted_demoted[OF r(3) lab ts(1)]
  have len: "length (df_store d) = length h0" "length h2 = length h0" using st dem demoted_length by (metis length_map)+
  show ?thesis
  proof (cases "?lim + 1024 < of_int mx")
    case False
    have "\<not> exceeds (Some ?lim) 0" using lim by (simp add: exceeds_def)
    from ReviseStashSize_ok[OF r(4,3) styles_of_sequence(1)[OF ready(1) r(1) ready(2) us(2)] refl r(5,6) this]
    obtain C mx' h3 where s: "ReviseStashSize ?sha (Some ?lim) ?ts h2 = Inr (\<Sum>x\<in>C. rs_size (tgt_ranges (h0 ! x)), mx', h3)"
      "converted h0 fl ?ts C h3" "\<not> exceeds (Some ?lim) mx'" "\<forall>j<length ?ts. peak (slot_of ?sha h0 fl) sz h0 fl ?ts C j \<le> mx'" "0 \<le> mx'"
      by blast
    have "map labels h3 = map labels h0" using revise_labels(1)[OF s(1)] lab by simp
    moreover have "demoted h0 h0" by (simp add: demoted_def)
    ultimately have fit: "fitted ?sha ?lim h0 ?ts h3" by (intro fittedI[OF _ ready(1) r(1,4) s(2) _ s(5,3) us(2) r(5) s(4)])
    have run: "fit_stash pg (cs, thr) d = Inr (d\<lparr>df_store := h3\<rparr>)"
      using r(2) s(1) False limit(3) by (simp add: fit_stash_def Let_def)
    have same: "d\<lparr>df_store := h3\<rparr> = d\<lparr>df_transfers := ?ts, df_store := h3, df_stats := df_stats d\<rparr>" by simp
    show ?thesis using run fit ts stats unfolding same by blast
  next
    case True
    have "env_ok (env_of pg d) ?ts h2" by (rule env_ok_demoted[OF env(1) dem]) (use ts us in auto)
    moreover have "xf_order (h2 ! (?ts ! k)) = k" if "k < length ?ts" for k
    proof -
      have "?ts ! k < length h0" using nth_mem[OF that] ts(1) by auto
      then have "xf_order (h2 ! (?ts ! k)) = xf_order (df_store d ! (?ts ! k))" using revise_labels(2)[OF r(2)] len by (metis nth_map)
      then show ?thesis using ord that by simp
    qed
    ultimately obtain h3 stats' S where s: "SelectAndConvertDiffTransfersToNew (env_of pg d) (df_disabled d) (df_stats d) (of_int mx - ?lim) ?ts h2 = Inr (h3, stats')"
      "stats_present (df_disabled d) stats'" "selected ?ts h2 S h3"
      using SelectAndConvert_ok[OF _ env(2) _ ts(2) _ stats, of h2 "of_int mx - ?lim"] ts(1) len(2) by auto
    have dem3: "demoted h0 h3" using demoted_trans[OF dem selected_demoted[OF s(3)]] .
    have l3: "length h3 = length h0" using demoted_length[OF dem3] .
    obtain ts' h4 a b h5 where f: "FindSequenceForTransfers ?ts h3 = Inr (ts', h4)" "ReviseStashSize ?sha (Some ?lim) ts' h4 = Inr (a, b, h5)"
      "set ts' = set ?ts" "distinct ts'" "fitted ?sha ?lim h0 ts' h5"
      using ordered_and_fitted[OF demoted_sound[OF dem3 sound] ts(2) _ hash lim dem3] ts(1) l3 by auto
    have "fit_stash pg (cs, thr) d = Inr (d\<lparr>df_transfers := ts', df_store := h5, df_stats := stats'\<rparr>)"
      using r(2) s(1) f(1,2) True limit(3) by (simp add: fit_stash_def Let_def)
    then show ?thesis using f(3-5) ts(1) s(2) by blast
  qed
qed

section \<open>The complete run\<close>

lemma tiles_nth_disjoint:
  assumes "tiles A (map f xs)" "i < length xs" "j < length xs" "i \<noteq> j"
  shows "f (xs ! i) \<inter> f (xs ! j) = {}"
  using disjoint_seq_nth[of "map f xs" i j] assms by (simp add: tiles_def)

lemma tiles_targets:
  assumes "tiles A (map tgt_blocks h)" "set ts = {..<length h}"
  shows "disjoint_targets ts h" "written h ts = A" "x \<in> set ts \<Longrightarrow> tgt_blocks (h ! x) \<subseteq> A"
proof -
  show "disjoint_targets ts h" using tiles_nth_disjoint[OF assms(1)] assms(2) by (auto simp: disjoint_targets_def)
  have "set h = (!) h ` {..<length h}" by (auto simp: set_conv_nth)
  then have "written h ts = \<Union> (tgt_blocks ` set h)" using assms(2) by (simp add: written_def image_image)
  then show w: "written h ts = A" using assms(1) by (simp add: tiles_def)
  show "x \<in> set ts \<Longrightarrow> tgt_blocks (h ! x) \<subseteq> A" using w by (auto simp: written_def)
qed

lemma demoted_targets: "demoted h h' \<Longrightarrow> map tgt_blocks h' = map tgt_blocks h"
proof -
  assume "demoted h h'"
  then have "map labels h' = map labels h" by (simp add: demoted_def)
  from arg_cong[OF this, of "map (\<lambda>(_, _, _, _, r). blocks r)"] show ?thesis by (simp add: labels_def comp_def)
qed

lemma patched_writable:
  assumes conv: "converted g0 fl ts C h" and patched: "patched env ts h ch h' dat"
    and sound: "\<forall>x\<in>set ts. sound_xf src tgt (h ! x)"
    and hash: "\<forall>a b. dk_RangeSha1 src a = dk_RangeSha1 tgt b \<longrightarrow> rs_size a = rs_size b"
  shows "writable g0 fl ts C h'"
  unfolding writable_def
proof
  fix x assume x: "x \<in> set ts"
  obtain l s where h': "h' ! x = (styled (h ! x) (ch x))\<lparr>patch_len := l, patch_start := s\<rparr>" using patched x by (auto simp: patched_def)
  have c: "use_stash (h ! x) = (if x \<in> C then [] else stash_log g0 fl fst x)"
    "stash_before (h ! x) = filter (\<lambda>p. user fl (fst p) \<notin> C) (stash_log g0 fl snd x)"
    "tgt_ranges (h ! x) = tgt_ranges (g0 ! x)" "src_ranges (h ! x) = (if x \<in> C then rs_empty else src_ranges (g0 ! x))"
    "xf_style (h ! x) = (if x \<in> C then New else xf_style (g0 ! x))" using conv x by (simp_all add: converted_def)
  have s: "sound_xf src tgt (h ! x)" using sound x by blast
  have mv: "rs_size (src_ranges (h ! x)) = rs_size (tgt_ranges (h ! x))" if "xf_style (h ! x) = Diff" "src_sha1 (h ! x) = tgt_sha1 (h ! x)"
    by (rule hash[rule_format]) (use s that in \<open>auto simp: sound_xf_def\<close>)
  have "final_style g0 C x (xf_style (h' ! x))"
  proof (cases "xf_style (h ! x) = Diff")
    case True
    then have "x \<notin> C" "xf_style (g0 ! x) = Diff" using c(5) by (auto split: if_splits)
    then show ?thesis using True s mv c(3,4) h' by (auto simp: final_style_def sound_xf_def styled_def)
  next
    case False
    then have "xf_style (h' ! x) = xf_style (h ! x)" "xf_style (h ! x) \<in> {Zero, New}" using h' s by (auto simp: styled_def sound_xf_def)
    then show ?thesis using s c(3) by (auto simp: final_style_def sound_xf_def)
  qed
  then show "use_stash (h' ! x) = (if x \<in> C then [] else stash_log g0 fl fst x) \<and>
     stash_before (h' ! x) = filter (\<lambda>p. user fl (fst p) \<notin> C) (stash_log g0 fl snd x) \<and>
     tgt_ranges (h' ! x) = tgt_ranges (g0 ! x) \<and>
     src_ranges (h' ! x) = (if x \<in> C then rs_empty else src_ranges (g0 ! x)) \<and> final_style g0 C x (xf_style (h' ! x))"
    using h' c by simp
qed

lemma within_limit:
  assumes "\<not> exceeds (Some (allowed_blocks cs thr 4096)) mx" "0 < allowed_blocks cs thr 4096"
  shows "within_cache (Some (cs, thr)) 4096 mx"
  using assms by (auto simp: exceeds_def within_cache_def allowed_blocks_def field_simps)

lemma written_list:
  assumes sound: "\<forall>x\<in>set h. sound_xf src tgt x" and fit: "fitted (dk_RangeSha1 src) (allowed_blocks cs thr 4096) h0 ts h"
    and ts: "distinct ts" "set ts = {..<length h}" and tiles: "tiles A (map tgt_blocks h0)"
    and lim: "0 < allowed_blocks cs thr 4096" and ti: "wf_target ti" "ti_blocksize ti = 4096"
    and hash: "\<forall>a b. dk_RangeSha1 src a = dk_RangeSha1 tgt b \<longrightarrow> rs_size a = rs_size b" and patched: "patched env ts h ch h' dat"
  shows "\<exists>ls mx touched. WriteTransfers (dk_RangeSha1 src) (Some (cs, thr)) version ti ts h' rs_empty = Inr (ls, mx * 4096, touched, dk_RangeSha1 src touched) \<and>
    of_int (mx * 4096) \<le> of_int cs * thr \<and> ls ! 3 = line [str_int mx] \<and> 4 \<le> length ls"
proof -
  let ?sha = "dk_RangeSha1 src"
  obtain us g0 g1 fl C mx sz where f: "demoted h0 g0" "wf_seq us g0" "sequence_ok us g0 fl ts g1" "stash_plan g0 fl ts" "converted g0 fl ts C h"
    "0 \<le> mx" "\<not> exceeds (Some (allowed_blocks cs thr 4096)) mx" "set us = {..<length g0}"
    "\<forall>i<length fl. sz (slot_of ?sha g0 fl i) = rs_size (overlap_of g0 (fl ! i))"
    "\<forall>j<length ts. peak (slot_of ?sha g0 fl) sz g0 fl ts C j \<le> mx" using fit unfolding fitted_def by (elim exE conjE) (rule that, assumption+)
  have ms: "set ts = set us" using f(3) mset_same_set[of ts us] by (simp add: sequence_ok_def)
  have wr: "wf_ranges g0 fl ts" unfolding wf_ranges_def
  proof (intro conjI)
    show "\<forall>x\<in>set ts. wf_rs (tgt_ranges (g0 ! x)) \<and> wf_rs (src_ranges (g0 ! x))" using f(2) ms by (auto simp: wf_seq_def wf_xf_def nonneg_rs_def)
    show "disjoint_targets ts g0" using tiles_targets(1)[of A g0 ts] tiles demoted_targets[OF f(1)] f(8) ms by simp
    show "\<forall>i<length fl. fl ! i \<in> reads_from g0 ts" 
    proof -
      have "set fl \<subseteq> reads_from g0 us" using f(3) by (simp only: sequence_ok_def)
      then have "set fl \<subseteq> reads_from g0 ts" unfolding reads_from_def ms .
      then show ?thesis by (meson nth_mem subsetD)
    qed
  qed
  have wc: "within_cache (Some (cs, thr)) (ti_blocksize ti) mx" "0 \<le> ti_blocksize ti" using within_limit[OF f(7) lim] ti(2) by simp_all
  have sx: "\<forall>x\<in>set ts. sound_xf src tgt (h ! x)" using sound ts(2) by simp
  obtain ls m touched where w: "WriteTransfers ?sha (Some (cs, thr)) version ti ts h' rs_empty = Inr (ls, m * ti_blocksize ti, touched, ?sha touched)"
    "m \<le> mx" "ls ! 3 = line [str_int m]" "4 \<le> length ls"
    using WriteTransfers_ok[OF f(4) patched_writable[OF f(5) patched sx hash] wr refl f(9,10,6) wc ti(1) rs_empty_simps(1)] by blast
  have "within_cache (Some (cs, thr)) 4096 mx" by (rule within_limit[OF f(7) lim])
  moreover have "(of_int (m * 4096) :: rat) \<le> of_int (mx * 4096)" using w(2) by (simp only: of_int_le_iff)
  ultimately have "of_int (m * 4096) \<le> of_int cs * thr" unfolding within_cache_def by simp
  then show ?thesis using w ti(2) by auto
qed

text \<open>What the run needs of the images and the programs: blocks of the care map can be read, the programs
  succeed, and equal hashes come from sets of equal size.\<close>

definition readable :: "disk \<Rightarrow> bool" where
  "readable d = (\<forall>r. wf_rs r \<and> blocks r \<subseteq> blocks (dk_care_map d) \<longrightarrow> (\<exists>s. dk_data d r = Inr s))"

definition programs_ok :: "programs \<Rightarrow> disk \<Rightarrow> disk \<Rightarrow> bool" where
  "programs_ok pg src tgt = ((\<forall>b s t. pg_diff pg b s t \<noteq> None) \<and> (\<forall>s. \<exists>n. pg_deflate pg s = Some n \<and> n \<noteq> 0) \<and>
     (\<forall>a m b. apk_ok (file_blocks src) a \<longrightarrow> imgdiff_ok (pg_split pg) \<lparr>fe_src = src, fe_tgt = tgt, fe_disabled = b, fe_max_blocks = m\<rparr> a))"

definition sized_hashes :: "disk \<Rightarrow> disk \<Rightarrow> bool" where
  "sized_hashes src tgt = ((\<forall>a b. dk_RangeSha1 src a = dk_RangeSha1 src b \<longrightarrow> rs_size a = rs_size b) \<and>
     (\<forall>a b. dk_RangeSha1 src a = dk_RangeSha1 tgt b \<longrightarrow> rs_size a = rs_size b))"

lemma file_in_care:
  assumes "good_disk d" "F \<in> file_blocks d"
  shows "F \<subseteq> blocks (dk_care_map d)"
proof -
  have "\<forall>r\<in>set (map snd (dk_file_map d)). wf_rs r" using assms(1) by (auto simp: good_disk_def nonneg_rs_def)
  then have "\<Union> (blocks ` set (map snd (dk_file_map d))) = blocks (dk_care_map d)"
    using AssertPartition_iff[of "dk_care_map d" "map snd (dk_file_map d)"] assms(1) by (auto simp: good_disk_def nonneg_rs_def)
  then show ?thesis using assms(2) by (auto simp: file_blocks_def)
qed

lemma found_env_ok:
  assumes "good_disk src" "readable src" "readable tgt" "programs_ok pg src tgt"
    and "\<forall>x\<in>set h. piece fe (file_blocks src) x" "tiles A (map tgt_blocks h)" "A \<subseteq> blocks (dk_care_map tgt)" "df_src d = src" "df_tgt d = tgt"
  shows "env_ok (env_of pg d) [0..<length h] h" "deflate_ok (env_of pg d)"
proof -
  have "(\<exists>s. dk_data tgt (tgt_ranges (h ! i)) = Inr s) \<and> (xf_style (h ! i) = Diff \<longrightarrow> (\<exists>s. dk_data src (src_ranges (h ! i)) = Inr s))"
    if "i < length h" for i
  proof -
    have p: "piece fe (file_blocks src) (h ! i)" using assms(5) that by simp
    then have wf: "wf_rs (tgt_ranges (h ! i))" "wf_rs (src_ranges (h ! i))" by (auto simp: piece_def nonneg_rs_def)
    have "tgt_blocks (h ! i) \<subseteq> blocks (dk_care_map tgt)" using tiles_member[OF assms(6), of "tgt_blocks (h ! i)"] assms(7) that by auto
    moreover have "src_blocks (h ! i) \<subseteq> blocks (dk_care_map src)" if "xf_style (h ! i) = Diff"
      using p that file_in_care[OF assms(1)] by (fastforce simp: piece_def)
    ultimately show ?thesis using assms(2,3) wf unfolding readable_def by blast
  qed
  then show "env_ok (env_of pg d) [0..<length h] h" using assms(4,8,9) unfolding env_ok_def env_of_def programs_ok_def by auto
  show "deflate_ok (env_of pg d)" using assms(4) unfolding deflate_ok_def env_of_def programs_ok_def by auto
qed

lemma checks_ok:
  assumes sound: "\<forall>x\<in>set h. sound_xf src tgt x" and fit: "fitted sha limit h0 ts h" and ts: "set ts = {..<length h}"
    and tiles: "tiles (blocks care) (map tgt_blocks h0)" and care: "nonneg_rs care" "blocks care \<subseteq> {..<tb}" "0 \<le> tb"
  shows "AssertSequenceGood tb care ts h = Inr ()" "AssertSha1Good (dk_RangeSha1 src) (dk_RangeSha1 tgt) ts h = Inr ()"
proof -
  obtain us g0 g1 fl C where f: "demoted h0 g0" "wf_seq us g0" "sequence_ok us g0 fl ts g1" "converted g0 fl ts C h" "set us = {..<length g0}"
    using fit unfolding fitted_def by (elim exE conjE) (rule that, assumption+)
  note t = tiles_targets[of "blocks care" g0 us] 
  have tg: "tiles (blocks care) (map tgt_blocks g0)" using tiles demoted_targets[OF f(1)] by simp
  have "\<forall>x\<in>set us. tgt_blocks (g0 ! x) \<subseteq> {..<tb}" using t(3)[OF tg f(5)] care(2) by blast
  note good = converted_good[OF f(2,3) t(1)[OF tg f(5)] this f(4)]
  show "AssertSequenceGood tb care ts h = Inr ()" using AssertSequenceGood_iff[OF good(2) care(3,1)] good(1,3) t(2)[OF tg f(5)] by simp
  show "AssertSha1Good (dk_RangeSha1 src) (dk_RangeSha1 tgt) ts h = Inr ()"
    by (rule AssertSha1Good_ok) (use sound ts in \<open>auto simp: sound_xf_def\<close>)
qed

lemma fitted_demoted:
  assumes "fitted sha limit h0 ts h" "set ts = {..<length h0}"
  shows "demoted h0 h"
proof -
  obtain us g0 g1 fl C where f: "demoted h0 g0" "converted g0 fl ts C h" "map labels h = map labels g0"
    using assms(1) unfolding fitted_def by (elim exE conjE) (rule that, assumption+)
  have "length g0 = length h0" using demoted_length[OF f(1)] .
  then show ?thesis using demoted_trans[OF f(1) converted_demoted[OF f(2,3)]] assms(2) by simp
qed

lemma patched_final:
  assumes "patched env ts h ch h' dat" "set ts = {..<length h}" "\<forall>x\<in>set h. sound_xf src tgt x"
  shows "length h' = length h" "map tgt_blocks h' = map tgt_blocks h" "\<forall>x\<in>set h'. xf_style x \<noteq> Diff"
proof -
  show l: "length h' = length h" using assms(1) by (simp add: patched_def)
  have "tgt_ranges (h' ! x) = tgt_ranges (h ! x) \<and> xf_style (h' ! x) \<noteq> Diff" if x: "x < length h" for x
  proof -
    have "x \<in> set ts" using x assms(2) by simp
    then obtain l s where e: "h' ! x = (styled (h ! x) (ch x))\<lparr>patch_len := l, patch_start := s\<rparr>"
      using assms(1) unfolding patched_def by blast
    have "xf_style (h ! x) \<in> {Zero, New, Diff}" using assms(3) x by (simp add: sound_xf_def)
    then show ?thesis unfolding e by (auto simp: styled_def)
  qed
  then show "map tgt_blocks h' = map tgt_blocks h" "\<forall>x\<in>set h'. xf_style x \<noteq> Diff" using l by (auto intro!: nth_equalityI simp: in_set_conv_nth)
qed

text \<open>An image that the class accepts, with everything the run reads of it.\<close>

definition usable_disk :: "disk \<Rightarrow> bool" where
  "usable_disk d = (good_disk d \<and> dk_blocksize d = 4096 \<and> readable d)"

definition fresh_differ :: "disk \<Rightarrow> disk \<Rightarrow> int \<Rightarrow> int \<Rightarrow> bool \<Rightarrow> differ" where
  "fresh_differ tgt src n version disabled = \<lparr>df_tgt = tgt, df_src = src, df_threads = n, df_version = version, df_disabled = disabled,
     df_stats = (if disabled then None else Some []), df_names = \<lparr>src_basenames = [], src_numpatterns = []\<rparr>,
     df_transfers = [], df_store = [], df_max_stashed_size = 0, df_touched = rs_empty, df_touched_sha1 = None\<rparr>"

lemma fresh_fields [simp]:
  "df_tgt (fresh_differ tgt src n version disabled) = tgt" "df_src (fresh_differ tgt src n version disabled) = src"
  "df_version (fresh_differ tgt src n version disabled) = version" "df_disabled (fresh_differ tgt src n version disabled) = disabled"
  "df_stats (fresh_differ tgt src n version disabled) = (if disabled then None else Some [])"
  "df_names (fresh_differ tgt src n version disabled) = \<lparr>src_basenames = [], src_numpatterns = []\<rparr>"
  "df_store (fresh_differ tgt src n version disabled) = []" "df_touched (fresh_differ tgt src n version disabled) = rs_empty"
  by (simp_all add: fresh_differ_def)

lemma init_ok:
  assumes "usable_disk src" "usable_disk tgt" "version = 3 \<or> version = 4"
  shows "\<exists>n. BlockImageDiff_init sha1 cpus tgt (Some src) threads version disabled = Inr (fresh_differ tgt src n version disabled)"
  using assms by (auto simp: BlockImageDiff_init_def usable_disk_def good_disk_def fresh_differ_def Let_def)

text \<open>The first half of the run: the transfers are found, ordered and fitted into the stash.\<close>

lemma first_half:
  assumes src: "usable_disk src" and tgt: "usable_disk tgt"
    and tree: "map_of (dk_file_map tgt) ''__HASHTREE'' = None" and pg: "programs_ok pg src tgt" and hash: "sized_hashes src tgt"
    and opts: "32768 \<le> cs" "0 < thr" and d: "d = fresh_differ tgt src n version disabled" and names: "names = AbbreviateSourceNames src (df_names d)"
  shows "\<exists>h0 stats0 ts1 h1 ts h stats'. FindTransfers (pg_split pg) src tgt disabled (Some cs) names (df_stats d) [] = Inr (h0, stats0) \<and>
    FindSequenceForTransfers [0..<length h0] h0 = Inr (ts1, h1) \<and>
    fit_stash pg (cs, thr) (d\<lparr>df_names := names, df_transfers := ts1, df_store := h1, df_stats := stats0\<rparr>) =
      Inr (d\<lparr>df_names := names, df_transfers := ts, df_store := h, df_stats := stats'\<rparr>) \<and>
    set ts = {..<length h0} \<and> distinct ts \<and> stats_present disabled stats' \<and> fitted (dk_RangeSha1 src) (allowed_blocks cs thr 4096) h0 ts h \<and>
    (\<forall>x\<in>set h0. sound_xf src tgt x) \<and> tiles (blocks (dk_care_map tgt)) (map tgt_blocks h0) \<and> env_ok (env_of pg d) [0..<length h0] h0"
proof -
  have stats: "stats_present disabled (df_stats d)" by (simp add: d stats_present_def stats_ok_def)
  have nt: "tables_ok src names" unfolding names by (rule AbbreviateSourceNames_ok) (simp add: tables_ok_def d)
  have split: "\<forall>a m. apk_ok (file_blocks src) a \<longrightarrow> imgdiff_ok (pg_split pg) \<lparr>fe_src = src, fe_tgt = tgt, fe_disabled = disabled, fe_max_blocks = m\<rparr> a"
    using pg unfolding programs_ok_def by blast
  have good: "good_disk src" "readable src" "good_disk tgt" "dk_blocksize tgt = 4096" "readable tgt" using src tgt by (auto simp: usable_disk_def)
  obtain fe h0 stats0 where F: "FindTransfers (pg_split pg) src tgt disabled (Some cs) names (df_stats d) [] = Inr (h0, stats0)"
    "fe_src fe = src" "fe_tgt fe = tgt" "\<forall>x\<in>set h0. piece fe (file_blocks src) x" "stats_present disabled stats0" "tiles (blocks (dk_care_map tgt)) (map tgt_blocks h0)"
    using FindTransfers_ok[OF good(1,3,4) nt opts(1) stats split] unfolding tree option.case Diff_empty by (elim exE conjE) (rule that, assumption+)
  have sound: "\<forall>x\<in>set h0. sound_xf src tgt x" using piece_sound F(2-4) by blast
  have us: "distinct [0..<length h0]" "set [0..<length h0] = {..<length h0}" by auto
  obtain ts1 h1 where S: "FindSequenceForTransfers [0..<length h0] h0 = Inr (ts1, h1)"
    using FindSequenceForTransfers_spec[OF sound_ready(1)[OF sound us] us(2)] by blast
  let ?d1 = "d\<lparr>df_names := names, df_transfers := ts1, df_store := h1, df_stats := stats0\<rparr>"
  have dd: "df_src d = src" "df_tgt d = tgt" "df_disabled d = disabled" by (simp_all add: d)
  have env: "env_ok (env_of pg ?d1) [0..<length h0] h0" "deflate_ok (env_of pg ?d1)"
    by (rule found_env_ok[OF good(1,2,5) pg F(4,6) order_refl]; simp add: dd)+
  have ee: "env_of pg ?d1 = env_of pg d" by (simp add: env_of_def)
  have hs: "\<forall>a b. dk_RangeSha1 src a = dk_RangeSha1 src b \<longrightarrow> rs_size a = rs_size b" using hash unfolding sized_hashes_def by (rule conjunct1)
  have "\<exists>ts h stats'. fit_stash pg (cs, thr) ?d1 = Inr (?d1\<lparr>df_transfers := ts, df_store := h, df_stats := stats'\<rparr>) \<and>
      set ts = {..<length h0} \<and> distinct ts \<and> stats_present (df_disabled ?d1) stats' \<and>
      fitted (dk_RangeSha1 (df_src ?d1)) (allowed_blocks cs thr 4096) h0 ts h"
  proof (rule fit_stash_ok)
    have e: "df_src ?d1 = src" by (simp add: dd)
    show "\<forall>a b. dk_RangeSha1 (df_src ?d1) a = dk_RangeSha1 (df_src ?d1) b \<longrightarrow> rs_size a = rs_size b" unfolding e by (rule hs)
  qed (use sound S opts env F(5) good(4) in \<open>simp_all add: dd\<close>)
  then obtain ts h stats' where fit: "fit_stash pg (cs, thr) ?d1 = Inr (d\<lparr>df_names := names, df_transfers := ts, df_store := h, df_stats := stats'\<rparr>)"
    "set ts = {..<length h0}" "distinct ts" "stats_present disabled stats'" "fitted (dk_RangeSha1 src) (allowed_blocks cs thr 4096) h0 ts h" by (auto simp: dd)
  have env': "env_ok (env_of pg d) [0..<length h0] h0" using env(1) unfolding ee .
  show ?thesis by (rule exI[of _ h0], rule exI[of _ stats0], rule exI[of _ ts1], rule exI[of _ h1], rule exI[of _ ts], rule exI[of _ h], rule exI[of _ stats'],
      intro conjI, fact F(1), fact S, fact fit(1), fact fit(2), fact fit(3), fact fit(4), fact fit(5), fact sound, fact F(6), fact env')
qed

text \<open>The second half: the checks pass, the patches are computed and the list is written.\<close>

lemma second_half:
  assumes fit: "fitted (dk_RangeSha1 src) (allowed_blocks cs thr 4096) h0 ts h" "set ts = {..<length h0}" "distinct ts" "stats_present disabled stats'"
    and sound: "\<forall>x\<in>set h0. sound_xf src tgt x" and tiles: "tiles (blocks (dk_care_map tgt)) (map tgt_blocks h0)"
    and env: "env_ok env [0..<length h0] h0" and hash: "sized_hashes src tgt" and opts: "32768 \<le> cs" "0 < thr"
    and tgt: "usable_disk tgt" "blocks (dk_care_map tgt) \<subseteq> {..<dk_total_blocks tgt}" "0 \<le> dk_total_blocks tgt" "wf_rs (dk_extended tgt)"
  shows "\<exists>h3 stats3 dat ls mx touched.
    AssertSequenceGood (dk_total_blocks tgt) (dk_care_map tgt) ts h = Inr () \<and> AssertSha1Good (dk_RangeSha1 src) (dk_RangeSha1 tgt) ts h = Inr () \<and>
    ComputePatches env disabled stats' 4096 ts h = Inr (h3, stats3, new_data env h ts, dat) \<and> stats_present disabled stats3 \<and>
    WriteTransfers (dk_RangeSha1 src) (Some (cs, thr)) version (target_of tgt) ts h3 rs_empty = Inr (ls, mx * 4096, touched, dk_RangeSha1 src touched) \<and>
    of_int (mx * 4096) \<le> of_int cs * thr \<and> ls ! 3 = line [str_int mx] \<and> length h3 = length h0 \<and>
    map tgt_blocks h3 = map tgt_blocks h0 \<and> (\<forall>x\<in>set h3. xf_style x \<noteq> Diff)"
proof -
  have dem: "demoted h0 h" using fitted_demoted[OF fit(1,2)] .
  have len: "length h = length h0" using demoted_length[OF dem] .
  have snd: "\<forall>x\<in>set h. sound_xf src tgt x" using demoted_sound[OF dem sound] .
  have tsh: "set ts = {..<length h}" using fit(2) len by simp
  have nn: "nonneg_rs (dk_care_map tgt)" "dk_blocksize tgt = 4096" using tgt(1) by (simp_all add: usable_disk_def good_disk_def)
  note chk = checks_ok[OF snd fit(1) tsh tiles nn(1) tgt(2,3)]
  have us: "set ts = set [0..<length h0]" "set [0..<length h0] \<subseteq> {..<length h0}" unfolding fit(2) by auto
  have "env_ok env ts h" by (rule env_ok_demoted[OF env dem us])
  moreover have "xf_style (h ! x) \<in> {Zero, New, Diff} \<and> rs_size (tgt_ranges (h ! x)) \<noteq> 0" if "x \<in> set ts" for x
  proof -
    have s: "sound_xf src tgt (h ! x)" using snd tsh that by simp
    then have "0 < rs_size (tgt_ranges (h ! x))" using bool_size[of "tgt_ranges (h ! x)"] unfolding sound_xf_def nonneg_rs_def by blast
    then show ?thesis using s unfolding sound_xf_def by simp
  qed
  moreover have "\<forall>x\<in>set ts. x < length h" "(4096 :: int) \<noteq> 0" using tsh by simp_all
  ultimately obtain h3 stats3 dat ch where P: "ComputePatches env disabled stats' 4096 ts h = Inr (h3, stats3, new_data env h ts, dat)"
    "stats_present disabled stats3" "patched env ts h ch h3 dat"
    using ComputePatches_ok[OF fit(3) _ _ _ fit(4), of h env 4096] by blast
  have lim: "0 < allowed_blocks cs thr 4096" using opts by (simp add: allowed_blocks_def)
  have ti: "wf_target (target_of tgt)" "ti_blocksize (target_of tgt) = 4096" using tgt nn by (auto simp: wf_target_def target_of_def nonneg_rs_def)
  have hs: "\<forall>a b. dk_RangeSha1 src a = dk_RangeSha1 tgt b \<longrightarrow> rs_size a = rs_size b" using hash unfolding sized_hashes_def by (rule conjunct2)
  obtain ls mx touched where W: "WriteTransfers (dk_RangeSha1 src) (Some (cs, thr)) version (target_of tgt) ts h3 rs_empty = Inr (ls, mx * 4096, touched, dk_RangeSha1 src touched)"
    "of_int (mx * 4096) \<le> of_int cs * thr" "ls ! 3 = line [str_int mx]"
    using written_list[OF snd fit(1,3) tsh tiles lim ti hs P(3), of version] by (elim exE conjE) (rule that, assumption+)
  have fin: "length h3 = length h0" "map tgt_blocks h3 = map tgt_blocks h0" "\<forall>x\<in>set h3. xf_style x \<noteq> Diff"
    using patched_final[OF P(3) tsh snd] demoted_targets[OF dem] len by simp_all
  show ?thesis by (rule exI[of _ h3], rule exI[of _ stats3], rule exI[of _ dat], rule exI[of _ ls], rule exI[of _ mx], rule exI[of _ touched],
      intro conjI, fact chk(1), fact chk(2), fact P(1), fact P(2), fact W(1), fact W(2), fact W(3), fact fin(1), fact fin(2), fact fin(3))
qed

section \<open>Properties\<close>



end
