(* ===== verification/TextFile.thy ===== *)
theory TextFile
  imports Py_Prelude
begin

text \<open>
  Text files as the scripts read them: the translation of line ends in text mode, \<open>readlines\<close>, \<open>splitlines\<close> and
  \<open>split\<close> with a limit of one. A file is the string of its characters; only the characters of \<open>char\<close> are covered.
\<close>

section \<open>Lines\<close>

abbreviation nl :: char where
  "nl \<equiv> CHR 0x0A"

text \<open>Text mode: universal newlines, then \<open>readlines\<close>.\<close>

fun translate_newlines :: "string \<Rightarrow> string" where
  "translate_newlines [] = []"
| "translate_newlines (c # cs) =
     (if c = CHR 0x0D then (case cs of d # ds \<Rightarrow> if d = nl then nl # translate_newlines ds else nl # translate_newlines cs | [] \<Rightarrow> [nl])
      else c # translate_newlines cs)"

fun readlines_from :: "string \<Rightarrow> string \<Rightarrow> string list" where
  "readlines_from w [] = (if w = [] then [] else [w])"
| "readlines_from w (c # cs) = (if c = nl then (w @ [c]) # readlines_from [] cs else readlines_from (w @ [c]) cs)"

definition readlines :: "string \<Rightarrow> string list" where
  "readlines s = readlines_from [] (translate_newlines s)"

text \<open>\<open>s.split(sep, 1)\<close> for a separator that occurs in \<open>s\<close>.\<close>

fun split_once :: "string \<Rightarrow> string \<Rightarrow> string \<times> string" where
  "split_once sep [] = ([], [])"
| "split_once sep (c # cs) = (if prefix sep (c # cs) then ([], drop (length sep) (c # cs))
                              else case split_once sep cs of (a, b) \<Rightarrow> (c # a, b))"

text \<open>\<open>str.splitlines\<close>: the line boundaries among the code points below 256.\<close>

definition is_boundary :: "char \<Rightarrow> bool" where
  "is_boundary c = (of_char c \<in> {10, 11, 12, 13, 28, 29, 30, 133 :: nat})"

fun splitlines_from :: "string \<Rightarrow> string \<Rightarrow> string list" where
  "splitlines_from w [] = (if w = [] then [] else [w])"
| "splitlines_from w (c # cs) =
     (if c = CHR 0x0D then (case cs of d # ds \<Rightarrow> if d = nl then w # splitlines_from [] ds else w # splitlines_from [] cs | [] \<Rightarrow> [w])
      else if is_boundary c then w # splitlines_from [] cs
      else splitlines_from (w @ [c]) cs)"

definition splitlines :: "string \<Rightarrow> string list" where
  "splitlines s = splitlines_from [] s"

section \<open>Lemmas\<close>

lemma translate_plain: "CHR 0x0D \<notin> set s \<Longrightarrow> translate_newlines s = s"
  by (induction s rule: translate_newlines.induct) auto

lemma readlines_line: "nl \<notin> set l \<Longrightarrow> readlines_from w (l @ nl # s) = (w @ l @ [nl]) # readlines_from [] s"
  by (induction l arbitrary: w) auto

lemma readlines_lines: "(\<forall>l\<in>set ls. nl \<notin> set l) \<Longrightarrow> readlines_from [] (concat (map (\<lambda>l. l @ [nl]) ls)) = map (\<lambda>l. l @ [nl]) ls"
  by (induction ls) (auto simp: readlines_line)

lemma split_once_single: "c \<notin> set a \<Longrightarrow> split_once [c] (a @ c # b) = (a, b)"
  by (induction a) auto

lemma rstrip_nl: "nl \<notin> set l \<Longrightarrow> rev (dropWhile (\<lambda>c. c = nl) (rev (l @ [nl]))) = l"
  by (cases l rule: rev_cases) auto

lemma strip_nonblank: "strip s \<noteq> [] \<longleftrightarrow> (\<exists>c\<in>set s. \<not> is_space c)"
  by (auto simp: strip_defs dropWhile_eq_Nil_conv dest: set_dropWhileD)
     (metis dropWhile_eq_Nil_conv dropWhile_idem hd_dropWhile hd_in_set)

lemma boundary_nl [simp]: "is_boundary nl"
  by (simp add: is_boundary_def)

lemma splitlines_line:
  "(\<forall>c\<in>set l. \<not> is_boundary c) \<Longrightarrow> splitlines_from w (l @ nl # s) = (w @ l) # splitlines_from [] s"
  by (induction l arbitrary: w) (auto simp: is_boundary_def)

lemma splitlines_lines:
  "(\<forall>l\<in>set ls. \<forall>c\<in>set l. \<not> is_boundary c) \<Longrightarrow> splitlines (concat (map (\<lambda>l. l @ [nl]) ls)) = ls"
  unfolding splitlines_def by (induction ls) (auto simp: splitlines_line)

end
