(* ===== verification/BuildProps.thy ===== *)
theory BuildProps
  imports TextFile
begin

text \<open>
  \<open>tools/post_process_props.py\<close>: the post-processing of a \<open>build.prop\<close> file. A \<open>Prop\<close> is a record, a \<open>PropList\<close>
  the list of its props; the props that \<open>get_props\<close> returns are references, so they are positions in that list.
  The iteration order of the set \<open>get_all_names\<close> returns is a parameter, and so is \<open>should_enable_uffd_gc\<close> of
  the module \<open>uffd_gc_utils\<close>. Messages on \<open>stderr\<close> are left out, \<open>sys.exit\<close> is the error \<open>SystemExit\<close>.
\<close>

section \<open>Prop\<close>

record sysprop =
  p_name :: string
  p_value :: string
  p_comments :: "string list"
  p_optional :: bool

definition Prop_init :: "string \<Rightarrow> string \<Rightarrow> bool \<Rightarrow> string option \<Rightarrow> sysprop" where
  "Prop_init name value optional comment = \<lparr>p_name = strip name, p_value = strip value,
     p_comments = (case comment of Some c \<Rightarrow> [c] | None \<Rightarrow> []), p_optional = optional\<rparr>"

definition from_line :: "string \<Rightarrow> sysprop" where
  "from_line l = (let line = rev (dropWhile (\<lambda>c. c = nl) (rev l)) in
     if prefix ''#'' line then Prop_init [] [] False (Some line)
     else if str_in ''?='' line then (case split_once ''?='' line of (name, value) \<Rightarrow> Prop_init name value True None)
     else if str_in ''='' line then (case split_once ''='' line of (name, value) \<Rightarrow> Prop_init name value False None)
     else Prop_init [] [] False (Some line))"

definition is_comment :: "sysprop \<Rightarrow> bool" where
  "is_comment p = (p_comments p \<noteq> [] \<and> p_name p = [])"

definition is_optional :: "sysprop \<Rightarrow> bool" where
  "is_optional p = (\<not> is_comment p \<and> p_optional p)"

definition prop_str :: "sysprop \<Rightarrow> string" where
  "prop_str p = join [nl] (p_comments p @
     (if is_comment p then [] else [p_name p @ (if is_optional p then ''?='' else ''='') @ p_value p]))"

definition make_as_comment :: "sysprop \<Rightarrow> sysprop" where
  "make_as_comment p = (if is_comment p then p
     else p\<lparr>p_comments := p_comments p @ [''#'' @ last (split_on nl (prop_str p))], p_name := [], p_value := []\<rparr>)"

definition prop_delete :: "string \<Rightarrow> sysprop \<Rightarrow> sysprop" where
  "prop_delete reason p = make_as_comment (p\<lparr>p_comments := p_comments p @ [''# Removed by post_process_props.py because '' @ reason]\<rparr>)"

section \<open>PropList\<close>

definition PropList_init :: "string \<Rightarrow> sysprop list" where
  "PropList_init content = map from_line (filter (\<lambda>l. strip l \<noteq> []) (readlines content))"

definition get_all_props :: "sysprop list \<Rightarrow> nat list" where
  "get_all_props ps = filter (\<lambda>i. \<not> is_comment (ps ! i)) [0..<length ps]"

definition get_all_names :: "sysprop list \<Rightarrow> string list" where
  "get_all_names ps = remdups (map (\<lambda>i. p_name (ps ! i)) (get_all_props ps))"

definition get_props :: "sysprop list \<Rightarrow> string \<Rightarrow> nat list" where
  "get_props ps name = filter (\<lambda>i. p_name (ps ! i) = name) (get_all_props ps)"

definition get_value :: "sysprop list \<Rightarrow> string \<Rightarrow> string" where
  "get_value ps name = (case filter (\<lambda>p. p_name p = name) ps of p # _ \<Rightarrow> p_value p | [] \<Rightarrow> [])"

definition prop_put :: "string \<Rightarrow> string \<Rightarrow> sysprop list \<Rightarrow> sysprop list" where
  "prop_put name value ps =
     (case filter (\<lambda>i. p_name (ps ! i) = name \<and> \<not> is_optional (ps ! i)) [0..<length ps] of
        [] \<Rightarrow> ps @ [Prop_init name value False (Some ''# Auto-added by post_process_props.py'')]
      | i # _ \<Rightarrow> ps[i := (ps ! i)\<lparr>p_comments := p_comments (ps ! i) @
            [''# Value overridden by post_process_props.py. Original value: '' @ p_value (ps ! i)], p_value := value\<rparr>])"

definition prop_write :: "sysprop list \<Rightarrow> string" where
  "prop_write ps = concat (map (\<lambda>p. prop_str p @ [nl]) ps)"

section \<open>The passes\<close>

definition mangle_build_prop :: "(string \<Rightarrow> bool res) \<Rightarrow> string \<Rightarrow> sysprop list \<Rightarrow> sysprop list res" where
  "mangle_build_prop should_enable_uffd_gc kernel_version_file ps =
     (let ps1 = (if get_value ps ''ro.debuggable'' = ''1'' then
                   let val = get_value ps ''persist.sys.usb.config'' in
                   if \<not> str_in ''adb'' val then
                     prop_put ''persist.sys.usb.config'' (if val = [] then ''adb'' else val @ '',adb'') ps
                   else ps
                 else ps) in
      if get_value ps1 ''ro.dalvik.vm.enable_uffd_gc'' = ''default'' then
        try_bind (py_assert (kernel_version_file \<noteq> [])) (\<lambda>_.
        try_bind (should_enable_uffd_gc kernel_version_file) (\<lambda>enable.
          Inr (prop_put ''ro.dalvik.vm.enable_uffd_gc'' (if enable then ''true'' else ''false'') ps1)))
      else Inr ps1)"

definition validate_grf_props :: "sysprop list \<Rightarrow> bool res" where
  "validate_grf_props ps =
     (let grf = get_value ps ''ro.board.first_api_level''; board = get_value ps ''ro.board.api_level'' in
      if grf \<noteq> [] \<and> board \<noteq> [] then
        try_bind (py_int grf) (\<lambda>grf_api_level.
        try_bind (py_int board) (\<lambda>board_api_level.
          Inr (\<not> board_api_level < grf_api_level)))
      else Inr True)"

definition PROP_VALUE_MAX :: nat where
  "PROP_VALUE_MAX = 91"

definition validate :: "sysprop list \<Rightarrow> bool" where
  "validate ps = foldl (\<lambda>check_pass i. let p = ps ! i;
       check_pass = (if length (p_value p) > PROP_VALUE_MAX \<and> \<not> prefix ''ro.'' (p_name p) then False else check_pass) in
       if is_optional p then False else check_pass) True (get_all_props ps)"

definition update_props :: "(sysprop \<Rightarrow> sysprop) \<Rightarrow> nat list \<Rightarrow> sysprop list \<Rightarrow> sysprop list" where
  "update_props f is ps = foldl (\<lambda>ps i. ps[i := f (ps ! i)]) ps is"

definition override_name :: "bool \<Rightarrow> sysprop list \<times> bool \<Rightarrow> string \<Rightarrow> (sysprop list \<times> bool) res" where
  "override_name allow_dup = (\<lambda>(ps, success) name.
     let props = get_props ps name;
         optional_props = filter (\<lambda>i. is_optional (ps ! i)) props;
         overriding_props = filter (\<lambda>i. \<not> is_optional (ps ! i)) props in
     if length overriding_props > 1 then
       if \<forall>i\<in>set overriding_props. p_value (ps ! hd overriding_props) = p_value (ps ! i) then
         Inr (update_props (prop_delete (''overridden by '' @ prop_str (ps ! hd overriding_props))) optional_props ps, success)
       else if allow_dup then Inr (update_props (\<lambda>p. p\<lparr>p_optional := False\<rparr>) optional_props ps, success)
       else Inr (ps, False)
     else if length overriding_props = 1 then
       Inr (update_props (prop_delete (''overridden by '' @ prop_str (ps ! hd overriding_props))) optional_props ps, success)
     else
       let ps' = (if length optional_props > 1
                  then update_props (prop_delete (''overridden by '' @ prop_str (ps ! last optional_props))) (butlast optional_props) ps
                  else ps) in
       if optional_props = [] then Inl IndexError
       else Inr (update_props (\<lambda>p. p\<lparr>p_optional := False\<rparr>) [last optional_props] ps', success))"

text \<open>\<open>names\<close> is the set of names in the order in which Python iterates over it.\<close>

definition override_optional_props :: "bool \<Rightarrow> string list \<Rightarrow> sysprop list \<Rightarrow> (sysprop list \<times> bool) res" where
  "override_optional_props allow_dup names ps = for_each (override_name allow_dup) (ps, True) names"

section \<open>main\<close>

record prop_args =
  pa_filename :: string
  pa_allow_dup :: bool
  pa_disallowed_keys :: "string list"
  pa_kernel_version_file :: string

definition drop_key :: "sysprop list \<Rightarrow> string \<Rightarrow> sysprop list" where
  "drop_key ps key = update_props (prop_delete (key @ '' is a disallowed key'')) (get_props ps key) ps"

text \<open>The result is the new content of the file.\<close>

definition props_main :: "(string \<Rightarrow> bool res) \<Rightarrow> (string list \<Rightarrow> string list) \<Rightarrow> prop_args \<Rightarrow> string \<Rightarrow> string res" where
  "props_main should_enable_uffd_gc set_order args content =
     (if \<not> suffix ''/build.prop'' (pa_filename args) then Inl (SystemExit 1)
      else
        try_bind (mangle_build_prop should_enable_uffd_gc (pa_kernel_version_file args) (PropList_init content)) (\<lambda>ps1.
        try_bind (override_optional_props (pa_allow_dup args) (set_order (get_all_names ps1)) ps1) (\<lambda>(ps2, success).
        if \<not> success then Inl (SystemExit 1)
        else try_bind (validate_grf_props ps2) (\<lambda>grf_ok.
        if \<not> grf_ok then Inl (SystemExit 1)
        else if \<not> validate ps2 then Inl (SystemExit 1)
        else Inr (prop_write (foldl drop_key ps2 (pa_disallowed_keys args)))))))"

section \<open>Positions and updates\<close>

lemma get_props_filter: "get_props ps nm = filter (\<lambda>i. \<not> is_comment (ps ! i) \<and> p_name (ps ! i) = nm) [0..<length ps]"
  by (simp add: get_props_def get_all_props_def conj_commute)

lemma get_props_set: "i \<in> set (get_props ps nm) \<longleftrightarrow> i < length ps \<and> \<not> is_comment (ps ! i) \<and> p_name (ps ! i) = nm"
  by (auto simp: get_props_filter)

lemma get_props_distinct [simp]: "distinct (get_props ps nm)"
  by (simp add: get_props_filter)

lemma get_all_names_set: "nm \<in> set (get_all_names ps) \<longleftrightarrow> get_props ps nm \<noteq> []"
  by (auto simp: get_all_names_def get_props_def filter_empty_conv)

lemma update_props_nth:
  assumes "distinct is" "set is \<subseteq> {..<length ps}"
  shows "update_props f is ps = map (\<lambda>i. if i \<in> set is then f (ps ! i) else ps ! i) [0..<length ps]"
  using assms unfolding update_props_def
proof (induction "is" rule: rev_induct)
  case Nil
  then show ?case by (simp add: map_nth)
next
  case (snoc j js)
  then show ?case by (auto intro!: nth_equalityI simp: nth_list_update)
qed

section \<open>Resolving one name\<close>

abbreviation optionals :: "sysprop list \<Rightarrow> string \<Rightarrow> nat list" where
  "optionals ps nm \<equiv> filter (\<lambda>i. is_optional (ps ! i)) (get_props ps nm)"

abbreviation overriding :: "sysprop list \<Rightarrow> string \<Rightarrow> nat list" where
  "overriding ps nm \<equiv> filter (\<lambda>i. \<not> is_optional (ps ! i)) (get_props ps nm)"

definition agreeing :: "sysprop list \<Rightarrow> string \<Rightarrow> bool" where
  "agreeing ps nm = (\<forall>i\<in>set (overriding ps nm). \<forall>j\<in>set (overriding ps nm). p_value (ps ! i) = p_value (ps ! j))"

text \<open>What becomes of the optional prop at position \<open>i\<close>.\<close>

definition resolved :: "bool \<Rightarrow> sysprop list \<Rightarrow> string \<Rightarrow> nat \<Rightarrow> sysprop" where
  "resolved allow_dup ps nm i =
     (if \<not> is_optional (ps ! i) then ps ! i
      else if overriding ps nm = [] then
        (if i = last (optionals ps nm) then (ps ! i)\<lparr>p_optional := False\<rparr>
         else prop_delete (''overridden by '' @ prop_str (ps ! last (optionals ps nm))) (ps ! i))
      else if agreeing ps nm then prop_delete (''overridden by '' @ prop_str (ps ! hd (overriding ps nm))) (ps ! i)
      else if allow_dup then (ps ! i)\<lparr>p_optional := False\<rparr>
      else ps ! i)"

definition resolve_names :: "bool \<Rightarrow> sysprop list \<Rightarrow> string set \<Rightarrow> sysprop list" where
  "resolve_names allow_dup ps N =
     map (\<lambda>i. if \<not> is_comment (ps ! i) \<and> p_name (ps ! i) \<in> N then resolved allow_dup ps (p_name (ps ! i)) i else ps ! i) [0..<length ps]"

lemma agreeing_hd:
  assumes "overriding ps nm \<noteq> []"
  shows "(\<forall>i\<in>set (overriding ps nm). p_value (ps ! hd (overriding ps nm)) = p_value (ps ! i)) \<longleftrightarrow> agreeing ps nm"
  unfolding agreeing_def using hd_in_set[OF assms] by metis

lemma agreeing_few: "length (overriding ps nm) \<le> 1 \<Longrightarrow> agreeing ps nm"
  unfolding agreeing_def by (cases "overriding ps nm") (auto simp: le_Suc_eq)

lemma optionals_props: "set (optionals ps nm) \<subseteq> {..<length ps}" "distinct (optionals ps nm)"
  by (auto simp: get_props_set)

lemma optionals_nth: "j < length ps \<Longrightarrow> j \<in> set (optionals ps nm) \<longleftrightarrow> \<not> is_comment (ps ! j) \<and> p_name (ps ! j) = nm \<and> is_optional (ps ! j)"
  by (auto simp: get_props_set)

lemma resolve_by_update:
  assumes "overriding ps nm \<noteq> []"
  shows "resolve_names allow_dup ps {nm} = update_props (\<lambda>p. if agreeing ps nm then prop_delete (''overridden by '' @ prop_str (ps ! hd (overriding ps nm))) p
    else if allow_dup then p\<lparr>p_optional := False\<rparr> else p) (optionals ps nm) ps"
proof -
  have "(if \<not> is_comment (ps ! i) \<and> p_name (ps ! i) \<in> {nm} then resolved allow_dup ps (p_name (ps ! i)) i else ps ! i) =
    (if i \<in> set (optionals ps nm) then if agreeing ps nm then prop_delete (''overridden by '' @ prop_str (ps ! hd (overriding ps nm))) (ps ! i)
      else if allow_dup then (ps ! i)\<lparr>p_optional := False\<rparr> else ps ! i else ps ! i)" if "i < length ps" for i
    unfolding optionals_nth[OF that] using assms by (auto simp only: resolved_def singleton_iff if_True if_False simp_thms split: if_splits)
  then show ?thesis unfolding resolve_names_def update_props_nth[OF optionals_props(2,1)] by (auto intro!: map_cong)
qed

lemma override_name_spec:
  assumes "nm \<in> set (get_all_names ps)"
  shows "override_name allow_dup (ps, s) nm = Inr (resolve_names allow_dup ps {nm}, s \<and> (allow_dup \<or> agreeing ps nm))"
proof -
  consider (many) "1 < length (overriding ps nm)" | (one) "length (overriding ps nm) = 1" | (none) "overriding ps nm = []"
    by (cases "length (overriding ps nm)") (auto simp: less_Suc_eq_0_disj)
  then show ?thesis
  proof cases
    case many
    then have ne: "overriding ps nm \<noteq> []" by auto
    show ?thesis unfolding override_name_def Let_def split agreeing_hd[OF ne] resolve_by_update[OF ne]
      using many by (cases "agreeing ps nm"; cases allow_dup) (simp_all add: update_props_nth[OF optionals_props(2,1)] map_nth)
  next
    case one
    then have ne: "overriding ps nm \<noteq> []" by auto
    have "agreeing ps nm" by (rule agreeing_few) (simp add: one)
    then show ?thesis unfolding override_name_def Let_def split resolve_by_update[OF ne] using one by simp
  next
    case none
    let ?os = "optionals ps nm"
    have props: "get_props ps nm \<noteq> []" using assms get_all_names_set by simp
    have "\<forall>i\<in>set (get_props ps nm). is_optional (ps ! i)" using none by (simp add: filter_empty_conv)
    then have ne: "?os \<noteq> []" using props by simp
    define l bs where "l = last ?os" and "bs = butlast ?os"
    have os: "?os = bs @ [l]" using ne by (simp add: l_def bs_def)
    have inj: "distinct bs" "l \<notin> set bs" "set bs \<subseteq> {..<length ps}" "l < length ps" using optionals_props[of ps nm] unfolding os by auto
    let ?d = "prop_delete (''overridden by '' @ prop_str (ps ! l))" and ?u = "\<lambda>p. p\<lparr>p_optional := False\<rparr>"
    have "override_name allow_dup (ps, s) nm = Inr (update_props ?u [l] (update_props ?d bs ps), s)"
      unfolding override_name_def Let_def split none os by (simp add: update_props_def)
    also have "update_props ?u [l] (update_props ?d bs ps) = resolve_names allow_dup ps {nm}"
    proof (intro nth_equalityI)
      fix i assume i: "i < length (update_props ?u [l] (update_props ?d bs ps))"
      then have i: "i < length ps" by (simp add: update_props_nth inj)
      have "i \<in> set ?os \<longleftrightarrow> i = l \<or> i \<in> set bs" unfolding os by auto
      then have "i = l \<or> i \<in> set bs \<longleftrightarrow> \<not> is_comment (ps ! i) \<and> p_name (ps ! i) = nm \<and> is_optional (ps ! i)" using optionals_nth[OF i] by blast
      then show "update_props ?u [l] (update_props ?d bs ps) ! i = resolve_names allow_dup ps {nm} ! i"
        using i inj none by (auto simp: update_props_nth resolve_names_def resolved_def l_def[symmetric])
    qed (simp add: update_props_nth inj resolve_names_def)
    finally show ?thesis using agreeing_few[of ps nm] none by simp
  qed
qed

section \<open>Resolving all names\<close>

lemma delete_comment [simp]: "is_comment (prop_delete r p)"
  by (simp add: prop_delete_def make_as_comment_def is_comment_def)

lemma resolve_names_length [simp]: "length (resolve_names allow_dup ps N) = length ps"
  by (simp add: resolve_names_def)

lemma resolve_names_nth:
  "i < length ps \<Longrightarrow> resolve_names allow_dup ps N ! i =
     (if \<not> is_comment (ps ! i) \<and> p_name (ps ! i) \<in> N then resolved allow_dup ps (p_name (ps ! i)) i else ps ! i)"
  by (simp add: resolve_names_def)

lemma set_optional_comment [simp]: "is_comment (p\<lparr>p_optional := b\<rparr>) = is_comment p"
  by (simp add: is_comment_def)

lemma resolved_cases:
  "is_comment (resolved allow_dup ps nm i) \<or>
   is_comment (resolved allow_dup ps nm i) = is_comment (ps ! i) \<and> p_name (resolved allow_dup ps nm i) = p_name (ps ! i) \<and> p_value (resolved allow_dup ps nm i) = p_value (ps ! i)"
  by (simp add: resolved_def)

lemma get_props_resolved:
  assumes "x \<notin> N"
  shows "get_props (resolve_names allow_dup ps N) x = get_props ps x"
    and "i \<in> set (get_props ps x) \<Longrightarrow> resolve_names allow_dup ps N ! i = ps ! i"
proof -
  let ?R = "resolve_names allow_dup ps N"
  have "\<not> is_comment (?R ! i) \<and> p_name (?R ! i) = x \<longleftrightarrow> \<not> is_comment (ps ! i) \<and> p_name (ps ! i) = x" if "i < length ps" for i
    using resolved_cases[of allow_dup ps "p_name (ps ! i)" i] assms by (auto simp: resolve_names_nth[OF that])
  then show "get_props ?R x = get_props ps x" unfolding get_props_filter resolve_names_length by (intro filter_cong) auto
  show "?R ! i = ps ! i" if "i \<in> set (get_props ps x)" using that assms by (auto simp: get_props_set resolve_names_nth)
qed

lemma resolved_cong:
  assumes "get_props ps' x = get_props ps x" "\<And>i. i \<in> set (get_props ps x) \<Longrightarrow> ps' ! i = ps ! i"
  shows "agreeing ps' x = agreeing ps x" and "i \<in> set (get_props ps x) \<Longrightarrow> resolved allow_dup ps' x i = resolved allow_dup ps x i"
proof -
  have o: "optionals ps' x = optionals ps x" "overriding ps' x = overriding ps x"
    unfolding assms(1) by (auto intro!: filter_cong simp: assms(2))
  show a: "agreeing ps' x = agreeing ps x" unfolding agreeing_def o by (simp add: assms(2))
  have h: "overriding ps x \<noteq> [] \<Longrightarrow> ps' ! hd (overriding ps x) = ps ! hd (overriding ps x)"
    using hd_in_set[of "overriding ps x"] by (simp add: assms(2))
  have l: "ps' ! last (optionals ps x) = ps ! last (optionals ps x)" if "i \<in> set (get_props ps x)" "is_optional (ps ! i)" for i
  proof -
    have "optionals ps x \<noteq> []" using that by (auto simp: filter_empty_conv)
    then show ?thesis using last_in_set[of "optionals ps x"] by (simp add: assms(2))
  qed
  show "resolved allow_dup ps' x i = resolved allow_dup ps x i" if i: "i \<in> set (get_props ps x)"
  proof (cases "is_optional (ps ! i)")
    case True
    then show ?thesis unfolding resolved_def o a assms(2)[OF i] l[OF i True]
      by (cases "overriding ps x = []") (simp_all only: h simp_thms if_True if_False)
  qed (simp add: resolved_def assms(2)[OF i])
qed

lemma resolve_names_insert:
  assumes "x \<notin> N"
  shows "resolve_names allow_dup (resolve_names allow_dup ps N) {x} = resolve_names allow_dup ps (insert x N)"
proof (rule nth_equalityI)
  let ?R = "resolve_names allow_dup ps N"
  fix i assume "i < length (resolve_names allow_dup ?R {x})"
  then have i: "i < length ps" by simp
  note g = get_props_resolved[OF assms, where allow_dup = allow_dup and ps = ps]
  have mem: "\<not> is_comment (?R ! i) \<and> p_name (?R ! i) = x \<longleftrightarrow> \<not> is_comment (ps ! i) \<and> p_name (ps ! i) = x"
    using g(1) get_props_set[of i ?R x] get_props_set[of i ps x] i by simp
  show "resolve_names allow_dup ?R {x} ! i = resolve_names allow_dup ps (insert x N) ! i"
  proof (cases "\<not> is_comment (ps ! i) \<and> p_name (ps ! i) = x")
    case True
    then have "i \<in> set (get_props ps x)" using i by (simp add: get_props_set)
    then have "resolved allow_dup ?R x i = resolved allow_dup ps x i" using resolved_cong(2)[OF g] by blast
    then show ?thesis using True mem i by (auto simp: resolve_names_nth)
  next
    case False
    then show ?thesis using mem i by (auto simp: resolve_names_nth)
  qed
qed simp

lemma resolve_no_names [simp]: "resolve_names allow_dup ps {} = ps"
  by (simp add: resolve_names_def map_nth)

text \<open>The loop over the names has the same result for every order.\<close>

lemma override_all:
  assumes "distinct names" "set names = set (get_all_names ps)"
  shows "override_optional_props allow_dup names ps =
    Inr (resolve_names allow_dup ps (set names), allow_dup \<or> (\<forall>nm\<in>set names. agreeing ps nm))"
proof -
  let ?P = "\<lambda>ys st. st = (resolve_names allow_dup ps (set ys), allow_dup \<or> (\<forall>nm\<in>set ys. agreeing ps nm))"
  have "\<exists>st. for_each (override_name allow_dup) (ps, True) names = Inr st \<and> ?P names st"
  proof (rule for_each_invariant)
    fix ys x zs st assume n: "names = ys @ x # zs" and st: "?P ys st"
    then have x: "x \<notin> set ys" "x \<in> set (get_all_names ps)" using assms by auto
    note g = get_props_resolved[OF x(1), where allow_dup = allow_dup and ps = ps]
    have "x \<in> set (get_all_names (resolve_names allow_dup ps (set ys)))" using x(2) g(1) by (simp add: get_all_names_set)
    from override_name_spec[OF this, of allow_dup] show "\<exists>st'. override_name allow_dup st x = Inr st' \<and> ?P (ys @ [x]) st'"
      using resolved_cong(1)[OF g] resolve_names_insert[OF x(1), of allow_dup ps] st by auto
  qed simp
  then show ?thesis unfolding override_optional_props_def by blast
qed

section \<open>The surviving assignments\<close>

text \<open>The assignments of a name, in the order of the file, with their flags.\<close>

definition assigned :: "sysprop list \<Rightarrow> string \<Rightarrow> (string \<times> bool) list" where
  "assigned ps nm = map (\<lambda>i. (p_value (ps ! i), p_optional (ps ! i))) (get_props ps nm)"

text \<open>The documented outcome: non-optional assignments win over optional ones; without any, the last optional one
  is kept; different non-optional values are accepted only for compatibility, and then everything is kept.\<close>

definition same_values :: "'a list \<Rightarrow> bool" where
  "same_values vs = (\<forall>v\<in>set vs. v = hd vs)"

definition survivors :: "bool \<Rightarrow> (string \<times> bool) list \<Rightarrow> string list" where
  "survivors allow_dup vs =
     (let fixed = map fst (filter (\<lambda>v. \<not> snd v) vs); optional = map fst (filter snd vs) in
      if fixed = [] then [last optional] else if allow_dup \<and> \<not> same_values fixed then map fst vs else fixed)"

lemma not_comment_optional: "i \<in> set (get_props ps nm) \<Longrightarrow> is_optional (ps ! i) = p_optional (ps ! i)"
  by (auto simp: get_props_set is_optional_def)

lemma assigned_fixed: "map fst (filter (\<lambda>v. \<not> snd v) (assigned ps nm)) = map (\<lambda>i. p_value (ps ! i)) (overriding ps nm)"
  by (auto simp: assigned_def filter_map o_def not_comment_optional intro!: map_cong filter_cong)

lemma assigned_optional: "map fst (filter snd (assigned ps nm)) = map (\<lambda>i. p_value (ps ! i)) (optionals ps nm)"
  by (auto simp: assigned_def filter_map o_def not_comment_optional intro!: map_cong filter_cong)

lemma agreeing_values: "agreeing ps nm \<longleftrightarrow> same_values (map (\<lambda>i. p_value (ps ! i)) (overriding ps nm))"
proof (cases "overriding ps nm = []")
  case False
  then show ?thesis using agreeing_hd[OF False] hd_map[OF False, of "\<lambda>i. p_value (ps ! i)"]
    by (simp only: same_values_def set_map ball_simps) (metis (no_types, lifting))
qed (simp add: agreeing_def same_values_def)

lemma get_props_all_resolved:
  assumes "nm \<in> N"
  shows "get_props (resolve_names allow_dup ps N) nm = filter (\<lambda>i. \<not> is_comment (resolved allow_dup ps nm i)) (get_props ps nm)"
    and "i \<in> set (get_props ps nm) \<Longrightarrow> resolve_names allow_dup ps N ! i = resolved allow_dup ps nm i"
proof -
  let ?R = "resolve_names allow_dup ps N"
  show nth: "?R ! i = resolved allow_dup ps nm i" if "i \<in> set (get_props ps nm)" for i using that assms by (auto simp: get_props_set resolve_names_nth)
  have "\<not> is_comment (?R ! i) \<and> p_name (?R ! i) = nm \<longleftrightarrow> i \<in> set (get_props ps nm) \<and> \<not> is_comment (resolved allow_dup ps nm i)" if "i < length ps" for i
    using resolved_cases[of allow_dup ps "p_name (ps ! i)" i] assms that by (auto simp: resolve_names_nth get_props_set)
  then show "get_props ?R nm = filter (\<lambda>i. \<not> is_comment (resolved allow_dup ps nm i)) (get_props ps nm)"
    unfolding get_props_filter resolve_names_length filter_filter by (intro filter_cong refl) auto
qed

lemma filter_last: "distinct xs \<Longrightarrow> xs \<noteq> [] \<Longrightarrow> filter (\<lambda>x. x = last xs) xs = [last xs]"
  by (induction xs rule: rev_induct) (auto simp: filter_empty_conv)

lemma assigned_resolved:
  assumes nm: "nm \<in> N" "nm \<in> set (get_all_names ps)" and ok: "allow_dup \<or> agreeing ps nm"
  shows "assigned (resolve_names allow_dup ps N) nm = map (\<lambda>v. (v, False)) (survivors allow_dup (assigned ps nm))"
proof -
  let ?xs = "get_props ps nm" and ?r = "resolved allow_dup ps nm"
  have A: "assigned (resolve_names allow_dup ps N) nm = map (\<lambda>i. (p_value (?r i), p_optional (?r i))) (filter (\<lambda>i. \<not> is_comment (?r i)) ?xs)"
    unfolding assigned_def get_props_all_resolved(1)[OF nm(1)] by (auto simp: get_props_all_resolved(2)[OF nm(1)])
  have nc: "\<not> is_comment (ps ! i)" if "i \<in> set ?xs" for i using that by (simp add: get_props_set)
  consider (none) "overriding ps nm = []" | (agree) "overriding ps nm \<noteq> []" "agreeing ps nm" | (dup) "overriding ps nm \<noteq> []" "\<not> agreeing ps nm" "allow_dup"
    using ok by blast
  then show ?thesis
  proof cases
    case none
    then have opt: "\<forall>i\<in>set ?xs. is_optional (ps ! i)" by (simp add: filter_empty_conv)
    then have xs: "optionals ps nm = ?xs" "?xs \<noteq> []" using nm(2) by (simp_all add: get_all_names_set)
    have "filter (\<lambda>i. \<not> is_comment (?r i)) ?xs = filter (\<lambda>i. i = last ?xs) ?xs"
      by (rule filter_cong) (use opt none xs nc in \<open>auto simp: resolved_def\<close>)
    also have "\<dots> = [last ?xs]" using xs(2) by (simp add: filter_last)
    finally have "assigned (resolve_names allow_dup ps N) nm = [(p_value (ps ! last ?xs), False)]"
      using A opt none xs last_in_set[OF xs(2)] by (simp add: resolved_def)
    then show ?thesis using none xs by (simp add: survivors_def assigned_fixed assigned_optional last_map)
  next
    case agree
    have "filter (\<lambda>i. \<not> is_comment (?r i)) ?xs = overriding ps nm"
      by (rule filter_cong) (use agree nc in \<open>auto simp: resolved_def\<close>)
    then have "assigned (resolve_names allow_dup ps N) nm = map (\<lambda>i. (p_value (ps ! i), False)) (overriding ps nm)"
      unfolding A by (auto simp: resolved_def not_comment_optional)
    then show ?thesis using agree by (simp add: survivors_def assigned_fixed agreeing_values[symmetric])
  next
    case dup
    have "filter (\<lambda>i. \<not> is_comment (?r i)) ?xs = ?xs"
      by (rule filter_True) (use dup nc in \<open>auto simp: resolved_def\<close>)
    then have "assigned (resolve_names allow_dup ps N) nm = map (\<lambda>i. (p_value (ps ! i), False)) ?xs"
      unfolding A using dup by (auto simp: resolved_def not_comment_optional)
    moreover have "survivors allow_dup (assigned ps nm) = map (\<lambda>i. p_value (ps ! i)) ?xs"
      unfolding survivors_def Let_def assigned_fixed agreeing_values[symmetric] using dup by (simp add: assigned_def)
    ultimately show ?thesis by simp
  qed
qed

section \<open>Validation\<close>

lemma validate_iff:
  "validate ps \<longleftrightarrow> (\<forall>i\<in>set (get_all_props ps). (length (p_value (ps ! i)) \<le> 91 \<or> prefix ''ro.'' (p_name (ps ! i))) \<and> \<not> is_optional (ps ! i))"
proof -
  let ?ok = "\<lambda>i. (length (p_value (ps ! i)) \<le> 91 \<or> prefix ''ro.'' (p_name (ps ! i))) \<and> \<not> is_optional (ps ! i)"
  have "foldl (\<lambda>check_pass i. let p = ps ! i;
       check_pass = (if length (p_value p) > PROP_VALUE_MAX \<and> \<not> prefix ''ro.'' (p_name p) then False else check_pass) in
       if is_optional p then False else check_pass) b is \<longleftrightarrow> b \<and> (\<forall>i\<in>set is. ?ok i)" for b "is"
    by (induction "is" arbitrary: b) (auto simp: Let_def PROP_VALUE_MAX_def not_less)
  then show ?thesis unfolding validate_def by simp
qed

section \<open>Writing and reading back\<close>

definition one_line :: "string \<Rightarrow> bool" where
  "one_line s = (nl \<notin> set s \<and> CHR 0x0D \<notin> set s)"

text \<open>A line that is read as a comment.\<close>

definition comment_line :: "string \<Rightarrow> bool" where
  "comment_line c = (one_line c \<and> strip c \<noteq> [] \<and> (prefix ''#'' c \<or> CHR ''='' \<notin> set c))"

definition clean_name :: "string \<Rightarrow> bool" where
  "clean_name s = (one_line s \<and> s \<noteq> [] \<and> strip s = s \<and> CHR ''='' \<notin> set s \<and> hd s \<noteq> CHR ''#'' \<and> last s \<noteq> CHR ''?'')"

definition clean_value :: "bool \<Rightarrow> string \<Rightarrow> bool" where
  "clean_value optional s = (one_line s \<and> strip s = s \<and> (optional \<or> \<not> str_in ''?='' s))"

definition clean_prop :: "sysprop \<Rightarrow> bool" where
  "clean_prop p = ((\<forall>c\<in>set (p_comments p). comment_line c) \<and>
     (is_comment p \<or> clean_name (p_name p) \<and> clean_value (p_optional p) (p_value p)))"

text \<open>The lines of a prop, and what they are read back as.\<close>

definition prop_lines :: "sysprop \<Rightarrow> string list" where
  "prop_lines p = p_comments p @ (if is_comment p then [] else [p_name p @ (if is_optional p then ''?='' else ''='') @ p_value p])"

definition as_lines :: "sysprop \<Rightarrow> sysprop list" where
  "as_lines p = map (\<lambda>c. Prop_init [] [] False (Some c)) (p_comments p) @
     (if is_comment p then [] else [\<lparr>p_name = p_name p, p_value = p_value p, p_comments = [], p_optional = p_optional p\<rparr>])"

lemma prop_lines_nonempty: "prop_lines p \<noteq> []"
  by (auto simp: prop_lines_def is_comment_def)

lemma join_nl: "ls \<noteq> [] \<Longrightarrow> join [nl] ls @ [nl] = concat (map (\<lambda>l. l @ [nl]) ls)"
  by (induction ls rule: induct_list012) auto

lemma prop_write_lines: "prop_write ps = concat (map (\<lambda>l. l @ [nl]) (concat (map prop_lines ps)))"
proof -
  have "prop_str p @ [nl] = concat (map (\<lambda>l. l @ [nl]) (prop_lines p))" for p
    using join_nl[OF prop_lines_nonempty[of p]] unfolding prop_str_def prop_lines_def .
  then show ?thesis unfolding prop_write_def by (induction ps) auto
qed

lemma split_once_optional:
  assumes "CHR ''='' \<notin> set a"
  shows "split_once ''?='' (a @ ''?='' @ b) = (a, b)"
  using assms
proof (induction a)
  case (Cons c cs)
  then show ?case by (cases cs) (auto simp: prefix_Cons)
qed simp

lemma no_optional_sign:
  assumes "CHR ''='' \<notin> set a" "a = [] \<or> last a \<noteq> CHR ''?''" "\<not> str_in ''?='' b"
  shows "\<not> str_in ''?='' (a @ ''='' @ b)"
  using assms
proof (induction a)
  case (Cons c cs)
  then show ?case by (cases cs) (auto simp: prefix_Cons split: if_splits)
qed (simp add: prefix_Cons)

lemma from_comment_line:
  assumes "comment_line c"
  shows "from_line (c @ [nl]) = Prop_init [] [] False (Some c)"
proof -
  have r: "rev (dropWhile (\<lambda>x. x = nl) (rev (c @ [nl]))) = c" using assms by (intro rstrip_nl) (simp add: comment_line_def one_line_def)
  have "\<not> str_in ''?='' c \<and> \<not> str_in ''='' c" if "\<not> prefix ''#'' c"
    using assms that unfolding comment_line_def str_in_iff by auto
  then show ?thesis unfolding from_line_def r Let_def by auto
qed

lemma from_assignment_line:
  assumes "clean_name n" "clean_value opt v"
  shows "from_line ((n @ (if opt then ''?='' else ''='') @ v) @ [nl]) = \<lparr>p_name = n, p_value = v, p_comments = [], p_optional = opt\<rparr>"
proof -
  let ?l = "n @ (if opt then ''?='' else ''='') @ v"
  have r: "rev (dropWhile (\<lambda>x. x = nl) (rev (?l @ [nl]))) = ?l"
    using assms by (intro rstrip_nl) (auto simp: clean_name_def clean_value_def one_line_def)
  have h: "\<not> prefix ''#'' ?l" using assms(1) by (cases n) (auto simp: clean_name_def)
  have n: "CHR ''='' \<notin> set n" "n = [] \<or> last n \<noteq> CHR ''?''" "strip n = n" "strip v = v" using assms by (auto simp: clean_name_def clean_value_def)
  have e: "str_in ''='' (n @ ''='' @ v)" "str_in ''?='' (n @ ''?='' @ v)" unfolding str_in_iff by blast+
  show ?thesis
  proof (cases opt)
    case True
    then show ?thesis unfolding from_line_def r Let_def using h e(2) split_once_optional[OF n(1), of v] n(3,4) by (simp add: Prop_init_def)
  next
    case False
    then have "\<not> str_in ''?='' (n @ ''='' @ v)" using no_optional_sign[OF n(1,2)] assms(2) by (simp add: clean_value_def)
    then show ?thesis unfolding from_line_def r Let_def using False h e(1) split_once_single[OF n(1), of v] n(3,4) by (simp add: Prop_init_def)
  qed
qed

lemma clean_lines:
  assumes "clean_prop p"
  shows "\<forall>l\<in>set (prop_lines p). one_line l \<and> strip (l @ [nl]) \<noteq> []" "map (\<lambda>l. from_line (l @ [nl])) (prop_lines p) = as_lines p"
proof -
  have c: "comment_line c" if "c \<in> set (p_comments p)" for c using assms that by (simp add: clean_prop_def)
  have sp: "\<not> is_space (CHR ''='')" by (simp add: is_space_def)
  have o: "is_optional p = p_optional p" if "\<not> is_comment p" using that by (simp add: is_optional_def)
  have "one_line l \<and> strip (l @ [nl]) \<noteq> []" if l: "l \<in> set (prop_lines p)" for l
  proof (cases "l \<in> set (p_comments p)")
    case True
    then show ?thesis using c[OF True] by (simp add: comment_line_def strip_nonblank)
  next
    case False
    then have "l = p_name p @ (if is_optional p then ''?='' else ''='') @ p_value p" "\<not> is_comment p" using l by (auto simp: prop_lines_def split: if_splits)
    then show ?thesis using assms sp by (auto simp: clean_prop_def clean_name_def clean_value_def one_line_def strip_nonblank)
  qed
  then show "\<forall>l\<in>set (prop_lines p). one_line l \<and> strip (l @ [nl]) \<noteq> []" by blast
  have "map (\<lambda>l. from_line (l @ [nl])) (p_comments p) = map (\<lambda>c. Prop_init [] [] False (Some c)) (p_comments p)"
    using from_comment_line[OF c] by simp
  moreover have "from_line ((p_name p @ (if p_optional p then ''?='' else ''='') @ p_value p) @ [nl]) =
      \<lparr>p_name = p_name p, p_value = p_value p, p_comments = [], p_optional = p_optional p\<rparr>" if "\<not> is_comment p"
    using from_assignment_line[of "p_name p" "p_optional p" "p_value p"] assms that by (simp only: clean_prop_def simp_thms)
  ultimately show "map (\<lambda>l. from_line (l @ [nl])) (prop_lines p) = as_lines p" using o by (simp add: prop_lines_def as_lines_def)
qed

lemma read_back:
  assumes "\<forall>p\<in>set ps. clean_prop p"
  shows "PropList_init (prop_write ps) = concat (map as_lines ps)"
proof -
  let ?ls = "concat (map prop_lines ps)"
  have l: "\<forall>l\<in>set ?ls. one_line l \<and> strip (l @ [nl]) \<noteq> []" using clean_lines(1) assms by auto
  have "translate_newlines (prop_write ps) = prop_write ps"
    using l by (intro translate_plain) (auto simp: prop_write_lines one_line_def)
  then have "readlines (prop_write ps) = map (\<lambda>l. l @ [nl]) ?ls"
    using l readlines_lines[of ?ls] by (simp add: readlines_def prop_write_lines one_line_def)
  moreover have "filter (\<lambda>l. strip l \<noteq> []) (map (\<lambda>l. l @ [nl]) ?ls) = map (\<lambda>l. l @ [nl]) ?ls" using l by (simp add: filter_map o_def)
  ultimately have "PropList_init (prop_write ps) = map (\<lambda>l. from_line (l @ [nl])) ?ls" unfolding PropList_init_def by (simp add: o_def)
  also have "\<dots> = concat (map as_lines ps)" using assms clean_lines(2) by (induction ps) auto
  finally show ?thesis .
qed

text \<open>The assignments of a file.\<close>

definition assignments :: "sysprop list \<Rightarrow> (string \<times> string \<times> bool) list" where
  "assignments ps = map (\<lambda>p. (p_name p, p_value p, p_optional p)) (filter (\<lambda>p. \<not> is_comment p) ps)"

lemma assignments_as_lines: "\<forall>p\<in>set ps. clean_prop p \<Longrightarrow> assignments (concat (map as_lines ps)) = assignments ps"
proof (induction ps)
  case (Cons p ps)
  have "assignments (as_lines p) = assignments [p]" using Cons.prems
    by (auto simp: assignments_def as_lines_def Prop_init_def is_comment_def filter_map o_def strip_defs clean_prop_def clean_name_def)
  moreover have "assignments (xs @ ys) = assignments xs @ assignments ys" for xs ys by (simp add: assignments_def)
  ultimately show ?case using Cons by (metis append_Cons append_Nil concat.simps(2) list.simps(9) list.set_intros(2))
qed (simp add: assignments_def)

section \<open>The whole script\<close>

text \<open>A prop as read from a file of plain lines: no assignment carries a comment, and no value contains \<open>?=\<close>.\<close>

definition plain_prop :: "sysprop \<Rightarrow> bool" where
  "plain_prop p = (clean_prop p \<and> (is_comment p \<or> p_comments p = [] \<and> \<not> str_in ''?='' (p_value p)))"

lemma plain_str:
  assumes "plain_prop p" "\<not> is_comment p"
  shows "prop_str p = p_name p @ (if is_optional p then ''?='' else ''='') @ p_value p" "one_line (prop_str p)" "p_name p \<noteq> []"
  using assms by (auto simp: plain_prop_def clean_prop_def clean_name_def clean_value_def one_line_def prop_str_def)

lemma hash_comment: "one_line s \<Longrightarrow> comment_line (CHR ''#'' # s)"
  by (auto simp: comment_line_def one_line_def strip_nonblank is_space_def)

lemma split_prop_str: "\<forall>l\<in>set (prop_lines p). one_line l \<Longrightarrow> split_on nl (prop_str p) = prop_lines p"
  using split_on_join[OF prop_lines_nonempty[of p], of nl] unfolding prop_str_def prop_lines_def[symmetric] by (simp add: one_line_def)

lemma plain_delete:
  assumes p: "plain_prop p" "\<not> is_comment p" and r: "one_line reason"
  shows "plain_prop (prop_delete reason p)"
proof -
  define r where "r = ''# Removed by post_process_props.py because '' @ reason"
  define a where "a = p_name p @ (if p_optional p then ''?='' else ''='') @ p_value p"
  let ?p = "p\<lparr>p_comments := p_comments p @ [r]\<rparr>"
  have c: "p_comments p = []" "\<not> is_comment ?p" "is_optional p = p_optional p"
    using p plain_str(3)[OF p] by (auto simp: plain_prop_def is_comment_def is_optional_def)
  have one: "one_line r" "one_line a" "comment_line r" using r plain_str(1,2)[OF p] c(3) hash_comment[of "tl r"] by (simp_all add: one_line_def r_def a_def)
  have "prop_lines ?p = [r, a]" using c(1,2) by (simp add: prop_lines_def is_optional_def a_def)
  then have "split_on nl (prop_str ?p) = [r, a]" using split_prop_str[of ?p] one by simp
  then have "prop_delete reason p = p\<lparr>p_comments := [r, CHR ''#'' # a], p_name := [], p_value := []\<rparr>"
    unfolding prop_delete_def make_as_comment_def r_def[symmetric] using c by simp
  then show ?thesis using one hash_comment[OF one(2)] by (simp add: plain_prop_def clean_prop_def is_comment_def)
qed

lemma plain_unoptional: "plain_prop p \<Longrightarrow> plain_prop (p\<lparr>p_optional := False\<rparr>)"
  by (auto simp: plain_prop_def clean_prop_def clean_value_def is_comment_def)

lemma plain_resolved:
  assumes plain: "\<forall>p\<in>set ps. plain_prop p"
  shows "\<forall>p\<in>set (resolve_names allow_dup ps N). plain_prop p"
proof -
  have "plain_prop (resolved allow_dup ps nm i)" if i: "i \<in> set (get_props ps nm)" for i nm
  proof -
    have p: "plain_prop (ps ! j)" "\<not> is_comment (ps ! j)" if "j \<in> set (get_props ps nm)" for j using plain that by (auto simp: get_props_set)
    have d: "plain_prop (prop_delete (''overridden by '' @ prop_str (ps ! j)) (ps ! i))" if "j \<in> set (get_props ps nm)" for j
      using plain_delete[OF p[OF i], of "''overridden by '' @ prop_str (ps ! j)"] plain_str(2)[OF p[OF that]] by (simp add: one_line_def)
    show ?thesis
    proof (cases "is_optional (ps ! i)")
      case True
      then have "last (optionals ps nm) \<in> set (get_props ps nm)" using i last_in_set[of "optionals ps nm"] by (auto simp: filter_empty_conv)
      moreover have "hd (overriding ps nm) \<in> set (get_props ps nm)" if "overriding ps nm \<noteq> []" using hd_in_set[OF that] by simp
      ultimately show ?thesis using True d p(1)[OF i] plain_unoptional[OF p(1)[OF i]] unfolding resolved_def by (simp only: simp_thms if_True if_False split: if_splits) auto
    qed (simp add: resolved_def p(1)[OF i])
  qed
  then show ?thesis using plain by (auto simp: resolve_names_def get_props_set)
qed

lemma drop_key_nth:
  "length (drop_key ps k) = length ps"
  "i < length ps \<Longrightarrow> drop_key ps k ! i = (if \<not> is_comment (ps ! i) \<and> p_name (ps ! i) = k then prop_delete (k @ '' is a disallowed key'') (ps ! i) else ps ! i)"
  unfolding drop_key_def by (subst update_props_nth; auto simp: get_props_set)+

lemma plain_drop_key:
  assumes "\<forall>p\<in>set ps. plain_prop p"
  shows "\<forall>p\<in>set (drop_key ps k). plain_prop p"
proof -
  have "plain_prop (drop_key ps k ! i)" if i: "i < length ps" for i
  proof (cases "\<not> is_comment (ps ! i) \<and> p_name (ps ! i) = k")
    case True
    have p: "plain_prop (ps ! i)" using assms i by simp
    then have "one_line k" using True by (auto simp: plain_prop_def clean_prop_def clean_name_def)
    then show ?thesis using plain_delete[OF p, of "k @ '' is a disallowed key''"] True drop_key_nth(2)[OF i, of k] by (simp add: one_line_def)
  next
    case False
    then have "drop_key ps k ! i = ps ! i" using drop_key_nth(2)[OF i] by auto
    then show ?thesis using assms i by simp
  qed
  then show ?thesis using drop_key_nth(1) by (metis in_set_conv_nth)
qed

lemma get_props_drop_key: "get_props (drop_key ps k) nm = (if nm = k then [] else get_props ps nm)"
  by (auto simp: get_props_filter drop_key_nth filter_empty_conv intro!: filter_cong)

lemma assigned_drop_keys: "assigned (foldl drop_key ps ks) nm = (if nm \<in> set ks then [] else assigned ps nm)"
proof (induction ks arbitrary: ps)
  case (Cons k ks)
  have "assigned (drop_key ps k) nm = (if nm = k then [] else assigned ps nm)"
    unfolding assigned_def get_props_drop_key by (auto simp: get_props_set drop_key_nth)
  then show ?case using Cons[of "drop_key ps k"] by (cases "nm = k") simp_all
qed simp

lemma plain_drop_keys: "\<forall>p\<in>set ps. plain_prop p \<Longrightarrow> \<forall>p\<in>set (foldl drop_key ps ks). plain_prop p"
proof (induction ks arbitrary: ps)
  case (Cons k ks)
  then show ?case using Cons.IH[OF plain_drop_key[OF Cons.prems]] by simp
qed simp

lemma filter_positions: "map (\<lambda>i. f (ps ! i)) (filter (\<lambda>i. P (ps ! i)) [0..<length ps]) = map f (filter P ps)"
proof -
  have "filter P ps = filter P (map ((!) ps) [0..<length ps])" by (simp add: map_nth)
  then show ?thesis by (simp add: filter_map o_def)
qed

lemma assigned_assignments: "assigned ps nm = map snd (filter (\<lambda>a. fst a = nm) (assignments ps))"
  unfolding assigned_def get_props_filter assignments_def filter_map filter_filter
  by (subst filter_positions) (simp add: o_def)

lemma assigned_read_back:
  assumes "\<forall>p\<in>set ps. plain_prop p"
  shows "assigned (PropList_init (prop_write ps)) nm = assigned ps nm"
  using read_back[of ps] assignments_as_lines[of ps] assms by (simp add: assigned_assignments plain_prop_def)

lemma not_mangled:
  assumes "get_value ps ''ro.debuggable'' \<noteq> ''1''" "get_value ps ''ro.dalvik.vm.enable_uffd_gc'' \<noteq> ''default''"
  shows "mangle_build_prop uffd k ps = Inr ps"
  using assms unfolding mangle_build_prop_def Let_def by simp

text \<open>No two different non-optional values for a name.\<close>

definition consistent :: "(string \<times> bool) list \<Rightarrow> bool" where
  "consistent vs = (\<forall>v\<in>set vs. \<forall>w\<in>set vs. \<not> snd v \<and> \<not> snd w \<longrightarrow> fst v = fst w)"

lemma agreeing_consistent: "agreeing ps nm \<longleftrightarrow> consistent (assigned ps nm)"
proof -
  let ?P = "set (get_props ps nm)"
  have "consistent (assigned ps nm) \<longleftrightarrow> (\<forall>i\<in>?P. \<forall>j\<in>?P. \<not> p_optional (ps ! i) \<and> \<not> p_optional (ps ! j) \<longrightarrow> p_value (ps ! i) = p_value (ps ! j))"
    unfolding consistent_def assigned_def by (simp only: set_map ball_simps fst_conv snd_conv)
  also have "\<dots> \<longleftrightarrow> (\<forall>i\<in>?P. \<forall>j\<in>?P. \<not> is_optional (ps ! i) \<and> \<not> is_optional (ps ! j) \<longrightarrow> p_value (ps ! i) = p_value (ps ! j))"
    by (intro ball_cong refl) (simp only: not_comment_optional)
  also have "\<dots> \<longleftrightarrow> agreeing ps nm" unfolding agreeing_def set_filter by blast
  finally show ?thesis by simp
qed

lemma names_kept:
  assumes "set names = set (get_all_names ps)"
  shows "set (get_all_names (resolve_names allow_dup ps (set names))) = set names"
proof -
  let ?R = "resolve_names allow_dup ps (set names)"
  have "get_props ?R nm \<noteq> [] \<longleftrightarrow> get_props ps nm \<noteq> []" for nm
  proof (cases "nm \<in> set names")
    case True
    then have nm: "nm \<in> set (get_all_names ps)" using assms by simp
    let ?xs = "get_props ps nm"
    have "\<exists>i\<in>set ?xs. \<not> is_comment (resolved allow_dup ps nm i)"
    proof (cases "overriding ps nm = []")
      case True
      then have opt: "\<forall>i\<in>set ?xs. is_optional (ps ! i)" by (simp add: filter_empty_conv)
      then have "optionals ps nm = ?xs" "?xs \<noteq> []" using nm by (simp_all add: get_all_names_set)
      then have "last ?xs \<in> set ?xs" "\<not> is_comment (resolved allow_dup ps nm (last ?xs))"
        using opt True last_in_set[of ?xs] by (simp_all add: resolved_def get_props_set)
      then show ?thesis by blast
    next
      case False
      then obtain i where "i \<in> set (overriding ps nm)" using hd_in_set by blast
      then show ?thesis by (intro bexI[of _ i]) (simp_all add: resolved_def get_props_set)
    qed
    then have "get_props ?R nm \<noteq> []" using get_props_all_resolved(1)[OF True, of allow_dup ps] by (simp add: filter_empty_conv)
    then show ?thesis using nm by (simp add: get_all_names_set)
  qed (simp add: get_props_resolved(1))
  then show ?thesis using assms get_all_names_set by blast
qed

lemma resolved_not_optional:
  assumes "allow_dup \<or> (\<forall>nm\<in>set (get_all_names ps). agreeing ps nm)" "i \<in> set (get_all_props (resolve_names allow_dup ps (set (get_all_names ps))))"
  shows "\<not> is_optional (resolve_names allow_dup ps (set (get_all_names ps)) ! i)"
proof -
  let ?R = "resolve_names allow_dup ps (set (get_all_names ps))"
  define nm where "nm = p_name (?R ! i)"
  have i: "i \<in> set (get_props ?R nm)" using assms(2) by (simp add: get_props_def nm_def)
  then have nm: "nm \<in> set (get_all_names ps)" using names_kept[OF refl, of allow_dup ps] get_all_names_set[of nm ?R] by auto
  have "(p_value (?R ! i), p_optional (?R ! i)) \<in> set (assigned ?R nm)" using i by (auto simp: assigned_def)
  then have "\<not> p_optional (?R ! i)" using assigned_resolved[OF nm nm, of allow_dup] assms(1) nm by auto
  then show ?thesis by (simp add: is_optional_def)
qed

lemma assigned_all_resolved:
  assumes "allow_dup \<or> (\<forall>nm\<in>set (get_all_names ps). agreeing ps nm)"
  shows "assigned (resolve_names allow_dup ps (set (get_all_names ps))) nm =
    (if nm \<notin> set (get_all_names ps) then [] else map (\<lambda>v. (v, False)) (survivors allow_dup (assigned ps nm)))"
proof (cases "nm \<in> set (get_all_names ps)")
  case False
  let ?R = "resolve_names allow_dup ps (set (get_all_names ps))"
  have "get_props ?R nm = []" using False names_kept[OF refl, of allow_dup ps] get_all_names_set[of nm ?R] by auto
  then show ?thesis using False by (simp add: assigned_def)
qed (use assigned_resolved[of nm _ ps allow_dup] assms in auto)

lemma assignments_assigned: "(nm, v, opt) \<in> set (assignments ps) \<longleftrightarrow> (v, opt) \<in> set (assigned ps nm)"
  unfolding assigned_assignments by force

lemma assigned_position: "(v, opt) \<in> set (assigned ps nm) \<longleftrightarrow> (\<exists>i\<in>set (get_all_props ps). p_name (ps ! i) = nm \<and> p_value (ps ! i) = v \<and> p_optional (ps ! i) = opt)"
  unfolding assigned_def get_props_def by auto

definition sample_props :: "sysprop list" where
  "sample_props = PropList_init (''a?=1'' @ [nl] @ ''b=2'' @ [nl] @ ''a?=3'' @ [nl] @ ''b?=4'')"

section \<open>Properties\<close>

text \<open>C26: overriding. For every order in which the names are visited, \<open>override_optional_props\<close> raises nothing and
  gives the same list; it reports success exactly if duplicates are allowed or no name has two different
  non-optional values; and each name that causes no failure is left with exactly the documented assignments, none of
  them optional.\<close>

theorem optional_props_resolved:
  assumes "distinct names" "set names = set (get_all_names ps)"
  shows "\<exists>ps'. (\<forall>names'. distinct names' \<and> set names' = set names \<longrightarrow>
      override_optional_props allow_dup names' ps = Inr (ps', allow_dup \<or> (\<forall>nm\<in>set names. consistent (assigned ps nm)))) \<and>
    set (get_all_names ps') = set names \<and>
    (\<forall>nm\<in>set names. allow_dup \<or> consistent (assigned ps nm) \<longrightarrow>
      assigned ps' nm = map (\<lambda>v. (v, False)) (survivors allow_dup (assigned ps nm)))"
proof -
  let ?R = "resolve_names allow_dup ps (set names)"
  have "\<forall>nm\<in>set names. allow_dup \<or> agreeing ps nm \<longrightarrow> assigned ?R nm = map (\<lambda>v. (v, False)) (survivors allow_dup (assigned ps nm))"
    using assigned_resolved assms(2) by blast
  moreover have "override_optional_props allow_dup names' ps = Inr (?R, allow_dup \<or> (\<forall>nm\<in>set names. agreeing ps nm))"
    if "distinct names' \<and> set names' = set names" for names' using override_all[of names' ps allow_dup] that assms(2) by simp
  ultimately show ?thesis using names_kept[OF assms(2)] unfolding agreeing_consistent by (intro exI[of _ ?R] conjI allI impI)
qed

theorem optional_props_resolved_witness:
  "\<exists>ps'. override_optional_props False [''b'', ''a''] sample_props = Inr (ps', True) \<and>
     assigned ps' ''a'' = [(''3'', False)] \<and> assigned ps' ''b'' = [(''2'', False)]"
proof -
  have a: "assigned sample_props ''a'' = [(''1'', True), (''3'', True)]" "assigned sample_props ''b'' = [(''2'', False), (''4'', True)]" by code_simp+
  have "get_all_names sample_props = [''a'', ''b'']" by code_simp
  then have n: "distinct [''b'', ''a'']" "set [''b'', ''a''] = set (get_all_names sample_props)" by auto
  have s: "survivors False [(''1'', True), (''3'', True)] = [''3'']" "survivors False [(''2'', False), (''4'', True)] = [''2'']"
    "consistent [(''1'', True), (''3'', True)]" "consistent [(''2'', False), (''4'', True)]" by code_simp+
  from optional_props_resolved[OF n, of False] obtain ps' where
    "override_optional_props False [''b'', ''a''] sample_props = Inr (ps', False \<or> (\<forall>nm\<in>set [''b'', ''a'']. consistent (assigned sample_props nm)))"
    "\<forall>nm\<in>set [''b'', ''a'']. False \<or> consistent (assigned sample_props nm) \<longrightarrow>
      assigned ps' nm = map (\<lambda>v. (v, False)) (survivors False (assigned sample_props nm))" using n(1) by blast
  then show ?thesis by (intro exI[of _ ps']) (simp add: a s)
qed

text \<open>C27: the file format. Reading back what \<open>write\<close> prints for props with one-line comments and clean assignments gives
  the comments and the assignments back, one prop for each line; so the assignments are unchanged.\<close>

theorem prop_file_roundtrip:
  assumes "\<forall>p\<in>set ps. clean_prop p"
  shows "PropList_init (prop_write ps) = concat (map as_lines ps) \<and> assignments (PropList_init (prop_write ps)) = assignments ps"
  using read_back[OF assms] assignments_as_lines[OF assms] by simp

theorem prop_file_roundtrip_witness:
  "assignments (PropList_init (prop_write [Prop_init ''a'' ''x=y'' True None, Prop_init ''b'' ''1'' False (Some ''# note'')])) =
     [(''a'', ''x=y'', True), (''b'', ''1'', False)]"
proof -
  let ?ps = "[Prop_init ''a'' ''x=y'' True None, Prop_init ''b'' ''1'' False (Some ''# note'')]"
  have "clean_prop (Prop_init ''a'' ''x=y'' True None)" "clean_prop (Prop_init ''b'' ''1'' False (Some ''# note''))" by code_simp+
  then have c: "\<forall>p\<in>set ?ps. clean_prop p" by simp
  have "assignments ?ps = [(''a'', ''x=y'', True), (''b'', ''1'', False)]" by code_simp
  with conjunct2[OF prop_file_roundtrip[OF c]] show ?thesis by (rule trans)
qed


definition sample_args :: prop_args where
  "sample_args = \<lparr>pa_filename = ''out/build.prop'', pa_allow_dup = False, pa_disallowed_keys = [''b''], pa_kernel_version_file = []\<rparr>"

definition sample_file :: string where
  "sample_file = ''a?=1'' @ [nl] @ ''b=2'' @ [nl] @ ''# c'' @ [nl] @ ''a=3''"



end
