(* ===== verification/ByteFormat.thy ===== *)
theory ByteFormat
  imports Py_Prelude
begin

text \<open>
  Binary data: little-endian integers, \<open>struct.unpack\<close> and \<open>struct.pack\<close> for formats that are
  sequences of unsigned fields, and reads and writes at a position of a file. A file is the list of its
  bytes; \<open>read(n)\<close> with a negative \<open>n\<close> reads to the end, as Python does.
\<close>

section \<open>Little-endian integers\<close>

fun le_val :: "string \<Rightarrow> nat" where
  "le_val [] = 0"
| "le_val (c # cs) = of_char c + 256 * le_val cs"

fun le_bytes :: "nat \<Rightarrow> nat \<Rightarrow> string" where
  "le_bytes 0 n = []"
| "le_bytes (Suc k) n = char_of (n mod 256) # le_bytes k (n div 256)"

lemma length_le_bytes [simp]: "length (le_bytes k n) = k"
  by (induction k arbitrary: n) auto

lemma le_val_bytes: "n < 256 ^ k \<Longrightarrow> le_val (le_bytes k n) = n"
proof (induction k arbitrary: n)
  case (Suc k)
  then have "n div 256 < 256 ^ k" by (simp add: less_mult_imp_div_less mult.commute)
  then show ?case using Suc.IH by simp
qed simp

lemma le_val_less: "le_val cs < 256 ^ length cs"
proof (induction cs)
  case (Cons c cs)
  have "of_char c + 256 * le_val cs < 256 * (le_val cs + 1)" by simp
  also have "\<dots> \<le> 256 * 256 ^ length cs" using Cons by (intro mult_le_mono) auto
  finally show ?case by simp
qed simp

section \<open>\<open>struct\<close>\<close>

text \<open>A format is the list of the field widths: 1 for \<open>B\<close>, 2 for \<open>H\<close>, 4 for \<open>I\<close>.\<close>

fun unpack_fields :: "nat list \<Rightarrow> string \<Rightarrow> int list" where
  "unpack_fields [] bs = []"
| "unpack_fields (k # ks) bs = int (le_val (take k bs)) # unpack_fields ks (drop k bs)"

definition struct_unpack :: "nat list \<Rightarrow> string \<Rightarrow> int list res" where
  "struct_unpack fmt bs = (if length bs = sum_list fmt then Inr (unpack_fields fmt bs) else Inl StructError)"

definition pack_field :: "nat \<times> int \<Rightarrow> string res" where
  "pack_field = (\<lambda>(k, v). if 0 \<le> v \<and> v < 256 ^ k then Inr (le_bytes k (nat v)) else Inl StructError)"

definition struct_pack :: "nat list \<Rightarrow> int list \<Rightarrow> string res" where
  "struct_pack fmt vs =
     (if length fmt = length vs then try_bind (map_res pack_field (zip fmt vs)) (\<lambda>bs. Inr (concat bs))
      else Inl StructError)"

lemma length_unpack_fields [simp]: "length (unpack_fields fmt bs) = length fmt"
  by (induction fmt arbitrary: bs) auto

text \<open>The fields of the concatenated encodings.\<close>

lemma unpack_fields_bytes:
  assumes "length fmt = length vs" "\<forall>(k, v)\<in>set (zip fmt vs). 0 \<le> v \<and> v < 256 ^ k"
  shows "unpack_fields fmt (concat (map (\<lambda>(k, v). le_bytes k (nat v)) (zip fmt vs))) = vs"
    "length (concat (map (\<lambda>(k, v). le_bytes k (nat v)) (zip fmt vs))) = sum_list fmt"
  using assms
proof (induction fmt vs rule: list_induct2)
  case (Cons k ks v vs)
  {
    case 1
    have "nat v < 256 ^ k" using 1 by (simp add: nat_less_iff)
    then show ?case using Cons.IH(1) 1 by (simp add: le_val_bytes)
  next
    case 2
    then show ?case using Cons.IH(2) by simp
  }
qed auto

lemma struct_pack_ok:
  assumes "length fmt = length vs" "\<forall>(k, v)\<in>set (zip fmt vs). 0 \<le> v \<and> v < 256 ^ k"
  shows "struct_pack fmt vs = Inr (concat (map (\<lambda>(k, v). le_bytes k (nat v)) (zip fmt vs)))"
proof -
  have "map_res pack_field (zip fmt vs) = Inr (map (\<lambda>(k, v). le_bytes k (nat v)) (zip fmt vs))"
    using assms(2) by (intro map_res_Inr) (auto simp: pack_field_def)
  then show ?thesis using assms(1) by (simp add: struct_pack_def)
qed

lemma struct_roundtrip:
  assumes "struct_pack fmt vs = Inr bs"
  shows "struct_unpack fmt bs = Inr vs" "length bs = sum_list fmt"
proof -
  have l: "length fmt = length vs" using assms by (auto simp: struct_pack_def split: if_splits)
  have fits: "map_res pack_field ps = Inr ys \<Longrightarrow> \<forall>(k, v)\<in>set ps. 0 \<le> v \<and> v < 256 ^ k" for ps ys
    by (induction ps arbitrary: ys) (auto simp: pack_field_def split: if_splits)
  obtain ys where "map_res pack_field (zip fmt vs) = Inr ys" using assms l by (auto simp: struct_pack_def)
  from fits[OF this] have r: "\<forall>(k, v)\<in>set (zip fmt vs). 0 \<le> v \<and> v < 256 ^ k" .
  show "struct_unpack fmt bs = Inr vs" "length bs = sum_list fmt"
    using assms struct_pack_ok[OF l r] unpack_fields_bytes[OF l r] by (auto simp: struct_unpack_def)
qed

section \<open>Files\<close>

definition file_read :: "string \<Rightarrow> int \<Rightarrow> int \<Rightarrow> string" where
  "file_read content pos n = (if n < 0 then drop (nat pos) content else take (nat n) (drop (nat pos) content))"

text \<open>\<open>seek\<close> from the start refuses a negative offset.\<close>

definition seek_read :: "string \<Rightarrow> int \<Rightarrow> int \<Rightarrow> string res" where
  "seek_read content pos n = (if pos < 0 then Inl OSError else Inr (file_read content pos n))"

text \<open>Writing at a position: a gap after the end is filled with zero bytes.\<close>

definition file_write :: "string \<Rightarrow> int \<Rightarrow> string \<Rightarrow> string" where
  "file_write content pos bs =
     take (nat pos) content @ replicate (nat pos - length content) (CHR 0x00) @ bs @ drop (nat pos + length bs) content"

lemma length_file_write:
  "length (file_write content pos bs) = max (length content) (nat pos + length bs)"
  by (simp add: file_write_def)

lemma file_read_write:
  "file_read (file_write content pos bs) pos (int (length bs)) = bs"
  by (simp add: file_read_def file_write_def)

lemma file_read_at:
  assumes "content = xs @ bs @ ys" "pos = int (length xs)" "n = int (length bs)"
  shows "file_read content pos n = bs"
  using assms by (simp add: file_read_def)

end
