(* ===== verification/SparseImg.thy ===== *)
theory SparseImg
  imports Images ByteFormat
begin

text \<open>
  \<open>tools/releasetools/sparse_img.py\<close>: the class \<open>SparseImage\<close>, which presents an Android sparse image
  file as an image object. The file is the list of its bytes; the block map file is the list of its
  lines. The main results: the chunk table the constructor builds describes the care map, reading any
  part of the care map gives the blocks the chunks describe, and the file map partitions the care map.
\<close>

section \<open>Data\<close>

text \<open>An entry \<open>(start_block, length, filepos, fill_data)\<close> of the chunk table: exactly one of the last two
  is not \<open>None\<close>.\<close>

datatype chunk_src = FilePos int | FillData string

type_synonym chunk_entry = "int \<times> int \<times> chunk_src"

record sparse_image =
  sp_file :: string
  sp_blocksize :: int
  sp_total_blocks :: int
  sp_total_chunks :: int
  sp_offset_map :: "chunk_entry list"
  sp_clobbered :: range_set
  sp_care_map :: range_set
  sp_offset_index :: "int list"
  sp_extended :: range_set
  sp_file_map :: "(string, range_set) odict"

section \<open>Reading\<close>

text \<open>\<open>bisect.bisect_right\<close>: binary search between \<open>lo\<close> and \<open>hi\<close>.\<close>

function bisect_loop :: "int list \<Rightarrow> int \<Rightarrow> nat \<Rightarrow> nat \<Rightarrow> nat" where
  "bisect_loop xs x lo hi =
     (if lo < hi then let mid = (lo + hi) div 2 in
        if x < xs ! mid then bisect_loop xs x lo mid else bisect_loop xs x (mid + 1) hi
      else lo)"
  by auto
termination by (relation "measure (\<lambda>(xs, x, lo, hi). hi - lo)") auto

declare bisect_loop.simps [simp del]

definition bisect_right :: "int list \<Rightarrow> int \<Rightarrow> nat" where
  "bisect_right xs x = bisect_loop xs x 0 (length xs)"

text \<open>\<open>n\<close> blocks of a chunk, from a block offset within it. For a fill chunk the offset plays no role.\<close>

definition chunk_read :: "sparse_image \<Rightarrow> chunk_src \<Rightarrow> int \<Rightarrow> int \<Rightarrow> string res" where
  "chunk_read im src off n =
     (case src of
        FilePos filepos \<Rightarrow> seek_read (sp_file im) (filepos + off * sp_blocksize im) (n * sp_blocksize im)
      | FillData fill_data \<Rightarrow> Inr (concat (replicate (nat (n * (sp_blocksize im div 4))) fill_data)))"

text \<open>The inner \<open>while to_read > 0\<close> loop: it walks the chunks after the current one; running off the end
  raises \<open>IndexError\<close>.\<close>

fun read_rest :: "sparse_image \<Rightarrow> int \<Rightarrow> chunk_entry list \<Rightarrow> string list res" where
  "read_rest im to_read [] = (if 0 < to_read then Inl IndexError else Inr [])"
| "read_rest im to_read ((chunk_start, chunk_len, src) # cs) =
     (if 0 < to_read then
        let this_read = min chunk_len to_read in
        try_bind (chunk_read im src 0 this_read) (\<lambda>d.
          try_bind (read_rest im (to_read - this_read) cs) (\<lambda>ds. Inr (d # ds)))
      else Inr [])"

definition read_pair :: "sparse_image \<Rightarrow> int \<times> int \<Rightarrow> string list res" where
  "read_pair im = (\<lambda>(s, e).
     let to_read = e - s; idx = int (bisect_right (sp_offset_index im) s) - 1 in
     try_bind (py_get (sp_offset_map im) idx) (\<lambda>(chunk_start, chunk_len, src).
       let remain = chunk_len - (s - chunk_start); this_read = min remain to_read in
       try_bind (chunk_read im src (s - chunk_start) this_read) (\<lambda>d.
         try_bind (read_rest im (to_read - this_read) (drop (nat (idx + 1)) (sp_offset_map im))) (\<lambda>ds. Inr (d # ds)))))"

definition GetRangeData :: "sparse_image \<Rightarrow> (int \<times> int) list \<Rightarrow> string list res" where
  "GetRangeData im ranges = try_bind (map_res (read_pair im) ranges) (\<lambda>ps. Inr (concat ps))"

definition SparseImage_RangeSha1 :: "(string \<Rightarrow> string) \<Rightarrow> sparse_image \<Rightarrow> range_set \<Rightarrow> string res" where
  "SparseImage_RangeSha1 sha1 im ranges = try_bind (GetRangeData im (rs_iter ranges)) (\<lambda>ds. Inr (sha1 (concat ds)))"

definition SparseImage_ReadRangeSet :: "sparse_image \<Rightarrow> range_set \<Rightarrow> string list res" where
  "SparseImage_ReadRangeSet im ranges = GetRangeData im (rs_iter ranges)"

definition SparseImage_ReadBlocks :: "sparse_image \<Rightarrow> int \<Rightarrow> int option \<Rightarrow> string list res" where
  "SparseImage_ReadBlocks im start num_blocks =
     (let n = (case num_blocks of None \<Rightarrow> sp_total_blocks im | Some n \<Rightarrow> n) in GetRangeData im [(start, start + n)])"

definition SparseImage_TotalSha1 :: "(string \<Rightarrow> string) \<Rightarrow> sparse_image \<Rightarrow> bool \<Rightarrow> string res" where
  "SparseImage_TotalSha1 sha1 im include_clobbered_blocks =
     SparseImage_RangeSha1 sha1 im
       (if \<not> include_clobbered_blocks then rs_subtract (sp_care_map im) (sp_clobbered im) else sp_care_map im)"

definition SparseImage_WriteRangeDataToFd :: "sparse_image \<Rightarrow> range_set \<Rightarrow> string res" where
  "SparseImage_WriteRangeDataToFd im ranges = try_bind (GetRangeData im (rs_iter ranges)) (\<lambda>ds. Inr (concat ds))"

section \<open>The block map file\<close>

text \<open>\<open>line.rstrip().split(None, 1)\<close>.\<close>

definition split_first :: "string \<Rightarrow> string list" where
  "split_first s =
     (let t = lstrip s; w = takeWhile (\<lambda>c. \<not> is_space c) t; r = lstrip (dropWhile (\<lambda>c. \<not> is_space c) t) in
      (if w = [] then [] else [w]) @ (if r = [] then [] else [r]))"

definition with_extra :: "string \<Rightarrow> extra_val \<Rightarrow> range_set \<Rightarrow> range_set" where
  "with_extra k v r = RangeSet (rs_data r) (rs_monotonic r) (dict_set k v (rs_extra r))"

text \<open>The ranges of one line, and the shared blocks taken out of them; \<open>None\<close> is the \<open>continue\<close>.\<close>

definition line_ranges :: "string \<Rightarrow> range_set res" where
  "line_ranges ranges_text =
     try_bind (rs_parse ranges_text) (\<lambda>raw_ranges.
       try_bind (rs_parse ''0'') (\<lambda>hole.
         let r = rs_subtract raw_ranges hole in
         Inr (with_extra ''text_str'' (Extra_str ranges_text) (RangeSet (rs_data r) (rs_monotonic raw_ranges) (rs_extra r)))))"

definition unshare :: "bool \<Rightarrow> range_set \<Rightarrow> range_set \<Rightarrow> range_set option" where
  "unshare allow_shared_blocks ranges remaining =
     (if allow_shared_blocks then
        let shared_blocks = rs_subtract ranges remaining in
        if rs_bool shared_blocks then
          let non_shared = rs_subtract ranges shared_blocks in
          if \<not> rs_bool non_shared then None
          else Some (with_extra ''uses_shared_blocks'' (Extra_rs ranges) non_shared)
        else Some ranges
      else Some ranges)"

definition map_line ::
  "range_set \<Rightarrow> bool \<Rightarrow> (string, range_set) odict \<times> range_set \<Rightarrow> string \<Rightarrow> ((string, range_set) odict \<times> range_set) res" where
  "map_line clobbered_blocks allow_shared_blocks = (\<lambda>(out, remaining) line.
     case split_first (rstrip line) of
       [fn, ranges_text] \<Rightarrow>
         try_bind (line_ranges ranges_text) (\<lambda>ranges0.
           case unshare allow_shared_blocks ranges0 remaining of
             None \<Rightarrow> Inr (out, remaining)
           | Some ranges \<Rightarrow>
               try_bind (py_assert (rs_size ranges = rs_size (rs_intersect ranges remaining))) (\<lambda>_.
                 try_bind (py_assert (\<not> rs_overlaps clobbered_blocks ranges)) (\<lambda>_.
                   Inr (dict_set fn ranges out, rs_subtract remaining ranges))))
     | _ \<Rightarrow> Inl ValueError)"

text \<open>The data of one block as the loop over the remaining blocks sees it: \<open>None\<close> for a fill chunk whose
  pattern is not the zero pattern.\<close>

definition block_data :: "sparse_image \<Rightarrow> int \<Rightarrow> buffer option res" where
  "block_data im b =
     try_bind (py_get (sp_offset_map im) (int (bisect_right (sp_offset_index im) b) - 1)) (\<lambda>(chunk_start, _, src).
       case src of
         FilePos filepos \<Rightarrow>
           try_bind (seek_read (sp_file im) (filepos + (b - chunk_start) * sp_blocksize im) (sp_blocksize im)) (\<lambda>d. Inr (Some (Bytes d)))
       | FillData fill_data \<Rightarrow>
           Inr (if Bytes fill_data = buf_slice (nuls (sp_blocksize im)) 0 4 then Some (nuls (sp_blocksize im)) else None))"

text \<open>One block: the state is \<open>(zero_blocks, nonzero_blocks, nonzero_groups)\<close>. A group is closed when the
  list has \<open>MAX_BLOCKS_PER_GROUP\<close> entries; the list has two entries per block.\<close>

definition group_block ::
  "sparse_image \<Rightarrow> int list \<times> int list \<times> int list list \<Rightarrow> int \<Rightarrow> (int list \<times> int list \<times> int list list) res" where
  "group_block im = (\<lambda>(zero_blocks, nonzero_blocks, nonzero_groups) b.
     try_bind (block_data im b) (\<lambda>data.
       if data = Some (nuls (sp_blocksize im)) then Inr (zero_blocks @ [b, b + 1], nonzero_blocks, nonzero_groups)
       else
         let nz = nonzero_blocks @ [b, b + 1] in
         if 1024 \<le> length nz then Inr (zero_blocks, [], nonzero_groups @ [nz])
         else Inr (zero_blocks, nz, nonzero_groups)))"

definition LoadFileBlockMap :: "sparse_image \<Rightarrow> string list \<Rightarrow> range_set \<Rightarrow> bool \<Rightarrow> sparse_image res" where
  "LoadFileBlockMap im lines clobbered_blocks allow_shared_blocks =
     try_bind (for_each (map_line clobbered_blocks allow_shared_blocks) ([], sp_care_map im) lines) (\<lambda>(out, remaining0).
       let remaining = rs_subtract remaining0 clobbered_blocks in
       try_bind (for_each (group_block im) ([], [], []) (rs_next_item remaining)) (\<lambda>(zero_blocks, nonzero_blocks, groups0).
         let groups = (if nonzero_blocks \<noteq> [] then groups0 @ [nonzero_blocks] else groups0) in
         try_bind (py_assert (zero_blocks \<noteq> [] \<or> groups \<noteq> [] \<or> rs_bool clobbered_blocks)) (\<lambda>_.
           try_bind (add_domain ''__ZERO'' zero_blocks out) (\<lambda>out1.
             try_bind (for_each (\<lambda>o' (i, bs). try_bind (RangeSet_init bs) (\<lambda>r. Inr (dict_set (''__NONZERO-'' @ str_int (int i)) r o')))
                out1 (enumerate 0 groups)) (\<lambda>out2.
               Inr (im\<lparr>sp_file_map := (if rs_bool clobbered_blocks then dict_set ''__COPY'' clobbered_blocks out2 else out2)\<rparr>))))))"

definition ResetFileMap :: "sparse_image \<Rightarrow> sparse_image" where
  "ResetFileMap im = im\<lparr>sp_file_map := [(''__DATA'', sp_care_map im)]\<rparr>"

section \<open>The constructor\<close>

text \<open>The file header, \<open>"<I4H4I"\<close>: \<open>(blk_sz, total_blks, total_chunks)\<close>.\<close>

definition read_header :: "string \<Rightarrow> (int \<times> int \<times> int) res" where
  "read_header content =
     try_bind (struct_unpack [4, 2, 2, 2, 2, 4, 4, 4, 4] (file_read content 0 28)) (\<lambda>header.
       if header ! 0 \<noteq> 0xED26FF3A then Inl ValueError
       else if header ! 1 \<noteq> 1 \<or> header ! 2 \<noteq> 0 then Inl ValueError
       else if header ! 3 \<noteq> 28 then Inl ValueError
       else if header ! 4 \<noteq> 12 then Inl ValueError
       else Inr (header ! 5, header ! 6, header ! 7))"

text \<open>The chunk loop: the file position, the position in blocks, \<open>care_data\<close> and \<open>offset_map\<close>.\<close>

record chunk_state =
  cs_fpos :: int
  cs_pos :: int
  cs_care :: "int list"
  cs_map :: "chunk_entry list"

definition add_chunk :: "int \<Rightarrow> chunk_src \<Rightarrow> int \<Rightarrow> chunk_state \<Rightarrow> chunk_state" where
  "add_chunk chunk_sz src fpos st = st\<lparr>cs_fpos := fpos, cs_pos := cs_pos st + chunk_sz,
     cs_care := cs_care st @ [cs_pos st, cs_pos st + chunk_sz], cs_map := cs_map st @ [(cs_pos st, chunk_sz, src)]\<rparr>"

definition read_chunk :: "string \<Rightarrow> int \<Rightarrow> chunk_state \<Rightarrow> int \<Rightarrow> chunk_state res" where
  "read_chunk content blk_sz st = (\<lambda>_.
     try_bind (struct_unpack [2, 2, 4, 4] (file_read content (cs_fpos st) 12)) (\<lambda>header.
       let chunk_type = header ! 0; chunk_sz = header ! 2; total_sz = header ! 3; data_sz = total_sz - 12;
           fpos = cs_fpos st + 12
       in if chunk_type = 0xCAC1 then
            (if data_sz \<noteq> chunk_sz * blk_sz then Inl ValueError
             else Inr (add_chunk chunk_sz (FilePos fpos) (fpos + data_sz) st))
          else if chunk_type = 0xCAC2 then
            (let fill_data = file_read content fpos 4
             in Inr (add_chunk chunk_sz (FillData fill_data) (fpos + int (length fill_data)) st))
          else if chunk_type = 0xCAC3 then
            (if data_sz \<noteq> 0 then Inl ValueError
             else Inr (st\<lparr>cs_fpos := fpos, cs_pos := cs_pos st + chunk_sz\<rparr>))
          else Inl ValueError))"

definition SparseImage_init ::
  "string \<Rightarrow> string list option \<Rightarrow> string option \<Rightarrow> bool \<Rightarrow> bool \<Rightarrow> sparse_image res" where
  "SparseImage_init content file_map clobbered_blocks build_map allow_shared_blocks =
     try_bind (read_header content) (\<lambda>(blk_sz, total_blks, total_chunks).
       let im0 = \<lparr>sp_file = content, sp_blocksize = blk_sz, sp_total_blocks = total_blks, sp_total_chunks = total_chunks,
                  sp_offset_map = [], sp_clobbered = rs_empty, sp_care_map = rs_empty, sp_offset_index = [],
                  sp_extended = rs_empty, sp_file_map = []\<rparr> in
       if \<not> build_map then Inr im0
       else try_bind (case clobbered_blocks of None \<Rightarrow> Inr rs_empty | Some t \<Rightarrow> rs_parse t) (\<lambda>clob.
         try_bind (for_each (read_chunk content blk_sz) \<lparr>cs_fpos = 28, cs_pos = 0, cs_care = [], cs_map = []\<rparr> (py_range 0 total_chunks)) (\<lambda>st.
           try_bind (RangeSet_init (cs_care st)) (\<lambda>care_map.
             try_bind (rs_extend care_map 512) (\<lambda>ext.
               try_bind (RangeSet_init [0, total_blks]) (\<lambda>all_blocks.
                 let im = im0\<lparr>sp_offset_map := cs_map st, sp_clobbered := clob, sp_care_map := care_map,
                              sp_offset_index := map fst (cs_map st),
                              sp_extended := rs_subtract (rs_intersect ext all_blocks) care_map\<rparr>
                 in case file_map of
                      Some lines \<Rightarrow> LoadFileBlockMap im lines clob allow_shared_blocks
                    | None \<Rightarrow> Inr (im\<lparr>sp_file_map := [(''__DATA'', care_map)]\<rparr>)))))))"

text \<open>\<open>AppendFillChunk\<close>: the file and the attributes after the two writes.\<close>

definition AppendFillChunk :: "sparse_image \<Rightarrow> int \<Rightarrow> int \<Rightarrow> sparse_image res" where
  "AppendFillChunk im data nblocks =
     try_bind (struct_pack [2, 2, 4, 4, 4] [0xCAC2, 0, nblocks, 16, data]) (\<lambda>chunk.
       let f1 = file_write (sp_file im) (int (length (sp_file im))) chunk;
           im1 = im\<lparr>sp_file := f1, sp_total_blocks := sp_total_blocks im + nblocks, sp_total_chunks := sp_total_chunks im + 1\<rparr> in
       try_bind (struct_pack [4, 4] [sp_total_blocks im1, sp_total_chunks im1]) (\<lambda>hdr.
         Inr (im1\<lparr>sp_file := file_write f1 16 hdr\<rparr>)))"

text \<open>\<open>GetImagePartitionSize\<close>: only \<open>ValueError\<close> is caught.\<close>

definition GetImagePartitionSize :: "string \<Rightarrow> int res" where
  "GetImagePartitionSize content =
     (case SparseImage_init content None None False False of
        Inr simg \<Rightarrow> Inr (sp_blocksize simg * sp_total_blocks simg)
      | Inl ValueError \<Rightarrow> Inr (int (length content))
      | Inl e \<Rightarrow> Inl e)"

section \<open>Binary search\<close>

lemma bisect_loop_split:
  assumes "sorted xs" "lo \<le> hi" "hi \<le> length xs" "\<forall>i<lo. xs ! i \<le> x" "\<forall>i<length xs. hi \<le> i \<longrightarrow> x < xs ! i"
  shows "bisect_loop xs x lo hi \<le> length xs \<and> (\<forall>i<bisect_loop xs x lo hi. xs ! i \<le> x) \<and>
    (\<forall>i<length xs. bisect_loop xs x lo hi \<le> i \<longrightarrow> x < xs ! i)"
  using assms
proof (induction xs x lo hi rule: bisect_loop.induct)
  case (1 xs x lo hi)
  show ?case
  proof (cases "lo < hi")
    case False
    then have "bisect_loop xs x lo hi = lo" by (simp add: bisect_loop.simps[of xs x lo hi])
    then show ?thesis using False "1.prems" by simp
  next
    case True
    let ?mid = "(lo + hi) div 2"
    have mid: "lo \<le> ?mid" "?mid < hi" using True by auto
    have le: "i \<le> j \<Longrightarrow> j < length xs \<Longrightarrow> xs ! i \<le> xs ! j" for i j using "1.prems"(1) sorted_nth_mono by blast
    show ?thesis
    proof (cases "x < xs ! ?mid")
      case less: True
      have "\<forall>i<length xs. ?mid \<le> i \<longrightarrow> x < xs ! i" using le[of ?mid] less by (meson dual_order.strict_trans1)
      moreover have "bisect_loop xs x lo hi = bisect_loop xs x lo ?mid"
        using True less by (subst bisect_loop.simps) (simp add: Let_def)
      moreover have "?mid \<le> length xs" using mid(2) "1.prems"(3) by linarith
      ultimately show ?thesis using "1.IH"(1)[OF True refl less "1.prems"(1) mid(1) _ "1.prems"(4)] by simp
    next
      case ge: False
      have "\<forall>i<?mid + 1. xs ! i \<le> x" using le[of _ ?mid] ge mid(2) "1.prems"(3) by (fastforce simp: less_Suc_eq_le)
      moreover have "bisect_loop xs x lo hi = bisect_loop xs x (?mid + 1) hi"
        using True ge by (subst bisect_loop.simps) (simp add: Let_def)
      moreover have "?mid + 1 \<le> hi" using mid(2) by linarith
      ultimately show ?thesis using "1.IH"(2)[OF True refl ge "1.prems"(1) _ "1.prems"(3) _ "1.prems"(5)] by simp
    qed
  qed
qed

lemma bisect_right_split:
  assumes "sorted xs"
  shows "bisect_right xs x \<le> length xs" "i < bisect_right xs x \<Longrightarrow> xs ! i \<le> x"
    "i < length xs \<Longrightarrow> bisect_right xs x \<le> i \<Longrightarrow> x < xs ! i"
  using bisect_loop_split[OF assms, of 0 "length xs" x] by (auto simp: bisect_right_def)

section \<open>The chunk table\<close>

text \<open>Chunks in increasing order without overlap.\<close>

definition wf_chunks :: "chunk_entry list \<Rightarrow> bool" where
  "wf_chunks om = (sorted_wrt (\<lambda>(a, n, _) (b, _, _). a + n \<le> b) om \<and> (\<forall>(a, n, _)\<in>set om. 0 \<le> a \<and> 0 \<le> n))"

definition chunk_cover :: "chunk_entry list \<Rightarrow> int set" where
  "chunk_cover om = (\<Union>(a, n, _)\<in>set om. {a..<a + n})"

text \<open>The chunk of a block and the bytes it gives to the block.\<close>

definition chunk_block :: "string \<Rightarrow> int \<Rightarrow> chunk_entry \<Rightarrow> int \<Rightarrow> string" where
  "chunk_block content bs = (\<lambda>(a, n, src) b.
     case src of FilePos p \<Rightarrow> take (nat bs) (drop (nat (p + (b - a) * bs)) content)
     | FillData d \<Rightarrow> concat (replicate (nat (bs div 4)) d))"

fun find_block :: "string \<Rightarrow> int \<Rightarrow> chunk_entry list \<Rightarrow> int \<Rightarrow> string" where
  "find_block content bs [] b = []"
| "find_block content bs ((a, n, src) # om) b =
     (if a \<le> b \<and> b < a + n then chunk_block content bs (a, n, src) b else find_block content bs om b)"

text \<open>The data of the raw chunks is in the file.\<close>

definition in_file :: "string \<Rightarrow> int \<Rightarrow> chunk_entry \<Rightarrow> bool" where
  "in_file content bs = (\<lambda>(a, n, src). case src of FilePos p \<Rightarrow> 0 \<le> p \<and> p + n * bs \<le> int (length content) | FillData d \<Rightarrow> length d = 4)"

lemma concat_replicate_mult: "concat (replicate (a * b) d) = concat (replicate a (concat (replicate b d)))"
  by (induction a) (simp_all add: replicate_add)

lemma take_blocks:
  assumes "0 \<le> bs" "0 \<le> k"
  shows "take (nat (int n * bs)) (drop (nat k) xs) = concat (map (\<lambda>i. take (nat bs) (drop (nat (k + int i * bs)) xs)) [0..<n])"
proof (induction n)
  case (Suc n)
  have "nat (int (Suc n) * bs) = nat (int n * bs) + nat bs" using assms by (simp add: distrib_right nat_add_distrib)
  moreover have "nat (k + int n * bs) = nat (int n * bs) + nat k" using assms by (simp add: nat_add_distrib)
  ultimately show ?case using Suc by (simp add: take_add)
qed simp

lemma map_upt_upto: "map (\<lambda>i. f (a + int i)) [0..<n] = map f [a..a + int n - 1]"
proof (induction n)
  case (Suc n)
  have "[a..a + int (Suc n) - 1] = [a..a + int n - 1] @ [a + int n]" using upto_rec2[of a "a + int n"] by (simp add: add.commute)
  then show ?case using Suc by simp
qed simp

text \<open>Reading \<open>n\<close> blocks of a chunk from its block \<open>b\<close>.\<close>

lemma chunk_read_ok:
  assumes f: "in_file (sp_file im) (sp_blocksize im) (a, len, src)" and bs: "0 < sp_blocksize im"
    and b: "a \<le> b" "0 \<le> n" "b + n \<le> a + len"
  shows "chunk_read im src (b - a) n = Inr (concat (map (chunk_block (sp_file im) (sp_blocksize im) (a, len, src)) [b..b + n - 1]))"
proof (cases src)
  case (FillData d)
  have "nat (n * (sp_blocksize im div 4)) = nat n * nat (sp_blocksize im div 4)" using b by (simp add: nat_mult_distrib)
  moreover have "map (\<lambda>_. x) [b..b + n - 1] = replicate (nat n) x" for x :: string using b by (simp add: map_replicate_const)
  ultimately show ?thesis using FillData by (simp add: chunk_read_def chunk_block_def concat_replicate_mult)
next
  case (FilePos p)
  have p: "0 \<le> p" using f FilePos by (simp add: in_file_def)
  let ?bs = "sp_blocksize im" and ?k = "p + (b - a) * sp_blocksize im"
  have k: "0 \<le> ?k" using p b(1) bs by simp
  have "chunk_read im src (b - a) n = Inr (take (nat (int (nat n) * ?bs)) (drop (nat ?k) (sp_file im)))"
    using FilePos k b(2) mult_nonneg_nonneg[OF b(2) less_imp_le[OF bs]] by (simp add: chunk_read_def seek_read_def file_read_def)
  also have "take (nat (int (nat n) * ?bs)) (drop (nat ?k) (sp_file im)) =
      concat (map (\<lambda>i. chunk_block (sp_file im) ?bs (a, len, src) (b + int i)) [0..<nat n])"
    unfolding take_blocks[OF less_imp_le[OF bs] k] using FilePos
    by (simp add: chunk_block_def algebra_simps)
  also have "\<dots> = concat (map (chunk_block (sp_file im) ?bs (a, len, src)) [b..b + n - 1])"
    using map_upt_upto[of "chunk_block (sp_file im) ?bs (a, len, src)" b "nat n"] b(2) by simp
  finally show ?thesis .
qed

lemma wf_chunks_Cons:
  "wf_chunks ((a, n, src) # om) \<longleftrightarrow> wf_chunks om \<and> 0 \<le> a \<and> 0 \<le> n \<and> (\<forall>(b, m, _)\<in>set om. a + n \<le> b)"
  by (auto simp: wf_chunks_def)

lemma chunk_cover_Cons [simp]: "chunk_cover ((a, n, src) # om) = {a..<a + n} \<union> chunk_cover om"
  by (simp add: chunk_cover_def)

lemma chunk_cover_ge: "b \<in> chunk_cover om \<Longrightarrow> (\<forall>(a, n, _)\<in>set om. p \<le> a) \<Longrightarrow> p \<le> b"
  by (force simp: chunk_cover_def)

lemma find_block_skip:
  "\<forall>b\<in>set bs. \<not> (a \<le> b \<and> b < a + n) \<Longrightarrow>
   map (find_block content sz ((a, n, src) # om)) bs = map (find_block content sz om) bs"
  by (intro map_cong) auto

lemma upto_append: "a \<le> b \<Longrightarrow> b \<le> c \<Longrightarrow> [a..c - 1] = [a..b - 1] @ [b..c - 1]" for a b c :: int
  using upto_split1[of a b "c - 1"] by (cases "b = c") auto

text \<open>The walk over the following chunks.\<close>

lemma read_rest_ok:
  assumes "wf_chunks om" "\<forall>c\<in>set om. in_file (sp_file im) (sp_blocksize im) c" "0 < sp_blocksize im"
    "\<forall>(a, n, _)\<in>set om. p \<le> a" "{p..<p + n} \<subseteq> chunk_cover om" "0 \<le> n"
  shows "\<exists>ds. read_rest im n om = Inr ds \<and> concat ds = concat (map (find_block (sp_file im) (sp_blocksize im) om) [p..p + n - 1])"
  using assms
proof (induction om arbitrary: p n)
  case Nil
  then have "n = 0" by (auto simp: chunk_cover_def)
  then show ?case by simp
next
  case (Cons c om)
  obtain a len src where c: "c = (a, len, src)" by (cases c)
  have wf: "wf_chunks om" "0 \<le> a" "0 \<le> len" "\<forall>(b, m, _)\<in>set om. a + len \<le> b" using Cons.prems(1) c wf_chunks_Cons by auto
  show ?case
  proof (cases "0 < n")
    case False
    then have "n = 0" using Cons.prems(6) by simp
    then show ?thesis using c by simp
  next
    case True
    then have "p \<in> chunk_cover (c # om)" using Cons.prems(5) by auto
    then have "a \<le> p" using c chunk_cover_ge[of p om "a + len"] wf(3,4) by auto
    then have ap: "a = p" using Cons.prems(4) c by auto
    let ?k = "min len n" and ?blk = "find_block (sp_file im) (sp_blocksize im)"
    have k: "0 \<le> ?k" "?k \<le> len" "?k \<le> n" using wf(3) Cons.prems(6) by auto
    have rd: "chunk_read im src 0 ?k = Inr (concat (map (chunk_block (sp_file im) (sp_blocksize im) c) [p..p + ?k - 1]))"
      using chunk_read_ok[of im a len src p ?k] Cons.prems(2,3) k c ap by simp
    have m1: "map (chunk_block (sp_file im) (sp_blocksize im) c) [p..p + ?k - 1] = map (?blk (c # om)) [p..p + ?k - 1]"
      using c ap k by auto
    have cov: "{p + ?k..<p + ?k + (n - ?k)} \<subseteq> chunk_cover om"
    proof
      fix x assume x: "x \<in> {p + ?k..<p + ?k + (n - ?k)}"
      have "x \<in> {p..<p + n}" using x k by auto
      then have "x \<in> chunk_cover (c # om)" using Cons.prems(5) by blast
      then have "x \<in> {p..<p + len} \<union> chunk_cover om" using c ap by simp
      then show "x \<in> chunk_cover om" using x by (auto simp: min_def split: if_splits)
    qed
    have ge: "\<forall>(b, m, _)\<in>set om. p + ?k \<le> b" using wf(4) k(2) ap by fastforce
    have e: "p + ?k + (n - ?k) - 1 = p + n - 1" by simp
    obtain ds where ds: "read_rest im (n - ?k) om = Inr ds" "concat ds = concat (map (?blk om) [p + ?k..p + n - 1])"
      using Cons.IH[OF wf(1) _ Cons.prems(3) ge cov, unfolded e] Cons.prems(2) k by auto
    have m2: "map (?blk om) [p + ?k..p + n - 1] = map (?blk (c # om)) [p + ?k..p + n - 1]"
      unfolding c by (rule find_block_skip[symmetric]) (use ap in \<open>auto simp: min_def split: if_splits\<close>)
    have up: "[p..p + n - 1] = [p..p + ?k - 1] @ [p + ?k..p + n - 1]" using k by (intro upto_append) auto
    have "read_rest im n (c # om) = Inr (concat (map (?blk (c # om)) [p..p + ?k - 1]) # ds)"
      using True ds(1) rd[unfolded m1] unfolding c read_rest.simps Let_def by (simp only: if_True try_bind_simps)
    moreover have "concat (concat (map (?blk (c # om)) [p..p + ?k - 1]) # ds) = concat (map (?blk (c # om)) [p..p + n - 1])"
      unfolding up concat.simps ds(2) m2 by simp
    ultimately show ?thesis by blast
  qed
qed

text \<open>Searching the chunk of a block.\<close>

lemma wf_chunks_append:
  "wf_chunks (xs @ ys) \<longleftrightarrow> wf_chunks xs \<and> wf_chunks ys \<and> (\<forall>(a, n, _)\<in>set xs. \<forall>(b, _, _)\<in>set ys. a + n \<le> b)"
  by (auto simp: wf_chunks_def sorted_wrt_append split_def)

lemma chunk_starts_sorted: "wf_chunks om \<Longrightarrow> sorted (map fst om)"
  by (induction om) (force simp: wf_chunks_Cons)+

lemma find_chunk:
  assumes "wf_chunks om" "b \<in> chunk_cover om"
  obtains xs a n src ys where "om = xs @ (a, n, src) # ys" "a \<le> b" "b < a + n" "bisect_right (map fst om) b = Suc (length xs)"
    "\<forall>(a', n', _)\<in>set xs. a' + n' \<le> a"
proof -
  obtain c where c: "c \<in> set om" "fst c \<le> b" "b < fst c + fst (snd c)" using assms(2) by (auto simp: chunk_cover_def)
  obtain xs ys where om: "om = xs @ c # ys" using split_list[OF c(1)] by blast
  obtain a n src where cc: "c = (a, n, src)" by (cases c)
  let ?r = "bisect_right (map fst om) b"
  note sp = bisect_right_split[OF chunk_starts_sorted[OF assms(1)], where x = b]
  have "map fst om ! length xs = fst c" "length xs < length (map fst om)" using om by (simp_all add: nth_append)
  then have "length xs < ?r" using sp(3)[of "length xs"] c(2) by (metis not_less)
  moreover have "?r \<le> Suc (length xs)"
  proof (rule ccontr)
    assume "\<not> ?r \<le> Suc (length xs)"
    then have r: "Suc (length xs) < ?r" by simp
    then have l: "Suc (length xs) < length om" using sp(1) by simp
    have "map fst om ! Suc (length xs) \<le> b" using sp(2)[OF r] .
    moreover have y: "om ! Suc (length xs) \<in> set ys" using l om by (simp add: nth_append)
    have "\<forall>(b', _, _)\<in>set ys. a + n \<le> b'" using assms(1) om cc by (simp add: wf_chunks_append wf_chunks_Cons)
    then have "a + n \<le> fst (om ! Suc (length xs))" using y by fastforce
    ultimately show False using c(3) cc l by simp
  qed
  moreover have "\<forall>(a', n', _)\<in>set xs. a' + n' \<le> a" using assms(1) om cc by (auto simp: wf_chunks_append)
  ultimately show ?thesis using that[of xs a n src ys] om cc c by simp
qed

lemma find_block_here:
  assumes "\<forall>(a', n', _)\<in>set xs. a' + n' \<le> a" "a \<le> b"
  shows "find_block content sz (xs @ (a, n, src) # ys) b = find_block content sz ((a, n, src) # ys) b"
  using assms by (induction xs) auto

definition valid_chunks :: "sparse_image \<Rightarrow> bool" where
  "valid_chunks im = (wf_chunks (sp_offset_map im) \<and> sp_offset_index im = map fst (sp_offset_map im) \<and> 0 < sp_blocksize im \<and>
     (\<forall>c\<in>set (sp_offset_map im). in_file (sp_file im) (sp_blocksize im) c))"

abbreviation image_block :: "sparse_image \<Rightarrow> int \<Rightarrow> string" where
  "image_block im \<equiv> find_block (sp_file im) (sp_blocksize im) (sp_offset_map im)"

lemma read_pair_ok:
  assumes v: "valid_chunks im" and se: "s < e" "{s..<e} \<subseteq> chunk_cover (sp_offset_map im)"
  shows "\<exists>ds. read_pair im (s, e) = Inr ds \<and> concat ds = concat (map (image_block im) [s..e - 1])"
proof -
  let ?om = "sp_offset_map im" and ?blk = "find_block (sp_file im) (sp_blocksize im)"
  have wf: "wf_chunks ?om" "0 < sp_blocksize im" "\<forall>c\<in>set ?om. in_file (sp_file im) (sp_blocksize im) c"
    "sp_offset_index im = map fst ?om" using v by (auto simp: valid_chunks_def)
  have "s \<in> chunk_cover ?om" using se by auto
  from find_chunk[OF wf(1) this] obtain xs a n src ys where om: "?om = xs @ (a, n, src) # ys" "a \<le> s" "s < a + n"
    "bisect_right (map fst ?om) s = Suc (length xs)" "\<forall>(a', n', _)\<in>set xs. a' + n' \<le> a" by metis
  let ?k = "min (n - (s - a)) (e - s)"
  have k: "0 < ?k" "s + ?k \<le> a + n" "?k \<le> e - s" using om(2,3) se(1) by auto
  have "in_file (sp_file im) (sp_blocksize im) (a, n, src)" using wf(3) om(1) by simp
  from chunk_read_ok[OF this wf(2) om(2) less_imp_le[OF k(1)] k(2)]
  have rd: "chunk_read im src (s - a) ?k = Inr (concat (map (chunk_block (sp_file im) (sp_blocksize im) (a, n, src)) [s..s + ?k - 1]))" .
  have ys: "wf_chunks ys" "\<forall>(b, _, _)\<in>set ys. a + n \<le> b" using wf(1) om(1) by (auto simp: wf_chunks_append wf_chunks_Cons)
  have ge: "\<forall>(b, _, _)\<in>set ys. s + ?k \<le> b" using ys(2) k(2) by fastforce
  have xsc: "x \<notin> chunk_cover xs" if "a \<le> x" for x using om(5) that by (fastforce simp: chunk_cover_def)
  have "chunk_cover ?om = chunk_cover xs \<union> {a..<a + n} \<union> chunk_cover ys" using om(1) by (auto simp: chunk_cover_def)
  then have all: "x \<in> {a..<a + n} \<union> chunk_cover ys" if "s \<le> x" "x < e" for x using se(2) xsc[of x] om(2) that by auto
  have cov: "{s + ?k..<s + ?k + (e - s - ?k)} \<subseteq> chunk_cover ys"
  proof
    fix x assume x: "x \<in> {s + ?k..<s + ?k + (e - s - ?k)}"
    then show "x \<in> chunk_cover ys" using all[of x] k(1) by (auto simp: min_def split: if_splits)
  qed
  have en: "s + ?k + (e - s - ?k) - 1 = e - 1" by simp
  obtain ds where ds: "read_rest im (e - s - ?k) ys = Inr ds" "concat ds = concat (map (?blk ys) [s + ?k..e - 1])"
    using read_rest_ok[OF ys(1) _ wf(2) ge cov, unfolded en] wf(3) om(1) k(3) by auto
  have m1: "map (chunk_block (sp_file im) (sp_blocksize im) (a, n, src)) [s..s + ?k - 1] = map (?blk ?om) [s..s + ?k - 1]"
    using om(2) k(2) by (intro map_cong) (auto simp: om(1) find_block_here[OF om(5)])
  have m2: "map (?blk ys) [s + ?k..e - 1] = map (?blk ?om) [s + ?k..e - 1]"
  proof (intro map_cong refl)
    fix x assume x: "x \<in> set [s + ?k..e - 1]"
    then have "a \<le> x" "\<not> x < a + n" using om(2) k(1) by (auto simp: min_def split: if_splits)
    then show "?blk ys x = ?blk ?om x" by (simp add: om(1) find_block_here[OF om(5)])
  qed
  have up: "[s..e - 1] = [s..s + ?k - 1] @ [s + ?k..e - 1]"
    using k by (intro upto_append) auto
  have "read_pair im (s, e) = Inr (concat (map (?blk ?om) [s..s + ?k - 1]) # ds)"
    using om(4) wf(4) rd[unfolded m1] ds(1) unfolding read_pair_def py_get_def py_index_def
    by (simp add: om(1) Let_def nth_append)
  moreover have "concat (concat (map (?blk ?om) [s..s + ?k - 1]) # ds) = concat (map (?blk ?om) [s..e - 1])"
    unfolding up concat.simps ds(2) m2 by simp
  ultimately show ?thesis by blast
qed

section \<open>What the constructor builds\<close>

definition care_bounds :: "chunk_entry list \<Rightarrow> int list" where
  "care_bounds om = concat (map (\<lambda>(a, n, _). [a, a + n]) om)"

lemma care_bounds_simps [simp]:
  "care_bounds [] = []" "care_bounds ((a, n, src) # om) = a # (a + n) # care_bounds om"
  "care_bounds (xs @ ys) = care_bounds xs @ care_bounds ys"
  by (simp_all add: care_bounds_def)

lemma set_care_bounds: "set (care_bounds om) = (\<Union>(a, n, _)\<in>set om. {a, a + n})"
  by (induction om) auto

lemma care_bounds_ok:
  assumes "wf_chunks om"
  shows "even (length (care_bounds om))" "sorted (care_bounds om)" "par (care_bounds om) x \<longleftrightarrow> x \<in> chunk_cover om"
proof -
  have "even (length (care_bounds om)) \<and> sorted (care_bounds om) \<and> (par (care_bounds om) x \<longleftrightarrow> x \<in> chunk_cover om)"
    using assms
  proof (induction om)
    case Nil
    then show ?case by (simp add: par_def chunk_cover_def)
  next
    case (Cons c om)
    obtain a n src where c: "c = (a, n, src)" by (cases c)
    have wf: "wf_chunks om" "0 \<le> n" "\<forall>(b, m, _)\<in>set om. a + n \<le> b \<and> 0 \<le> m"
      using Cons.prems c by (auto simp: wf_chunks_Cons wf_chunks_def)
    then have ge: "\<forall>y\<in>set (care_bounds om). a + n \<le> y" by (fastforce simp: set_care_bounds)
    have "x \<notin> chunk_cover om" if "x < a + n" using wf(3) that by (fastforce simp: chunk_cover_def)
    then show ?case using Cons.IH[OF wf(1)] c ge wf(2) by (auto simp: par_def)
  qed
  then show "even (length (care_bounds om))" "sorted (care_bounds om)" "par (care_bounds om) x \<longleftrightarrow> x \<in> chunk_cover om" by auto
qed

lemma care_map_ok:
  assumes "wf_chunks om"
  shows "RangeSet_init (care_bounds om) = Inr (rs_of_data (care_bounds om))" "nonneg_rs (rs_of_data (care_bounds om))"
    "blocks (rs_of_data (care_bounds om)) = chunk_cover om"
proof -
  note ok = care_bounds_ok[OF assms]
  show "RangeSet_init (care_bounds om) = Inr (rs_of_data (care_bounds om))" using ok(1) by (rule RangeSet_init_even)
  have "set (remove_pairs ds) \<subseteq> set ds" for ds
  proof -
    have "set (remove_pairs_from l ds) \<subseteq> set_option l \<union> set ds" for l
      by (induction l ds rule: remove_pairs_from.induct) (auto split: option.splits if_splits)
    then show ?thesis by (force simp: remove_pairs_def)
  qed
  moreover have "\<forall>p\<in>set (care_bounds om). 0 \<le> p" using assms by (fastforce simp: set_care_bounds wf_chunks_def)
  ultimately show "nonneg_rs (rs_of_data (care_bounds om))" using wf_rs_of_data[OF ok(2,1)] by (auto simp: nonneg_rs_def)
  show "blocks (rs_of_data (care_bounds om)) = chunk_cover om" using ok(3) by simp
qed

definition chunk_inv :: "string \<Rightarrow> chunk_state \<Rightarrow> bool" where
  "chunk_inv content st = (wf_chunks (cs_map st) \<and> (\<forall>(a, n, _)\<in>set (cs_map st). a + n \<le> cs_pos st) \<and> 0 \<le> cs_pos st \<and>
     0 \<le> cs_fpos st \<and> cs_care st = care_bounds (cs_map st) \<and>
     (\<forall>(a, n, src)\<in>set (cs_map st). case src of FilePos p \<Rightarrow> 0 \<le> p | FillData d \<Rightarrow> length d \<le> 4))"

lemma unpack_nonneg: "i < length fmt \<Longrightarrow> 0 \<le> unpack_fields fmt bs ! i"
proof (induction fmt arbitrary: i bs)
  case (Cons k fmt)
  then show ?case by (cases i) auto
qed simp

lemma add_chunk_inv:
  assumes "chunk_inv content st" "0 \<le> n" "0 \<le> fpos" "case src of FilePos p \<Rightarrow> 0 \<le> p | FillData d \<Rightarrow> length d \<le> 4"
  shows "chunk_inv content (add_chunk n src fpos st)"
  using assms by (fastforce simp: chunk_inv_def add_chunk_def wf_chunks_append wf_chunks_Cons wf_chunks_def[of "[]"])

lemma read_chunk_inv:
  assumes "chunk_inv content st" "read_chunk content bs st i = Inr st'"
  shows "chunk_inv content st'"
proof -
  obtain header where u: "struct_unpack [2, 2, 4, 4] (file_read content (cs_fpos st) 12) = Inr header"
    using assms(2) by (auto simp: read_chunk_def)
  then have nn: "0 \<le> header ! 2" "0 \<le> header ! 3" using unpack_nonneg[of _ "[2, 2, 4, 4]"] by (auto simp: struct_unpack_def split: if_splits)
  have f: "0 \<le> cs_fpos st" using assms(1) by (simp add: chunk_inv_def)
  consider (raw) "st' = add_chunk (header ! 2) (FilePos (cs_fpos st + 12)) (cs_fpos st + 12 + header ! 2 * bs) st"
      "header ! 3 - 12 = header ! 2 * bs"
    | (fill) "st' = add_chunk (header ! 2) (FillData (file_read content (cs_fpos st + 12) 4))
        (cs_fpos st + 12 + int (length (file_read content (cs_fpos st + 12) 4))) st"
    | (skip) "st' = st\<lparr>cs_fpos := cs_fpos st + 12, cs_pos := cs_pos st + header ! 2\<rparr>"
    using assms(2) u by (auto simp: read_chunk_def Let_def split: if_splits)
  then show ?thesis
  proof cases
    case raw
    have "0 \<le> cs_fpos st + 12 + header ! 2 * bs" using raw(2) f nn(2) by linarith
    then show ?thesis using add_chunk_inv[OF assms(1) nn(1)] raw(1) f by simp
  next
    case fill
    have "length (file_read content (cs_fpos st + 12) 4) \<le> 4" by (simp add: file_read_def)
    then show ?thesis using fill add_chunk_inv[OF assms(1) nn(1)] f by simp
  next
    case skip
    then show ?thesis using assms(1) nn(1) f by (fastforce simp: chunk_inv_def)
  qed
qed

text \<open>The attributes of a successfully opened image, apart from the file map.\<close>

definition opened_image :: "sparse_image \<Rightarrow> bool" where
  "opened_image im = (wf_chunks (sp_offset_map im) \<and> sp_offset_index im = map fst (sp_offset_map im) \<and>
     sp_care_map im = rs_of_data (care_bounds (sp_offset_map im)) \<and> 0 \<le> sp_blocksize im \<and> 0 \<le> sp_total_blocks im \<and>
     wf_rs (sp_extended im) \<and> wf_rs (sp_clobbered im) \<and>
     blocks (sp_extended im) = {y. 0 \<le> y \<and> y < sp_total_blocks im \<and> y \<notin> chunk_cover (sp_offset_map im) \<and>
       (\<exists>x\<in>chunk_cover (sp_offset_map im). \<bar>x - y\<bar> \<le> 512)})"

lemma opened_care: "opened_image im \<Longrightarrow> nonneg_rs (sp_care_map im) \<and> blocks (sp_care_map im) = chunk_cover (sp_offset_map im)"
  using care_map_ok[of "sp_offset_map im"] by (simp add: opened_image_def)

lemma opened_extended:
  assumes "wf_chunks om" "rs_extend (rs_of_data (care_bounds om)) 512 = Inr ext" "0 \<le> n"
  shows "wf_rs (rs_subtract (rs_intersect ext (rs_of_data [0, n])) (rs_of_data (care_bounds om)))"
    "blocks (rs_subtract (rs_intersect ext (rs_of_data [0, n])) (rs_of_data (care_bounds om))) =
      {y. 0 \<le> y \<and> y < n \<and> y \<notin> chunk_cover om \<and> (\<exists>x\<in>chunk_cover om. \<bar>x - y\<bar> \<le> 512)}"
proof -
  note care = care_map_ok[OF assms(1)]
  have e: "wf_rs ext" "blocks ext = {y. 0 \<le> y \<and> (\<exists>x\<in>chunk_cover om. \<bar>x - y\<bar> \<le> 512)}"
    using rs_extend_spec[of "rs_of_data (care_bounds om)" 512] care assms(2) by (auto simp: nonneg_rs_def)
  have w: "wf_rs (rs_of_data (care_bounds om))" using care(2) by (rule nonneg_rsD)
  have i: "wf_rs (rs_of_data [0, n])" "blocks (rs_of_data [0, n]) = {0..<n}" using blocks_interval[OF assms(3)] by auto
  show "wf_rs (rs_subtract (rs_intersect ext (rs_of_data [0, n])) (rs_of_data (care_bounds om)))"
    using e(1) i(1) w by (intro rs.inv_diff rs.inv_inter)
  show "blocks (rs_subtract (rs_intersect ext (rs_of_data [0, n])) (rs_of_data (care_bounds om))) =
      {y. 0 \<le> y \<and> y < n \<and> y \<notin> chunk_cover om \<and> (\<exists>x\<in>chunk_cover om. \<bar>x - y\<bar> \<le> 512)}"
    unfolding rs.abs_diff[OF rs.inv_inter[OF e(1) i(1)] w] rs.abs_inter[OF e(1) i(1)] i(2) care(3) e(2) by auto
qed

lemma read_header_nonneg: "read_header content = Inr (b, n, c) \<Longrightarrow> 0 \<le> b \<and> 0 \<le> n \<and> 0 \<le> c"
  using unpack_nonneg[of _ "[4, 2, 2, 2, 2, 4, 4, 4, 4]"]
  by (auto simp: read_header_def struct_unpack_def split: if_splits)

lemma SparseImage_init_cases:
  assumes "SparseImage_init content file_map clob True sh = Inr im"
  obtains im1 where "opened_image im1" "sp_file im1 = content" "read_header content = Inr (sp_blocksize im1, sp_total_blocks im1, sp_total_chunks im1)"
    "case file_map of None \<Rightarrow> im = im1\<lparr>sp_file_map := [(''__DATA'', sp_care_map im1)]\<rparr>
     | Some lines \<Rightarrow> LoadFileBlockMap im1 lines (sp_clobbered im1) sh = Inr im"
proof -
  obtain b n c where h: "read_header content = Inr (b, n, c)" using assms by (auto simp: SparseImage_init_def)
  obtain cl where cl: "(case clob of None \<Rightarrow> Inr rs_empty | Some t \<Rightarrow> rs_parse t) = Inr cl" using assms h by (auto simp: SparseImage_init_def)
  let ?st0 = "\<lparr>cs_fpos = 28, cs_pos = 0, cs_care = [], cs_map = []\<rparr>"
  obtain st where st: "for_each (read_chunk content b) ?st0 (py_range 0 c) = Inr st" using assms h cl by (auto simp: SparseImage_init_def)
  have "chunk_inv content ?st0" by (simp add: chunk_inv_def wf_chunks_def)
  then have inv: "chunk_inv content st"
    by (rule for_each_partial_invariant[where P = "chunk_inv content", OF st]) (rule read_chunk_inv)
  then have om: "wf_chunks (cs_map st)" "cs_care st = care_bounds (cs_map st)" by (auto simp: chunk_inv_def)
  note care = care_map_ok[OF om(1)]
  obtain ext where ext: "rs_extend (rs_of_data (care_bounds (cs_map st))) 512 = Inr ext"
    using assms h cl st om(2) care(1) by (auto simp: SparseImage_init_def)
  define im1 where "im1 = \<lparr>sp_file = content, sp_blocksize = b, sp_total_blocks = n, sp_total_chunks = c, sp_offset_map = cs_map st,
    sp_clobbered = cl, sp_care_map = rs_of_data (care_bounds (cs_map st)), sp_offset_index = map fst (cs_map st),
    sp_extended = rs_subtract (rs_intersect ext (rs_of_data [0, n])) (rs_of_data (care_bounds (cs_map st))), sp_file_map = []\<rparr>"
  have nn: "0 \<le> b" "0 \<le> n" using read_header_nonneg[OF h] by auto
  have "wf_rs cl" using cl rs_parse_wf by (auto split: option.splits)
  then have "opened_image im1" using om opened_extended[OF om(1) ext nn(2)] nn by (simp add: opened_image_def im1_def)
  moreover have "case file_map of None \<Rightarrow> im = im1\<lparr>sp_file_map := [(''__DATA'', sp_care_map im1)]\<rparr>
     | Some lines \<Rightarrow> LoadFileBlockMap im1 lines (sp_clobbered im1) sh = Inr im"
    using assms h cl st om(2) care(1) ext
    by (simp add: SparseImage_init_def RangeSet_init_even im1_def Let_def split: option.splits)
  moreover have "sp_file im1 = content" "read_header content = Inr (sp_blocksize im1, sp_total_blocks im1, sp_total_chunks im1)"
    using h by (simp_all add: im1_def)
  ultimately show ?thesis by (intro that)
qed

section \<open>The contract\<close>

text \<open>An opened image with blocks of 4096 bytes whose raw data is all in the file, and whose file map
  partitions the care map.\<close>

definition valid_sparse :: "sparse_image \<Rightarrow> bool" where
  "valid_sparse im = (opened_image im \<and> sp_blocksize im = 4096 \<and> (\<forall>c\<in>set (sp_offset_map im). in_file (sp_file im) 4096 c) \<and>
     AssertPartition (sp_care_map im) (map snd (sp_file_map im)) = Inr () \<and> (\<forall>r\<in>set (map snd (sp_file_map im)). wf_rs r))"

lemma iter_cover:
  assumes "wf_rs r" "(s, e) \<in> set (rs_iter r)"
  shows "s < e" "{s..<e} \<subseteq> blocks r"
  using assms pairs_bounds[of "rs_data r" s e] rs_iter_blocks[OF assms(1)] by (fastforce simp: wf_rs_def rs_iter_def)+

lemma GetRangeData_ok:
  assumes v: "valid_chunks im" and r: "wf_rs r" "blocks r \<subseteq> chunk_cover (sp_offset_map im)"
  shows "\<exists>ds. GetRangeData im (rs_iter r) = Inr ds \<and> concat ds = concat (map (image_block im) (rs_next_item r))"
proof -
  have "\<forall>p\<in>set ps. \<exists>ds. read_pair im p = Inr ds \<and> concat ds = concat (map (image_block im) [fst p..snd p - 1]) \<Longrightarrow>
      \<exists>pss. map_res (read_pair im) ps = Inr pss \<and>
        concat (concat pss) = concat (map (image_block im) (concat (map (\<lambda>(s, e). [s..e - 1]) ps)))" for ps
    by (induction ps) (auto simp: split_def)
  moreover have "\<forall>p\<in>set (rs_iter r). \<exists>ds. read_pair im p = Inr ds \<and> concat ds = concat (map (image_block im) [fst p..snd p - 1])"
  proof
    fix p assume p: "p \<in> set (rs_iter r)"
    have "fst p < snd p" "{fst p..<snd p} \<subseteq> blocks r" using iter_cover[OF r(1), of "fst p" "snd p"] p by simp_all
    from read_pair_ok[OF v this(1)] this(2) r(2)
    show "\<exists>ds. read_pair im p = Inr ds \<and> concat ds = concat (map (image_block im) [fst p..snd p - 1])" by auto
  qed
  ultimately obtain pss where p: "map_res (read_pair im) (rs_iter r) = Inr pss"
    "concat (concat pss) = concat (map (image_block im) (rs_next_item r))"
    unfolding rs_next_item_def by blast
  then show ?thesis by (simp add: GetRangeData_def)
qed

lemma length_image_block:
  assumes "wf_chunks om" "\<forall>c\<in>set om. in_file content 4096 c" "b \<in> chunk_cover om"
  shows "length (find_block content 4096 om b) = 4096"
  using assms
proof (induction om)
  case (Cons c om)
  obtain a n src where c: "c = (a, n, src)" by (cases c)
  show ?case
  proof (cases "a \<le> b \<and> b < a + n")
    case True
    have "length (chunk_block content 4096 (a, n, src) b) = 4096"
    proof (cases src)
      case (FilePos p)
      have p: "0 \<le> p" "p + n * 4096 \<le> int (length content)" using Cons.prems(2) c FilePos by (auto simp: in_file_def)
      have "p + (b - a) * 4096 + 4096 \<le> p + n * 4096" using True by simp
      then have "p + (b - a) * 4096 + 4096 \<le> int (length content)" using p(2) by linarith
      moreover have "0 \<le> p + (b - a) * 4096" using p(1) True by simp
      ultimately show ?thesis using FilePos by (simp add: chunk_block_def)
    next
      case (FillData d)
      then show ?thesis using Cons.prems(2) c by (simp add: in_file_def chunk_block_def length_concat sum_list_replicate)
    qed
    then show ?thesis using True c by simp
  next
    case False
    then have "b \<in> chunk_cover om" using Cons.prems(3) c by auto
    then show ?thesis using False Cons c by (auto simp: wf_chunks_Cons)
  qed
qed (simp add: chunk_cover_def)

interpretation sparse_img: block_image valid_sparse sp_care_map "\<lambda>im. map snd (sp_file_map im)"
  image_block SparseImage_WriteRangeDataToFd SparseImage_RangeSha1
proof
  fix im :: sparse_image and r sha b assume v: "valid_sparse im"
  then have o: "opened_image im" "sp_blocksize im = 4096" "\<forall>c\<in>set (sp_offset_map im). in_file (sp_file im) 4096 c"
    by (auto simp: valid_sparse_def)
  note care = opened_care[OF o(1)]
  show "nonneg_rs (sp_care_map im)" using care by simp
  have vc: "valid_chunks im" using o by (simp add: valid_chunks_def opened_image_def)
  show "b \<in> blocks (sp_care_map im) \<Longrightarrow> length (image_block im b) = 4096"
    using length_image_block[of "sp_offset_map im" "sp_file im" b] care o by (simp add: opened_image_def)
  show "wf_rs r \<Longrightarrow> blocks r \<subseteq> blocks (sp_care_map im) \<Longrightarrow>
      SparseImage_WriteRangeDataToFd im r = Inr (concat (map (image_block im) (rs_next_item r)))"
    using GetRangeData_ok[OF vc, of r] care by (auto simp: SparseImage_WriteRangeDataToFd_def)
  show "SparseImage_RangeSha1 sha im r = try_bind (SparseImage_WriteRangeDataToFd im r) (\<lambda>d. Inr (sha d))"
    by (cases "GetRangeData im (rs_iter r)") (simp_all add: SparseImage_RangeSha1_def SparseImage_WriteRangeDataToFd_def)
qed (auto simp: valid_sparse_def)

section \<open>The file map\<close>

definition line_name :: "string \<Rightarrow> string" where
  "line_name l = hd (split_first (rstrip l))"

lemma with_extra_same [simp]: "blocks (with_extra k v r) = blocks r" "wf_rs (with_extra k v r) = wf_rs r"
  by (simp_all add: with_extra_def blocks_def wf_rs_def)

lemma line_ranges_wf: "line_ranges t = Inr r \<Longrightarrow> wf_rs r"
proof -
  assume "line_ranges t = Inr r"
  then obtain raw hole where p: "rs_parse t = Inr raw" "rs_parse ''0'' = Inr hole"
    "r = with_extra ''text_str'' (Extra_str t) (RangeSet (rs_data (rs_subtract raw hole)) (rs_monotonic raw) (rs_extra (rs_subtract raw hole)))"
    by (auto simp: line_ranges_def Let_def)
  have "wf_rs (rs_subtract raw hole)" using p(1,2) rs_parse_wf by (intro rs.inv_diff) blast+
  then show "wf_rs r" unfolding p(3) with_extra_same by (simp add: wf_rs_def)
qed

lemma unshare_wf: "wf_rs r \<Longrightarrow> wf_rs rem \<Longrightarrow> unshare sh r rem = Some q \<Longrightarrow> wf_rs q"
  by (auto simp: unshare_def Let_def rs.inv_diff split: if_splits)

lemma map_line_cases:
  assumes "map_line clob sh (out, rem) l = Inr (out', rem')" "wf_rs rem" "wf_rs clob"
  shows "(out' = out \<and> rem' = rem) \<or> (\<exists>r. out' = dict_set (line_name l) r out \<and> rem' = rs_subtract rem r \<and> wf_rs r \<and>
    blocks r \<subseteq> blocks rem \<and> blocks clob \<inter> blocks r = {})"
proof -
  obtain fn rt where s: "split_first (rstrip l) = [fn, rt]" using assms(1) by (auto simp: map_line_def split: list.splits)
  obtain r0 where r0: "line_ranges rt = Inr r0" using assms(1) s by (auto simp: map_line_def)
  show ?thesis
  proof (cases "unshare sh r0 rem")
    case None
    then show ?thesis using assms(1) s r0 by (simp add: map_line_def)
  next
    case (Some r)
    have wf: "wf_rs r" using unshare_wf[OF line_ranges_wf[OF r0] assms(2) Some] .
    have e: "rs_size r = rs_size (rs_intersect r rem)" "\<not> rs_overlaps clob r" "out' = dict_set fn r out" "rem' = rs_subtract rem r"
      using assms(1) s r0 Some by (auto simp: map_line_def)
    have "card (blocks r) = card (blocks r \<inter> blocks rem)"
      using e(1) rs.size_card[OF wf] rs.size_card[OF rs.inv_inter[OF wf assms(2)]] rs.abs_inter[OF wf assms(2)] by simp
    then have "blocks r \<inter> blocks rem = blocks r" using finite_blocks[OF wf] by (intro card_subset_eq) auto
    then show ?thesis using wf e rs.meets_iff[OF assms(3) wf] s by (auto simp: line_name_def)
  qed
qed

text \<open>The state of the loop over the lines: the domains so far and the remaining blocks partition the
  care map, and no domain has a clobbered block.\<close>

definition map_state :: "int set \<Rightarrow> range_set \<Rightarrow> (string, range_set) odict \<Rightarrow> range_set \<Rightarrow> bool" where
  "map_state care clob out rem = (wf_rs rem \<and> (\<forall>r\<in>set (map snd out). wf_rs r) \<and> disjoint_seq {} (map blocks (map snd out)) \<and>
     \<Union> (blocks ` set (map snd out)) \<inter> (blocks rem \<union> blocks clob) = {} \<and> \<Union> (blocks ` set (map snd out)) \<union> blocks rem = care)"

lemma dict_set_fresh: "k \<notin> fst ` set d \<Longrightarrow> dict_set k v d = d @ [(k, v)]"
  by (induction d) (auto simp: image_iff)

lemma map_lines_ok:
  assumes "for_each (map_line clob sh) (out, rem) lines = Inr (out', rem')" "wf_rs clob" "map_state care clob out rem"
    "distinct (map line_name lines)" "fst ` set out \<inter> line_name ` set lines = {}"
  shows "map_state care clob out' rem' \<and> fst ` set out' \<subseteq> fst ` set out \<union> line_name ` set lines"
  using assms
proof (induction lines arbitrary: out rem)
  case (Cons l lines)
  obtain out1 rem1 where s: "map_line clob sh (out, rem) l = Inr (out1, rem1)" "for_each (map_line clob sh) (out1, rem1) lines = Inr (out', rem')"
    using Cons.prems(1) by auto
  have wf: "wf_rs rem" using Cons.prems(3) by (simp add: map_state_def)
  have fresh: "line_name l \<notin> fst ` set out" using Cons.prems(5) by auto
  consider "out1 = out" "rem1 = rem" | r where "out1 = out @ [(line_name l, r)]" "rem1 = rs_subtract rem r" "wf_rs r"
    "blocks r \<subseteq> blocks rem" "blocks clob \<inter> blocks r = {}"
    using map_line_cases[OF s(1) wf Cons.prems(2)] dict_set_fresh[OF fresh] by auto
  then show ?case
  proof cases
    case 1
    then show ?thesis using Cons.IH[OF s(2) Cons.prems(2)] Cons.prems(3-5) by auto
  next
    case 2
    have b: "blocks rem1 = blocks rem - blocks r" "wf_rs rem1" using 2(2,3) wf by (simp_all add: rs.abs_diff rs.inv_diff)
    have st: "map_state care clob out1 rem1"
      using Cons.prems(3) 2 b by (auto simp: map_state_def disjoint_seq_append)
    have "fst ` set out1 \<inter> line_name ` set lines = {}" using Cons.prems(4,5) 2(1) by auto
    then show ?thesis using Cons.IH[OF s(2) Cons.prems(2) st] Cons.prems(4) 2(1) by auto
  qed
qed simp

text \<open>The loop over the remaining blocks: no block equals the \<open>str\<close> reference, so all go to groups of
  512 blocks, the last one shorter.\<close>

lemma block_data_nonzero: "block_data im b = Inr d \<Longrightarrow> d \<noteq> Some (nuls n)"
proof -
  have "Bytes x \<noteq> buf_slice (nuls k) i j" for x k i j by (simp add: nuls_def)
  then show "block_data im b = Inr d \<Longrightarrow> d \<noteq> Some (nuls n)"
    by (auto simp: block_data_def split: chunk_src.splits prod.splits)
qed

definition groups_of :: "int list \<Rightarrow> int list \<Rightarrow> int list list \<Rightarrow> bool" where
  "groups_of done nz gs = (concat gs @ nz = done \<and> (\<forall>g\<in>set gs. length g = 512) \<and> length nz < 512)"

lemma length_unit_ranges: "length (unit_ranges bs) = 2 * length bs"
  by (induction bs) auto

lemma group_blocks_ok:
  assumes "for_each (group_block im) ([], unit_ranges nz, map unit_ranges gs) bs = Inr (z, n, g)" "groups_of done nz gs"
  shows "\<exists>nz' gs'. z = [] \<and> n = unit_ranges nz' \<and> g = map unit_ranges gs' \<and> groups_of (done @ bs) nz' gs'"
  using assms
proof (induction bs arbitrary: nz gs "done")
  case Nil
  then show ?case by auto
next
  case (Cons b bs)
  obtain d where d: "block_data im b = Inr d" using Cons.prems(1) by (auto simp: group_block_def)
  have u: "unit_ranges nz @ [b, b + 1] = unit_ranges (nz @ [b])" by simp
  show ?case
  proof (cases "512 \<le> length (nz @ [b])")
    case True
    then have "1024 \<le> length (unit_ranges (nz @ [b]))" unfolding length_unit_ranges by simp
    then have "group_block im ([], unit_ranges nz, map unit_ranges gs) b = Inr ([], unit_ranges [], map unit_ranges (gs @ [nz @ [b]]))"
      using d block_data_nonzero[OF d] u by (simp add: group_block_def Let_def del: unit_ranges_simps(2,3))
    then have "for_each (group_block im) ([], unit_ranges [], map unit_ranges (gs @ [nz @ [b]])) bs = Inr (z, n, g)"
      using Cons.prems(1) by simp
    moreover have "groups_of (done @ [b]) [] (gs @ [nz @ [b]])" using Cons.prems(2) True by (auto simp: groups_of_def)
    ultimately show ?thesis using Cons.IH[of "[]" "gs @ [nz @ [b]]" "done @ [b]"] by simp
  next
    case False
    then have "\<not> 1024 \<le> length (unit_ranges (nz @ [b]))" unfolding length_unit_ranges by simp
    then have "group_block im ([], unit_ranges nz, map unit_ranges gs) b = Inr ([], unit_ranges (nz @ [b]), map unit_ranges gs)"
      using d block_data_nonzero[OF d] u by (simp add: group_block_def Let_def del: unit_ranges_simps(2,3))
    then have "for_each (group_block im) ([], unit_ranges (nz @ [b]), map unit_ranges gs) bs = Inr (z, n, g)"
      using Cons.prems(1) by simp
    moreover have "groups_of (done @ [b]) (nz @ [b]) gs" using Cons.prems(2) False by (auto simp: groups_of_def)
    ultimately show ?thesis using Cons.IH[of "nz @ [b]" gs "done @ [b]"] by simp
  qed
qed

abbreviation group_name :: "nat \<Rightarrow> string" where
  "group_name i \<equiv> ''__NONZERO-'' @ str_int (int i)"

lemma str_int_inj: "str_int a = str_int b \<Longrightarrow> a = b"
  by (metis py_int_str_int Inr_inject)

lemma snd_enumerate: "map (\<lambda>x. f (snd x)) (enumerate k xs) = map f xs"
  by (induction xs arbitrary: k) auto

lemma group_domains:
  assumes "\<forall>g\<in>set gs. sorted_wrt (<) g" "\<forall>j\<ge>k. group_name j \<notin> fst ` set out"
  shows "for_each (\<lambda>o' (i, bs). try_bind (RangeSet_init bs) (\<lambda>r. Inr (dict_set (''__NONZERO-'' @ str_int (int i)) r o')))
      out (enumerate k (map unit_ranges gs)) =
    Inr (out @ map (\<lambda>(i, g). (group_name i, rs_of_data (unit_ranges g))) (enumerate k gs))"
  using assms
proof (induction gs arbitrary: k out)
  case (Cons g gs)
  have f: "\<forall>j\<ge>Suc k. group_name j \<notin> fst ` set (out @ [(group_name k, rs_of_data (unit_ranges g))])"
    using Cons.prems(2) by (auto dest!: str_int_inj)
  have "group_name k \<notin> fst ` set out" using Cons.prems(2) by blast
  then show ?case using Cons.IH[OF _ f] Cons.prems(1) unit_range_set(1)[of g] by (simp add: dict_set_fresh)
qed simp

lemma concat_sorted_parts:
  fixes gs :: "int list list"
  assumes "sorted_wrt (<) (concat gs)"
  shows "\<forall>g\<in>set gs. sorted_wrt (<) g" "disjoint_seq {} (map set gs)"
proof -
  have "(\<forall>g\<in>set gs. sorted_wrt (<) g) \<and> disjoint_seq {} (map set gs)"
    using assms
  proof (induction gs)
    case (Cons g gs)
    then have s: "sorted_wrt (<) g" "sorted_wrt (<) (concat gs)" "\<forall>x\<in>set g. \<forall>y\<in>set (concat gs). x < y"
      by (auto simp: sorted_wrt_append)
    have "set g \<inter> \<Union> (set (map set gs)) = {}" using s(3) by fastforce
    then show ?case using Cons.IH[OF s(2)] s(1) disjoint_seq_Un[of "set g" "map set gs"] by auto
  qed simp
  then show "\<forall>g\<in>set gs. sorted_wrt (<) g" "disjoint_seq {} (map set gs)" by auto
qed

text \<open>The names of the files in the map: distinct, and none of the reserved names.\<close>

definition good_names :: "string list \<Rightarrow> bool" where
  "good_names lines = (distinct (map line_name lines) \<and> (\<forall>l\<in>set lines. take 2 (line_name l) \<noteq> ''__''))"

lemma LoadFileBlockMap_ok:
  assumes o: "opened_image im" and clob: "wf_rs clob" "blocks clob \<subseteq> blocks (sp_care_map im)" and names: "good_names lines"
    and ld: "LoadFileBlockMap im lines clob sh = Inr im'"
  shows "\<exists>fm. im' = im\<lparr>sp_file_map := fm\<rparr> \<and> AssertPartition (sp_care_map im) (map snd fm) = Inr () \<and>
    (\<forall>r\<in>set (map snd fm). wf_rs r) \<and> (\<forall>(k, r)\<in>set fm. take 2 k = ''__'' \<longrightarrow> k = ''__COPY'' \<or> rs_size r \<le> 512)"
proof -
  have care: "wf_rs (sp_care_map im)" using opened_care[OF o] nonneg_rsD by blast
  obtain out rem where l1: "for_each (map_line clob sh) ([], sp_care_map im) lines = Inr (out, rem)"
    using ld by (auto simp: LoadFileBlockMap_def)
  have st: "map_state (blocks (sp_care_map im)) clob out rem" "fst ` set out \<subseteq> line_name ` set lines"
    using map_lines_ok[OF l1 clob(1), of "blocks (sp_care_map im)"] care names by (auto simp: map_state_def good_names_def)
  let ?rem = "rs_subtract rem clob"
  have rem: "wf_rs ?rem" "blocks ?rem = blocks rem - blocks clob"
    using st(1) clob(1) by (simp_all add: map_state_def rs.inv_diff rs.abs_diff)
  obtain z n g where l2: "for_each (group_block im) ([], [], []) (rs_next_item ?rem) = Inr (z, n, g)"
    using ld l1 by (auto simp: LoadFileBlockMap_def)
  obtain nz gs where g: "z = []" "n = unit_ranges nz" "g = map unit_ranges gs" "groups_of (rs_next_item ?rem) nz gs"
    using group_blocks_ok[of im "[]" "[]" "rs_next_item ?rem" z n g "[]"] l2 by (auto simp: groups_of_def)
  define G where "G = (if nz \<noteq> [] then gs @ [nz] else gs)"
  have G: "concat G = rs_next_item ?rem" "\<forall>h\<in>set G. length h \<le> 512" using g(4) by (auto simp: G_def groups_of_def)
  have grp: "(if n \<noteq> [] then g @ [n] else g) = map unit_ranges G" using g by (simp add: G_def)
  have srt: "sorted_wrt (<) (concat G)" using G(1) rs_next_item_eq[OF rem(1)] by simp
  note parts = concat_sorted_parts[OF srt]
  have fresh: "k \<notin> fst ` set out" if "take 2 k = ''__''" for k
    using that st(2) names by (force simp: good_names_def)
  define fm where "fm = (let fm2 = out @ map (\<lambda>(i, h). (group_name i, rs_of_data (unit_ranges h))) (enumerate 0 G) in
      if rs_bool clob then dict_set ''__COPY'' clob fm2 else fm2)"
  have im': "im' = im\<lparr>sp_file_map := fm\<rparr>"
    using ld l1 l2 g(1) grp group_domains[OF parts(1), of 0 out] fresh
    by (auto simp: LoadFileBlockMap_def Let_def add_domain_def fm_def py_assert_def split: if_splits)
  have nocopy: "''__COPY'' \<notin> fst ` set (out @ map (\<lambda>(i, h). (group_name i, rs_of_data (unit_ranges h))) (enumerate 0 G))"
    using fresh[of "''__COPY''"] by auto
  have fm: "fm = out @ map (\<lambda>(i, h). (group_name i, rs_of_data (unit_ranges h))) (enumerate 0 G) @ (if rs_bool clob then [(''__COPY'', clob)] else [])"
    using dict_set_fresh[OF nocopy] by (simp add: fm_def)
  have vals: "map snd fm = map snd out @ map (\<lambda>h. rs_of_data (unit_ranges h)) G @ (if rs_bool clob then [clob] else [])"
    unfolding fm using snd_enumerate[of "\<lambda>h. rs_of_data (unit_ranges h)" 0 G] by (simp add: comp_def split_def)
  have wf: "\<forall>r\<in>set (map snd fm). wf_rs r"
    unfolding vals using st(1) parts(1) unit_range_set(2) clob(1) by (auto simp: map_state_def)
  have gb: "map blocks (map (\<lambda>h. rs_of_data (unit_ranges h)) G) = map set G" using parts(1) unit_range_set(3) by auto
  have ub: "\<Union> (set (map set G)) = blocks rem - blocks clob"
  proof -
    have "\<Union> (set (map set G)) = set (concat G)" by auto
    then show ?thesis using G(1) rs_next_item_eq[OF rem(1)] rem finite_blocks[OF rem(1)] by simp
  qed
  have cb: "map blocks (if rs_bool clob then [clob] else []) = (if blocks clob = {} then [] else [blocks clob])"
    using rs.nonempty_iff[OF clob(1)] by simp
  have mb: "map blocks (map snd fm) = map blocks (map snd out) @ map set G @ (if blocks clob = {} then [] else [blocks clob])"
    unfolding vals map_append gb cb ..
  have dj: "disjoint_seq {} (map blocks (map snd fm))"
    unfolding mb disjoint_seq_append disjoint_seq_Un[of "{} \<union> \<Union> (set (map blocks (map snd out)))" "map set G"] ub
    using st(1) parts(2) by (auto simp: map_state_def)
  have "\<Union> (blocks ` set (map snd fm)) = \<Union> (set (map blocks (map snd fm)))" by simp
  also have "\<dots> = blocks (sp_care_map im)" unfolding mb set_append Union_Un_distrib ub using st(1) clob(2) by (auto simp: map_state_def)
  finally have "AssertPartition (sp_care_map im) (map snd fm) = Inr ()" using AssertPartition_iff[OF care wf] dj by simp
  moreover have "\<forall>(k, r)\<in>set fm. take 2 k = ''__'' \<longrightarrow> k = ''__COPY'' \<or> rs_size r \<le> 512"
  proof clarify
    fix k r assume kr: "(k, r) \<in> set fm" "take 2 k = ''__''" "\<not> rs_size r \<le> 512"
    show "k = ''__COPY''"
    proof (rule ccontr)
    assume ne: "k \<noteq> ''__COPY''"
    have "(k, r) \<notin> set out" using fresh[OF kr(2)] by force
    then have "(k, r) \<in> set (map (\<lambda>(i, h). (group_name i, rs_of_data (unit_ranges h))) (enumerate 0 G))"
      using kr(1) ne unfolding fm by (auto simp del: set_map split: if_splits)
    then obtain i h where "(i, h) \<in> set (enumerate 0 G)" and r: "r = rs_of_data (unit_ranges h)" by auto
    then have h: "h \<in> set G" "r = rs_of_data (unit_ranges h)" by (auto simp: in_set_enumerate_eq)
    have "rs_size r = int (card (set h))" using h parts(1) unit_range_set(2,3)[of h] rs.size_card by simp
    also have "\<dots> \<le> 512" using G(2) h(1) card_length[of h] by fastforce
    finally show False using kr(3) by simp
    qed
  qed
  ultimately show ?thesis using im' wf by blast
qed

section \<open>The file format\<close>

text \<open>A reference for the sparse format: the chunks of an image, the file that encodes them, and the
  blocks they stand for (\<open>None\<close> for a block the image does not care about).\<close>

datatype simg_chunk = RawChunk "string list" | FillChunk int string | HoleChunk int

definition le_fields :: "nat list \<Rightarrow> int list \<Rightarrow> string" where
  "le_fields fmt vs = concat (map (\<lambda>(k, v). le_bytes k (nat v)) (zip fmt vs))"

fun chunk_size :: "simg_chunk \<Rightarrow> int" where
  "chunk_size (RawChunk ds) = int (length ds)"
| "chunk_size (FillChunk n d) = n"
| "chunk_size (HoleChunk n) = n"

fun chunk_payload :: "simg_chunk \<Rightarrow> string" where
  "chunk_payload (RawChunk ds) = concat ds"
| "chunk_payload (FillChunk n d) = d"
| "chunk_payload (HoleChunk n) = []"

fun chunk_magic :: "simg_chunk \<Rightarrow> int" where
  "chunk_magic (RawChunk ds) = 0xCAC1"
| "chunk_magic (FillChunk n d) = 0xCAC2"
| "chunk_magic (HoleChunk n) = 0xCAC3"

fun chunk_blocks :: "simg_chunk \<Rightarrow> string option list" where
  "chunk_blocks (RawChunk ds) = map Some ds"
| "chunk_blocks (FillChunk n d) = replicate (nat n) (Some (concat (replicate 1024 d)))"
| "chunk_blocks (HoleChunk n) = replicate (nat n) None"

definition encode_chunk :: "simg_chunk \<Rightarrow> string" where
  "encode_chunk c = le_fields [2, 2, 4, 4] [chunk_magic c, 0, chunk_size c, 12 + int (length (chunk_payload c))] @ chunk_payload c"

definition encode_header :: "int \<Rightarrow> int \<Rightarrow> string" where
  "encode_header total_blks total_chunks = le_fields [4, 2, 2, 2, 2, 4, 4, 4, 4] [0xED26FF3A, 1, 0, 28, 12, 4096, total_blks, total_chunks, 0]"

definition image_size :: "simg_chunk list \<Rightarrow> int" where
  "image_size cs = sum_list (map chunk_size cs)"

definition encode_simg :: "simg_chunk list \<Rightarrow> string" where
  "encode_simg cs = encode_header (image_size cs) (int (length cs)) @ concat (map encode_chunk cs)"

definition image_blocks :: "simg_chunk list \<Rightarrow> string option list" where
  "image_blocks cs = concat (map chunk_blocks cs)"

fun chunk_ok :: "simg_chunk \<Rightarrow> bool" where
  "chunk_ok (RawChunk ds) = ((\<forall>d\<in>set ds. length d = 4096) \<and> 12 + length ds * 4096 < 2 ^ 32)"
| "chunk_ok (FillChunk n d) = (0 \<le> n \<and> n < 2 ^ 32 \<and> length d = 4)"
| "chunk_ok (HoleChunk n) = (0 \<le> n \<and> n < 2 ^ 32)"

definition simg_ok :: "simg_chunk list \<Rightarrow> bool" where
  "simg_ok cs = ((\<forall>c\<in>set cs. chunk_ok c) \<and> image_size cs < 2 ^ 32 \<and> int (length cs) < 2 ^ 32)"

text \<open>The table entries of the chunks, from a file position and a block position.\<close>

fun entries :: "int \<Rightarrow> int \<Rightarrow> simg_chunk list \<Rightarrow> chunk_entry list" where
  "entries fp pos [] = []"
| "entries fp pos (c # cs) =
     (case c of RawChunk ds \<Rightarrow> [(pos, chunk_size c, FilePos (fp + 12))]
      | FillChunk n d \<Rightarrow> [(pos, chunk_size c, FillData d)] | HoleChunk n \<Rightarrow> []) @
     entries (fp + int (length (encode_chunk c))) (pos + chunk_size c) cs"

lemma raw_length: "\<forall>d\<in>set ds. length d = k \<Longrightarrow> length (concat ds) = length ds * k"
  by (induction ds) auto

lemma chunk_fields:
  assumes "chunk_ok c"
  shows "0 \<le> chunk_size c" "length (chunk_blocks c) = nat (chunk_size c)" "length (encode_chunk c) = 12 + length (chunk_payload c)"
    "struct_unpack [2, 2, 4, 4] (le_fields [2, 2, 4, 4] [chunk_magic c, 0, chunk_size c, 12 + int (length (chunk_payload c))]) =
      Inr [chunk_magic c, 0, chunk_size c, 12 + int (length (chunk_payload c))]"
proof -
  let ?vs = "[chunk_magic c, 0, chunk_size c, 12 + int (length (chunk_payload c))]"
  show s: "0 \<le> chunk_size c" "length (chunk_blocks c) = nat (chunk_size c)" using assms by (cases c; simp)+
  have "chunk_size c < 2 ^ 32 \<and> 12 + int (length (chunk_payload c)) < 2 ^ 32 \<and> 0 \<le> chunk_magic c \<and> chunk_magic c < 65536"
  proof (cases c)
    case (RawChunk ds)
    have "length (concat ds) = length ds * 4096" using assms RawChunk by (intro raw_length) simp
    then show ?thesis using assms RawChunk by simp
  qed (use assms in simp_all)
  then have "length [2, 2, 4, 4 :: nat] = length ?vs" "\<forall>(k, v)\<in>set (zip [2, 2, 4, 4] ?vs). 0 \<le> v \<and> v < 256 ^ k"
    using s(1) by auto
  note u = unpack_fields_bytes[OF this, folded le_fields_def]
  show "struct_unpack [2, 2, 4, 4] (le_fields [2, 2, 4, 4] ?vs) = Inr ?vs" using u by (simp add: struct_unpack_def)
  show "length (encode_chunk c) = 12 + length (chunk_payload c)" using u(2) by (simp add: encode_chunk_def)
qed

lemma read_encoded_chunk:
  assumes "chunk_ok c" "0 \<le> fp" "drop (nat fp) content = encode_chunk c @ rest"
  shows "read_chunk content 4096 \<lparr>cs_fpos = fp, cs_pos = pos, cs_care = care, cs_map = om\<rparr> j =
    Inr \<lparr>cs_fpos = fp + int (length (encode_chunk c)), cs_pos = pos + chunk_size c,
         cs_care = care @ care_bounds (entries fp pos [c]), cs_map = om @ entries fp pos [c]\<rparr>"
proof -
  let ?h = "le_fields [2, 2, 4, 4] [chunk_magic c, 0, chunk_size c, 12 + int (length (chunk_payload c))]"
  note f = chunk_fields[OF assms(1)]
  have l: "length ?h = 12" using f(3) by (simp add: encode_chunk_def)
  have h: "file_read content fp 12 = ?h" using assms(3) l by (simp add: file_read_def encode_chunk_def)
  have "drop (nat (fp + 12)) content = chunk_payload c @ rest"
  proof -
    have "nat (fp + 12) = 12 + nat fp" using assms(2) by simp
    then show ?thesis using assms(3) l drop_drop[of 12 "nat fp" content] by (simp add: encode_chunk_def)
  qed
  then have p: "file_read content (fp + 12) 4 = take 4 (chunk_payload c @ rest)" by (simp add: file_read_def)
  show ?thesis
  proof (cases c)
    case (RawChunk ds)
    then show ?thesis using h f(3,4) assms(1)
      by (simp add: read_chunk_def add_chunk_def raw_length[of ds 4096] Let_def)
  next
    case (FillChunk n d)
    then show ?thesis using h f(3,4) assms(1) p by (simp add: read_chunk_def add_chunk_def)
  next
    case (HoleChunk n)
    then show ?thesis using h f(3,4) by (simp add: read_chunk_def)
  qed
qed

lemma read_encoded_chunks:
  assumes "\<forall>c\<in>set cs. chunk_ok c" "0 \<le> fp" "drop (nat fp) content = concat (map encode_chunk cs) @ rest" "length js = length cs"
  shows "\<exists>fp'. for_each (read_chunk content 4096) \<lparr>cs_fpos = fp, cs_pos = pos, cs_care = care, cs_map = om\<rparr> js =
    Inr \<lparr>cs_fpos = fp', cs_pos = pos + image_size cs, cs_care = care @ care_bounds (entries fp pos cs), cs_map = om @ entries fp pos cs\<rparr>"
  using assms
proof (induction cs arbitrary: fp pos care om js)
  case (Cons c cs)
  obtain j js' where js: "js = j # js'" "length js' = length cs" using Cons.prems(4) by (cases js) auto
  let ?fp = "fp + int (length (encode_chunk c))"
  have "drop (nat fp) content = encode_chunk c @ concat (map encode_chunk cs) @ rest" using Cons.prems(3) by simp
  note step = read_encoded_chunk[OF _ Cons.prems(2) this]
  have "nat ?fp = length (encode_chunk c) + nat fp" using Cons.prems(2) by simp
  then have "drop (nat ?fp) content = concat (map encode_chunk cs) @ rest"
    using Cons.prems(3) drop_drop[of "length (encode_chunk c)" "nat fp" content] by simp
  from Cons.IH[OF _ _ this js(2), of "pos + chunk_size c" "care @ care_bounds (entries fp pos [c])" "om @ entries fp pos [c]"]
  obtain fp' where "for_each (read_chunk content 4096) \<lparr>cs_fpos = ?fp, cs_pos = pos + chunk_size c,
      cs_care = care @ care_bounds (entries fp pos [c]), cs_map = om @ entries fp pos [c]\<rparr> js' =
    Inr \<lparr>cs_fpos = fp', cs_pos = pos + chunk_size c + image_size cs,
      cs_care = (care @ care_bounds (entries fp pos [c])) @ care_bounds (entries ?fp (pos + chunk_size c) cs),
      cs_map = (om @ entries fp pos [c]) @ entries ?fp (pos + chunk_size c) cs\<rparr>"
    using Cons.prems(1,2) by auto
  then show ?case using step Cons.prems(1) js(1) by (auto simp: image_size_def add.assoc)
qed (simp add: image_size_def)

lemma entries_start: "(\<forall>c\<in>set cs. chunk_ok c) \<Longrightarrow> (a, n, src) \<in> set (entries fp pos cs) \<Longrightarrow> pos \<le> a"
proof (induction cs arbitrary: fp pos)
  case (Cons c cs)
  have "a = pos \<or> (a, n, src) \<in> set (entries (fp + int (length (encode_chunk c))) (pos + chunk_size c) cs)"
    using Cons.prems(2) by (cases c) auto
  moreover have "0 \<le> chunk_size c" using chunk_fields(1) Cons.prems(1) by simp
  ultimately show ?case using Cons.IH[of _ "pos + chunk_size c"] Cons.prems(1) by fastforce
qed simp

text \<open>What the table says about the blocks: the blocks of the reference.\<close>

definition table_agrees :: "string \<Rightarrow> int \<Rightarrow> chunk_entry list \<Rightarrow> string option list \<Rightarrow> bool" where
  "table_agrees content pos om bs = (\<forall>i<length bs. case bs ! i of
     Some d \<Rightarrow> pos + int i \<in> chunk_cover om \<and> find_block content 4096 om (pos + int i) = d
   | None \<Rightarrow> pos + int i \<notin> chunk_cover om)"

lemma table_agrees_Cons:
  assumes "length bs = nat n" "0 \<le> n" "\<forall>i<length bs. \<exists>d. bs ! i = Some d \<and> chunk_block content 4096 (pos, n, src) (pos + int i) = d"
    and "table_agrees content (pos + n) om cs" "\<forall>(a, _, _)\<in>set om. pos + n \<le> a"
  shows "table_agrees content pos ((pos, n, src) # om) (bs @ cs)"
  unfolding table_agrees_def
proof (intro allI impI)
  fix i assume i: "i < length (bs @ cs)"
  show "case (bs @ cs) ! i of
     Some d \<Rightarrow> pos + int i \<in> chunk_cover ((pos, n, src) # om) \<and> find_block content 4096 ((pos, n, src) # om) (pos + int i) = d
   | None \<Rightarrow> pos + int i \<notin> chunk_cover ((pos, n, src) # om)"
  proof (cases "i < length bs")
    case True
    then show ?thesis using assms(1-3) by (auto simp: nth_append)
  next
    case False
    define k where "k = i - length bs"
    have k: "k < length cs" "i = length bs + k" "pos + int i = pos + n + int k" using False i assms(1,2) by (auto simp: k_def)
    have "case cs ! k of Some d \<Rightarrow> pos + n + int k \<in> chunk_cover om \<and> find_block content 4096 om (pos + n + int k) = d
       | None \<Rightarrow> pos + n + int k \<notin> chunk_cover om" using assms(4) k(1) unfolding table_agrees_def by blast
    moreover have "(bs @ cs) ! i = cs ! k" using k(2) by (simp add: nth_append)
    ultimately show ?thesis unfolding k(3) using assms(2) by (auto split: option.splits)
  qed
qed

lemma table_agrees_hole:
  assumes "0 \<le> n" "table_agrees content (pos + n) om cs" "\<forall>(a, _, _)\<in>set om. pos + n \<le> a"
  shows "table_agrees content pos om (replicate (nat n) None @ cs)"
  unfolding table_agrees_def
proof (intro allI impI)
  fix i assume i: "i < length (replicate (nat n) None @ cs)"
  show "case (replicate (nat n) None @ cs) ! i of
     Some d \<Rightarrow> pos + int i \<in> chunk_cover om \<and> find_block content 4096 om (pos + int i) = d | None \<Rightarrow> pos + int i \<notin> chunk_cover om"
  proof (cases "i < nat n")
    case True
    then have "pos + int i \<notin> chunk_cover om" using assms(3) by (fastforce simp: chunk_cover_def)
    then show ?thesis using True by (simp add: nth_append)
  next
    case False
    then have k: "i - nat n < length cs" "pos + int i = pos + n + int (i - nat n)" using i assms(1) by auto
    have "(replicate (nat n) None @ cs) ! i = cs ! (i - nat n)" using False by (simp add: nth_append)
    then show ?thesis using assms(2) k(1) unfolding table_agrees_def k(2) by simp
  qed
qed

lemma nth_piece:
  assumes "\<forall>d\<in>set ds. length d = k" "i < length ds"
  shows "take k (drop (i * k) (concat ds @ rest)) = ds ! i"
  using assms
proof (induction ds arbitrary: i)
  case (Cons d ds)
  then show ?case by (cases i) (auto simp: add.commute)
qed simp

lemma drop_nat: "0 \<le> a \<Longrightarrow> 0 \<le> b \<Longrightarrow> drop (nat (a + b)) xs = drop (nat b) (drop (nat a) xs)"
  by (simp add: nat_add_distrib add.commute)

lemma encoded_table:
  assumes "\<forall>c\<in>set cs. chunk_ok c" "0 \<le> fp" "drop (nat fp) content = concat (map encode_chunk cs) @ rest"
  shows "table_agrees content pos (entries fp pos cs) (image_blocks cs)"
  using assms
proof (induction cs arbitrary: fp pos)
  case Nil
  then show ?case by (simp add: table_agrees_def image_blocks_def)
next
  case (Cons c cs)
  let ?fp = "fp + int (length (encode_chunk c))" and ?pos = "pos + chunk_size c"
  have ok: "chunk_ok c" "\<forall>c\<in>set cs. chunk_ok c" using Cons.prems(1) by auto
  note f = chunk_fields[OF ok(1)]
  have d: "drop (nat ?fp) content = concat (map encode_chunk cs) @ rest"
    using Cons.prems(3) drop_nat[OF Cons.prems(2), of "int (length (encode_chunk c))" content] by simp
  have IH: "table_agrees content ?pos (entries ?fp ?pos cs) (image_blocks cs)"
    using Cons.IH[OF ok(2) _ d, of ?pos] Cons.prems(2) by simp
  have ge: "\<forall>(a, _, _)\<in>set (entries ?fp ?pos cs). ?pos \<le> a" using entries_start[OF ok(2)] by fastforce
  have eq: "image_blocks (c # cs) = chunk_blocks c @ image_blocks cs" by (simp add: image_blocks_def)
  show ?case
  proof (cases c)
    case (RawChunk ds)
    have pay: "drop (nat (fp + 12)) content = concat ds @ concat (map encode_chunk cs) @ rest"
    proof -
      have "length (le_fields [2, 2, 4, 4] [chunk_magic c, 0, chunk_size c, 12 + int (length (chunk_payload c))]) = 12"
        using f(3) by (simp add: encode_chunk_def)
      then show ?thesis using Cons.prems(3) drop_nat[OF Cons.prems(2), of 12 content] RawChunk by (simp add: encode_chunk_def[of "RawChunk ds"])
    qed
    have "chunk_block content 4096 (pos, chunk_size c, FilePos (fp + 12)) (pos + int i) = ds ! i" if "i < length ds" for i
    proof -
      have dr: "drop (nat (fp + 12 + int i * 4096)) content = drop (i * 4096) (concat ds @ concat (map encode_chunk cs) @ rest)"
        using drop_nat[of "fp + 12" "int i * 4096" content] Cons.prems(2) pay by (simp add: nat_mult_distrib)
      have "take 4096 (drop (i * 4096) (concat ds @ concat (map encode_chunk cs) @ rest)) = ds ! i"
        using ok(1) RawChunk that by (intro nth_piece) simp_all
      then show ?thesis unfolding dr[symmetric] by (simp add: chunk_block_def)
    qed
    then have "\<forall>i<length (chunk_blocks c). \<exists>d. chunk_blocks c ! i = Some d \<and>
        chunk_block content 4096 (pos, chunk_size c, FilePos (fp + 12)) (pos + int i) = d" using RawChunk by simp
    from table_agrees_Cons[OF f(2,1) this IH ge] show ?thesis unfolding eq using RawChunk by simp
  next
    case (FillChunk n d)
    have "\<forall>i<length (chunk_blocks c). \<exists>d'. chunk_blocks c ! i = Some d' \<and>
        chunk_block content 4096 (pos, chunk_size c, FillData d) (pos + int i) = d'"
      using FillChunk by (simp add: chunk_block_def)
    from table_agrees_Cons[OF f(2,1) this IH ge] show ?thesis unfolding eq using FillChunk by simp
  next
    case (HoleChunk n)
    from table_agrees_hole[OF f(1) IH ge] show ?thesis unfolding eq using HoleChunk by simp
  qed
qed

lemma entries_in_file:
  assumes "\<forall>c\<in>set cs. chunk_ok c" "0 \<le> fp" "fp + int (length (concat (map encode_chunk cs))) \<le> int (length content)"
  shows "\<forall>e\<in>set (entries fp pos cs). in_file content 4096 e"
  using assms
proof (induction cs arbitrary: fp pos)
  case (Cons c cs)
  have ok: "chunk_ok c" "\<forall>c\<in>set cs. chunk_ok c" using Cons.prems(1) by auto
  have "\<forall>e\<in>set (entries (fp + int (length (encode_chunk c))) (pos + chunk_size c) cs). in_file content 4096 e"
    using Cons.prems(2,3) by (intro Cons.IH[OF ok(2)]) auto
  moreover have "in_file content 4096 e" if "e \<in> set (entries fp pos [c])" for e
  proof (cases c)
    case (RawChunk ds)
    have "length (concat ds) = length ds * 4096" using ok(1) RawChunk by (intro raw_length) simp
    then show ?thesis using that chunk_fields(3)[OF ok(1)] Cons.prems(2,3) RawChunk by (simp add: in_file_def)
  qed (use that ok(1) in \<open>simp_all add: in_file_def\<close>)
  ultimately show ?case by auto
qed simp

lemma encoded_header:
  assumes "simg_ok cs"
  shows "length (encode_header (image_size cs) (int (length cs))) = 28"
    "read_header (encode_simg cs) = Inr (4096, image_size cs, int (length cs))"
proof -
  let ?fmt = "[4, 2, 2, 2, 2, 4, 4, 4, 4 :: nat]"
  let ?vs = "[0xED26FF3A, 1, 0, 28, 12, 4096, image_size cs, int (length cs), 0]"
  have "0 \<le> image_size cs" using assms chunk_fields(1) by (auto simp: image_size_def simg_ok_def intro!: sum_list_nonneg)
  then have "length ?fmt = length ?vs" "\<forall>(k, v)\<in>set (zip ?fmt ?vs). 0 \<le> v \<and> v < 256 ^ k"
    using assms by (auto simp: simg_ok_def)
  note u = unpack_fields_bytes[OF this, folded le_fields_def]
  show l: "length (encode_header (image_size cs) (int (length cs))) = 28" using u(2) by (simp add: encode_header_def)
  have "file_read (encode_simg cs) 0 28 = le_fields ?fmt ?vs" using l by (simp add: file_read_def encode_simg_def encode_header_def)
  then show "read_header (encode_simg cs) = Inr (4096, image_size cs, int (length cs))"
    using u by (simp add: read_header_def struct_unpack_def)
qed

text \<open>The constructor on an encoded image, up to the file map.\<close>

lemma encoded_init:
  assumes "simg_ok cs" "(case clob of None \<Rightarrow> Inr rs_empty | Some t \<Rightarrow> rs_parse t) = Inr cl"
  obtains im1 where "SparseImage_init (encode_simg cs) fm clob True sh =
      (case fm of Some lines \<Rightarrow> LoadFileBlockMap im1 lines cl sh | None \<Rightarrow> Inr (im1\<lparr>sp_file_map := [(''__DATA'', sp_care_map im1)]\<rparr>))"
    "sp_offset_map im1 = entries 28 0 cs" "sp_care_map im1 = rs_of_data (care_bounds (entries 28 0 cs))" "sp_clobbered im1 = cl"
    "wf_chunks (entries 28 0 cs)" "\<forall>(a, n, _)\<in>set (entries 28 0 cs). a + n \<le> image_size cs"
proof -
  have ok: "\<forall>c\<in>set cs. chunk_ok c" using assms by (simp add: simg_ok_def)
  note h = encoded_header[OF assms(1)]
  have d: "drop (nat 28) (encode_simg cs) = concat (map encode_chunk cs) @ []" using h(1) by (simp add: encode_simg_def)
  let ?om = "entries 28 0 cs"
  obtain fp where loop: "for_each (read_chunk (encode_simg cs) 4096) \<lparr>cs_fpos = 28, cs_pos = 0, cs_care = [], cs_map = []\<rparr> (py_range 0 (int (length cs))) =
      Inr \<lparr>cs_fpos = fp, cs_pos = 0 + image_size cs, cs_care = [] @ care_bounds ?om, cs_map = [] @ ?om\<rparr>"
    using read_encoded_chunks[OF ok _ d, of "py_range 0 (int (length cs))" 0 "[]" "[]"] by auto
  have "chunk_inv (encode_simg cs) \<lparr>cs_fpos = 28, cs_pos = 0, cs_care = [], cs_map = []\<rparr>" by (simp add: chunk_inv_def wf_chunks_def)
  then have inv: "chunk_inv (encode_simg cs) \<lparr>cs_fpos = fp, cs_pos = 0 + image_size cs, cs_care = [] @ care_bounds ?om, cs_map = [] @ ?om\<rparr>"
    by (rule for_each_partial_invariant[where P = "chunk_inv (encode_simg cs)", OF loop]) (rule read_chunk_inv)
  then have wf: "wf_chunks ?om" "\<forall>(a, n, _)\<in>set ?om. a + n \<le> image_size cs" by (auto simp: chunk_inv_def)
  note care = care_map_ok[OF wf(1)]
  obtain ext where ext: "rs_extend (rs_of_data (care_bounds ?om)) 512 = Inr ext"
    using rs_extend_spec[of "rs_of_data (care_bounds ?om)" 512] care(2) by (auto simp: nonneg_rs_def)
  define im1 where "im1 = \<lparr>sp_file = encode_simg cs, sp_blocksize = 4096, sp_total_blocks = image_size cs, sp_total_chunks = int (length cs),
    sp_offset_map = ?om, sp_clobbered = cl, sp_care_map = rs_of_data (care_bounds ?om), sp_offset_index = map fst ?om,
    sp_extended = rs_subtract (rs_intersect ext (rs_of_data [0, image_size cs])) (rs_of_data (care_bounds ?om)), sp_file_map = []\<rparr>"
  have "SparseImage_init (encode_simg cs) fm clob True sh =
      (case fm of Some lines \<Rightarrow> LoadFileBlockMap im1 lines cl sh | None \<Rightarrow> Inr (im1\<lparr>sp_file_map := [(''__DATA'', sp_care_map im1)]\<rparr>))"
    using h(2) loop care(1) ext assms(2) by (cases fm) (simp_all add: SparseImage_init_def RangeSet_init_even Let_def im1_def)
  moreover have "sp_offset_map im1 = ?om" "sp_care_map im1 = rs_of_data (care_bounds ?om)" "sp_clobbered im1 = cl" by (simp_all add: im1_def)
  ultimately show ?thesis using that wf by blast
qed

lemma encoded_image_opens:
  assumes "simg_ok cs"
  obtains im where "SparseImage_init (encode_simg cs) None None True False = Inr im" "valid_sparse im"
    "sp_total_blocks im = image_size cs" "sp_file im = encode_simg cs" "sp_total_chunks im = int (length cs)"
    "table_agrees (encode_simg cs) 0 (sp_offset_map im) (image_blocks cs)" "sp_blocksize im = 4096"
    "chunk_cover (sp_offset_map im) \<subseteq> {0..<image_size cs}"
proof -
  have ok: "\<forall>c\<in>set cs. chunk_ok c" using assms by (simp add: simg_ok_def)
  note h = encoded_header[OF assms]
  have d: "drop (nat 28) (encode_simg cs) = concat (map encode_chunk cs) @ []" using h(1) by (simp add: encode_simg_def)
  have len: "28 + int (length (concat (map encode_chunk cs))) \<le> int (length (encode_simg cs))" using h(1) by (simp add: encode_simg_def)
  let ?om = "entries 28 0 cs"
  obtain im where im: "SparseImage_init (encode_simg cs) None None True False = Inr im" "sp_offset_map im = ?om"
    "wf_chunks ?om" "\<forall>(a, n, _)\<in>set ?om. a + n \<le> image_size cs"
    by (rule encoded_init[OF assms, of None rs_empty None False]) auto
  obtain im1 where im1: "opened_image im1" "sp_file im1 = encode_simg cs"
    "read_header (encode_simg cs) = Inr (sp_blocksize im1, sp_total_blocks im1, sp_total_chunks im1)"
    "im = im1\<lparr>sp_file_map := [(''__DATA'', sp_care_map im1)]\<rparr>"
    by (rule SparseImage_init_cases[OF im(1)]) simp
  have part: "AssertPartition (sp_care_map im1) [sp_care_map im1] = Inr ()" "wf_rs (sp_care_map im1)"
    using opened_care[OF im1(1)] AssertPartition_iff[of "sp_care_map im1" "[sp_care_map im1]"] by (auto simp: nonneg_rs_def)
  have bs: "sp_blocksize im1 = 4096" "sp_total_blocks im1 = image_size cs" "sp_total_chunks im1 = int (length cs)" using im1(3) h(2) by auto
  have "valid_sparse im"
    using im1 im(2) bs part entries_in_file[OF ok _ len, of 0] by (simp add: valid_sparse_def opened_image_def)
  moreover have "chunk_cover ?om \<subseteq> {0..<image_size cs}" using im(3,4) by (fastforce simp: chunk_cover_def wf_chunks_def)
  ultimately show ?thesis
    using that[of im] im im1 bs encoded_table[OF ok _ d, of 0] by simp
qed

lemma length_image_blocks: "\<forall>c\<in>set cs. chunk_ok c \<Longrightarrow> int (length (image_blocks cs)) = image_size cs"
proof (induction cs)
  case (Cons c cs)
  then show ?case using chunk_fields(1,2)[of c] by (simp add: image_blocks_def image_size_def)
qed (simp add: image_blocks_def image_size_def)

lemma table_blocks:
  assumes "table_agrees content 0 om bs" "chunk_cover om \<subseteq> {0..<int (length bs)}"
  shows "b \<in> chunk_cover om \<longleftrightarrow> 0 \<le> b \<and> b < int (length bs) \<and> bs ! nat b \<noteq> None"
    "b \<in> chunk_cover om \<Longrightarrow> find_block content 4096 om b = the (bs ! nat b)"
proof -
  have *: "case bs ! nat b of Some d \<Rightarrow> b \<in> chunk_cover om \<and> find_block content 4096 om b = d | None \<Rightarrow> b \<notin> chunk_cover om"
    if "0 \<le> b" "b < int (length bs)" for b
  proof -
    have "nat b < length bs" "int (nat b) = b" using that by auto
    then show ?thesis using assms(1) unfolding table_agrees_def by (metis add_0)
  qed
  show "b \<in> chunk_cover om \<longleftrightarrow> 0 \<le> b \<and> b < int (length bs) \<and> bs ! nat b \<noteq> None"
    using *[of b] assms(2) by (auto split: option.splits)
  show "b \<in> chunk_cover om \<Longrightarrow> find_block content 4096 om b = the (bs ! nat b)"
    using *[of b] assms(2) by (fastforce split: option.splits)
qed

section \<open>Properties\<close>

text \<open>C13: opening a sparse image file gives back the image. For the encoding of any list of raw, fill and
  don't-care chunks, the constructor succeeds with the right number of blocks, its care map is the set of
  the blocks that have data, its partition assertion holds, and reading any set of those blocks gives
  exactly their contents, in increasing order.\<close>

theorem sparse_image_roundtrip:
  assumes "simg_ok cs"
  shows "\<exists>im. SparseImage_init (encode_simg cs) None None True False = Inr im \<and> sp_total_blocks im = image_size cs \<and>
    blocks (sp_care_map im) = {b. 0 \<le> b \<and> b < image_size cs \<and> image_blocks cs ! nat b \<noteq> None} \<and>
    AssertPartition (sp_care_map im) (map snd (sp_file_map im)) = Inr () \<and>
    (\<forall>r. wf_rs r \<longrightarrow> blocks r \<subseteq> blocks (sp_care_map im) \<longrightarrow>
      SparseImage_WriteRangeDataToFd im r = Inr (concat (map (\<lambda>b. the (image_blocks cs ! nat b)) (rs_next_item r))))"
proof -
  obtain im where im: "SparseImage_init (encode_simg cs) None None True False = Inr im" "valid_sparse im"
    "sp_total_blocks im = image_size cs" "sp_file im = encode_simg cs" "sp_total_chunks im = int (length cs)"
    "table_agrees (encode_simg cs) 0 (sp_offset_map im) (image_blocks cs)" "sp_blocksize im = 4096"
    "chunk_cover (sp_offset_map im) \<subseteq> {0..<image_size cs}" by (rule encoded_image_opens[OF assms])
  have len: "int (length (image_blocks cs)) = image_size cs" using assms by (intro length_image_blocks) (simp add: simg_ok_def)
  note tb = table_blocks[OF im(6), unfolded len, OF im(8)]
  have care: "blocks (sp_care_map im) = chunk_cover (sp_offset_map im)" using opened_care im(2) by (simp add: valid_sparse_def)
  have rd: "SparseImage_WriteRangeDataToFd im r = Inr (concat (map (\<lambda>b. the (image_blocks cs ! nat b)) (rs_next_item r)))"
    if r: "wf_rs r" "blocks r \<subseteq> blocks (sp_care_map im)" for r
  proof -
    have eq: "map (image_block im) (rs_next_item r) = map (\<lambda>b. the (image_blocks cs ! nat b)) (rs_next_item r)"
      using tb(2) r(2) care im(4,7) by (auto simp: rs_next_item_eq[OF r(1)] r(1))
    show ?thesis unfolding sparse_img.read_blocks[OF im(2) r] eq ..
  qed
  have "blocks (sp_care_map im) = {b. 0 \<le> b \<and> b < image_size cs \<and> image_blocks cs ! nat b \<noteq> None}"
    unfolding care using tb(1) by blast
  then show ?thesis using im(1,3) sparse_img.partition[OF im(2)] rd by blast
qed

definition sample_chunks :: "simg_chunk list" where
  "sample_chunks = [RawChunk [replicate 4096 (CHR ''r'')], HoleChunk 2, FillChunk 1 ''abcd'']"

lemma sample_chunks_ok: "simg_ok sample_chunks"
proof -
  have "length (replicate 4096 (CHR ''r'')) = 4096" by (rule length_replicate)
  then show ?thesis by (simp add: simg_ok_def sample_chunks_def image_size_def)
qed

theorem sparse_image_roundtrip_witness:
  "\<exists>im. SparseImage_init (encode_simg sample_chunks) None None True False = Inr im \<and> sp_total_blocks im = 4 \<and>
     AssertPartition (sp_care_map im) (map snd (sp_file_map im)) = Inr ()"
proof -
  have "image_size sample_chunks = 4" by (simp add: image_size_def sample_chunks_def)
  then show ?thesis using sparse_image_roundtrip[OF sample_chunks_ok] by auto
qed

text \<open>C17: \<open>AppendFillChunk\<close> appends a fill chunk. On an image opened from the encoding of some chunks, the
  file it writes is the encoding of these chunks followed by the new fill chunk, header included, and
  the attributes count the new chunk and its blocks.\<close>

theorem append_fill_chunk_encodes:
  assumes "simg_ok cs" "simg_ok (cs @ [FillChunk n (le_bytes 4 (nat v))])" "0 \<le> v" "v < 2 ^ 32"
  shows "\<exists>im im'. SparseImage_init (encode_simg cs) None None True False = Inr im \<and> AppendFillChunk im v n = Inr im' \<and>
    sp_file im' = encode_simg (cs @ [FillChunk n (le_bytes 4 (nat v))]) \<and>
    sp_total_blocks im' = sp_total_blocks im + n \<and> sp_total_chunks im' = sp_total_chunks im + 1"
proof -
  let ?c = "FillChunk n (le_bytes 4 (nat v))" and ?tb = "image_size cs" and ?tc = "int (length cs)"
  obtain im where im: "SparseImage_init (encode_simg cs) None None True False = Inr im" "valid_sparse im"
    "sp_total_blocks im = ?tb" "sp_file im = encode_simg cs" "sp_total_chunks im = ?tc"
    "table_agrees (encode_simg cs) 0 (sp_offset_map im) (image_blocks cs)" "sp_blocksize im = 4096"
    "chunk_cover (sp_offset_map im) \<subseteq> {0..<?tb}" by (rule encoded_image_opens[OF assms(1)])
  have n: "0 \<le> n" "n < 2 ^ 32" using assms(2) by (auto simp: simg_ok_def)
  have tot: "image_size (cs @ [?c]) = ?tb + n" "int (length (cs @ [?c])) = ?tc + 1" by (simp_all add: image_size_def)
  have "0 \<le> ?tb" using assms(1) chunk_fields(1) by (auto simp: image_size_def simg_ok_def intro!: sum_list_nonneg)
  then have lim: "0 \<le> ?tb + n" "?tb + n < 2 ^ 32" "?tc + 1 < 2 ^ 32" using assms(2) n(1) unfolding simg_ok_def tot by auto
  have p1: "struct_pack [2, 2, 4, 4, 4] [0xCAC2, 0, n, 16, v] = Inr (encode_chunk ?c)"
    using n assms(3,4) by (subst struct_pack_ok) (auto simp: encode_chunk_def le_fields_def)
  have p2: "struct_pack [4, 4] [?tb + n, ?tc + 1] = Inr (le_bytes 4 (nat (?tb + n)) @ le_bytes 4 (nat (?tc + 1)))"
    using lim by (subst struct_pack_ok) auto
  define pre where "pre = le_fields [4, 2, 2, 2, 2, 4] [0xED26FF3A, 1, 0, 28, 12, 4096]"
  have hdr: "encode_header a b = pre @ le_bytes 4 (nat a) @ le_bytes 4 (nat b) @ le_bytes 4 0" for a b
    by (simp add: encode_header_def pre_def le_fields_def)
  have pre: "length pre = 16" by (simp add: pre_def le_fields_def)
  have f1: "file_write (encode_simg cs) (int (length (encode_simg cs))) (encode_chunk ?c) = encode_simg cs @ encode_chunk ?c"
    by (simp add: file_write_def)
  have f2: "file_write (encode_simg cs @ encode_chunk ?c) 16 (le_bytes 4 (nat (?tb + n)) @ le_bytes 4 (nat (?tc + 1))) = encode_simg (cs @ [?c])"
    using pre unfolding encode_simg_def tot hdr by (simp add: file_write_def)
  have "AppendFillChunk im v n = Inr (im\<lparr>sp_file := encode_simg (cs @ [?c]), sp_total_blocks := ?tb + n, sp_total_chunks := ?tc + 1\<rparr>)"
    using im(3-5) p1 p2 f1 f2 by (simp add: AppendFillChunk_def Let_def)
  then show ?thesis using im by auto
qed

theorem append_fill_chunk_encodes_witness:
  "\<exists>im im'. SparseImage_init (encode_simg sample_chunks) None None True False = Inr im \<and> AppendFillChunk im 7 3 = Inr im' \<and>
     sp_file im' = encode_simg (sample_chunks @ [FillChunk 3 (le_bytes 4 7)]) \<and> sp_total_blocks im' = sp_total_blocks im + 3"
proof -
  have "simg_ok (sample_chunks @ [FillChunk 3 (le_bytes 4 (nat 7))])"
    using sample_chunks_ok by (simp add: simg_ok_def image_size_def sample_chunks_def)
  from append_fill_chunk_encodes[OF sample_chunks_ok this] show ?thesis by auto
qed



text \<open>\<open>GetImagePartitionSize\<close>: the block size times the block count of a sparse file, the file size of any
  other file of at least 28 bytes; a shorter file raises \<open>struct.error\<close>, which is not caught.\<close>

theorem partition_size_branches:
  assumes "simg_ok cs" "28 \<le> length content" "le_val (take 4 content) \<noteq> 0xED26FF3A" "length short < 28"
  shows "GetImagePartitionSize (encode_simg cs) = Inr (4096 * image_size cs) \<and>
    GetImagePartitionSize content = Inr (int (length content)) \<and> GetImagePartitionSize short = Inl StructError"
proof -
  have h: "file_read content 0 28 = take 28 content" "length (take 28 content) = 28" "take 4 (take 28 content) = take 4 content"
    using assms(2) by (simp_all add: file_read_def)
  have "int (le_val (take 4 content)) \<noteq> 0xED26FF3A" using assms(3) by (metis of_nat_eq_iff of_nat_numeral)
  then have "read_header content = Inl ValueError"
    unfolding read_header_def struct_unpack_def h(1) unpack_fields.simps h(3) using h(2) by simp
  moreover have "read_header short = Inl StructError"
    using assms(4) by (simp add: read_header_def struct_unpack_def file_read_def)
  ultimately show ?thesis using encoded_header(2)[OF assms(1)] by (simp add: GetImagePartitionSize_def SparseImage_init_def Let_def)
qed

theorem partition_size_branches_witness:
  "GetImagePartitionSize (encode_simg sample_chunks) = Inr (4096 * 4) \<and>
   GetImagePartitionSize (replicate 30 (CHR ''x'')) = Inr 30 \<and> GetImagePartitionSize ''short'' = Inl StructError"
proof -
  have "image_size sample_chunks = 4" by (simp add: image_size_def sample_chunks_def)
  moreover have "take 4 (replicate 30 (CHR ''x'')) = ''xxxx''" by code_simp
  then have "le_val (take 4 (replicate 30 (CHR ''x''))) \<noteq> 0xED26FF3A" by simp
  ultimately show ?thesis using partition_size_branches[OF sample_chunks_ok, of "replicate 30 (CHR ''x'')" "''short''"] by simp
qed

end
