(* ===== verification/InfoDict.thy ===== *)
theory InfoDict
  imports TextFile
begin

text \<open>
  Info dictionaries, the form in which the release tools pass the facts of a build around, with
  \<open>LoadDictionaryFromFile\<close> and the functions below it of \<open>tools/releasetools/common.py\<close>. The values are strings when
  the dictionary was read from a file, and strings or integers when the caller made it. The content of files is a
  parameter.
\<close>

section \<open>Info dictionaries\<close>

datatype dval = VStr string | VInt int

type_synonym info_dict = "(string, dval) odict"

definition to_int :: "dval \<Rightarrow> int res" where
  "to_int v = (case v of VStr s \<Rightarrow> py_int s | VInt i \<Rightarrow> Inr i)"

definition to_str :: "dval \<Rightarrow> string" where
  "to_str v = (case v of VStr s \<Rightarrow> s | VInt i \<Rightarrow> str_int i)"

text \<open>\<open>v.strip().split()\<close>.\<close>

definition to_words :: "dval \<Rightarrow> string list res" where
  "to_words v = (case v of VStr s \<Rightarrow> Inr (split_ws (strip s)) | VInt i \<Rightarrow> Inl AttributeError)"

definition get_default :: "info_dict \<Rightarrow> string \<Rightarrow> dval \<Rightarrow> dval" where
  "get_default d k v = (case map_of d k of None \<Rightarrow> v | Some w \<Rightarrow> w)"

definition has_key :: "info_dict \<Rightarrow> string \<Rightarrow> bool" where
  "has_key d k = (map_of d k \<noteq> None)"

definition LoadListFromFile :: "(string \<Rightarrow> string option) \<Rightarrow> string \<Rightarrow> string list res" where
  "LoadListFromFile files path = (case files path of None \<Rightarrow> Inl OSError | Some content \<Rightarrow> Inr (splitlines (translate_newlines content)))"

definition LoadDictionaryFromLines :: "string list \<Rightarrow> info_dict" where
  "LoadDictionaryFromLines ls = foldl (\<lambda>d l. let line = strip l in
     if line = [] \<or> prefix ''#'' line then d
     else if str_in ''='' line then (case split_once ''='' line of (name, value) \<Rightarrow> dict_set name (VStr value) d)
     else d) [] ls"

definition LoadDictionaryFromFile :: "(string \<Rightarrow> string option) \<Rightarrow> string \<Rightarrow> info_dict res" where
  "LoadDictionaryFromFile files path = try_bind (LoadListFromFile files path) (\<lambda>ls. Inr (LoadDictionaryFromLines ls))"

section \<open>Values read from a file\<close>

lemma loaded_strings: "map_of (LoadDictionaryFromLines ls) k = Some v \<Longrightarrow> \<exists>s. v = VStr s"
proof (induction ls arbitrary: v rule: rev_induct)
  case (snoc l ls)
  then show ?case by (auto simp: LoadDictionaryFromLines_def Let_def split: if_splits prod.splits)
qed (simp add: LoadDictionaryFromLines_def)

end
