(* ===== verification/PartitionSizes.thy ===== *)
theory PartitionSizes
  imports SparseImg InfoDict
begin

text \<open>
  \<open>tools/releasetools/check_partition_sizes.py\<close>: the sizes of dynamic partitions against the size of
  the super partition and of the groups. The content of files is a parameter; the texts of messages are left out, warnings are collected as the pairs of values that were compared.
\<close>

section \<open>Expression\<close>

datatype log_level = ERROR | WARNING

record expression =
  ex_expr :: string
  ex_value :: int

definition Expression_init :: "dval \<Rightarrow> int option \<Rightarrow> expression res" where
  "Expression_init expr value = (case value of
       None \<Rightarrow> try_bind (to_int expr) (\<lambda>v. Inr \<lparr>ex_expr = to_str expr, ex_value = v\<rparr>)
     | Some v \<Rightarrow> Inr \<lparr>ex_expr = to_str expr, ex_value = v\<rparr>)"

type_synonym warnings = "(int \<times> int) list"

definition CheckLe :: "expression \<Rightarrow> expression \<Rightarrow> log_level \<Rightarrow> warnings \<Rightarrow> warnings res" where
  "CheckLe self other level w =
     (if ex_value self \<le> ex_value other then Inr w
      else if level = ERROR then Inl RuntimeError
      else Inr (w @ [(ex_value self, ex_value other)]))"

definition CheckLt :: "expression \<Rightarrow> expression \<Rightarrow> log_level \<Rightarrow> warnings \<Rightarrow> warnings res" where
  "CheckLt self other level w =
     (if ex_value self < ex_value other then Inr w
      else if level = ERROR then Inl RuntimeError
      else Inr (w @ [(ex_value self, ex_value other)]))"

definition CheckEq :: "expression \<Rightarrow> expression \<Rightarrow> warnings \<Rightarrow> warnings res" where
  "CheckEq self other w = (if ex_value self = ex_value other then Inr w else Inl RuntimeError)"

text \<open>The sum of a list of sizes as an expression.\<close>

definition sum_expression :: "int list \<Rightarrow> expression" where
  "sum_expression sizes = \<lparr>ex_expr = join ''+'' (map str_int sizes), ex_value = sum_list sizes\<rparr>"

section \<open>Feature flags\<close>

datatype device_type = DeviceType_NONE | DeviceType_AB | DeviceType_VAB

definition DeviceType_Get :: "info_dict \<Rightarrow> device_type" where
  "DeviceType_Get d = (if map_of d ''ab_update'' \<noteq> Some (VStr ''true'') then DeviceType_NONE
     else if map_of d ''virtual_ab'' = Some (VStr ''true'') then DeviceType_VAB
     else DeviceType_AB)"

datatype dap = Dap_NONE | Dap_DAP

definition Dap_Get :: "info_dict \<Rightarrow> dap" where
  "Dap_Get d = (if map_of d ''use_dynamic_partitions'' \<noteq> Some (VStr ''true'') then Dap_NONE else Dap_DAP)"

section \<open>DynamicPartitionSizeChecker\<close>

definition DynamicPartitionSizeChecker_init :: "info_dict \<Rightarrow> info_dict res" where
  "DynamicPartitionSizeChecker_init d =
     (case map_of d ''super_partition_size'' of
        None \<Rightarrow> Inr d
      | Some v \<Rightarrow>
          try_bind (if \<not> has_key d ''super_partition_warn_limit''
                    then try_bind (to_int v) (\<lambda>n. Inr (dict_set ''super_partition_warn_limit'' (VInt (n * 95 div 100)) d))
                    else Inr d) (\<lambda>d1.
          if \<not> has_key d1 ''super_partition_error_limit''
          then try_bind (to_int v) (\<lambda>n. Inr (dict_set ''super_partition_error_limit'' (VInt n) d1))
          else Inr d1))"

text \<open>A path that is an integer would be a file descriptor; none is open.\<close>

definition ReadSizeOfPartition :: "(string \<Rightarrow> string option) \<Rightarrow> info_dict \<Rightarrow> string \<Rightarrow> int res" where
  "ReadSizeOfPartition files d name =
     (case map_of d (name @ ''_image_size'') of
        Some v \<Rightarrow> to_int v
      | None \<Rightarrow> try_bind (dict_get d (name @ ''_image'')) (\<lambda>path.
          case path of
            VInt _ \<Rightarrow> Inl OSError
          | VStr p \<Rightarrow> (case files p of None \<Rightarrow> Inl OSError | Some content \<Rightarrow> GetImagePartitionSize content)))"

definition RoundPartitionSize :: "info_dict \<Rightarrow> int \<Rightarrow> int res" where
  "RoundPartitionSize d sz = (case map_of d ''super_partition_alignment'' of
       None \<Rightarrow> Inr sz
     | Some (VStr _) \<Rightarrow> Inl TypeError
     | Some (VInt alignment) \<Rightarrow> if alignment = 0 then Inl ZeroDivisionError else Inr ((sz + alignment - 1) div alignment * alignment))"

definition CheckSuperPartitionSize :: "info_dict \<Rightarrow> warnings \<Rightarrow> warnings res" where
  "CheckSuperPartitionSize d w =
     try_bind (to_words (get_default d ''super_block_devices'' (VStr []))) (\<lambda>super_block_devices.
     try_bind (map_res (\<lambda>b. to_int (get_default d (''super_'' @ b @ ''_device_size'') (VStr ''0''))) super_block_devices) (\<lambda>size_list.
     try_bind (dict_get d ''super_partition_size'') (\<lambda>v.
     try_bind (Expression_init v None) (\<lambda>super_partition_size.
       CheckEq (sum_expression size_list) super_partition_size w))))"

definition CheckSumOfPartitionSizes ::
  "(string \<Rightarrow> string option) \<Rightarrow> info_dict \<Rightarrow> expression \<Rightarrow> string list \<Rightarrow> expression option \<Rightarrow> expression option \<Rightarrow> warnings \<Rightarrow> warnings res" where
  "CheckSumOfPartitionSizes files d max_size partition_names warn_size error_size w =
     try_bind (map_res (\<lambda>p. try_bind (ReadSizeOfPartition files d p) (RoundPartitionSize d)) partition_names) (\<lambda>partition_size_list.
     let sum_size = sum_expression partition_size_list in
     try_bind (CheckLe sum_size max_size ERROR w) (\<lambda>w1.
     try_bind (case error_size of None \<Rightarrow> Inr w1 | Some e \<Rightarrow> CheckLe sum_size e ERROR w1) (\<lambda>w2.
       case warn_size of None \<Rightarrow> Inr w2 | Some e \<Rightarrow> CheckLe sum_size e WARNING w2)))"

definition NumDeviceTypesInSuper :: "info_dict \<Rightarrow> int res" where
  "NumDeviceTypesInSuper d = (let slot = DeviceType_Get d; dap = Dap_Get d in
     if dap = Dap_NONE then Inl RuntimeError
     else try_bind (py_assert (dap = Dap_DAP)) (\<lambda>_.
       if slot = DeviceType_AB then Inr 2
       else if slot = DeviceType_VAB then Inr 1
       else try_bind (py_assert (slot = DeviceType_NONE)) (\<lambda>_. Inr 1)))"

text \<open>\<open>Expression(desc, int(info_dict[key]) // num_slots)\<close>.\<close>

definition limit_of :: "info_dict \<Rightarrow> int \<Rightarrow> string \<Rightarrow> expression res" where
  "limit_of d num_slots key = try_bind (dict_get d key) (\<lambda>v. try_bind (to_int v) (\<lambda>n. Expression_init (VInt (n div num_slots)) None))"

definition check_super :: "(string \<Rightarrow> string option) \<Rightarrow> info_dict \<Rightarrow> int \<Rightarrow> warnings \<Rightarrow> warnings res" where
  "check_super files d num_slots w =
     (if has_key d ''super_partition_size'' \<and> has_key d ''dynamic_partition_list'' then
        try_bind (limit_of d num_slots ''super_partition_size'') (\<lambda>max_size.
        try_bind (limit_of d num_slots ''super_partition_warn_limit'') (\<lambda>warn_limit.
        try_bind (limit_of d num_slots ''super_partition_error_limit'') (\<lambda>error_limit.
        try_bind (dict_get d ''dynamic_partition_list'') (\<lambda>l.
        try_bind (to_words l) (\<lambda>names.
          CheckSumOfPartitionSizes files d max_size
            (if DeviceType_Get d = DeviceType_VAB \<and> (has_key d ''system_other_image'' \<or> has_key d ''system_other_image_size'')
             then names @ [''system_other''] else names) (Some warn_limit) (Some error_limit) w)))))
      else Inr w)"

definition check_group :: "(string \<Rightarrow> string option) \<Rightarrow> info_dict \<Rightarrow> warnings \<Rightarrow> string \<Rightarrow> warnings res" where
  "check_group files d w g =
     (if has_key d (''super_'' @ g @ ''_group_size'') \<and> has_key d (''super_'' @ g @ ''_partition_list'') then
        try_bind (dict_get d (''super_'' @ g @ ''_group_size'')) (\<lambda>v.
        try_bind (to_int v) (\<lambda>n.
        try_bind (Expression_init (VInt n) None) (\<lambda>group_size.
        try_bind (dict_get d (''super_'' @ g @ ''_partition_list'')) (\<lambda>l.
        try_bind (to_words l) (\<lambda>names. CheckSumOfPartitionSizes files d group_size names None None w)))))
      else Inr w)"

definition check_group_sum :: "info_dict \<Rightarrow> int \<Rightarrow> string list \<Rightarrow> warnings \<Rightarrow> warnings res" where
  "check_group_sum d num_slots groups w =
     (if has_key d ''super_partition_size'' then
        try_bind (map_res (\<lambda>g. to_int (get_default d (''super_'' @ g @ ''_group_size'') (VInt 0))) groups) (\<lambda>group_size_list.
        try_bind (limit_of d num_slots ''super_partition_size'') (\<lambda>max_size.
        try_bind (CheckLt (sum_expression group_size_list) max_size ERROR w) (\<lambda>w1.
          CheckLe (sum_expression (group_size_list @ [1024 * 1024])) max_size WARNING w1)))
      else Inr w)"

definition CheckAllPartitionSizes :: "(string \<Rightarrow> string option) \<Rightarrow> info_dict \<Rightarrow> warnings \<Rightarrow> warnings res" where
  "CheckAllPartitionSizes files d w =
     try_bind (NumDeviceTypesInSuper d) (\<lambda>num_slots.
     try_bind (check_super files d num_slots w) (\<lambda>w1.
     try_bind (to_words (get_default d ''super_partition_groups'' (VStr []))) (\<lambda>groups.
     try_bind (for_each (check_group files d) w1 groups) (\<lambda>w2.
       check_group_sum d num_slots groups w2))))"

datatype check_input = InPath string | InDict info_dict | InOther

definition CheckPartitionSizes :: "(string \<Rightarrow> string option) \<Rightarrow> check_input \<Rightarrow> warnings res" where
  "CheckPartitionSizes files inp = (case inp of
       InPath path \<Rightarrow> try_bind (LoadDictionaryFromFile files path) (\<lambda>d. try_bind (DynamicPartitionSizeChecker_init d) (\<lambda>c. CheckAllPartitionSizes files c []))
     | InDict d \<Rightarrow> try_bind (DynamicPartitionSizeChecker_init d) (\<lambda>c. CheckAllPartitionSizes files c [])
     | InOther \<Rightarrow> Inl ValueError)"

definition check_main :: "(string \<Rightarrow> string option) \<Rightarrow> string list \<Rightarrow> warnings res" where
  "check_main files args = (case args of [path] \<Rightarrow> CheckPartitionSizes files (InPath path) | _ \<Rightarrow> Inl (SystemExit 1))"

section \<open>What the checks compare\<close>

definition num :: "info_dict \<Rightarrow> string \<Rightarrow> int" where
  "num d k = (case map_of d k of None \<Rightarrow> 0 | Some v \<Rightarrow> (case to_int v of Inl _ \<Rightarrow> 0 | Inr n \<Rightarrow> n))"

definition name_list :: "info_dict \<Rightarrow> string \<Rightarrow> string list" where
  "name_list d k = (case map_of d k of None \<Rightarrow> [] | Some v \<Rightarrow> (case to_words v of Inl _ \<Rightarrow> [] | Inr ws \<Rightarrow> ws))"

definition rounded_size :: "(string \<Rightarrow> string option) \<Rightarrow> info_dict \<Rightarrow> string \<Rightarrow> int res" where
  "rounded_size files d p = try_bind (ReadSizeOfPartition files d p) (RoundPartitionSize d)"

definition total_size :: "(string \<Rightarrow> string option) \<Rightarrow> info_dict \<Rightarrow> string list \<Rightarrow> int" where
  "total_size files d ps = (\<Sum>p\<leftarrow>ps. projr (rounded_size files d p))"

definition super_names :: "info_dict \<Rightarrow> string list" where
  "super_names d = name_list d ''dynamic_partition_list'' @
     (if DeviceType_Get d = DeviceType_VAB \<and> (has_key d ''system_other_image'' \<or> has_key d ''system_other_image_size'') then [''system_other''] else [])"

definition num_slots :: "info_dict \<Rightarrow> int" where
  "num_slots d = (if DeviceType_Get d = DeviceType_AB then 2 else 1)"

definition group_names :: "info_dict \<Rightarrow> string list" where
  "group_names d = name_list d ''super_partition_groups''"

definition group_total :: "info_dict \<Rightarrow> int" where
  "group_total d = (\<Sum>g\<leftarrow>group_names d. num d (''super_'' @ g @ ''_group_size''))"

definition checks_super :: "info_dict \<Rightarrow> bool" where
  "checks_super d = (has_key d ''super_partition_size'' \<and> has_key d ''dynamic_partition_list'')"

definition checks_group :: "info_dict \<Rightarrow> string \<Rightarrow> bool" where
  "checks_group d g = (has_key d (''super_'' @ g @ ''_group_size'') \<and> has_key d (''super_'' @ g @ ''_partition_list''))"

definition group_fits :: "(string \<Rightarrow> string option) \<Rightarrow> info_dict \<Rightarrow> string \<Rightarrow> bool" where
  "group_fits files d g = (checks_group d g \<longrightarrow>
     total_size files d (name_list d (''super_'' @ g @ ''_partition_list'')) \<le> num d (''super_'' @ g @ ''_group_size''))"

text \<open>The documented limits.\<close>

definition fits :: "(string \<Rightarrow> string option) \<Rightarrow> info_dict \<Rightarrow> bool" where
  "fits files d =
     ((checks_super d \<longrightarrow> total_size files d (super_names d) \<le> num d ''super_partition_size'' div num_slots d \<and>
         total_size files d (super_names d) \<le> num d ''super_partition_error_limit'' div num_slots d) \<and>
      (\<forall>g\<in>set (group_names d). group_fits files d g) \<and>
      (has_key d ''super_partition_size'' \<longrightarrow> group_total d < num d ''super_partition_size'' div num_slots d))"

definition over :: "int \<Rightarrow> int \<Rightarrow> warnings" where
  "over a b = (if a \<le> b then [] else [(a, b)])"

definition size_warnings :: "(string \<Rightarrow> string option) \<Rightarrow> info_dict \<Rightarrow> warnings" where
  "size_warnings files d =
     (if checks_super d then over (total_size files d (super_names d)) (num d ''super_partition_warn_limit'' div num_slots d) else []) @
     (if has_key d ''super_partition_size'' then over (group_total d + 1048576) (num d ''super_partition_size'' div num_slots d) else [])"

text \<open>Every number can be read, every list is a string, and every partition has a size.\<close>

definition numeric :: "info_dict \<Rightarrow> string \<Rightarrow> bool" where
  "numeric d k = (case map_of d k of None \<Rightarrow> True | Some v \<Rightarrow> \<not> isl (to_int v))"

definition listed :: "info_dict \<Rightarrow> string \<Rightarrow> bool" where
  "listed d k = (case map_of d k of None \<Rightarrow> True | Some v \<Rightarrow> \<not> isl (to_words v))"

definition good_info :: "(string \<Rightarrow> string option) \<Rightarrow> info_dict \<Rightarrow> bool" where
  "good_info files d =
     (Dap_Get d = Dap_DAP \<and> numeric d ''super_partition_size'' \<and> listed d ''dynamic_partition_list'' \<and> listed d ''super_partition_groups'' \<and>
      (checks_super d \<longrightarrow> has_key d ''super_partition_warn_limit'' \<and> numeric d ''super_partition_warn_limit'' \<and>
         has_key d ''super_partition_error_limit'' \<and> numeric d ''super_partition_error_limit'' \<and>
         (\<forall>p\<in>set (super_names d). \<not> isl (rounded_size files d p))) \<and>
      (\<forall>g\<in>set (group_names d). numeric d (''super_'' @ g @ ''_group_size'') \<and> listed d (''super_'' @ g @ ''_partition_list'') \<and>
         (checks_group d g \<longrightarrow> (\<forall>p\<in>set (name_list d (''super_'' @ g @ ''_partition_list'')). \<not> isl (rounded_size files d p)))))"

lemma to_int_num: "numeric d k \<Longrightarrow> map_of d k = Some v \<Longrightarrow> to_int v = Inr (num d k)"
  by (cases "to_int v") (auto simp: numeric_def num_def)

lemma to_words_list: "listed d k \<Longrightarrow> map_of d k = Some v \<Longrightarrow> to_words v = Inr (name_list d k)"
  by (cases "to_words v") (auto simp: listed_def name_list_def)

lemma has_keyE: "has_key d k \<Longrightarrow> \<exists>v. map_of d k = Some v"
  by (auto simp: has_key_def)

lemma limit_of_num: "has_key d k \<Longrightarrow> numeric d k \<Longrightarrow> limit_of d n k = Inr \<lparr>ex_expr = str_int (num d k div n), ex_value = num d k div n\<rparr>"
  using has_keyE[of d k] by (auto simp: limit_of_def dict_get_def to_int_num Expression_init_def to_int_def[of "VInt _"] to_str_def)

lemma default_list: "listed d k \<Longrightarrow> to_words (get_default d k (VStr [])) = Inr (name_list d k)"
  by (cases "map_of d k") (auto simp: get_default_def to_words_list, simp add: to_words_def name_list_def strip_defs split_ws_def)

lemma default_num: "numeric d k \<Longrightarrow> to_int (get_default d k (VInt 0)) = Inr (num d k)"
  by (cases "map_of d k") (auto simp: get_default_def to_int_num, simp add: to_int_def num_def)

lemma check_sum:
  assumes "\<forall>p\<in>set ps. \<not> isl (rounded_size files d p)"
  shows "CheckSumOfPartitionSizes files d m ps we ee w =
    (if total_size files d ps \<le> ex_value m \<and> (\<forall>e. ee = Some e \<longrightarrow> total_size files d ps \<le> ex_value e)
     then Inr (w @ (case we of None \<Rightarrow> [] | Some e \<Rightarrow> over (total_size files d ps) (ex_value e))) else Inl RuntimeError)"
proof -
  have "map_res (rounded_size files d) ps = Inr (map (\<lambda>p. projr (rounded_size files d p)) ps)"
    by (rule map_res_Inr) (use assms in auto)
  then show ?thesis unfolding CheckSumOfPartitionSizes_def rounded_size_def[symmetric]
    by (cases ee; cases we) (auto simp: CheckLe_def sum_expression_def total_size_def over_def Let_def)
qed

lemma slots: "Dap_Get d = Dap_DAP \<Longrightarrow> NumDeviceTypesInSuper d = Inr (num_slots d)"
  by (cases "DeviceType_Get d") (simp_all add: NumDeviceTypesInSuper_def num_slots_def)

lemma check_super_exact:
  assumes "good_info files d"
  shows "check_super files d (num_slots d) w =
    (if checks_super d \<longrightarrow> total_size files d (super_names d) \<le> num d ''super_partition_size'' div num_slots d \<and>
         total_size files d (super_names d) \<le> num d ''super_partition_error_limit'' div num_slots d
     then Inr (w @ (if checks_super d then over (total_size files d (super_names d)) (num d ''super_partition_warn_limit'' div num_slots d) else []))
     else Inl RuntimeError)"
proof (cases "checks_super d")
  case True
  then obtain l where l: "map_of d ''dynamic_partition_list'' = Some l" using has_keyE by (auto simp: checks_super_def)
  have g: "has_key d ''super_partition_size''" "numeric d ''super_partition_size''" "has_key d ''super_partition_warn_limit''" "numeric d ''super_partition_warn_limit''"
    "has_key d ''super_partition_error_limit''" "numeric d ''super_partition_error_limit''" "\<forall>p\<in>set (super_names d). \<not> isl (rounded_size files d p)"
    "listed d ''dynamic_partition_list''"
    using assms True by (simp_all add: good_info_def checks_super_def)
  have n: "(if DeviceType_Get d = DeviceType_VAB \<and> (has_key d ''system_other_image'' \<or> has_key d ''system_other_image_size'')
      then name_list d ''dynamic_partition_list'' @ [''system_other''] else name_list d ''dynamic_partition_list'') = super_names d"
    by (simp add: super_names_def)
  show ?thesis unfolding check_super_def checks_super_def[symmetric] limit_of_num[OF g(1,2)] limit_of_num[OF g(3,4)] limit_of_num[OF g(5,6)]
    dict_get_def l option.case try_bind_simps to_words_list[OF g(8) l] n check_sum[OF g(7)] using True by simp
qed (simp add: check_super_def checks_super_def[symmetric])

lemma check_group_exact:
  assumes "good_info files d" "g \<in> set (group_names d)"
  shows "check_group files d w g = (if group_fits files d g then Inr w else Inl RuntimeError)"
proof (cases "checks_group d g")
  case True
  then obtain l v where l: "map_of d (''super_'' @ g @ ''_partition_list'') = Some l" "map_of d (''super_'' @ g @ ''_group_size'') = Some v"
    unfolding checks_group_def has_key_def by blast
  have g: "numeric d (''super_'' @ g @ ''_group_size'')" "listed d (''super_'' @ g @ ''_partition_list'')"
    "\<forall>p\<in>set (name_list d (''super_'' @ g @ ''_partition_list'')). \<not> isl (rounded_size files d p)"
    using assms True unfolding good_info_def by blast+
  have e: "Expression_init (VInt n) None = Inr \<lparr>ex_expr = str_int n, ex_value = n\<rparr>" for n by (simp add: Expression_init_def to_int_def to_str_def)
  show ?thesis unfolding check_group_def checks_group_def[symmetric] dict_get_def l option.case try_bind_simps to_int_num[OF g(1) l(2)] to_words_list[OF g(2) l(1)] e
    check_sum[OF g(3)] using True by (simp add: group_fits_def)
next
  case False
  then show ?thesis unfolding check_group_def checks_group_def[symmetric] group_fits_def by simp
qed

lemma check_groups_exact:
  assumes "good_info files d" "set gs \<subseteq> set (group_names d)"
  shows "for_each (check_group files d) w gs = (if \<forall>g\<in>set gs. group_fits files d g then Inr w else Inl RuntimeError)"
  using assms(2)
proof (induction gs)
  case (Cons g gs)
  then show ?case using check_group_exact[OF assms(1), of g w] by simp
qed simp

lemma check_group_sum_exact:
  assumes "good_info files d"
  shows "check_group_sum d (num_slots d) (group_names d) w = (if has_key d ''super_partition_size'' \<longrightarrow> group_total d < num d ''super_partition_size'' div num_slots d
     then Inr (w @ (if has_key d ''super_partition_size'' then over (group_total d + 1048576) (num d ''super_partition_size'' div num_slots d) else [])) else Inl RuntimeError)"
proof (cases "has_key d ''super_partition_size''")
  case True
  have g: "numeric d ''super_partition_size''" using assms by (simp add: good_info_def)
  have m: "map_res (\<lambda>g. to_int (get_default d (''super_'' @ g @ ''_group_size'') (VInt 0))) (group_names d) =
      Inr (map (\<lambda>g. num d (''super_'' @ g @ ''_group_size'')) (group_names d))"
  proof (rule map_res_Inr)
    fix g assume "g \<in> set (group_names d)"
    then have "numeric d (''super_'' @ g @ ''_group_size'')" using assms unfolding good_info_def by blast
    then show "to_int (get_default d (''super_'' @ g @ ''_group_size'') (VInt 0)) = Inr (num d (''super_'' @ g @ ''_group_size''))" by (rule default_num)
  qed
  show ?thesis unfolding check_group_sum_def m limit_of_num[OF True g] try_bind_simps
    using True by (simp add: CheckLt_def CheckLe_def sum_expression_def group_total_def over_def)
qed (simp add: check_group_sum_def)

lemma try_bind_if: "try_bind (if b then Inr x else Inl e) f = (if b then f x else Inl e)"
  by simp

lemma nested_if: "(if a then if b then if c then x else y else y else y) = (if a \<and> b \<and> c then x else y)"
  by simp

lemma check_all_exact:
  assumes "good_info files d"
  shows "CheckAllPartitionSizes files d [] = (if fits files d then Inr (size_warnings files d) else Inl RuntimeError)"
proof -
  have d: "NumDeviceTypesInSuper d = Inr (num_slots d)" using assms slots by (simp add: good_info_def)
  have l: "to_words (get_default d ''super_partition_groups'' (VStr [])) = Inr (group_names d)"
    using assms default_list[of d "''super_partition_groups''"] by (simp add: good_info_def group_names_def)
  show ?thesis unfolding CheckAllPartitionSizes_def d l try_bind_simps check_super_exact[OF assms] check_groups_exact[OF assms order_refl] check_group_sum_exact[OF assms]
    fits_def size_warnings_def try_bind_if nested_if append_Nil ..
qed

section \<open>The limits the constructor adds\<close>

lemma init_keeps:
  assumes "DynamicPartitionSizeChecker_init d = Inr c" "k \<noteq> ''super_partition_warn_limit''" "k \<noteq> ''super_partition_error_limit''"
  shows "map_of c k = map_of d k"
  using assms by (cases "map_of d ''super_partition_size''") (auto simp: DynamicPartitionSizeChecker_init_def split: if_splits)

lemma init_limits:
  assumes init: "DynamicPartitionSizeChecker_init d = Inr c" and s: "has_key d ''super_partition_size''"
  shows "has_key c ''super_partition_warn_limit''" "has_key c ''super_partition_error_limit''"
    "num c ''super_partition_warn_limit'' = (if has_key d ''super_partition_warn_limit'' then num d ''super_partition_warn_limit'' else num d ''super_partition_size'' * 95 div 100)"
    "num c ''super_partition_error_limit'' = (if has_key d ''super_partition_error_limit'' then num d ''super_partition_error_limit'' else num d ''super_partition_size'')"
proof -
  obtain v where v: "map_of d ''super_partition_size'' = Some v" using s has_keyE by blast
  have n: "to_int v = Inr m \<Longrightarrow> num d ''super_partition_size'' = m" for m by (simp add: num_def v)
  show "has_key c ''super_partition_warn_limit''" "has_key c ''super_partition_error_limit''"
    using init unfolding DynamicPartitionSizeChecker_init_def v by (auto simp: has_key_def split: if_splits)
  show "num c ''super_partition_warn_limit'' = (if has_key d ''super_partition_warn_limit'' then num d ''super_partition_warn_limit'' else num d ''super_partition_size'' * 95 div 100)"
    "num c ''super_partition_error_limit'' = (if has_key d ''super_partition_error_limit'' then num d ''super_partition_error_limit'' else num d ''super_partition_size'')"
    using init unfolding DynamicPartitionSizeChecker_init_def v by (auto simp: has_key_def num_def n to_int_def[of "VInt _"] v split: if_splits)
qed

lemma string_alignment: "map_of d ''super_partition_alignment'' = Some (VStr s) \<Longrightarrow> RoundPartitionSize d n = Inl TypeError"
  by (simp add: RoundPartitionSize_def)

lemma init_total:
  assumes "numeric d ''super_partition_size''"
  shows "\<exists>c. DynamicPartitionSizeChecker_init d = Inr c"
proof (cases "map_of d ''super_partition_size''")
  case (Some v)
  then show ?thesis using to_int_num[OF assms Some] by (simp add: DynamicPartitionSizeChecker_init_def)
qed (simp add: DynamicPartitionSizeChecker_init_def)

lemma image_keys:
  "p @ ''_image_size'' \<notin> {''super_partition_warn_limit'', ''super_partition_error_limit''}"
  "p @ ''_image'' \<notin> {''super_partition_warn_limit'', ''super_partition_error_limit''}"
proof -
  have l: "last (p @ ''_image_size'') = CHR ''e''" "last (p @ ''_image'') = CHR ''e''" by simp_all
  have "last ''super_partition_warn_limit'' = CHR ''t''" "last ''super_partition_error_limit'' = CHR ''t''" by simp_all
  then show "p @ ''_image_size'' \<notin> {''super_partition_warn_limit'', ''super_partition_error_limit''}"
    "p @ ''_image'' \<notin> {''super_partition_warn_limit'', ''super_partition_error_limit''}"
    using l by (auto simp del: append_Cons)+
qed

lemma init_sizes:
  assumes "DynamicPartitionSizeChecker_init d = Inr c"
  shows "ReadSizeOfPartition files c p = ReadSizeOfPartition files d p"
proof -
  have e: "map_of c (p @ ''_image_size'') = map_of d (p @ ''_image_size'')" "map_of c (p @ ''_image'') = map_of d (p @ ''_image'')"
    using init_keeps[OF assms] image_keys[of p] by blast+
  show ?thesis unfolding ReadSizeOfPartition_def dict_get_def e ..
qed

lemma init_numeric:
  assumes "DynamicPartitionSizeChecker_init d = Inr c" "numeric d k"
  shows "numeric c k"
proof (cases "map_of d ''super_partition_size''")
  case (Some v)
  then show ?thesis using assms by (auto simp: DynamicPartitionSizeChecker_init_def numeric_def to_int_def[of "VInt _"] split: if_splits option.splits)
qed (use assms in \<open>simp add: DynamicPartitionSizeChecker_init_def\<close>)

section \<open>Properties\<close>


definition ab_info :: info_dict where
  "ab_info = [(''use_dynamic_partitions'', VStr ''true''), (''ab_update'', VStr ''true''), (''super_partition_size'', VStr ''200''),
     (''dynamic_partition_list'', VStr ''system vendor''), (''system_image_size'', VInt 40), (''vendor_image_size'', VInt 55),
     (''super_partition_groups'', VStr ''main''), (''super_main_group_size'', VStr ''99''), (''super_main_partition_list'', VStr ''system vendor'')]"


text \<open>Rounding. With a positive integer alignment the rounded size is the least multiple of the alignment that is
  not below the size.\<close>

lemma rounded_size_least_multiple:
  assumes "map_of d ''super_partition_alignment'' = Some (VInt a)" "0 < a"
  shows "\<exists>r. RoundPartitionSize d n = Inr r \<and> a dvd r \<and> n \<le> r \<and> r < n + a \<and> (\<forall>m. a dvd m \<and> n \<le> m \<longrightarrow> r \<le> m)"
proof -
  define q where "q = (n + a - 1) div a"
  have e: "q * a = n + a - 1 - (n + a - 1) mod a" unfolding q_def by (simp add: minus_mod_eq_div_mult)
  have b: "0 \<le> (n + a - 1) mod a" "(n + a - 1) mod a < a" using assms(2) by simp_all
  have "q * a \<le> m" if m: "a dvd m" "n \<le> m" for m
  proof -
    obtain k where k: "m = a * k" using m(1) by (auto simp: dvd_def)
    have "q * a < (k + 1) * a" using e b m(2) k by (simp add: algebra_simps)
    then have "q < k + 1" using assms(2) mult_less_cancel_right_pos by blast
    then show ?thesis using assms(2) k mult_right_mono[of q k a] by (simp add: mult.commute)
  qed
  then show ?thesis using assms e b by (intro exI[of _ "q * a"]) (auto simp: RoundPartitionSize_def q_def)
qed

text \<open>Alignment in a file. Every value read from a file is a string, so a check of an info file that sets
  \<open>super_partition_alignment\<close> ends with \<open>TypeError\<close> at the first partition of the super partition.\<close>

theorem alignment_in_file_fails:
  assumes info: "files path = Some content" and d: "d = LoadDictionaryFromLines (splitlines (translate_newlines content))"
    and dap: "Dap_Get d = Dap_DAP" and align: "has_key d ''super_partition_alignment''"
    and nums: "has_key d ''super_partition_size''" "numeric d ''super_partition_size''" "numeric d ''super_partition_warn_limit''" "numeric d ''super_partition_error_limit''"
    and part: "name_list d ''dynamic_partition_list'' = p # ps" "ReadSizeOfPartition files d p = Inr n"
  shows "CheckPartitionSizes files (InPath path) = Inl TypeError"
proof -
  obtain c where c: "DynamicPartitionSizeChecker_init d = Inr c" using init_total[OF nums(2)] by blast
  have keep: "map_of c ''super_partition_alignment'' = map_of d ''super_partition_alignment''" "map_of c ''dynamic_partition_list'' = map_of d ''dynamic_partition_list''"
    "map_of c ''use_dynamic_partitions'' = map_of d ''use_dynamic_partitions''" "map_of c ''super_partition_size'' = map_of d ''super_partition_size''"
    using init_keeps[OF c] by simp_all
  obtain s where "map_of d ''super_partition_alignment'' = Some (VStr s)" using align loaded_strings d unfolding has_key_def by fastforce
  then have rnd: "RoundPartitionSize c m = Inl TypeError" for m using string_alignment keep(1) by simp
  obtain l where l: "map_of c ''dynamic_partition_list'' = Some l" "to_words l = Inr (p # ps)"
    using part(1) keep(2) by (auto simp: name_list_def split: option.splits sum.splits)
  have has: "has_key c ''super_partition_size''" "has_key c ''dynamic_partition_list''" using nums(1) keep(4) l(1) by (simp_all add: has_key_def)
  note lim = init_limits(1,2)[OF c nums(1)] and num = nums(2-4)[THEN init_numeric[OF c]]
  have "CheckSumOfPartitionSizes files c m (p # qs) we ee w = Inl TypeError" for m qs we ee w
    unfolding CheckSumOfPartitionSizes_def map_res.simps init_sizes[OF c] part(2) try_bind_simps rnd ..
  moreover have "(if b then (p # ps) @ [x] else p # ps) = p # (if b then ps @ [x] else ps)" for b x by simp
  ultimately have "check_super files c (num_slots c) [] = Inl TypeError"
    unfolding check_super_def limit_of_num[OF has(1) num(1)] limit_of_num[OF lim(1) num(2)] limit_of_num[OF lim(2) num(3)] dict_get_def l option.case try_bind_simps
    using has by simp
  moreover have "NumDeviceTypesInSuper c = Inr (num_slots c)" using slots[of c] dap keep(3) by (simp add: Dap_Get_def)
  ultimately show ?thesis
    unfolding CheckPartitionSizes_def check_input.case LoadDictionaryFromFile_def LoadListFromFile_def info option.case try_bind_simps d[symmetric] c CheckAllPartitionSizes_def by simp
qed

definition aligned_file :: string where
  "aligned_file = ''use_dynamic_partitions=true'' @ [nl] @ ''super_partition_size=200'' @ [nl] @ ''super_partition_alignment=1'' @ [nl] @
     ''dynamic_partition_list=system'' @ [nl] @ ''system_image_size=40''"

theorem alignment_in_file_fails_witness:
  "CheckPartitionSizes (\<lambda>_. Some aligned_file) (InPath ''info.txt'') = Inl TypeError"
proof -
  let ?d = "LoadDictionaryFromLines (splitlines (translate_newlines aligned_file))"
  have d: "?d = [(''use_dynamic_partitions'', VStr ''true''), (''super_partition_size'', VStr ''200''), (''super_partition_alignment'', VStr ''1''),
    (''dynamic_partition_list'', VStr ''system''), (''system_image_size'', VStr ''40'')]" by code_simp
  have i: "py_int ''200'' = Inr 200" by code_simp
  have "Dap_Get ?d = Dap_DAP" "has_key ?d ''super_partition_alignment''" "has_key ?d ''super_partition_size''"
    "name_list ?d ''dynamic_partition_list'' = ''system'' # []" "ReadSizeOfPartition (\<lambda>_. Some aligned_file) ?d ''system'' = Inr 40"
    unfolding d by code_simp+
  moreover have "numeric ?d ''super_partition_size''" "numeric ?d ''super_partition_warn_limit''" "numeric ?d ''super_partition_error_limit''"
    unfolding d numeric_def by (simp_all add: to_int_def i)
  ultimately show ?thesis using alignment_in_file_fails[of "\<lambda>_. Some aligned_file" "''info.txt''" aligned_file, OF refl refl] by blast
qed

end
