(* ===== verification/MergeInfo.thy ===== *)
theory MergeInfo
  imports PartitionSizes
begin

text \<open>
  \<open>MergeDynamicPartitionInfoDicts\<close> of \<open>tools/releasetools/common.py\<close>: the dictionary of a build that is put together
  from the framework and the vendor part, which the partition size check then reads.
\<close>

section \<open>Merging\<close>

definition to_split :: "dval \<Rightarrow> string list res" where
  "to_split v = (case v of VStr s \<Rightarrow> Inr (split_ws s) | VInt _ \<Rightarrow> Inl AttributeError)"

definition uniq_concat :: "dval \<Rightarrow> dval \<Rightarrow> dval res" where
  "uniq_concat a b =
     try_bind (to_split a) (\<lambda>xs. try_bind (to_split b) (\<lambda>ys.
       let combined = filter (\<lambda>item. item \<noteq> []) (map strip (remdups (xs @ ys))) in Inr (VStr (join '' '' (sort combined)))))"

text \<open>\<open>min\<close> of two values: strings and integers cannot be compared with each other.\<close>

definition min_value :: "dval \<Rightarrow> dval \<Rightarrow> dval res" where
  "min_value a b = (case (a, b) of
       (VStr s, VStr t) \<Rightarrow> Inr (VStr (if t < s then t else s))
     | (VInt i, VInt j) \<Rightarrow> Inr (VInt (if j < i then j else i))
     | _ \<Rightarrow> Inl TypeError)"

definition copy_required :: "info_dict \<Rightarrow> string \<Rightarrow> info_dict \<Rightarrow> info_dict res" where
  "copy_required vendor key m = (case map_of vendor key of None \<Rightarrow> Inl ValueError | Some v \<Rightarrow> Inr (dict_set key v m))"

definition merge_list :: "info_dict \<Rightarrow> info_dict \<Rightarrow> string \<Rightarrow> info_dict \<Rightarrow> info_dict res" where
  "merge_list framework vendor key m =
     try_bind (uniq_concat (get_default framework key (VStr [])) (get_default vendor key (VStr []))) (\<lambda>v. Inr (dict_set key v m))"

definition merge_group :: "info_dict \<Rightarrow> info_dict \<Rightarrow> info_dict \<Rightarrow> string \<Rightarrow> info_dict res" where
  "merge_group framework vendor m g =
     try_bind (copy_required vendor (''super_'' @ g @ ''_group_size'') m) (\<lambda>m1.
       merge_list framework vendor (''super_'' @ g @ ''_partition_list'') m1)"

definition vendor_flags :: "string list" where
  "vendor_flags = [''virtual_ab'', ''lpmake'', ''super_metadata_device'', ''super_partition_error_limit'', ''super_partition_size'']"

definition MergeDynamicPartitionInfoDicts :: "info_dict \<Rightarrow> info_dict \<Rightarrow> info_dict res" where
  "MergeDynamicPartitionInfoDicts framework vendor =
     (if map_of framework ''use_dynamic_partitions'' \<noteq> Some (VStr ''true'') \<or> map_of vendor ''use_dynamic_partitions'' \<noteq> Some (VStr ''true'') then Inl ValueError
      else
        let m0 = foldl (\<lambda>m (key, v). if map_of framework key = Some v then dict_set key v m else m) [(''use_dynamic_partitions'', VStr ''true'')] vendor in
        try_bind (merge_list framework vendor ''dynamic_partition_list'' m0) (\<lambda>m1.
        try_bind (case map_of vendor ''super_block_devices'' of
            None \<Rightarrow> Inr m1
          | Some v \<Rightarrow> try_bind (to_split v) (\<lambda>devices.
              for_each (\<lambda>m b. copy_required vendor (''super_'' @ b @ ''_device_size'') m) (dict_set ''super_block_devices'' v m1) devices)) (\<lambda>m2.
        try_bind (dict_get vendor ''super_partition_groups'') (\<lambda>v.
        try_bind (to_split v) (\<lambda>groups.
        try_bind (for_each (merge_group framework vendor) (dict_set ''super_partition_groups'' v m2) groups) (\<lambda>m3.
        try_bind (case (map_of vendor ''vabc_cow_version'', map_of framework ''vabc_cow_version'') of
            (Some a, Some b) \<Rightarrow> min_value a b
          | _ \<Rightarrow> Inr (VStr ''2'')) (\<lambda>cow.
          Inr (foldl (\<lambda>m key. case map_of vendor key of None \<Rightarrow> m | Some v \<Rightarrow> dict_set key v m)
                 (dict_set ''vabc_cow_version'' cow m3) vendor_flags))))))))"

section \<open>Lists\<close>

text \<open>The words of a value that is a string.\<close>

definition val_words :: "info_dict \<Rightarrow> string \<Rightarrow> string list" where
  "val_words d k = (case map_of d k of Some (VStr s) \<Rightarrow> split_ws s | _ \<Rightarrow> [])"

definition stringy :: "info_dict \<Rightarrow> string \<Rightarrow> bool" where
  "stringy d k = (case map_of d k of Some (VInt _) \<Rightarrow> False | _ \<Rightarrow> True)"

definition word :: "string \<Rightarrow> bool" where
  "word w = (w \<noteq> [] \<and> (\<forall>c\<in>set w. \<not> is_space c))"

lemma split_ws_from_words: "w = [] \<or> word w \<Longrightarrow> \<forall>v\<in>set (split_ws_from w s). word v"
proof (induction s arbitrary: w)
  case (Cons c s)
  show ?case
  proof (cases "is_space c")
    case True
    then show ?thesis using Cons.prems Cons.IH[of "[]"] by auto
  next
    case False
    then have "word (w @ [c])" using Cons.prems by (auto simp: word_def)
    then show ?thesis using False Cons.IH[of "w @ [c]"] by simp
  qed
qed auto

lemma split_ws_words: "v \<in> set (split_ws s) \<Longrightarrow> word v"
  unfolding split_ws_def using split_ws_from_words[of "[]" s] by blast

lemma to_split_default: "stringy d k \<Longrightarrow> to_split (get_default d k (VStr [])) = Inr (val_words d k)"
  by (auto simp: stringy_def get_default_def to_split_def val_words_def split_ws_def split: option.splits dval.splits)

lemma word_strip: "word w \<Longrightarrow> w \<noteq> [] \<and> strip w = w"
  unfolding word_def using strip_no_space[of w] by blast

lemma val_words_ok: "w \<in> set (val_words d k) \<Longrightarrow> word w"
  unfolding val_words_def using split_ws_words by (auto split: option.splits dval.splits)

definition merged_names :: "info_dict \<Rightarrow> info_dict \<Rightarrow> string \<Rightarrow> string list" where
  "merged_names framework vendor k = sort (remdups (val_words framework k @ val_words vendor k))"

lemma uniq_concat_merged:
  assumes "stringy framework k" "stringy vendor k"
  shows "uniq_concat (get_default framework k (VStr [])) (get_default vendor k (VStr [])) = Inr (VStr (join '' '' (merged_names framework vendor k)))"
proof -
  let ?ws = "remdups (val_words framework k @ val_words vendor k)"
  have ok: "w \<noteq> [] \<and> strip w = w" if "w \<in> set ?ws" for w using that val_words_ok word_strip unfolding set_remdups set_append by blast
  have "map strip ?ws = ?ws" using ok by (intro map_idI) blast
  moreover have "filter (\<lambda>item. item \<noteq> []) ?ws = ?ws" using ok by (intro filter_True) blast
  ultimately have "filter (\<lambda>item. item \<noteq> []) (map strip ?ws) = ?ws" by simp
  then show ?thesis unfolding uniq_concat_def to_split_default[OF assms(1)] to_split_default[OF assms(2)] try_bind_simps Let_def merged_names_def by simp
qed

section \<open>The entries of the result\<close>

abbreviation group_size_key :: "string \<Rightarrow> string" where "group_size_key g \<equiv> ''super_'' @ g @ ''_group_size''"
abbreviation group_list_key :: "string \<Rightarrow> string" where "group_list_key g \<equiv> ''super_'' @ g @ ''_partition_list''"
abbreviation device_size_key :: "string \<Rightarrow> string" where "device_size_key b \<equiv> ''super_'' @ b @ ''_device_size''"

lemma key_suffix: "\<not> suffix t k \<Longrightarrow> k \<noteq> ''super_'' @ g @ t"
  unfolding suffix_def by auto

lemma neq_take_rev: "take n (rev a) \<noteq> take n (rev b) \<Longrightarrow> a \<noteq> b"
  by blast

lemma keys_differ: "group_size_key g \<noteq> group_list_key g'" "device_size_key b \<noteq> group_size_key g" "device_size_key b \<noteq> group_list_key g"
  by (rule neq_take_rev[where n = 8], simp)+

lemma copies_exact:
  assumes "\<forall>x\<in>set xs. map_of vendor (f x) \<noteq> None"
  shows "\<exists>m'. for_each (\<lambda>m x. copy_required vendor (f x) m) m xs = Inr m' \<and> (\<forall>k. map_of m' k = (if k \<in> f ` set xs then map_of vendor k else map_of m k))"
  using assms
proof (induction xs arbitrary: m)
  case (Cons x xs)
  obtain v where v: "map_of vendor (f x) = Some v" using Cons.prems by auto
  obtain m' where "for_each (\<lambda>m x. copy_required vendor (f x) m) (dict_set (f x) v m) xs = Inr m'"
    "\<forall>k. map_of m' k = (if k \<in> f ` set xs then map_of vendor k else map_of (dict_set (f x) v m) k)" using Cons.IH[of "dict_set (f x) v m"] Cons.prems by auto
  then show ?case using v by (auto simp: copy_required_def)
qed simp

lemma groups_exact:
  assumes "\<forall>g\<in>set gs. map_of vendor (group_size_key g) \<noteq> None \<and> stringy framework (group_list_key g) \<and> stringy vendor (group_list_key g)"
  shows "\<exists>m'. for_each (merge_group framework vendor) m gs = Inr m' \<and>
    (\<forall>k. map_of m' k = (if k \<in> group_size_key ` set gs then map_of vendor k
       else if k \<in> group_list_key ` set gs then Some (VStr (join '' '' (merged_names framework vendor k))) else map_of m k))"
  using assms
proof (induction gs arbitrary: m)
  case (Cons g gs)
  obtain v where v: "map_of vendor (group_size_key g) = Some v" using Cons.prems by auto
  let ?m = "dict_set (group_list_key g) (VStr (join '' '' (merged_names framework vendor (group_list_key g)))) (dict_set (group_size_key g) v m)"
  have "merge_group framework vendor m g = Inr ?m"
    using v Cons.prems uniq_concat_merged[of framework "group_list_key g" vendor] by (simp add: merge_group_def copy_required_def merge_list_def)
  moreover obtain m' where "for_each (merge_group framework vendor) ?m gs = Inr m'"
    "\<forall>k. map_of m' k = (if k \<in> group_size_key ` set gs then map_of vendor k
       else if k \<in> group_list_key ` set gs then Some (VStr (join '' '' (merged_names framework vendor k))) else map_of ?m k)" using Cons.IH[of ?m] Cons.prems by auto
  ultimately show ?case using v keys_differ(1)[of _ g] keys_differ(1)[of g] by (intro exI[of _ m']) (auto simp del: append_Cons)
qed simp

lemma flags_exact:
  "map_of (foldl (\<lambda>m key. case map_of vendor key of None \<Rightarrow> m | Some v \<Rightarrow> dict_set key v m) m fs) k =
     (if k \<in> set fs \<and> map_of vendor k \<noteq> None then map_of vendor k else map_of m k)"
  by (induction fs arbitrary: m) (auto split: option.split)

lemma equal_entries:
  "map_of (foldl (\<lambda>m (key, v). if map_of framework key = Some v then dict_set key v m else m) m xs) k =
     (if \<exists>v. (k, v) \<in> set xs \<and> map_of framework k = Some v then map_of framework k else map_of m k)"
proof (induction xs arbitrary: m)
  case (Cons x xs)
  show ?case by (cases x) (auto simp: Cons.IH)
qed simp

lemma copies_missing:
  assumes "\<exists>x\<in>set xs. map_of vendor (f x) = None"
  shows "for_each (\<lambda>m x. copy_required vendor (f x) m) m xs = Inl ValueError"
  using assms
proof (induction xs arbitrary: m)
  case (Cons x xs)
  then show ?case by (cases "map_of vendor (f x)") (auto simp: copy_required_def)
qed simp

lemma groups_missing:
  assumes "\<exists>g\<in>set gs. map_of vendor (group_size_key g) = None"
    and "\<forall>g. stringy framework (group_list_key g) \<and> stringy vendor (group_list_key g)"
  shows "for_each (merge_group framework vendor) m gs = Inl ValueError"
  using assms(1)
proof (induction gs arbitrary: m)
  case (Cons g gs)
  have ok: "merge_group framework vendor m g = (case map_of vendor (group_size_key g) of None \<Rightarrow> Inl ValueError | Some v \<Rightarrow>
      Inr (dict_set (group_list_key g) (VStr (join '' '' (merged_names framework vendor (group_list_key g)))) (dict_set (group_size_key g) v m)))"
    unfolding merge_group_def merge_list_def copy_required_def
    using uniq_concat_merged[of framework "group_list_key g" vendor] assms(2) by (simp split: option.split del: append_Cons)
  show ?case
  proof (cases "map_of vendor (group_size_key g)")
    case None
    then show ?thesis using ok by (simp del: append_Cons)
  next
    case (Some v)
    then have "\<exists>g\<in>set gs. map_of vendor (group_size_key g) = None" using Cons.prems by auto
    from Cons.IH[OF this] show ?thesis using ok Some by (simp del: append_Cons)
  qed
qed simp

section \<open>The merged dictionary\<close>

text \<open>Dictionaries read from files: every value is a string.\<close>

definition all_strings :: "info_dict \<Rightarrow> bool" where
  "all_strings d = (\<forall>v\<in>snd ` set d. \<exists>s. v = VStr s)"

definition device_names :: "info_dict \<Rightarrow> string list" where
  "device_names vendor = val_words vendor ''super_block_devices''"

definition group_names :: "info_dict \<Rightarrow> string list" where
  "group_names vendor = val_words vendor ''super_partition_groups''"

text \<open>The keys the vendor part decides, and the lists that are the union of both parts.\<close>

definition vendor_keys :: "info_dict \<Rightarrow> string set" where
  "vendor_keys vendor = set vendor_flags \<union> {''super_partition_groups'', ''super_block_devices''} \<union>
     device_size_key ` set (device_names vendor) \<union> group_size_key ` set (group_names vendor)"

definition list_keys :: "info_dict \<Rightarrow> string set" where
  "list_keys vendor = insert ''dynamic_partition_list'' (group_list_key ` set (group_names vendor))"

definition merged_cow :: "info_dict \<Rightarrow> info_dict \<Rightarrow> string" where
  "merged_cow framework vendor = (case (map_of vendor ''vabc_cow_version'', map_of framework ''vabc_cow_version'') of
      (Some (VStr a), Some (VStr b)) \<Rightarrow> min a b | _ \<Rightarrow> ''2'')"

definition merged_entry :: "info_dict \<Rightarrow> info_dict \<Rightarrow> string \<Rightarrow> dval option" where
  "merged_entry framework vendor k =
     (if k \<in> vendor_keys vendor then map_of vendor k
      else if k \<in> list_keys vendor then Some (VStr (join '' '' (merged_names framework vendor k)))
      else if k = ''vabc_cow_version'' then Some (VStr (merged_cow framework vendor))
      else if map_of framework k = map_of vendor k then map_of vendor k else None)"

definition both_dynamic :: "info_dict \<Rightarrow> info_dict \<Rightarrow> bool" where
  "both_dynamic framework vendor = (map_of framework ''use_dynamic_partitions'' = Some (VStr ''true'') \<and> map_of vendor ''use_dynamic_partitions'' = Some (VStr ''true''))"

definition sizes_given :: "info_dict \<Rightarrow> (string \<Rightarrow> string) \<Rightarrow> string list \<Rightarrow> bool" where
  "sizes_given vendor f xs = (\<forall>x\<in>set xs. map_of vendor (f x) \<noteq> None)"

lemma all_strings_stringy: "all_strings d \<Longrightarrow> stringy d k"
  unfolding all_strings_def stringy_def by (force split: option.split dval.split dest: map_of_SomeD)

lemma all_strings_value: "all_strings d \<Longrightarrow> map_of d k = Some v \<Longrightarrow> \<exists>s. v = VStr s"
  unfolding all_strings_def by (force dest: map_of_SomeD)

definition fixed_keys :: "string list" where
  "fixed_keys = vendor_flags @ [''super_partition_groups'', ''super_block_devices'']"

definition other_keys :: "string list" where
  "other_keys = [''dynamic_partition_list'', ''vabc_cow_version'']"

lemma fixed_keys_differ:
  assumes "k \<in> set fixed_keys \<union> set other_keys"
  shows "k \<noteq> group_list_key g" "k \<noteq> group_size_key g" "k \<noteq> device_size_key g"
proof -
  have "\<forall>k\<in>set fixed_keys \<union> set other_keys.
      (\<not> suffix ''_partition_list'' k \<or> take 1 k \<noteq> ''s'') \<and> \<not> suffix ''_group_size'' k \<and> \<not> suffix ''_device_size'' k" by code_simp
  with assms have *: "\<not> suffix ''_partition_list'' k \<or> take 1 k \<noteq> ''s''" "\<not> suffix ''_group_size'' k" "\<not> suffix ''_device_size'' k" by (elim ballE, simp_all only: simp_thms)+
  have "take 1 (group_list_key g) = ''s''" by simp
  then show "k \<noteq> group_list_key g" using *(1) key_suffix by metis
  show "k \<noteq> group_size_key g" using *(2) by (rule key_suffix)
  show "k \<noteq> device_size_key g" using *(3) by (rule key_suffix)
qed

lemma sets_apart:
  assumes "F \<inter> {d, c} = {}" "\<And>k g. k \<in> F \<union> {d, c} \<Longrightarrow> k \<noteq> lk g \<and> k \<noteq> gk g \<and> k \<noteq> dk g"
    and "\<And>g g'. gk g \<noteq> lk g'" "\<And>g g'. dk g \<noteq> lk g'"
  shows "(F \<union> dk ` D \<union> gk ` G) \<inter> insert c (insert d (lk ` G)) = {}"
  using assms by blast

lemma other_keys_set: "set other_keys = {''dynamic_partition_list'', ''vabc_cow_version''}"
  unfolding other_keys_def list.set ..

lemma fixed_other: "set fixed_keys \<inter> set other_keys = {}"
  by code_simp

lemma vendor_keys_set: "vendor_keys vendor = set fixed_keys \<union> device_size_key ` set (device_names vendor) \<union> group_size_key ` set (group_names vendor)"
  unfolding vendor_keys_def fixed_keys_def set_append list.set ..

lemma vendor_keys_apart: "vendor_keys vendor \<inter> insert ''vabc_cow_version'' (list_keys vendor) = {}"
  unfolding vendor_keys_set list_keys_def
  by (rule sets_apart, unfold other_keys_set[symmetric], rule fixed_other, intro conjI, (erule fixed_keys_differ)+, (rule keys_differ)+)

lemma cow_key_apart: "''vabc_cow_version'' \<notin> list_keys vendor"
proof -
  have "''vabc_cow_version'' \<in> set fixed_keys \<union> set other_keys" unfolding other_keys_set by (intro UnI2 insertI2 singletonI)
  then have "''vabc_cow_version'' \<noteq> group_list_key g" for g by (rule fixed_keys_differ)
  moreover have "''vabc_cow_version'' \<noteq> ''dynamic_partition_list''" by code_simp
  ultimately show ?thesis unfolding list_keys_def by (simp only: insert_iff image_iff simp_thms bex_simps ball_triv)
qed

lemma lookups_combine:
  assumes apart: "VK \<inter> insert c LK = {}" "c \<notin> LK" and VK: "VK = F \<union> {gr, bl} \<union> D \<union> G" and LK: "LK = insert d L"
  shows "(if k \<in> F \<and> vd k \<noteq> None then vd k else if k = c then Some cow else if k \<in> G then vd k else if k \<in> L then j k else if k = gr then vd gr
      else if k \<in> D then vd k else if k = bl \<and> vd bl \<noteq> None then vd bl else if k = d then j d else if fw k = vd k then vd k else None) =
    (if k \<in> VK then vd k else if k \<in> LK then j k else if k = c then Some cow else if fw k = vd k then vd k else None)"
proof (cases "k \<in> VK")
  case True
  then have "k \<noteq> c" "k \<notin> L" "k \<noteq> d" using apart(1) unfolding LK by blast+
  then show ?thesis using True unfolding VK by auto
next
  case False
  then have "k \<notin> F" "k \<notin> G" "k \<notin> D" "k \<noteq> gr" "k \<noteq> bl" unfolding VK by blast+
  moreover have "k = c \<Longrightarrow> k \<notin> L \<and> k \<noteq> d" using apart(2) unfolding LK by blast
  ultimately show ?thesis using False unfolding LK by (cases "k = c"; cases "k = d") auto
qed

lemma merge_devices:
  assumes "all_strings vendor"
  shows "(case map_of vendor ''super_block_devices'' of
            None \<Rightarrow> Inr m1
          | Some v \<Rightarrow> try_bind (to_split v) (\<lambda>devices.
              for_each (\<lambda>m b. copy_required vendor (device_size_key b) m) (dict_set ''super_block_devices'' v m1) devices)) =
    (case map_of vendor ''super_block_devices'' of
            None \<Rightarrow> Inr m1
          | Some v \<Rightarrow> for_each (\<lambda>m b. copy_required vendor (device_size_key b) m) (dict_set ''super_block_devices'' v m1) (device_names vendor))"
proof (cases "map_of vendor ''super_block_devices''")
  case (Some v)
  then obtain s where "v = VStr s" using all_strings_value[OF assms] by blast
  then show ?thesis using Some unfolding to_split_def device_names_def val_words_def by (simp only: option.case dval.case try_bind_simps)
qed (simp only: option.case)

lemma devices_exact:
  assumes "sizes_given vendor device_size_key (device_names vendor)"
  shows "\<exists>m2. (case map_of vendor ''super_block_devices'' of
            None \<Rightarrow> Inr m1
          | Some v \<Rightarrow> for_each (\<lambda>m b. copy_required vendor (device_size_key b) m) (dict_set ''super_block_devices'' v m1) (device_names vendor)) = Inr m2 \<and>
    (\<forall>k. map_of m2 k = (if k \<in> device_size_key ` set (device_names vendor) then map_of vendor k
       else if k = ''super_block_devices'' \<and> map_of vendor ''super_block_devices'' \<noteq> None then map_of vendor ''super_block_devices'' else map_of m1 k))"
proof (cases "map_of vendor ''super_block_devices''")
  case None
  then have "device_names vendor = []" unfolding device_names_def val_words_def by (simp only: option.case)
  then show ?thesis using None by (simp only: option.case list.set image_empty empty_iff if_False simp_thms) (intro exI[of _ m1], simp)
next
  case (Some v)
  obtain m' where "for_each (\<lambda>m b. copy_required vendor (device_size_key b) m) (dict_set ''super_block_devices'' v m1) (device_names vendor) = Inr m'"
    "\<forall>k. map_of m' k = (if k \<in> device_size_key ` set (device_names vendor) then map_of vendor k else map_of (dict_set ''super_block_devices'' v m1) k)"
    using copies_exact[of "device_names vendor" vendor device_size_key] assms unfolding sizes_given_def by blast
  then show ?thesis unfolding Some by (intro exI[of _ m']) (simp del: append_Cons)
qed

lemma min_by_less: "(if t < s then t else s) = min s t" for s t :: "'a::linorder"
  by (auto simp: min_def)

lemma merged_cow_value:
  assumes "all_strings framework" "all_strings vendor"
  shows "(case (map_of vendor ''vabc_cow_version'', map_of framework ''vabc_cow_version'') of (Some a, Some b) \<Rightarrow> min_value a b | _ \<Rightarrow> Inr (VStr ''2'')) =
    Inr (VStr (merged_cow framework vendor))"
proof (cases "map_of vendor ''vabc_cow_version''"; cases "map_of framework ''vabc_cow_version''")
  fix a b assume ab: "map_of vendor ''vabc_cow_version'' = Some a" "map_of framework ''vabc_cow_version'' = Some b"
  then obtain s t where st: "a = VStr s" "b = VStr t" using all_strings_value assms by blast
  have "(if t < s then t else s) = min s t" by (rule min_by_less)
  with ab st show ?thesis unfolding merged_cow_def min_value_def by (simp only: option.case dval.case prod.case)
qed (simp_all only: merged_cow_def option.case prod.case split: dval.split, simp_all)

lemma merge_outcome:
  assumes dyn: "both_dynamic framework vendor" and str: "all_strings framework" "all_strings vendor" and dist: "distinct (map fst vendor)"
    and devices: "sizes_given vendor device_size_key (device_names vendor)" and has: "map_of vendor ''super_partition_groups'' = Some (VStr gs)"
    and groups: "sizes_given vendor group_size_key (group_names vendor)"
  shows "\<exists>m. MergeDynamicPartitionInfoDicts framework vendor = Inr m \<and> (\<forall>k. map_of m k = merged_entry framework vendor k)"
proof -
  let ?j = "\<lambda>k. Some (VStr (join '' '' (merged_names framework vendor k)))"
  define m0 where "m0 = foldl (\<lambda>m (key, v). if map_of framework key = Some v then dict_set key v m else m) [(''use_dynamic_partitions'', VStr ''true'')] vendor"
  have "(k, v) \<in> set vendor \<longleftrightarrow> map_of vendor k = Some v" for k v using dist by simp
  then have m0: "map_of m0 k = (if map_of framework k = map_of vendor k then map_of vendor k else None)" for k
    unfolding m0_def equal_entries using dyn unfolding both_dynamic_def by (cases "k = ''use_dynamic_partitions''"; cases "map_of vendor k") (auto simp only: map_of.simps option.simps fst_conv fun_upd_apply if_False split: if_splits)
  define m1 where "m1 = dict_set ''dynamic_partition_list'' (VStr (join '' '' (merged_names framework vendor ''dynamic_partition_list''))) m0"
  have s1: "merge_list framework vendor ''dynamic_partition_list'' m0 = Inr m1"
    unfolding merge_list_def m1_def uniq_concat_merged[OF all_strings_stringy[OF str(1)] all_strings_stringy[OF str(2)]] try_bind_simps ..
  obtain m2 where s2: "(case map_of vendor ''super_block_devices'' of None \<Rightarrow> Inr m1
      | Some v \<Rightarrow> for_each (\<lambda>m b. copy_required vendor (device_size_key b) m) (dict_set ''super_block_devices'' v m1) (device_names vendor)) = Inr m2"
    and m2: "\<forall>k. map_of m2 k = (if k \<in> device_size_key ` set (device_names vendor) then map_of vendor k
       else if k = ''super_block_devices'' \<and> map_of vendor ''super_block_devices'' \<noteq> None then map_of vendor ''super_block_devices'' else map_of m1 k)"
    using devices_exact[OF devices, of m1] by (elim exE conjE) (rule that, assumption+)
  have gs: "split_ws gs = group_names vendor" unfolding group_names_def val_words_def has by (simp only: option.case dval.case)
  have "\<forall>g\<in>set (group_names vendor). map_of vendor (group_size_key g) \<noteq> None \<and> stringy framework (group_list_key g) \<and> stringy vendor (group_list_key g)"
    using groups all_strings_stringy[OF str(1)] all_strings_stringy[OF str(2)] unfolding sizes_given_def by blast
  from groups_exact[OF this, of "dict_set ''super_partition_groups'' (VStr gs) m2"]
  obtain m3 where s3: "for_each (merge_group framework vendor) (dict_set ''super_partition_groups'' (VStr gs) m2) (group_names vendor) = Inr m3"
    and m3: "\<forall>k. map_of m3 k = (if k \<in> group_size_key ` set (group_names vendor) then map_of vendor k
       else if k \<in> group_list_key ` set (group_names vendor) then ?j k else map_of (dict_set ''super_partition_groups'' (VStr gs) m2) k)"
    by (elim exE conjE) (rule that, assumption+)
  define m4 where "m4 = foldl (\<lambda>m key. case map_of vendor key of None \<Rightarrow> m | Some v \<Rightarrow> dict_set key v m)
      (dict_set ''vabc_cow_version'' (VStr (merged_cow framework vendor)) m3) vendor_flags"
  have res: "MergeDynamicPartitionInfoDicts framework vendor = Inr m4"
    unfolding MergeDynamicPartitionInfoDicts_def m0_def[symmetric] Let_def s1 try_bind_simps merge_devices[OF str(2)] s2
    unfolding dict_get_def has option.case to_split_def dval.case try_bind_simps gs s3 merged_cow_value[OF str] m4_def
    using dyn unfolding both_dynamic_def by (simp only: simp_thms if_False)
  have "map_of m4 k = merged_entry framework vendor k" for k
  proof -
    have "map_of m4 k = (if k \<in> set vendor_flags \<and> map_of vendor k \<noteq> None then map_of vendor k else if k = ''vabc_cow_version'' then Some (VStr (merged_cow framework vendor))
      else if k \<in> group_size_key ` set (group_names vendor) then map_of vendor k else if k \<in> group_list_key ` set (group_names vendor) then ?j k
      else if k = ''super_partition_groups'' then map_of vendor ''super_partition_groups'' else if k \<in> device_size_key ` set (device_names vendor) then map_of vendor k
      else if k = ''super_block_devices'' \<and> map_of vendor ''super_block_devices'' \<noteq> None then map_of vendor ''super_block_devices''
      else if k = ''dynamic_partition_list'' then ?j ''dynamic_partition_list'' else if map_of framework k = map_of vendor k then map_of vendor k else None)"
      unfolding m4_def flags_exact map_of_dict_set fun_upd_apply m3[rule_format] m2[rule_format] m1_def m0 has ..
    also have "\<dots> = merged_entry framework vendor k" unfolding merged_entry_def
      by (rule lookups_combine[OF vendor_keys_apart cow_key_apart vendor_keys_def list_keys_def])
    finally show ?thesis .
  qed
  then show ?thesis using res by blast
qed

lemma merge_fails:
  assumes dyn: "both_dynamic framework vendor" and str: "all_strings framework" "all_strings vendor"
  shows "\<not> sizes_given vendor device_size_key (device_names vendor) \<Longrightarrow> MergeDynamicPartitionInfoDicts framework vendor = Inl ValueError"
    and "sizes_given vendor device_size_key (device_names vendor) \<Longrightarrow> map_of vendor ''super_partition_groups'' = None \<Longrightarrow>
      MergeDynamicPartitionInfoDicts framework vendor = Inl KeyError"
    and "sizes_given vendor device_size_key (device_names vendor) \<Longrightarrow> map_of vendor ''super_partition_groups'' \<noteq> None \<Longrightarrow>
      \<not> sizes_given vendor group_size_key (group_names vendor) \<Longrightarrow> MergeDynamicPartitionInfoDicts framework vendor = Inl ValueError"
proof -
  let ?m0 = "foldl (\<lambda>m (key, v). if map_of framework key = Some v then dict_set key v m else m) [(''use_dynamic_partitions'', VStr ''true'')] vendor"
  obtain m1 where s1: "merge_list framework vendor ''dynamic_partition_list'' ?m0 = Inr m1"
    unfolding merge_list_def uniq_concat_merged[OF all_strings_stringy[OF str(1)] all_strings_stringy[OF str(2)]] try_bind_simps by blast
  have flags: "(map_of framework ''use_dynamic_partitions'' \<noteq> Some (VStr ''true'') \<or> map_of vendor ''use_dynamic_partitions'' \<noteq> Some (VStr ''true'')) = False"
    using dyn unfolding both_dynamic_def by (simp only: simp_thms)
  note start = MergeDynamicPartitionInfoDicts_def flags if_False Let_def s1 try_bind_simps merge_devices[OF str(2)]
  show "MergeDynamicPartitionInfoDicts framework vendor = Inl ValueError" if no: "\<not> sizes_given vendor device_size_key (device_names vendor)"
  proof (cases "map_of vendor ''super_block_devices''")
    case None
    then show ?thesis using no unfolding sizes_given_def device_names_def val_words_def by (simp only: option.case list.set ball_simps simp_thms)
  next
    case (Some v)
    have "for_each (\<lambda>m b. copy_required vendor (device_size_key b) m) m (device_names vendor) = Inl ValueError" for m
      using no unfolding sizes_given_def by (intro copies_missing) (simp only: ball_simps not_not)
    then show ?thesis unfolding start unfolding Some option.case by (simp only: try_bind_simps)
  qed
  assume devices: "sizes_given vendor device_size_key (device_names vendor)"
  obtain m2 where s2: "(case map_of vendor ''super_block_devices'' of None \<Rightarrow> Inr m1
      | Some v \<Rightarrow> for_each (\<lambda>m b. copy_required vendor (device_size_key b) m) (dict_set ''super_block_devices'' v m1) (device_names vendor)) = Inr m2"
    using devices_exact[OF devices, of m1] by (elim exE conjE) (rule that)
  show "MergeDynamicPartitionInfoDicts framework vendor = Inl KeyError" if "map_of vendor ''super_partition_groups'' = None"
    unfolding start s2 unfolding dict_get_def that option.case try_bind_simps ..
  assume "map_of vendor ''super_partition_groups'' \<noteq> None" and no: "\<not> sizes_given vendor group_size_key (group_names vendor)"
  then obtain gs where has: "map_of vendor ''super_partition_groups'' = Some (VStr gs)" using all_strings_value[OF str(2)] by blast
  have gs: "split_ws gs = group_names vendor" unfolding group_names_def val_words_def has by (simp only: option.case dval.case)
  have "for_each (merge_group framework vendor) m (group_names vendor) = Inl ValueError" for m
    by (rule groups_missing)
      (use no in \<open>simp only: sizes_given_def ball_simps not_not\<close>, intro allI conjI all_strings_stringy str)
  then show "MergeDynamicPartitionInfoDicts framework vendor = Inl ValueError"
    unfolding start s2 unfolding dict_get_def has option.case to_split_def dval.case try_bind_simps gs by (simp only: try_bind_simps)
qed

lemma merged_names_sorted: "sorted (merged_names framework vendor k) \<and> distinct (merged_names framework vendor k) \<and>
    set (merged_names framework vendor k) = set (val_words framework k) \<union> set (val_words vendor k)"
  unfolding merged_names_def by simp

lemma merge_not_dynamic: "\<not> both_dynamic framework vendor \<Longrightarrow> MergeDynamicPartitionInfoDicts framework vendor = Inl ValueError"
  unfolding both_dynamic_def MergeDynamicPartitionInfoDicts_def by (simp only: de_Morgan_conj if_True)

text \<open>C35: for dictionaries of strings, as they are read from files, merging ends with ValueError exactly if one of the two parts does not use
  dynamic partitions or the vendor part lacks the size of one of its block devices or groups, with KeyError if the vendor part names no
  groups, and otherwise gives a dictionary in which the sizes, groups, devices and flags are those of the vendor part, every partition
  list is the sorted union of the names of both parts without repetition, the compression version is the smaller string or 2, and every
  other key is there exactly if both parts agree on it.\<close>

theorem merged_dictionary_exact:
  assumes "all_strings framework" "all_strings vendor" "distinct (map fst vendor)"
  shows "(let r = MergeDynamicPartitionInfoDicts framework vendor;
              devices = sizes_given vendor device_size_key (device_names vendor);
              groups = sizes_given vendor group_size_key (group_names vendor);
              named = (map_of vendor ''super_partition_groups'' \<noteq> None) in
     (r = Inl ValueError \<longleftrightarrow> \<not> both_dynamic framework vendor \<or> \<not> devices \<or> named \<and> \<not> groups) \<and>
     (r = Inl KeyError \<longleftrightarrow> both_dynamic framework vendor \<and> devices \<and> \<not> named) \<and>
     (both_dynamic framework vendor \<and> devices \<and> named \<and> groups \<longrightarrow>
        (\<exists>m. r = Inr m \<and> (\<forall>k. map_of m k = merged_entry framework vendor k)))) \<and>
     (\<forall>k. sorted (merged_names framework vendor k) \<and> distinct (merged_names framework vendor k) \<and>
        set (merged_names framework vendor k) = set (val_words framework k) \<union> set (val_words vendor k))"
proof -
  let ?r = "MergeDynamicPartitionInfoDicts framework vendor"
  let ?devices = "sizes_given vendor device_size_key (device_names vendor)"
  let ?groups = "sizes_given vendor group_size_key (group_names vendor)"
  let ?named = "map_of vendor ''super_partition_groups'' \<noteq> None"
  have errs: "(Inl ValueError :: info_dict res) \<noteq> Inl KeyError" "(Inl e :: info_dict res) \<noteq> Inr m" for e m by simp_all
  consider "\<not> both_dynamic framework vendor" "?r = Inl ValueError"
    | "both_dynamic framework vendor" "\<not> ?devices" "?r = Inl ValueError"
    | "both_dynamic framework vendor" "?devices" "\<not> ?named" "?r = Inl KeyError"
    | "both_dynamic framework vendor" "?devices" "?named" "\<not> ?groups" "?r = Inl ValueError"
    | m where "both_dynamic framework vendor" "?devices" "?named" "?groups" "?r = Inr m" "\<forall>k. map_of m k = merged_entry framework vendor k"
  proof -
    consider (a) "\<not> both_dynamic framework vendor" | (b) "both_dynamic framework vendor" "\<not> ?devices"
      | (c) "both_dynamic framework vendor" "?devices" "\<not> ?named" | (d) "both_dynamic framework vendor" "?devices" "?named" "\<not> ?groups"
      | (e) "both_dynamic framework vendor" "?devices" "?named" "?groups" by argo
    then show thesis
    proof cases
      case a
      then show ?thesis using merge_not_dynamic[OF a] by (rule that(1))
    next
      case b
      then show ?thesis using merge_fails(1)[OF b(1) assms(1,2) b(2)] by (rule that(2))
    next
      case c
      have "map_of vendor ''super_partition_groups'' = None" using c(3) by (simp only: not_not)
      from c merge_fails(2)[OF c(1) assms(1,2) c(2) this] show ?thesis by (rule that(3))
    next
      case d
      then show ?thesis using merge_fails(3)[OF d(1) assms(1,2) d(2-4)] by (rule that(4))
    next
      case e
      obtain gs where "map_of vendor ''super_partition_groups'' = Some (VStr gs)" using e(3) all_strings_value[OF assms(2)] by blast
      from merge_outcome[OF e(1) assms e(2) this e(4)] obtain m where m: "?r = Inr m" "\<forall>k. map_of m k = merged_entry framework vendor k" by blast
      from e m show ?thesis by (rule that(5))
    qed
  qed
  then show ?thesis unfolding Let_def using merged_names_sorted errs by cases (simp_all only: simp_thms sum.inject, blast+)
qed

definition sample_framework :: info_dict where
  "sample_framework = [(''use_dynamic_partitions'', VStr ''true''), (''dynamic_partition_list'', VStr ''system product''),
     (''super_g_partition_list'', VStr ''system product''), (''build_type'', VStr ''user'')]"

definition sample_vendor :: info_dict where
  "sample_vendor = [(''use_dynamic_partitions'', VStr ''true''), (''dynamic_partition_list'', VStr ''vendor system''),
     (''super_partition_groups'', VStr ''g''), (''super_g_group_size'', VStr ''100''), (''super_g_partition_list'', VStr ''vendor''),
     (''super_partition_size'', VStr ''200''), (''build_type'', VStr ''user'')]"

theorem merged_dictionary_exact_witness:
  "\<exists>m. MergeDynamicPartitionInfoDicts sample_framework sample_vendor = Inr m \<and>
     map_of m ''super_g_partition_list'' = Some (VStr ''product system vendor'')"
proof -
  have str: "all_strings sample_framework" "all_strings sample_vendor" unfolding all_strings_def sample_framework_def sample_vendor_def by simp_all
  have dist: "distinct (map fst sample_vendor)" by code_simp
  have "both_dynamic sample_framework sample_vendor \<and> sizes_given sample_vendor device_size_key (device_names sample_vendor) \<and>
      map_of sample_vendor ''super_partition_groups'' \<noteq> None \<and> sizes_given sample_vendor group_size_key (group_names sample_vendor)" by code_simp
  with merged_dictionary_exact[OF str dist, unfolded Let_def]
  have "\<exists>m. MergeDynamicPartitionInfoDicts sample_framework sample_vendor = Inr m \<and> (\<forall>k. map_of m k = merged_entry sample_framework sample_vendor k)"
    by (elim conjE) (erule mp, intro conjI)
  moreover have "merged_entry sample_framework sample_vendor ''super_g_partition_list'' = Some (VStr ''product system vendor'')" by code_simp
  ultimately show ?thesis by (elim exE conjE) (intro exI conjI, assumption, simp only:)
qed

end
