(* ===== verification/Fstab.thy ===== *)
theory Fstab
  imports InfoDict
begin

text \<open>
  The recovery fstab of \<open>tools/releasetools/common.py\<close>: \<open>LoadRecoveryFSTab\<close>, the choice of the fstab file, and the
  functions that look devices up. An fstab is an ordered dictionary from mount points to partitions. Reading a file
  of the target files is a parameter that may raise.
\<close>

section \<open>Partitions\<close>

record partition_entry =
  pt_mount_point :: string
  pt_fs_type :: string
  pt_device :: string
  pt_length :: int
  pt_context :: "string option"
  pt_slotselect :: bool

type_synonym fstab = "(string, partition_entry) odict"

text \<open>The loops over the options and over the mount flags of a line.\<close>

definition read_option :: "int \<times> bool \<Rightarrow> string \<Rightarrow> (int \<times> bool) res" where
  "read_option = (\<lambda>(len, slotselect) i.
     if prefix ''length='' i then try_bind (py_int (drop 7 i)) (\<lambda>n. Inr (n, slotselect))
     else if i = ''slotselect'' then Inr (len, True)
     else Inr (len, slotselect))"

definition read_context :: "string \<Rightarrow> string option" where
  "read_context mount_flags = foldl (\<lambda>context i. if prefix ''context='' i then Some i else context) None (split_on CHR '','' mount_flags)"

definition read_fstab_line :: "fstab \<Rightarrow> string \<Rightarrow> fstab res" where
  "read_fstab_line d l = (let line = strip l in
     if line = [] \<or> prefix ''#'' line then Inr d
     else case split_ws line of
       [src, mnt_point, fs_type, mount_flags, options] \<Rightarrow>
         if str_in ''voldmanaged='' options then Inr d
         else try_bind (for_each read_option (0, False) (split_on CHR '','' options)) (\<lambda>(len, slotselect).
           Inr (dict_set mnt_point \<lparr>pt_mount_point = mnt_point, pt_fs_type = fs_type, pt_device = src, pt_length = len,
             pt_context = read_context mount_flags, pt_slotselect = slotselect\<rparr> d))
     | _ \<Rightarrow> Inl ValueError)"

definition LoadRecoveryFSTab :: "(string \<Rightarrow> string res) \<Rightarrow> dval \<Rightarrow> string \<Rightarrow> fstab res" where
  "LoadRecoveryFSTab read_helper fstab_version path =
     try_bind (case read_helper path of Inl KeyError \<Rightarrow> Inr [] | r \<Rightarrow> r) (\<lambda>data.
     try_bind (py_assert (fstab_version = VInt 2)) (\<lambda>_.
       for_each read_fstab_line [] (split_on nl data)))"

text \<open>\<open>contains\<close> stands for \<open>DoesInputFileContain(input_file, ...)\<close>.\<close>

definition FindAndLoadRecoveryFstab :: "(string \<Rightarrow> bool) \<Rightarrow> (string \<Rightarrow> string res) \<Rightarrow> info_dict \<Rightarrow> fstab option res" where
  "FindAndLoadRecoveryFstab contains read_helper d =
     (if map_of d ''ab_update'' = Some (VStr ''true'') \<and> map_of d ''allow_non_ab'' \<noteq> Some (VStr ''true'') then Inr None
      else if map_of d ''no_recovery'' \<noteq> Some (VStr ''true'') then
        try_bind (dict_get d ''fstab_version'') (\<lambda>v.
        try_bind (LoadRecoveryFSTab read_helper v
          (if \<not> contains ''RECOVERY/RAMDISK/system/etc/recovery.fstab'' then ''RECOVERY/RAMDISK/etc/recovery.fstab''
           else ''RECOVERY/RAMDISK/system/etc/recovery.fstab'')) (\<lambda>t. Inr (Some t)))
      else if map_of d ''recovery_as_boot'' = Some (VStr ''true'') then
        try_bind (dict_get d ''fstab_version'') (\<lambda>v.
        try_bind (LoadRecoveryFSTab read_helper v
          (if \<not> contains ''BOOT/RAMDISK/system/etc/recovery.fstab'' then ''BOOT/RAMDISK/etc/recovery.fstab''
           else ''BOOT/RAMDISK/system/etc/recovery.fstab'')) (\<lambda>t. Inr (Some t)))
      else Inr None)"

section \<open>Looking devices up\<close>

abbreviation dq :: char where
  "dq \<equiv> CHR 0x22"

definition quoted :: "string \<Rightarrow> string" where
  "quoted s = dq # s @ [dq]"

definition PARTITION_TYPES :: "(string, string) odict" where
  "PARTITION_TYPES = [(''ext4'', ''EMMC''), (''emmc'', ''EMMC''), (''f2fs'', ''EMMC''), (''squashfs'', ''EMMC''), (''erofs'', ''EMMC'')]"

text \<open>\<open>fstab\<close> is the value of \<open>info["fstab"]\<close>; \<open>None\<close> and the empty dictionary are false.\<close>

definition GetTypeAndDevice :: "string \<Rightarrow> fstab option \<Rightarrow> bool \<Rightarrow> (string \<times> string) res" where
  "GetTypeAndDevice mount_point fstab check_no_slot = (case fstab of
       None \<Rightarrow> Inl KeyError
     | Some [] \<Rightarrow> Inl KeyError
     | Some t \<Rightarrow>
         try_bind (if check_no_slot then try_bind (dict_get t mount_point) (\<lambda>p. py_assert (\<not> pt_slotselect p)) else Inr ()) (\<lambda>_.
         try_bind (dict_get t mount_point) (\<lambda>p.
         try_bind (dict_get PARTITION_TYPES (pt_fs_type p)) (\<lambda>ty. Inr (ty, pt_device p)))))"

definition GetTypeAndDeviceExpr :: "string \<Rightarrow> fstab option \<Rightarrow> (string \<times> string) res" where
  "GetTypeAndDeviceExpr mount_point fstab = (case fstab of
       None \<Rightarrow> Inl KeyError
     | Some [] \<Rightarrow> Inl KeyError
     | Some t \<Rightarrow>
         try_bind (dict_get t mount_point) (\<lambda>p.
         let device_expr = quoted (pt_device p);
             device_expr = (if pt_slotselect p then ''add_slot_suffix('' @ device_expr @ '')'' else device_expr) in
         try_bind (dict_get PARTITION_TYPES (pt_fs_type p)) (\<lambda>ty. Inr (ty, device_expr))))"

definition GetEntryForDevice :: "fstab option \<Rightarrow> string \<Rightarrow> partition_entry option" where
  "GetEntryForDevice fstab device = (case fstab of
       None \<Rightarrow> None
     | Some t \<Rightarrow> map_option snd (find (\<lambda>(_, p). pt_device p = device) t))"

section \<open>Printing an fstab\<close>

text \<open>The line that describes a partition, as the build writes it.\<close>

definition fstab_words :: "partition_entry \<Rightarrow> string list" where
  "fstab_words p = [pt_device p, pt_mount_point p, pt_fs_type p, (case pt_context p of None \<Rightarrow> ''ro'' | Some c \<Rightarrow> ''ro,'' @ c),
     ''length='' @ str_int (pt_length p) @ (if pt_slotselect p then '',slotselect'' else [])]"

definition word_ok :: "string \<Rightarrow> bool" where
  "word_ok w = (w \<noteq> [] \<and> (\<forall>c\<in>set w. \<not> is_space c))"

definition entry_clean :: "partition_entry \<Rightarrow> bool" where
  "entry_clean p = (word_ok (pt_device p) \<and> hd (pt_device p) \<noteq> CHR ''#'' \<and> word_ok (pt_mount_point p) \<and> word_ok (pt_fs_type p) \<and>
     (\<forall>c. pt_context p = Some c \<longrightarrow> word_ok c \<and> prefix ''context='' c \<and> CHR '','' \<notin> set c))"

lemma int_word: "c \<in> set (str_int n) \<Longrightarrow> \<not> is_space c \<and> c \<noteq> CHR '',''"
  using str_int_chars[of c n] digit_not_special[of c] by (auto simp: is_space_def)

lemma words_ok:
  assumes "entry_clean p"
  shows "\<forall>w\<in>set (fstab_words p). word_ok w"
proof -
  have l: "word_ok ''length=''" "word_ok '',slotselect''" "word_ok ''ro''" "word_ok ''ro,''" by code_simp+
  have app: "word_ok (a @ b)" if "word_ok a" "\<forall>c\<in>set b. \<not> is_space c" for a b using that by (auto simp: word_ok_def)
  have "word_ok (''length='' @ str_int (pt_length p) @ (if pt_slotselect p then '',slotselect'' else []))"
    using l(2) int_word[of _ "pt_length p"] by (intro app[OF l(1)]) (auto simp only: word_ok_def set_append Un_iff list.set(1) empty_iff split: if_splits)
  moreover have "word_ok (case pt_context p of None \<Rightarrow> ''ro'' | Some c \<Rightarrow> ''ro,'' @ c)"
  proof (cases "pt_context p")
    case (Some c)
    then have "word_ok c" using assms by (simp add: entry_clean_def)
    then have "word_ok (''ro,'' @ c)" by (intro app[OF l(4)]) (simp add: word_ok_def)
    then show ?thesis using Some by simp
  qed (use l(3) in simp)
  ultimately show ?thesis using assms unfolding fstab_words_def entry_clean_def by simp
qed

lemma strip_join:
  assumes "ws \<noteq> []" "\<forall>w\<in>set ws. word_ok w"
  shows "strip (join '' '' ws) = join '' '' ws"
proof -
  have h: "join '' '' ws \<noteq> [] \<and> hd (join '' '' ws) = hd (hd ws) \<and> last (join '' '' ws) = last (last ws)"
    using assms by (induction ws rule: induct_list012) (auto simp: word_ok_def)
  have "\<not> is_space (hd (join '' '' ws))" "\<not> is_space (last (join '' '' ws))"
    using h assms(2) hd_in_set[OF assms(1)] last_in_set[OF assms(1)] unfolding word_ok_def by (metis hd_in_set, metis last_in_set)
  then have "dropWhile is_space (join '' '' ws) = join '' '' ws" "dropWhile is_space (rev (join '' '' ws)) = rev (join '' '' ws)"
    using h by (simp_all add: dropWhile_eq_self_iff hd_rev)
  then show ?thesis by (simp add: strip_defs)
qed

lemma options_read:
  "for_each read_option (0, False) (split_on CHR '','' (''length='' @ str_int n @ (if s then '',slotselect'' else []))) = Inr (n, s)"
proof -
  have a: "CHR '','' \<notin> set (''length='' @ str_int n)" using int_word[of "CHR '',''" n] by auto
  have "split_on CHR '','' ((''length='' @ str_int n) @ CHR '','' # ''slotselect'') = [''length='' @ str_int n, ''slotselect'']"
    by (subst split_on_append_sep[OF a]) (simp add: split_on_no_sep)
  then have "split_on CHR '','' (''length='' @ str_int n @ (if s then '',slotselect'' else [])) = (''length='' @ str_int n) # (if s then [''slotselect''] else [])"
    using split_on_no_sep[OF a] by simp
  then show ?thesis by (simp add: read_option_def)
qed

lemma context_read:
  assumes "\<forall>c. ctx = Some c \<longrightarrow> prefix ''context='' c \<and> CHR '','' \<notin> set c"
  shows "read_context (case ctx of None \<Rightarrow> ''ro'' | Some c \<Rightarrow> ''ro,'' @ c) = ctx"
proof (cases ctx)
  case (Some c)
  have "split_on CHR '','' (''ro'' @ CHR '','' # c) = [''ro'', c]" using assms Some by (subst split_on_append_sep) (auto simp: split_on_no_sep)
  then show ?thesis using assms Some by (simp add: read_context_def)
qed (simp add: read_context_def)

lemma vold_free: "CHR ''v'' \<notin> set s \<Longrightarrow> \<not> str_in ''voldmanaged='' s"
  unfolding str_in_iff by (elim contrapos_nn exE) simp

lemma line_read:
  assumes "entry_clean p"
  shows "read_fstab_line d (join '' '' (fstab_words p)) = Inr (dict_set (pt_mount_point p) p d)"
proof -
  let ?l = "join '' '' (fstab_words p)" and ?o = "''length='' @ str_int (pt_length p) @ (if pt_slotselect p then '',slotselect'' else [])"
  note ok = words_ok[OF assms]
  have s: "strip ?l = ?l" by (rule strip_join) (use ok in \<open>simp_all add: fstab_words_def\<close>)
  have w: "split_ws ?l = fstab_words p" by (rule split_ws_join) (use ok in \<open>auto simp: word_ok_def\<close>)
  have ne: "?l \<noteq> []" "\<not> prefix ''#'' ?l" using assms by (cases "pt_device p"; auto simp: fstab_words_def entry_clean_def word_ok_def)+
  have "CHR ''v'' \<notin> set (str_int n)" for n using str_int_chars[of "CHR ''v''" n] by (auto simp: is_digit_def)
  then have v: "\<not> str_in ''voldmanaged='' ?o" by (intro vold_free) simp
  have c: "read_context (case pt_context p of None \<Rightarrow> ''ro'' | Some c \<Rightarrow> ''ro,'' @ c) = pt_context p"
    by (rule context_read) (use assms in \<open>auto simp: entry_clean_def\<close>)
  have e: "\<lparr>pt_mount_point = pt_mount_point p, pt_fs_type = pt_fs_type p, pt_device = pt_device p, pt_length = pt_length p,
    pt_context = pt_context p, pt_slotselect = pt_slotselect p\<rparr> = p" by simp
  show ?thesis unfolding read_fstab_line_def Let_def s w unfolding fstab_words_def list.case options_read c try_bind_simps split e
    using ne v by (simp add: fstab_words_def)
qed

datatype fstab_line = Entry partition_entry | Ignored string

fun line_text :: "fstab_line \<Rightarrow> string" where
  "line_text (Entry p) = join '' '' (fstab_words p)"
| "line_text (Ignored l) = l"

fun line_ok :: "fstab_line \<Rightarrow> bool" where
  "line_ok (Entry p) = entry_clean p"
| "line_ok (Ignored l) = (nl \<notin> set l \<and> (strip l = [] \<or> prefix ''#'' (strip l) \<or> (length (split_ws (strip l)) = 5 \<and> str_in ''voldmanaged='' (split_ws (strip l) ! 4))))"

fun line_entry :: "fstab_line \<Rightarrow> partition_entry option" where
  "line_entry (Entry p) = Some p"
| "line_entry (Ignored l) = None"

lemma ignored_read:
  assumes "line_ok (Ignored l)"
  shows "read_fstab_line d l = Inr d"
proof (cases "strip l = [] \<or> prefix ''#'' (strip l)")
  case False
  then have "length (split_ws (strip l)) = 5" "str_in ''voldmanaged='' (split_ws (strip l) ! 4)" using assms by auto
  then obtain a b c e f where w: "split_ws (strip l) = [a, b, c, e, f]" by (auto simp: length_Suc_conv numeral_eq_Suc)
  then have "str_in ''voldmanaged='' f" using \<open>str_in ''voldmanaged='' (split_ws (strip l) ! 4)\<close> by (simp del: str_in.simps)
  then show ?thesis using False unfolding read_fstab_line_def Let_def w by (simp del: str_in.simps)
qed (simp add: read_fstab_line_def)

lemma lines_read:
  "\<forall>l\<in>set ls. line_ok l \<Longrightarrow> for_each read_fstab_line d (map line_text ls) =
     Inr (foldl (\<lambda>d p. dict_set (pt_mount_point p) p d) d (List.map_filter line_entry ls))"
proof (induction ls arbitrary: d)
  case (Cons l ls)
  show ?case
  proof (cases l)
    case (Entry p)
    then show ?thesis using Cons line_read[of p d] by (simp add: map_filter_simps)
  next
    case (Ignored t)
    then show ?thesis using Cons ignored_read[of t d] by (simp add: map_filter_simps del: line_ok.simps)
  qed
qed (simp add: map_filter_simps)

lemma dict_of_distinct:
  "distinct (map pt_mount_point ps) \<Longrightarrow> set (map pt_mount_point ps) \<inter> kset d = {} \<Longrightarrow>
   foldl (\<lambda>d p. dict_set (pt_mount_point p) p d) d ps = d @ map (\<lambda>p. (pt_mount_point p, p)) ps"
proof (induction ps arbitrary: d)
  case (Cons p ps)
  have "dict_set k v d = d @ [(k, v)]" if "k \<notin> kset d" for k v using that by (induction d) auto
  then show ?case using Cons by simp
qed simp

lemma entry_one_line:
  assumes "entry_clean p"
  shows "nl \<notin> set (join '' '' (fstab_words p))"
proof -
  have "nl \<notin> set (join '' '' ws)" if "\<forall>w\<in>set ws. word_ok w" for ws
    using that by (induction ws rule: induct_list012) (auto simp: word_ok_def is_space_def)
  then show ?thesis using words_ok[OF assms] by blast
qed

section \<open>Properties\<close>

text \<open>C34: the fstab. Loading the lines that describe partitions with distinct mount points, between comments, empty lines and
  entries managed by vold, gives back exactly the partitions, in the order of the lines.\<close>

theorem fstab_roundtrip:
  assumes "ls \<noteq> []" "\<forall>l\<in>set ls. line_ok l" "distinct (map pt_mount_point (List.map_filter line_entry ls))"
    and "read_helper path = Inr (join [nl] (map line_text ls))"
  shows "LoadRecoveryFSTab read_helper (VInt 2) path = Inr (map (\<lambda>p. (pt_mount_point p, p)) (List.map_filter line_entry ls))"
proof -
  have "nl \<notin> set (line_text l)" if "l \<in> set ls" for l
    using assms(2) that by (cases l) (auto simp: entry_one_line)
  then have "split_on nl (join [nl] (map line_text ls)) = map line_text ls" using assms(1) by (intro split_on_join) auto
  then show ?thesis using lines_read[OF assms(2), of "[]"] dict_of_distinct[OF assms(3), of "[]"] assms(4) by (simp add: LoadRecoveryFSTab_def)
qed

definition system_entry :: partition_entry where
  "system_entry = \<lparr>pt_mount_point = ''/system'', pt_fs_type = ''ext4'', pt_device = ''/dev/block/system'', pt_length = 0, pt_context = None, pt_slotselect = True\<rparr>"

theorem fstab_roundtrip_witness:
  "LoadRecoveryFSTab (\<lambda>_. Inr (join [nl] (map line_text [Ignored ''# fstab'', Entry system_entry]))) (VInt 2) ''recovery.fstab'' = Inr [(''/system'', system_entry)]"
proof -
  have ok: "entry_clean system_entry"
    unfolding entry_clean_def system_entry_def by (simp add: word_ok_def is_space_def)
  have "strip ''# fstab'' = ''# fstab''" by code_simp
  then have "\<forall>l\<in>set [Ignored ''# fstab'', Entry system_entry]. line_ok l" using ok by simp
  then show ?thesis using fstab_roundtrip[of "[Ignored ''# fstab'', Entry system_entry]" "\<lambda>_. Inr (join [nl] (map line_text [Ignored ''# fstab'', Entry system_entry]))"]
    by (simp add: map_filter_simps system_entry_def)
qed

end
