(* ===== verification/Edify.thy ===== *)
theory Edify
  imports Complex_Main Fstab
begin

text \<open>
  \<open>tools/releasetools/edify_generator.py\<close>: the class \<open>EdifyGenerator\<close>, which collects the lines of an update script
  and keeps track of the mounted partitions and of the cache the update needs. Every method is a function on the
  state; an exception ends the run, so the state after it is left out. Numbers printed with \<open>%f\<close> are rationals.
  Conversions of the \<open>%\<close> operator other than \<open>%s\<close>, \<open>%d\<close> and \<open>%%\<close> are a parameter of the two methods that apply the
  operator to text from outside.
\<close>

section \<open>State\<close>

record generator =
  eg_script :: "string list"
  eg_mounts :: "string list"
  eg_required_cache :: int
  eg_info :: info_dict
  eg_fstab :: "fstab option"

text \<open>\<open>info_fstab\<close> is \<open>info.get("fstab", None)\<close>, \<open>fstab\<close> the optional argument.\<close>

definition EdifyGenerator_init :: "info_dict \<Rightarrow> fstab option \<Rightarrow> fstab option \<Rightarrow> generator" where
  "EdifyGenerator_init info info_fstab fstab = \<lparr>eg_script = [], eg_mounts = [], eg_required_cache = 0, eg_info = info,
     eg_fstab = (case fstab of None \<Rightarrow> info_fstab | Some t \<Rightarrow> Some t)\<rparr>"

definition emit :: "string \<Rightarrow> generator \<Rightarrow> generator" where
  "emit l g = g\<lparr>eg_script := eg_script g @ [l]\<rparr>"

text \<open>The fstab when it is true in a condition.\<close>

definition some_fstab :: "generator \<Rightarrow> fstab option" where
  "some_fstab g = (case eg_fstab g of None \<Rightarrow> None | Some t \<Rightarrow> if t = [] then None else Some t)"

section \<open>Text\<close>

abbreviation nul :: char where
  "nul \<equiv> CHR 0x00"

abbreviation escaped_quote :: string where
  "escaped_quote \<equiv> [CHR 0x5C, dq]"

definition getprop :: "string \<Rightarrow> string" where
  "getprop name = ''getprop('' @ quoted name @ '')''"

text \<open>The length of the group that \<open>^(.{,n})\0\<close> matches, greedily. For a negative \<open>n\<close> the braces are no repetition
  but literal text.\<close>

definition wrap_match :: "int \<Rightarrow> string \<Rightarrow> nat option" where
  "wrap_match n cmd =
     (if n < 0 then
        let lit = ''{,'' @ str_int n @ ''}'' in
        (case cmd of [] \<Rightarrow> None | c # cs \<Rightarrow> if c \<noteq> nl \<and> prefix (lit @ [nul]) cs then Some (Suc (length lit)) else None)
      else case filter (\<lambda>k. cmd ! k = nul \<and> nl \<notin> set (take k cmd)) [0..<min (Suc (nat n)) (length cmd)] of
             [] \<Rightarrow> None | ks \<Rightarrow> Some (last ks))"

text \<open>\<open>cmd.split("\0", 1)\<close>: the first part, and the rest if there is a null character.\<close>

definition split_nul :: "string \<Rightarrow> string \<times> string option" where
  "split_nul cmd = (takeWhile (\<lambda>c. c \<noteq> nul) cmd, case dropWhile (\<lambda>c. c \<noteq> nul) cmd of [] \<Rightarrow> None | _ # r \<Rightarrow> Some r)"

lemma split_nul_shorter: "split_nul cmd = (p, Some r) \<Longrightarrow> length r < length cmd"
proof -
  assume "split_nul cmd = (p, Some r)"
  then obtain c where "dropWhile (\<lambda>c. c \<noteq> nul) cmd = c # r" by (auto simp: split_nul_def split: list.splits)
  then show ?thesis using length_dropWhile_le[of "\<lambda>c. c \<noteq> nul" cmd] by simp
qed

lemma wrap_match_inside: "wrap_match n cmd = Some k \<Longrightarrow> k < length cmd"
proof (cases "n < 0")
  case True
  moreover assume "wrap_match n cmd = Some k"
  ultimately show ?thesis by (auto simp: wrap_match_def Let_def prefix_def split: list.splits if_splits)
next
  case False
  assume m: "wrap_match n cmd = Some k"
  let ?ks = "filter (\<lambda>k. cmd ! k = nul \<and> nl \<notin> set (take k cmd)) [0..<min (Suc (nat n)) (length cmd)]"
  have "?ks \<noteq> []" "k = last ?ks" using m False by (auto simp: wrap_match_def split: list.splits)
  then show ?thesis using last_in_set[of ?ks] by simp
qed

text \<open>The loop of \<open>WordWrap\<close>: the texts it appends, without the indentation and the line ends.\<close>

function wrap_loop :: "int \<Rightarrow> string \<Rightarrow> string list" where
  "wrap_loop n cmd =
     (case wrap_match n cmd of
        Some k \<Rightarrow> take k cmd # wrap_loop n (drop (Suc k) cmd)
      | None \<Rightarrow> (case split_nul cmd of
                   (p, None) \<Rightarrow> [p]
                 | (p, Some r) \<Rightarrow> p # wrap_loop n r))"
  by pat_completeness auto
termination by (relation "measure (\<lambda>(n, cmd). length cmd)") (auto dest: split_nul_shorter[OF sym] wrap_match_inside)

declare wrap_loop.simps [simp del]

text \<open>\<open>cmd.index("(")\<close>.\<close>

definition py_index_of :: "char \<Rightarrow> string \<Rightarrow> nat res" where
  "py_index_of c s = (if c \<in> set s then Inr (length (takeWhile (\<lambda>x. x \<noteq> c) s)) else Inl ValueError)"

definition WordWrap :: "string \<Rightarrow> int \<Rightarrow> string res" where
  "WordWrap cmd linelen =
     try_bind (py_index_of CHR ''('' cmd) (\<lambda>i.
     let indent = i + 1;
         out = (case wrap_loop (linelen - int indent) cmd of
                  [] \<Rightarrow> [] | l # ls \<Rightarrow> (l @ [nl]) # map (\<lambda>l. replicate indent CHR '' '' @ l @ [nl]) ls);
         text = map (\<lambda>c. if c = nul then CHR '' '' else c) (concat out) in
     Inr (rev (dropWhile (\<lambda>c. c = nl) (rev text))))"

text \<open>The \<open>%\<close> operator for a tuple of arguments.\<close>

datatype percent_arg = PInt int | PStr string

fun percent_format :: "(string \<Rightarrow> percent_arg list \<Rightarrow> string res) \<Rightarrow> string \<Rightarrow> percent_arg list \<Rightarrow> string res" where
  "percent_format other [] [] = Inr []"
| "percent_format other [] (a # as) = Inl TypeError"
| "percent_format other (c # cs) as =
     (if c \<noteq> CHR ''%'' then try_bind (percent_format other cs as) (\<lambda>t. Inr (c # t))
      else case cs of
        [] \<Rightarrow> Inl ValueError
      | d # ds \<Rightarrow>
          if d = CHR ''%'' then try_bind (percent_format other ds as) (\<lambda>t. Inr (CHR ''%'' # t))
          else if d = CHR ''s'' then
            (case as of [] \<Rightarrow> Inl TypeError
             | a # as' \<Rightarrow> try_bind (percent_format other ds as') (\<lambda>t. Inr ((case a of PInt i \<Rightarrow> str_int i | PStr x \<Rightarrow> x) @ t)))
          else if d = CHR ''d'' then
            (case as of [] \<Rightarrow> Inl TypeError | PStr _ # _ \<Rightarrow> Inl TypeError
             | PInt i # as' \<Rightarrow> try_bind (percent_format other ds as') (\<lambda>t. Inr (str_int i @ t)))
          else other (c # cs) as)"

text \<open>\<open>"%f" % q\<close>: six decimals, correctly rounded, ties to even.\<close>

definition round_even :: "rat \<Rightarrow> int" where
  "round_even q = (let f = \<lfloor>q\<rfloor>; r = q - of_int f in
     if r < 1 / 2 then f else if 1 / 2 < r then f + 1 else if even f then f else f + 1)"

definition format_f :: "rat \<Rightarrow> string" where
  "format_f q = (let n = round_even (\<bar>q\<bar> * 1000000); d = str_int (n mod 1000000) in
     (if q < 0 then ''-'' else []) @ str_int (n div 1000000) @ ''.'' @ replicate (6 - length d) CHR ''0'' @ d)"

text \<open>\<open>int(q)\<close>.\<close>

definition truncate_rat :: "rat \<Rightarrow> int" where
  "truncate_rat q = (if q < 0 then - \<lfloor>- q\<rfloor> else \<lfloor>q\<rfloor>)"

section \<open>Error codes\<close>

definition OEM_PROP_MISMATCH :: int where "OEM_PROP_MISMATCH = 3000"
definition FINGERPRINT_MISMATCH :: int where "FINGERPRINT_MISMATCH = 3001"
definition THUMBPRINT_MISMATCH :: int where "THUMBPRINT_MISMATCH = 3002"
definition OLDER_BUILD :: int where "OLDER_BUILD = 3003"
definition DEVICE_MISMATCH :: int where "DEVICE_MISMATCH = 3004"
definition BAD_PATCH_FILE :: int where "BAD_PATCH_FILE = 3005"
definition INSUFFICIENT_CACHE_SPACE :: int where "INSUFFICIENT_CACHE_SPACE = 3006"
definition TUNE_PARTITION_FAILURE :: int where "TUNE_PARTITION_FAILURE = 3007"
definition APPLY_PATCH_FAILURE :: int where "APPLY_PATCH_FAILURE = 3008"

section \<open>Assertions of the script\<close>

definition AppendScript :: "generator \<Rightarrow> generator \<Rightarrow> generator" where
  "AppendScript other g = g\<lparr>eg_script := eg_script g @ eg_script other\<rparr>"

definition AssertOemProperty :: "string \<Rightarrow> string list \<Rightarrow> bool \<Rightarrow> generator \<Rightarrow> generator res" where
  "AssertOemProperty name values oem_no_mount g =
     (if name = [] then Inl ValueError
      else if values = [] then Inl ValueError
      else
        let get_prop_command = (if oem_no_mount then getprop name else ''file_getprop('' @ quoted ''/oem/oem.prop'' @ '', '' @ quoted name @ '')'') in
        Inr (emit (concat (map (\<lambda>value. get_prop_command @ '' == '' @ quoted value @ '' || '') values) @
          ''abort('' @ [dq] @ ''E'' @ str_int OEM_PROP_MISMATCH @ '': This package expects the value '' @ escaped_quote @
          join (escaped_quote @ '' or '' @ escaped_quote) values @ escaped_quote @ '' for '' @ escaped_quote @ name @ escaped_quote @
          ''; this has value '' @ escaped_quote @ [dq] @ '' + '' @ get_prop_command @ '' + '' @ [dq] @ escaped_quote @ ''.'' @ [dq] @ '');'') g))"

text \<open>The template of \<open>AssertSomeFingerprint\<close> and \<open>AssertSomeThumbprint\<close>; the operator is applied to the whole text, with the values in it.\<close>

definition print_template :: "string \<Rightarrow> string \<Rightarrow> string list \<Rightarrow> string" where
  "print_template prop what fp =
     join ('' ||'' @ [nl] @ ''    '') (map (\<lambda>i. getprop prop @ '' == '' @ quoted i) fp) @
     '' ||'' @ [nl] @ ''    abort('' @ [dq] @ ''E%d: Package expects build '' @ what @ '' of %s; this device has '' @ [dq] @ '' + '' @
     getprop prop @ '' + '' @ [dq] @ ''.'' @ [dq] @ '');''"

definition AssertSomeFingerprint :: "(string \<Rightarrow> percent_arg list \<Rightarrow> string res) \<Rightarrow> string list \<Rightarrow> generator \<Rightarrow> generator res" where
  "AssertSomeFingerprint other fp g =
     (if fp = [] then Inl ValueError
      else try_bind (percent_format other (print_template ''ro.build.fingerprint'' ''fingerprint'' fp)
             [PInt FINGERPRINT_MISMATCH, PStr (join '' or '' fp)]) (\<lambda>cmd. Inr (emit cmd g)))"

definition AssertSomeThumbprint :: "(string \<Rightarrow> percent_arg list \<Rightarrow> string res) \<Rightarrow> string list \<Rightarrow> generator \<Rightarrow> generator res" where
  "AssertSomeThumbprint other fp g =
     (if fp = [] then Inl ValueError
      else try_bind (percent_format other (print_template ''ro.build.thumbprint'' ''thumbprint'' fp)
             [PInt THUMBPRINT_MISMATCH, PStr (join '' or '' fp)]) (\<lambda>cmd. Inr (emit cmd g)))"

definition AssertFingerprintOrThumbprint :: "string \<Rightarrow> string \<Rightarrow> generator \<Rightarrow> generator" where
  "AssertFingerprintOrThumbprint fp tp g = emit
     (getprop ''ro.build.fingerprint'' @ '' == '' @ quoted fp @ '' ||'' @ [nl] @ ''    '' @ getprop ''ro.build.thumbprint'' @ '' == '' @ quoted tp @ '' ||'' @ [nl] @
      ''    abort('' @ [dq] @ ''Package expects build fingerprint of '' @ fp @ '' or thumbprint of '' @ tp @ ''; this device has a fingerprint of '' @ [dq] @
      '' + '' @ getprop ''ro.build.fingerprint'' @ '' + '' @ [dq] @ '' and a thumbprint of '' @ [dq] @ '' + '' @ getprop ''ro.build.thumbprint'' @
      '' + '' @ [dq] @ ''.'' @ [dq] @ '');'') g"

definition AssertOlderBuild :: "string \<Rightarrow> string \<Rightarrow> generator \<Rightarrow> generator" where
  "AssertOlderBuild timestamp timestamp_text g = emit
     (''(!less_than_int('' @ timestamp @ '', '' @ getprop ''ro.build.date.utc'' @ '')) || abort('' @ [dq] @ ''E'' @ str_int OLDER_BUILD @
      '': Can'' @ [CHR 0x27] @ ''t install this package ('' @ timestamp_text @ '') over newer build ('' @ [dq] @ '' + '' @ getprop ''ro.build.date'' @ '' + '' @
      [dq] @ '').'' @ [dq] @ '');'') g"

definition AssertDevice :: "string \<Rightarrow> generator \<Rightarrow> generator" where
  "AssertDevice device g = emit
     (getprop ''ro.product.device'' @ '' == '' @ quoted device @ '' || abort('' @ [dq] @ ''E'' @ str_int DEVICE_MISMATCH @ '': This package is for '' @
      escaped_quote @ device @ escaped_quote @ '' devices; this is a '' @ escaped_quote @ [dq] @ '' + '' @ getprop ''ro.product.device'' @ '' + '' @
      [dq] @ escaped_quote @ ''.'' @ [dq] @ '');'') g"

definition AssertSomeBootloader :: "string list \<Rightarrow> generator \<Rightarrow> generator res" where
  "AssertSomeBootloader bootloaders g =
     try_bind (WordWrap (''assert('' @ join ('' ||'' @ [nul]) (map (\<lambda>b. getprop ''ro.bootloader'' @ '' == '' @ quoted b) bootloaders) @ '');'') 80)
       (\<lambda>l. Inr (emit l g))"

definition ShowProgress :: "rat \<Rightarrow> rat \<Rightarrow> generator \<Rightarrow> generator" where
  "ShowProgress fraction dur g = emit (''show_progress('' @ format_f fraction @ '', '' @ str_int (truncate_rat dur) @ '');'') g"

definition SetProgress :: "rat \<Rightarrow> generator \<Rightarrow> generator" where
  "SetProgress fraction g = emit (''set_progress('' @ format_f fraction @ '');'') g"

section \<open>Patches\<close>

definition CheckSecondTokenNotSlotSuffixed :: "string \<Rightarrow> generator \<Rightarrow> unit res" where
  "CheckSecondTokenNotSlotSuffixed s g = (let lst = split_on CHR '':'' s in
     try_bind (py_assert (length lst = 4)) (\<lambda>_.
       case some_fstab g of
         None \<Rightarrow> Inr ()
       | Some t \<Rightarrow> (case GetEntryForDevice (Some t) (lst ! 1) of
           None \<Rightarrow> Inr ()
         | Some entry \<Rightarrow> py_assert (\<not> pt_slotselect entry))))"

definition PatchPartitionExprCheck :: "string \<Rightarrow> string \<Rightarrow> generator \<Rightarrow> generator res" where
  "PatchPartitionExprCheck target_expr source_expr g =
     try_bind (WordWrap (''patch_partition_check('' @ target_expr @ '','' @ [nul] @ source_expr @ '') ||'' @ [nl] @ ''    abort(concat('' @ [dq] @ ''E'' @
        str_int BAD_PATCH_FILE @ '': '' @ escaped_quote @ [dq] @ '','' @ target_expr @ '','' @ [dq] @ escaped_quote @ '' or '' @ escaped_quote @ [dq] @ '','' @
        source_expr @ '','' @ [dq] @ escaped_quote @ '' has unexpected contents.'' @ [dq] @ ''));'') 80)
       (\<lambda>l. Inr (emit l g))"

definition PatchPartitionCheck :: "string \<Rightarrow> string \<Rightarrow> generator \<Rightarrow> generator res" where
  "PatchPartitionCheck target src g =
     try_bind (CheckSecondTokenNotSlotSuffixed target g) (\<lambda>_.
     try_bind (CheckSecondTokenNotSlotSuffixed src g) (\<lambda>_.
       PatchPartitionExprCheck (quoted target) (quoted src) g))"

text \<open>The old format \<open>EMMC:device:size:sha1:size:sha1\<close>, as the source and the target.\<close>

definition patch_tokens :: "string \<Rightarrow> (string \<times> string \<times> string list) res" where
  "patch_tokens filename = (let tokens = split_on CHR '':'' filename in
     if length tokens = 6 \<and> tokens ! 0 = ''EMMC'' then
       Inr (join '':'' [tokens ! 0, tokens ! 1, tokens ! 2, tokens ! 3], join '':'' [tokens ! 0, tokens ! 1, tokens ! 4, tokens ! 5], tokens)
     else Inl AssertionError)"

definition PatchCheck :: "string \<Rightarrow> generator \<Rightarrow> generator res" where
  "PatchCheck filename g = try_bind (patch_tokens filename) (\<lambda>(src, target, _). PatchPartitionCheck target src g)"

definition PatchPartitionExpr :: "string \<Rightarrow> string \<Rightarrow> string \<Rightarrow> generator \<Rightarrow> generator res" where
  "PatchPartitionExpr target_expr source_expr patch_expr g =
     try_bind (WordWrap (''patch_partition('' @ target_expr @ '','' @ [nul] @ source_expr @ '','' @ [nul] @ ''package_extract_file('' @ patch_expr @ '')) ||'' @ [nl] @
        ''    abort(concat(        '' @ [dq] @ ''E'' @ str_int APPLY_PATCH_FAILURE @ '': Failed to apply patch to '' @ [dq] @ '','' @ source_expr @ ''));'') 80)
       (\<lambda>l. Inr (emit l g))"

definition PatchPartition :: "string \<Rightarrow> string \<Rightarrow> string \<Rightarrow> generator \<Rightarrow> generator res" where
  "PatchPartition target src patch g =
     try_bind (CheckSecondTokenNotSlotSuffixed target g) (\<lambda>_.
     try_bind (CheckSecondTokenNotSlotSuffixed src g) (\<lambda>_.
       PatchPartitionExpr (quoted target) (quoted src) (quoted patch) g))"

definition ApplyPatch :: "string \<Rightarrow> string \<Rightarrow> int \<Rightarrow> string \<Rightarrow> string list \<Rightarrow> generator \<Rightarrow> generator res" where
  "ApplyPatch srcfile tgtfile tgtsize tgtsha1 patchpairs g =
     try_bind (patch_tokens srcfile) (\<lambda>(src, target, tokens).
     try_bind (py_assert (tgtfile = ''-'' \<and> length patchpairs = 2)) (\<lambda>_.
     try_bind (py_assert (tokens ! 3 = patchpairs ! 0)) (\<lambda>_.
     try_bind (py_int (tokens ! 4)) (\<lambda>n.
     try_bind (py_assert (n = tgtsize)) (\<lambda>_.
     try_bind (py_assert (tokens ! 5 = tgtsha1)) (\<lambda>_.
       PatchPartition target src (patchpairs ! 1) g))))))"

definition CacheFreeSpaceCheck :: "int \<Rightarrow> generator \<Rightarrow> generator" where
  "CacheFreeSpaceCheck amount g = emit
     (''apply_patch_space('' @ str_int amount @ '') || abort('' @ [dq] @ ''E'' @ str_int INSUFFICIENT_CACHE_SPACE @
      '': Not enough free space on /cache to apply patches.'' @ [dq] @ '');'') (g\<lparr>eg_required_cache := max (eg_required_cache g) amount\<rparr>)"

section \<open>Partitions\<close>

definition GetSlotSuffixDeviceForEntry :: "partition_entry option \<Rightarrow> string res" where
  "GetSlotSuffixDeviceForEntry entry = (case entry of
       None \<Rightarrow> Inl AssertionError
     | Some p \<Rightarrow> if pt_slotselect p then Inr (''add_slot_suffix('' @ quoted (pt_device p) @ '')'') else Inr (quoted (pt_device p)))"

definition mount_options :: "string option \<Rightarrow> (string, string) odict" where
  "mount_options mount_options_by_format = (case mount_options_by_format of
       None \<Rightarrow> []
     | Some opts \<Rightarrow> foldl (\<lambda>d option. if str_in ''='' option then (case split_once ''='' option of (key, value) \<Rightarrow> dict_set key value d) else d)
         [] (split_on CHR ''|'' opts))"

definition mount_call :: "partition_entry \<Rightarrow> string \<Rightarrow> string \<Rightarrow> string \<Rightarrow> string" where
  "mount_call p ty device flags = ''mount('' @ join '', '' [quoted (pt_fs_type p), quoted ty, device, quoted (pt_mount_point p), quoted flags] @ '');''"

definition Mount :: "string \<Rightarrow> string option \<Rightarrow> generator \<Rightarrow> generator res" where
  "Mount mount_point mount_options_by_format g = (case some_fstab g of
       None \<Rightarrow> Inr g
     | Some t \<Rightarrow>
         try_bind (dict_get t mount_point) (\<lambda>p.
         let mount_flags = (case map_of (mount_options mount_options_by_format) (pt_fs_type p) of None \<Rightarrow> [] | Some v \<Rightarrow> v);
             mount_flags = (case pt_context p of None \<Rightarrow> mount_flags | Some c \<Rightarrow> c @ (if mount_flags \<noteq> [] then '','' @ mount_flags else [])) in
         try_bind (dict_get PARTITION_TYPES (pt_fs_type p)) (\<lambda>ty.
         try_bind (GetSlotSuffixDeviceForEntry (Some p)) (\<lambda>device.
           Inr ((emit (mount_call p ty device mount_flags) g)\<lparr>eg_mounts := oset_add (eg_mounts g) (pt_mount_point p)\<rparr>)))))"

definition Comment :: "string \<Rightarrow> generator \<Rightarrow> generator" where
  "Comment comment g = g\<lparr>eg_script := eg_script g @ [[]] @ map (\<lambda>i. ''# '' @ i) (split_on nl comment) @ [[]]\<rparr>"

definition Print :: "string \<Rightarrow> generator \<Rightarrow> generator" where
  "Print message g = emit (''ui_print('' @ quoted message @ '');'') g"

text \<open>Without an fstab the variable \<open>p\<close> is not bound.\<close>

definition TunePartition :: "string \<Rightarrow> string list \<Rightarrow> generator \<Rightarrow> generator res" where
  "TunePartition part options g =
     try_bind (case some_fstab g of None \<Rightarrow> Inl NameError
       | Some t \<Rightarrow> try_bind (dict_get t part) (\<lambda>p. if pt_fs_type p \<notin> {''ext2'', ''ext3'', ''ext4''} then Inl ValueError else Inr p)) (\<lambda>p.
     try_bind (GetSlotSuffixDeviceForEntry (Some p)) (\<lambda>device.
       Inr (emit (''tune2fs('' @ concat (map (\<lambda>i. quoted i @ '', '') options) @ device @ '') || abort('' @ [dq] @ ''E'' @ str_int TUNE_PARTITION_FAILURE @
         '': Failed to tune partition '' @ part @ [dq] @ '');'') g)))"

definition FormatPartition :: "string \<Rightarrow> generator \<Rightarrow> generator res" where
  "FormatPartition part g = (case some_fstab g of
       None \<Rightarrow> Inr g
     | Some t \<Rightarrow>
         try_bind (dict_get t part) (\<lambda>p.
         try_bind (dict_get PARTITION_TYPES (pt_fs_type p)) (\<lambda>ty.
         try_bind (GetSlotSuffixDeviceForEntry (Some p)) (\<lambda>device.
           Inr (emit (''format('' @ join '', '' [quoted (pt_fs_type p), quoted ty, device, quoted (str_int (pt_length p)), quoted (pt_mount_point p)] @ '');'') g)))))"

definition WipeBlockDevice :: "string \<Rightarrow> generator \<Rightarrow> generator res" where
  "WipeBlockDevice part g =
     (if part \<notin> {''/system'', ''/vendor''} then Inl ValueError
      else
        let sz = map_of (eg_info g) (dropWhile (\<lambda>c. c = CHR ''/'') part @ ''_size'') in
        try_bind (case eg_fstab g of None \<Rightarrow> Inl TypeError | Some t \<Rightarrow> dict_get t part) (\<lambda>p.
        try_bind (GetSlotSuffixDeviceForEntry (Some p)) (\<lambda>device.
          Inr (emit (''wipe_block_device('' @ device @ '', '' @ (case sz of None \<Rightarrow> ''None'' | Some v \<Rightarrow> to_str v) @ '');'') g))))"

definition WriteRawImage :: "string \<Rightarrow> string \<Rightarrow> string option \<Rightarrow> generator \<Rightarrow> generator res" where
  "WriteRawImage mount_point fn mapfn g = (case some_fstab g of
       None \<Rightarrow> Inr g
     | Some t \<Rightarrow>
         try_bind (dict_get t mount_point) (\<lambda>p.
         try_bind (dict_get PARTITION_TYPES (pt_fs_type p)) (\<lambda>partition_type.
         try_bind (GetSlotSuffixDeviceForEntry (Some p)) (\<lambda>device.
           if partition_type = ''EMMC'' then
             (case mapfn of
                Some (c # cs) \<Rightarrow> Inr (emit (''package_extract_file('' @ quoted fn @ '', '' @ device @ '', '' @ quoted (c # cs) @ '');'') g)
              | _ \<Rightarrow> Inr (emit (''package_extract_file('' @ quoted fn @ '', '' @ device @ '');'') g))
           else Inl ValueError))))"

definition AppendExtra :: "string \<Rightarrow> generator \<Rightarrow> generator" where
  "AppendExtra extra g = emit extra g"

definition unmount_call :: "string \<Rightarrow> string" where
  "unmount_call mount_point = ''unmount('' @ quoted mount_point @ '');''"

definition Unmount :: "string \<Rightarrow> generator \<Rightarrow> generator res" where
  "Unmount mount_point g =
     (if mount_point \<in> set (eg_mounts g) then Inr ((emit (unmount_call mount_point) g)\<lparr>eg_mounts := removeAll mount_point (eg_mounts g)\<rparr>)
      else Inl KeyError)"

definition UnmountAll :: "generator \<Rightarrow> generator" where
  "UnmountAll g = g\<lparr>eg_script := eg_script g @ map unmount_call (sort (eg_mounts g)), eg_mounts := []\<rparr>"

text \<open>\<open>AddToZip\<close>: the entries it adds, with their permissions. \<open>read_zip\<close> reads a member of the input, \<open>read_file\<close> a local file.\<close>

definition AddToZip :: "(string \<Rightarrow> string res) \<Rightarrow> (string \<Rightarrow> string res) \<Rightarrow> string option \<Rightarrow> generator \<Rightarrow> (generator \<times> (string \<times> string \<times> int option) list) res" where
  "AddToZip read_zip read_file input_path g = (let g' = UnmountAll g in
     try_bind (case input_path of None \<Rightarrow> read_zip ''OTA/bin/updater'' | Some p \<Rightarrow> read_file p) (\<lambda>data.
       Inr (g', [(''META-INF/com/google/android/updater-script'', join [nl] (eg_script g') @ [nl], None),
                 (''META-INF/com/google/android/update-binary'', data, Some 493)])))"

section \<open>Runs\<close>

text \<open>The methods as steps; \<open>other\<close> is the rest of the \<open>%\<close> operator.\<close>

datatype edify_op =
    OpAppendScript generator | OpAssertOemProperty string "string list" bool | OpAssertSomeFingerprint "string list" | OpAssertSomeThumbprint "string list"
  | OpAssertFingerprintOrThumbprint string string | OpAssertOlderBuild string string | OpAssertDevice string | OpAssertSomeBootloader "string list"
  | OpShowProgress rat rat | OpSetProgress rat | OpPatchCheck string | OpPatchPartitionCheck string string | OpPatchPartitionExprCheck string string
  | OpCacheFreeSpaceCheck int | OpMount string "string option" | OpComment string | OpPrint string | OpTunePartition string "string list"
  | OpFormatPartition string | OpWipeBlockDevice string | OpApplyPatch string string int string "string list" | OpPatchPartition string string string
  | OpPatchPartitionExpr string string string | OpWriteRawImage string string "string option" | OpAppendExtra string | OpUnmount string | OpUnmountAll

fun edify_step :: "(string \<Rightarrow> percent_arg list \<Rightarrow> string res) \<Rightarrow> generator \<Rightarrow> edify_op \<Rightarrow> generator res" where
  "edify_step other g (OpAppendScript s) = Inr (AppendScript s g)"
| "edify_step other g (OpAssertOemProperty n vs m) = AssertOemProperty n vs m g"
| "edify_step other g (OpAssertSomeFingerprint fp) = AssertSomeFingerprint other fp g"
| "edify_step other g (OpAssertSomeThumbprint fp) = AssertSomeThumbprint other fp g"
| "edify_step other g (OpAssertFingerprintOrThumbprint fp tp) = Inr (AssertFingerprintOrThumbprint fp tp g)"
| "edify_step other g (OpAssertOlderBuild t s) = Inr (AssertOlderBuild t s g)"
| "edify_step other g (OpAssertDevice d) = Inr (AssertDevice d g)"
| "edify_step other g (OpAssertSomeBootloader bs) = AssertSomeBootloader bs g"
| "edify_step other g (OpShowProgress f d) = Inr (ShowProgress f d g)"
| "edify_step other g (OpSetProgress f) = Inr (SetProgress f g)"
| "edify_step other g (OpPatchCheck f) = PatchCheck f g"
| "edify_step other g (OpPatchPartitionCheck t s) = PatchPartitionCheck t s g"
| "edify_step other g (OpPatchPartitionExprCheck t s) = PatchPartitionExprCheck t s g"
| "edify_step other g (OpCacheFreeSpaceCheck n) = Inr (CacheFreeSpaceCheck n g)"
| "edify_step other g (OpMount m opts) = Mount m opts g"
| "edify_step other g (OpComment c) = Inr (Comment c g)"
| "edify_step other g (OpPrint m) = Inr (Print m g)"
| "edify_step other g (OpTunePartition p opts) = TunePartition p opts g"
| "edify_step other g (OpFormatPartition p) = FormatPartition p g"
| "edify_step other g (OpWipeBlockDevice p) = WipeBlockDevice p g"
| "edify_step other g (OpApplyPatch s t n h ps) = ApplyPatch s t n h ps g"
| "edify_step other g (OpPatchPartition t s p) = PatchPartition t s p g"
| "edify_step other g (OpPatchPartitionExpr t s p) = PatchPartitionExpr t s p g"
| "edify_step other g (OpWriteRawImage m f mp) = WriteRawImage m f mp g"
| "edify_step other g (OpAppendExtra e) = Inr (AppendExtra e g)"
| "edify_step other g (OpUnmount m) = Unmount m g"
| "edify_step other g OpUnmountAll = Inr (UnmountAll g)"

abbreviation edify_run :: "(string \<Rightarrow> percent_arg list \<Rightarrow> string res) \<Rightarrow> generator \<Rightarrow> edify_op list \<Rightarrow> generator res" where
  "edify_run other \<equiv> for_each (edify_step other)"

section \<open>What the script mounts\<close>

text \<open>The effect of a line of the script on the mounted partitions: the fourth argument of \<open>mount\<close>, the argument of \<open>unmount\<close>.\<close>

definition run_line :: "string list \<Rightarrow> string \<Rightarrow> string list" where
  "run_line ms l = (let ts = split_on dq l in
     if prefix ''mount('' l \<and> 7 < length ts then oset_add ms (ts ! 7)
     else if prefix ''unmount('' l \<and> 1 < length ts then removeAll (ts ! 1) ms
     else ms)"

abbreviation mounted_after :: "string list \<Rightarrow> string list" where
  "mounted_after ls \<equiv> foldl run_line [] ls"

definition neutral :: "string \<Rightarrow> bool" where
  "neutral l = (\<not> prefix ''mount('' l \<and> \<not> prefix ''unmount('' l)"

definition unquoted :: "partition_entry \<Rightarrow> bool" where
  "unquoted p = (dq \<notin> set (pt_mount_point p) \<and> dq \<notin> set (pt_fs_type p) \<and> dq \<notin> set (pt_device p))"

lemma neutral_line [simp]: "neutral l \<Longrightarrow> run_line ms l = ms"
  by (simp add: neutral_def run_line_def Let_def)

lemma neutral_lines: "\<forall>l\<in>set ls. neutral l \<Longrightarrow> foldl run_line ms ls = ms"
  by (induction ls) auto

lemma unmount_line: "dq \<notin> set m \<Longrightarrow> run_line ms (unmount_call m) = removeAll m ms"
proof -
  assume m: "dq \<notin> set m"
  have "split_on dq (''unmount('' @ dq # m @ dq # '');'') = [''unmount('', m, '');'']"
    by (subst split_on_append_sep, simp, subst split_on_append_sep[OF m]) simp
  then show ?thesis unfolding run_line_def unmount_call_def quoted_def Let_def by simp
qed

lemma mount_line:
  assumes "unquoted p" "dq \<notin> set ty" "GetSlotSuffixDeviceForEntry (Some p) = Inr device"
  shows "run_line ms (mount_call p ty device flags) = oset_add ms (pt_mount_point p)"
proof -
  have q: "dq \<notin> set (pt_fs_type p)" "dq \<notin> set (pt_mount_point p)" "dq \<notin> set (pt_device p)" using assms(1) by (auto simp: unquoted_def)
  obtain a b where d: "device = a @ dq # pt_device p @ dq # b" "dq \<notin> set a" "dq \<notin> set b"
    using assms(3) by (auto simp: GetSlotSuffixDeviceForEntry_def quoted_def split: if_splits intro: that[of "''add_slot_suffix(''" "'')''"] that[of "[]" "[]"])
  have c: "dq \<notin> set ('', '' @ a)" "dq \<notin> set (b @ '', '')" "dq \<notin> set '', ''" "dq \<notin> set ''mount(''" using d by auto
  have e: "mount_call p ty device flags = ''mount('' @ dq # pt_fs_type p @ dq # '', '' @ dq # ty @ dq # ('', '' @ a) @ dq # pt_device p @ dq # (b @ '', '') @ dq # pt_mount_point p @ dq # '', '' @ quoted flags @ '');''"
    unfolding mount_call_def d quoted_def by simp
  have "split_on dq (mount_call p ty device flags) = [''mount('', pt_fs_type p, '', '', ty, '', '' @ a, pt_device p, b @ '', '', pt_mount_point p] @ split_on dq ('', '' @ quoted flags @ '');'')"
    unfolding e split_on_append_sep[OF c(4)] split_on_append_sep[OF q(1)] split_on_append_sep[OF c(3)] split_on_append_sep[OF assms(2)]
      split_on_append_sep[OF c(1)] split_on_append_sep[OF q(3)] split_on_append_sep[OF c(2)] split_on_append_sep[OF q(2)] by simp
  then have "7 < length (split_on dq (mount_call p ty device flags))" "split_on dq (mount_call p ty device flags) ! 7 = pt_mount_point p" by simp_all
  moreover have "prefix ''mount('' (mount_call p ty device flags)" unfolding mount_call_def by simp
  ultimately show ?thesis unfolding run_line_def Let_def by simp
qed

section \<open>Wrapping\<close>

lemma wrap_match_nul: "wrap_match n cmd = Some k \<Longrightarrow> cmd ! k = nul \<and> (0 \<le> n \<longrightarrow> int k \<le> n) \<and> (n < 0 \<longrightarrow> 0 < k)"
proof (cases "n < 0")
  case True
  moreover assume "wrap_match n cmd = Some k"
  ultimately show ?thesis by (auto simp: wrap_match_def Let_def prefix_def nth_append split: list.splits if_splits)
next
  case False
  assume m: "wrap_match n cmd = Some k"
  let ?ks = "filter (\<lambda>k. cmd ! k = nul \<and> nl \<notin> set (take k cmd)) [0..<min (Suc (nat n)) (length cmd)]"
  have "?ks \<noteq> []" "k = last ?ks" using m False by (auto simp: wrap_match_def split: list.splits)
  then have "k \<in> set ?ks" using last_in_set[of ?ks] by simp
  then show ?thesis using False by auto
qed

lemma wrap_match_none: "0 \<le> n \<Longrightarrow> wrap_match n cmd = None \<Longrightarrow> k < length cmd \<Longrightarrow> cmd ! k = nul \<Longrightarrow> nl \<notin> set (take k cmd) \<Longrightarrow> n < int k"
  by (auto simp: wrap_match_def filter_empty_conv min_def split: list.splits if_splits)

lemma split_nul_simps [simp]:
  "split_nul [] = ([], None)"
  "split_nul (c # cs) = (if c = nul then ([], Some cs) else case split_nul cs of (p, r) \<Rightarrow> (c # p, r))"
  by (simp_all add: split_nul_def)

lemma split_nul_text:
  "split_nul cmd = (p, None) \<Longrightarrow> p = cmd \<and> nul \<notin> set cmd"
  "split_nul cmd = (p, Some r) \<Longrightarrow> cmd = p @ nul # r \<and> nul \<notin> set p"
  by (induction cmd arbitrary: p) (auto split: if_splits prod.splits)

lemma join_cons: "ls \<noteq> [] \<Longrightarrow> join s (l # ls) = l @ s @ join s ls"
  by (cases ls) auto

text \<open>The texts are the parameters in order: cut at null characters only, the last one without a null character, and
  each either a single parameter or within the length.\<close>

lemma wrap_loop_spec:
  "wrap_loop n cmd \<noteq> [] \<and> join [nul] (wrap_loop n cmd) = cmd \<and> nul \<notin> set (last (wrap_loop n cmd)) \<and>
   (0 \<le> n \<longrightarrow> (\<forall>l\<in>set (wrap_loop n cmd). nul \<notin> set l \<or> int (length l) \<le> n))"
proof (induction n cmd rule: wrap_loop.induct)
  case (1 n cmd)
  show ?case
  proof (cases "wrap_match n cmd")
    case (Some k)
    note k = wrap_match_inside[OF Some] wrap_match_nul[OF Some] and ih = 1(2)[OF Some]
    have c: "cmd = take k cmd @ nul # drop (Suc k) cmd" using id_take_nth_drop[OF k(1)] k(2) by simp
    have w: "wrap_loop n cmd = take k cmd # wrap_loop n (drop (Suc k) cmd)" using Some by (simp add: wrap_loop.simps[of n cmd])
    have "join [nul] (wrap_loop n cmd) = cmd" unfolding w using ih c join_cons by simp
    then show ?thesis using ih k unfolding w by auto
  next
    case None
    show ?thesis
    proof (cases "split_nul cmd")
      case (Pair p o')
      show ?thesis
      proof (cases o')
        case None
        then show ?thesis using \<open>wrap_match n cmd = None\<close> Pair split_nul_text(1)[of cmd p] by (simp add: wrap_loop.simps[of n cmd])
      next
        case (Some r)
        then have s: "split_nul cmd = (p, Some r)" using Pair by simp
        note ih = 1(1)[OF \<open>wrap_match n cmd = None\<close> s[symmetric] refl]
        have w: "wrap_loop n cmd = p # wrap_loop n r" using \<open>wrap_match n cmd = None\<close> s by (simp add: wrap_loop.simps[of n cmd])
        then show ?thesis using ih split_nul_text(2)[OF s] join_cons[of "wrap_loop n r" "[nul]" p] by auto
      qed
    qed
  qed
qed

definition strip_nl :: "string \<Rightarrow> string" where
  "strip_nl s = rev (dropWhile (\<lambda>c. c = nl) (rev s))"

lemma WordWrap_spec:
  assumes "CHR ''('' \<in> set cmd"
  defines "indent \<equiv> Suc (length (takeWhile (\<lambda>c. c \<noteq> CHR ''('') cmd))"
  shows "WordWrap cmd linelen = Inr (strip_nl (map (\<lambda>c. if c = nul then CHR '' '' else c)
    (join (nl # replicate indent CHR '' '') (wrap_loop (linelen - int indent) cmd) @ [nl])))"
proof -
  have j: "concat ((l @ [nl]) # map (\<lambda>l. s @ l @ [nl]) ls) = join (nl # s) (l # ls) @ [nl]" for l ls and s :: string
    by (induction ls arbitrary: l) auto
  obtain l ls where w: "wrap_loop (linelen - int indent) cmd = l # ls" using wrap_loop_spec[of "linelen - int indent" cmd] by (cases "wrap_loop (linelen - int indent) cmd") auto
  show ?thesis unfolding WordWrap_def py_index_of_def Let_def using assms(1) w j[of l "replicate indent CHR '' ''" ls] by (simp add: strip_nl_def indent_def)
qed

section \<open>Lines that do not mount\<close>

lemma neutral_hd: "l = [] \<or> hd l \<noteq> CHR ''m'' \<and> hd l \<noteq> CHR ''u'' \<Longrightarrow> neutral l"
  by (cases l) (auto simp: neutral_def)

lemma join_hd: "ls \<noteq> [] \<Longrightarrow> hd ls \<noteq> [] \<Longrightarrow> join s ls \<noteq> [] \<and> hd (join s ls) = hd (hd ls)"
  by (induction ls rule: induct_list012) auto

lemma WordWrap_hd:
  assumes "WordWrap cmd n = Inr l" "cmd \<noteq> []" "hd cmd \<noteq> nul" "hd cmd \<noteq> nl"
  shows "l \<noteq> [] \<and> hd l = hd cmd"
proof -
  have p: "CHR ''('' \<in> set cmd" using assms(1) by (auto simp: WordWrap_def py_index_of_def split: if_splits)
  let ?i = "Suc (length (takeWhile (\<lambda>c. c \<noteq> CHR ''('') cmd))" and ?f = "\<lambda>c. if c = nul then CHR '' '' else c"
  let ?ls = "wrap_loop (n - int ?i) cmd"
  note s = wrap_loop_spec[of "n - int ?i" cmd]
  have ne: "?ls \<noteq> []" using s by blast
  have "hd ?ls \<noteq> []" "hd (hd ?ls) = hd cmd"
  proof -
    have j: "join [nul] ?ls = cmd" using s by blast
    then show h: "hd ?ls \<noteq> []" using ne assms(2,3) by (cases ?ls rule: list.exhaust[case_names Nil Cons]; cases "tl ?ls") auto
    show "hd (hd ?ls) = hd cmd" using join_hd[OF ne h, of "[nul]"] j by simp
  qed
  then obtain t where t: "join (nl # replicate ?i CHR '' '') ?ls = hd cmd # t" using join_hd[OF ne, of "nl # replicate ?i CHR '' ''"] by (metis list.collapse)
  have l: "l = strip_nl (map ?f ((hd cmd # t) @ [nl]))" using WordWrap_spec[OF p, of n] assms(1) t by simp
  have "strip_nl (c # xs) \<noteq> [] \<and> hd (strip_nl (c # xs)) = c" if "c \<noteq> nl" for c xs
  proof -
    have "dropWhile (\<lambda>c. c = nl) (rev xs @ [c]) = dropWhile (\<lambda>c. c = nl) (rev xs) @ [c]" using that by (simp add: dropWhile_append)
    then show ?thesis by (simp add: strip_nl_def)
  qed
  then show ?thesis unfolding l using assms(3,4) by simp
qed

lemma percent_hd:
  assumes "percent_format other cs as = Inr l" "cs \<noteq> []" "hd cs \<noteq> CHR ''%''"
  shows "l \<noteq> [] \<and> hd l = hd cs"
  using assms by (cases cs) auto

text \<open>A step that adds lines which do not mount or unmount anything.\<close>

definition quiet :: "generator \<Rightarrow> generator \<Rightarrow> bool" where
  "quiet g g' = (eg_mounts g' = eg_mounts g \<and> eg_fstab g' = eg_fstab g \<and> eg_required_cache g' = eg_required_cache g \<and> (\<exists>ls. eg_script g' = eg_script g @ ls \<and> (\<forall>l\<in>set ls. neutral l)))"

lemma quiet_refl [simp]: "quiet g g"
  by (auto simp: quiet_def)

lemma quiet_emit: "neutral l \<Longrightarrow> quiet g (emit l g)"
  by (auto simp: quiet_def emit_def)

lemma quiet_emit_hd: "l \<noteq> [] \<Longrightarrow> hd l \<noteq> CHR ''m'' \<Longrightarrow> hd l \<noteq> CHR ''u'' \<Longrightarrow> quiet g (emit l g)"
  by (intro quiet_emit neutral_hd) simp

lemma quiet_wrap:
  assumes "try_bind (WordWrap cmd n) (\<lambda>l. Inr (emit l g)) = Inr g'" "cmd \<noteq> []" "hd cmd \<notin> {nul, nl, CHR ''m'', CHR ''u''}"
  shows "quiet g g'"
  using assms WordWrap_hd[of cmd n] by (auto intro!: quiet_emit_hd)

lemma quiet_percent:
  assumes "try_bind (percent_format other cs as) (\<lambda>l. Inr (emit l g)) = Inr g'" "cs \<noteq> []" "hd cs \<notin> {CHR ''%'', CHR ''m'', CHR ''u''}"
  shows "quiet g g'"
  using assms percent_hd[of other cs as] by (auto intro!: quiet_emit_hd)

lemma template_hd: "fp \<noteq> [] \<Longrightarrow> print_template p w fp \<noteq> [] \<and> hd (print_template p w fp) = CHR ''g''"
  using join_hd[of "map (\<lambda>i. getprop p @ '' == '' @ quoted i) fp" "'' ||'' @ [nl] @ ''    ''"]
  by (auto simp: print_template_def getprop_def hd_map hd_append)

lemmas emit_texts = AssertFingerprintOrThumbprint_def AssertOlderBuild_def AssertDevice_def ShowProgress_def SetProgress_def Print_def getprop_def

lemma quiet_plain:
  "quiet g (AssertFingerprintOrThumbprint fp tp g)" "quiet g (AssertOlderBuild t s g)" "quiet g (AssertDevice d g)"
  "quiet g (ShowProgress f du g)" "quiet g (SetProgress f g)" "quiet g (Comment c g)"
  by (simp_all add: emit_texts quiet_emit_hd) (auto simp: Comment_def quiet_def neutral_def)

lemma quiet_print: "quiet g (Print m g)"
  unfolding Print_def by (rule quiet_emit) (simp add: neutral_def)

lemma quiet_oem: "AssertOemProperty n vs b g = Inr g' \<Longrightarrow> quiet g g'"
  by (cases vs) (auto simp: AssertOemProperty_def Let_def getprop_def intro!: quiet_emit_hd split: if_splits)

lemma quiet_prints:
  "AssertSomeFingerprint other fp g = Inr g' \<Longrightarrow> quiet g g'" "AssertSomeThumbprint other fp g = Inr g' \<Longrightarrow> quiet g g'"
proof -
  have q: "quiet g g'" if "(if fp = [] then Inl ValueError else try_bind (percent_format other (print_template p w fp) as) (\<lambda>cmd. Inr (emit cmd g))) = Inr g'" for p w as
  proof (cases "fp = []")
    case False
    then show ?thesis using that template_hd[OF False, of p w] by (intro quiet_percent[of other "print_template p w fp" as]) auto
  qed (use that in simp)
  show "AssertSomeFingerprint other fp g = Inr g' \<Longrightarrow> quiet g g'" "AssertSomeThumbprint other fp g = Inr g' \<Longrightarrow> quiet g g'"
    unfolding AssertSomeFingerprint_def AssertSomeThumbprint_def by (erule q)+
qed

lemma quiet_patches:
  "AssertSomeBootloader bs g = Inr g' \<Longrightarrow> quiet g g'" "PatchPartitionExprCheck t s g = Inr g' \<Longrightarrow> quiet g g'" "PatchPartitionExpr t s p g = Inr g' \<Longrightarrow> quiet g g'"
  unfolding AssertSomeBootloader_def PatchPartitionExprCheck_def PatchPartitionExpr_def by (erule quiet_wrap; simp)+

lemma quiet_more_patches:
  "PatchPartitionCheck t s g = Inr g' \<Longrightarrow> quiet g g'" "PatchPartition t s p g = Inr g' \<Longrightarrow> quiet g g'"
  "PatchCheck f g = Inr g' \<Longrightarrow> quiet g g'" "ApplyPatch f u n h ps g = Inr g' \<Longrightarrow> quiet g g'"
proof -
  show c: "PatchPartitionCheck t s g = Inr g' \<Longrightarrow> quiet g g'" for t s unfolding PatchPartitionCheck_def by (elim try_bind_InrE quiet_patches)
  show p: "PatchPartition t s p g = Inr g' \<Longrightarrow> quiet g g'" for t s p unfolding PatchPartition_def by (elim try_bind_InrE quiet_patches)
  show "PatchCheck f g = Inr g' \<Longrightarrow> quiet g g'" unfolding PatchCheck_def by (elim try_bind_InrE) (auto intro: c split: prod.splits)
  show "ApplyPatch f u n h ps g = Inr g' \<Longrightarrow> quiet g g'" unfolding ApplyPatch_def by (elim try_bind_InrE) (auto intro: p split: prod.splits)
qed

lemma quiet_partitions:
  "TunePartition p opts g = Inr g' \<Longrightarrow> quiet g g'" "FormatPartition p g = Inr g' \<Longrightarrow> quiet g g'"
  "WipeBlockDevice p g = Inr g' \<Longrightarrow> quiet g g'" "WriteRawImage p f mf g = Inr g' \<Longrightarrow> quiet g g'"
proof -
  show "TunePartition p opts g = Inr g' \<Longrightarrow> quiet g g'" unfolding TunePartition_def by (elim try_bind_InrE) (auto intro!: quiet_emit_hd)
  show "FormatPartition p g = Inr g' \<Longrightarrow> quiet g g'" unfolding FormatPartition_def by (auto intro!: quiet_emit_hd split: option.splits)
  show "WipeBlockDevice p g = Inr g' \<Longrightarrow> quiet g g'" unfolding WipeBlockDevice_def Let_def
    by (simp only: sum.distinct split: if_splits, elim try_bind_InrE) (auto intro!: quiet_emit_hd)
  show "WriteRawImage p f mf g = Inr g' \<Longrightarrow> quiet g g'" unfolding WriteRawImage_def by (auto intro!: quiet_emit_hd split: option.splits list.splits if_splits)
qed

section \<open>Tracking the mounts\<close>

definition tracked :: "generator \<Rightarrow> bool" where
  "tracked g = (mounted_after (eg_script g) = eg_mounts g \<and> distinct (eg_mounts g) \<and> (\<forall>m\<in>set (eg_mounts g). dq \<notin> set m))"

text \<open>The text a caller adds verbatim does not mount anything itself.\<close>

fun safe_op :: "edify_op \<Rightarrow> bool" where
  "safe_op (OpAppendExtra e) = neutral e"
| "safe_op (OpAppendScript s) = (\<forall>l\<in>set (eg_script s). neutral l)"
| "safe_op _ = True"

fun cache_of :: "edify_op \<Rightarrow> int" where
  "cache_of (OpCacheFreeSpaceCheck n) = n"
| "cache_of _ = 0"

definition unquoted_fstab :: "fstab option \<Rightarrow> bool" where
  "unquoted_fstab t = (\<forall>kp\<in>set (case t of None \<Rightarrow> [] | Some d \<Rightarrow> d). unquoted (snd kp))"

lemma quiet_tracked: "quiet g g' \<Longrightarrow> tracked g \<Longrightarrow> tracked g'"
  by (auto simp: quiet_def tracked_def neutral_lines)

lemma unmount_lines:
  "\<forall>m\<in>set ys. dq \<notin> set m \<Longrightarrow> foldl run_line xs (map unmount_call ys) = filter (\<lambda>x. x \<notin> set ys) xs"
  by (induction ys arbitrary: xs) (auto simp: unmount_line removeAll_filter_not_eq conj_commute intro!: filter_cong)

lemma Mount_tracked:
  assumes "Mount m opts g = Inr g'" "tracked g" "unquoted_fstab (eg_fstab g)"
  shows "tracked g' \<and> eg_fstab g' = eg_fstab g \<and> eg_required_cache g' = eg_required_cache g"
proof (cases "some_fstab g")
  case (Some t)
  obtain p ty device flags where r: "dict_get t m = Inr p" "dict_get PARTITION_TYPES (pt_fs_type p) = Inr ty" "GetSlotSuffixDeviceForEntry (Some p) = Inr device"
    "g' = (emit (mount_call p ty device flags) g)\<lparr>eg_mounts := oset_add (eg_mounts g) (pt_mount_point p)\<rparr>"
    using assms(1) Some unfolding Mount_def Let_def by auto
  have "eg_fstab g = Some t" using Some by (auto simp: some_fstab_def split: option.splits if_splits)
  moreover have "(m, p) \<in> set t" using r(1) by (auto simp: dict_get_def split: option.splits dest: map_of_SomeD)
  ultimately have u: "unquoted p" using assms(3) by (auto simp: unquoted_fstab_def)
  have ty: "dq \<notin> set ty" using r(2) by (auto simp: dict_get_def PARTITION_TYPES_def split: option.splits if_splits)
  show ?thesis using assms(2) u mount_line[OF u ty r(3)] unfolding r(4) by (auto simp: tracked_def emit_def unquoted_def)
qed (use assms in \<open>simp add: Mount_def\<close>)

lemma Unmount_tracked:
  assumes "Unmount m g = Inr g'" "tracked g"
  shows "tracked g' \<and> eg_fstab g' = eg_fstab g \<and> eg_required_cache g' = eg_required_cache g"
  using assms by (auto simp: Unmount_def tracked_def emit_def unmount_line distinct_removeAll split: if_splits)

lemma UnmountAll_tracked:
  assumes "tracked g"
  shows "tracked (UnmountAll g)" "mounted_after (eg_script (UnmountAll g)) = []"
proof -
  have "foldl run_line (eg_mounts g) (map unmount_call (sort (eg_mounts g))) = []"
    using assms unmount_lines[of "sort (eg_mounts g)" "eg_mounts g"] by (simp add: tracked_def)
  then show "mounted_after (eg_script (UnmountAll g)) = []" "tracked (UnmountAll g)" using assms by (simp_all add: tracked_def UnmountAll_def)
qed

lemma quiet_append: "\<forall>l\<in>set (eg_script s). neutral l \<Longrightarrow> quiet g (AppendScript s g)"
  by (auto simp: AppendScript_def quiet_def)

lemma other_steps_quiet:
  assumes "edify_step other g op = Inr g'" "safe_op op"
  shows "quiet g g' \<or> (\<exists>m opts. op = OpMount m opts) \<or> (\<exists>m. op = OpUnmount m) \<or> op = OpUnmountAll \<or> (\<exists>n. op = OpCacheFreeSpaceCheck n)"
  using assms
  by (cases op) (auto simp: AppendExtra_def intro: quiet_append quiet_plain quiet_print quiet_oem quiet_prints quiet_patches
    quiet_more_patches quiet_partitions quiet_emit)

lemma step_tracked:
  assumes "edify_step other g op = Inr g'" "safe_op op" "tracked g" "unquoted_fstab (eg_fstab g)" "0 \<le> eg_required_cache g"
  shows "tracked g' \<and> eg_fstab g' = eg_fstab g \<and> eg_required_cache g' = max (eg_required_cache g) (cache_of op)"
proof -
  consider (quiet) "quiet g g'" "cache_of op = 0" | (mount) m opts where "op = OpMount m opts" | (unmount) m where "op = OpUnmount m" | (all) "op = OpUnmountAll"
    | (cache) n where "op = OpCacheFreeSpaceCheck n"
    using other_steps_quiet[OF assms(1,2)] by (cases op) auto
  then show ?thesis
  proof cases
    case quiet
    then show ?thesis using quiet_tracked[OF quiet(1) assms(3)] assms(5) by (auto simp: quiet_def)
  next
    case mount
    then show ?thesis using Mount_tracked[OF _ assms(3,4)] assms(1,5) by auto
  next
    case unmount
    then show ?thesis using Unmount_tracked[OF _ assms(3)] assms(1,5) by auto
  next
    case all
    then show ?thesis using UnmountAll_tracked(1)[OF assms(3)] assms(1,5) by (auto simp: UnmountAll_def)
  next
    case cache
    have "neutral (''apply_patch_space('' @ l)" for l by (simp add: neutral_def)
    then show ?thesis using cache assms(1,3) by (auto simp: CacheFreeSpaceCheck_def tracked_def emit_def)
  qed
qed

lemma run_tracked:
  assumes "edify_run other g ops = Inr g'" "\<forall>op\<in>set ops. safe_op op" "tracked g" "unquoted_fstab (eg_fstab g)" "0 \<le> eg_required_cache g"
  shows "tracked g' \<and> eg_required_cache g' = foldl max (eg_required_cache g) (map cache_of ops)"
  using assms
proof (induction ops arbitrary: g)
  case (Cons op ops)
  then obtain g1 where g1: "edify_step other g op = Inr g1" "edify_run other g1 ops = Inr g'" by auto
  have s: "tracked g1 \<and> eg_fstab g1 = eg_fstab g \<and> eg_required_cache g1 = max (eg_required_cache g) (cache_of op)"
    using step_tracked[OF g1(1)] Cons.prems by simp
  then show ?case using Cons.IH[OF g1(2)] Cons.prems by simp
qed simp

section \<open>Old and new patch formats\<close>

lemma split_on_parts: "join [c] (split_on c s) = s" "split_on c s \<noteq> []" "\<forall>w\<in>set (split_on c s). c \<notin> set w"
proof -
  show n: "split_on c s \<noteq> []" for s by (induction s) (auto split: list.splits)
  show "\<forall>w\<in>set (split_on c s). c \<notin> set w" by (induction s) (auto split: list.splits)
  show "join [c] (split_on c s) = s"
  proof (induction s)
    case (Cons x s)
    then show ?case using n[of s] by (cases "split_on c s"; cases "tl (split_on c s)") auto
  qed simp
qed

text \<open>The device is not one whose first entry in the fstab has a slot suffix.\<close>

definition plain_device :: "generator \<Rightarrow> string \<Rightarrow> bool" where
  "plain_device g device = (case GetEntryForDevice (eg_fstab g) device of None \<Rightarrow> True | Some p \<Rightarrow> \<not> pt_slotselect p)"

lemma check_tokens:
  assumes "\<forall>w\<in>set ts. CHR '':'' \<notin> set w" "length ts = 4"
  shows "CheckSecondTokenNotSlotSuffixed (join '':'' ts) g = (if plain_device g (ts ! 1) then Inr () else Inl AssertionError)"
proof -
  have "split_on CHR '':'' (join '':'' ts) = ts" using assms by (intro split_on_join) auto
  then show ?thesis using assms(2)
    by (auto simp: CheckSecondTokenNotSlotSuffixed_def some_fstab_def plain_device_def GetEntryForDevice_def Let_def split: option.splits)
qed

lemma wraps: "CHR ''('' \<in> set cmd \<Longrightarrow> \<exists>l. WordWrap cmd n = Inr l"
  using WordWrap_spec by blast

lemma PatchPartitionExprCheck_total: "\<exists>l. PatchPartitionExprCheck t s g = Inr (emit l g)"
proof -
  have "\<exists>l. try_bind (WordWrap cmd 80) (\<lambda>l. Inr (emit l g)) = Inr (emit l g)" if "CHR ''('' \<in> set cmd" for cmd
    using wraps[OF that, of 80] by auto
  then show ?thesis unfolding PatchPartitionExprCheck_def by simp
qed

text \<open>The column after the opening parenthesis.\<close>

definition call_indent :: "string \<Rightarrow> nat" where
  "call_indent cmd = Suc (length (takeWhile (\<lambda>c. c \<noteq> CHR ''('') cmd))"

section \<open>Properties\<close>


definition sample_ops :: "edify_op list" where
  "sample_ops = [OpMount ''/system'' (Some ''ext4=ro''), OpCacheFreeSpaceCheck 100, OpPrint ''hello'', OpCacheFreeSpaceCheck 50]"


text \<open>C32: wrapping. For every command with an opening parenthesis \<open>WordWrap\<close> ends; its lines are the command cut at null
  characters only, all lines but the first indented; the last parameter is on a line of its own; a line that holds more
  than one parameter keeps to the length; the other null characters become spaces. Without a parenthesis it raises
  \<open>ValueError\<close>.\<close>

theorem word_wrap_lines:
  "\<exists>ls. WordWrap cmd linelen = (if CHR ''('' \<in> set cmd
       then Inr (strip_nl (map (\<lambda>c. if c = nul then CHR '' '' else c) (join (nl # replicate (call_indent cmd) CHR '' '') ls @ [nl])))
       else Inl ValueError) \<and>
    join [nul] ls = cmd \<and> nul \<notin> set (last ls) \<and>
    (int (call_indent cmd) \<le> linelen \<longrightarrow> (\<forall>l\<in>set ls. nul \<notin> set l \<or> int (length l) \<le> linelen - int (call_indent cmd)))"
proof -
  let ?ls = "wrap_loop (linelen - int (call_indent cmd)) cmd"
  have "WordWrap cmd linelen = Inl ValueError" if "CHR ''('' \<notin> set cmd" using that by (simp add: WordWrap_def py_index_of_def)
  then show ?thesis using WordWrap_spec[of cmd linelen] wrap_loop_spec[of "linelen - int (call_indent cmd)" cmd]
    unfolding call_indent_def by (intro exI[of _ ?ls]) (auto simp: call_indent_def)
qed

theorem word_wrap_lines_witness:
  "\<exists>ls. WordWrap (''f(a,'' @ [nul] @ ''b)'') 80 =
       Inr (strip_nl (map (\<lambda>c. if c = nul then CHR '' '' else c) (join (nl # replicate 2 CHR '' '') ls @ [nl]))) \<and>
     join [nul] ls = ''f(a,'' @ [nul] @ ''b)'' \<and> (\<forall>l\<in>set ls. nul \<notin> set l \<or> length l \<le> 78)"
proof -
  have i: "call_indent (''f(a,'' @ [nul] @ ''b)'') = 2" by code_simp
  have p: "CHR ''('' \<in> set (''f(a,'' @ [nul] @ ''b)'')" by simp
  show ?thesis using word_wrap_lines[of "''f(a,'' @ [nul] @ ''b)''" 80] unfolding i using p by fastforce
qed

text \<open>Old patch arguments. \<open>PatchCheck\<close> accepts exactly \<open>EMMC:device:size:sha1:size:sha1\<close> for a device without a slot
  suffix, and then does what \<open>PatchPartitionCheck\<close> does for the two halves; everything else is an \<open>AssertionError\<close>.\<close>

theorem patch_check_exact:
  "PatchCheck filename g =
    (case split_on CHR '':'' filename of
       [k, d, s1, h1, s2, h2] \<Rightarrow> if k = ''EMMC'' \<and> plain_device g d
         then PatchPartitionCheck (join '':'' [''EMMC'', d, s2, h2]) (join '':'' [''EMMC'', d, s1, h1]) g else Inl AssertionError
     | _ \<Rightarrow> Inl AssertionError) \<and>
   (\<forall>d s1 h1 s2 h2. filename = join '':'' [''EMMC'', d, s1, h1, s2, h2] \<and> (\<forall>w\<in>{d, s1, h1, s2, h2}. CHR '':'' \<notin> set w) \<and> plain_device g d \<longrightarrow>
     (\<exists>l. PatchCheck filename g = Inr (emit l g)))"
proof -
  let ?ts = "split_on CHR '':'' filename"
  have c: "PatchPartitionCheck (join '':'' [''EMMC'', d, s2, h2]) (join '':'' [''EMMC'', d, s1, h1]) g =
      (if plain_device g d then PatchPartitionExprCheck (quoted (join '':'' [''EMMC'', d, s2, h2])) (quoted (join '':'' [''EMMC'', d, s1, h1])) g else Inl AssertionError)"
    if "\<forall>w\<in>{d, s1, h1, s2, h2}. CHR '':'' \<notin> set w" for d s1 h1 s2 h2
    unfolding PatchPartitionCheck_def using check_tokens[of "[''EMMC'', d, s2, h2]" g] check_tokens[of "[''EMMC'', d, s1, h1]" g] that by simp
  have six: "PatchCheck filename g = (if k = ''EMMC'' \<and> plain_device g d
      then PatchPartitionCheck (join '':'' [''EMMC'', d, s2, h2]) (join '':'' [''EMMC'', d, s1, h1]) g else Inl AssertionError)"
    if "?ts = [k, d, s1, h1, s2, h2]" for k d s1 h1 s2 h2
  proof -
    have "\<forall>w\<in>{d, s1, h1, s2, h2}. CHR '':'' \<notin> set w" using split_on_parts(3)[of "CHR '':''" filename] that by simp
    then show ?thesis unfolding PatchCheck_def patch_tokens_def that Let_def using c by (simp del: join.simps)
  qed
  have no: "PatchCheck filename g = Inl AssertionError" if "length ?ts \<noteq> 6" unfolding PatchCheck_def patch_tokens_def using that by (simp add: Let_def)
  have "PatchCheck filename g = (case ?ts of [k, d, s1, h1, s2, h2] \<Rightarrow> if k = ''EMMC'' \<and> plain_device g d
         then PatchPartitionCheck (join '':'' [''EMMC'', d, s2, h2]) (join '':'' [''EMMC'', d, s1, h1]) g else Inl AssertionError | _ \<Rightarrow> Inl AssertionError)"
    using six no by (simp split: list.split del: join.simps)
  moreover have "\<exists>l. PatchCheck filename g = Inr (emit l g)"
    if f: "filename = join '':'' [''EMMC'', d, s1, h1, s2, h2]" "\<forall>w\<in>{d, s1, h1, s2, h2}. CHR '':'' \<notin> set w" "plain_device g d" for d s1 h1 s2 h2
  proof -
    have "?ts = [''EMMC'', d, s1, h1, s2, h2]" unfolding f(1) by (rule split_on_join) (use f(2) in auto)
    then show ?thesis using six c[OF f(2)] f(3) PatchPartitionExprCheck_total by (simp del: join.simps)
  qed
  ultimately show ?thesis by blast
qed

theorem patch_check_exact_witness:
  "\<exists>l. PatchCheck ''EMMC:/dev/boot:10:aa:20:bb'' (EdifyGenerator_init [] None None) =
     Inr (emit l (EdifyGenerator_init [] None None))"
proof -
  have "join '':'' [''EMMC'', ''/dev/boot'', ''10'', ''aa'', ''20'', ''bb''] = ''EMMC:/dev/boot:10:aa:20:bb''" by simp
  moreover have "\<forall>w\<in>{''/dev/boot'', ''10'', ''aa'', ''20'', ''bb''}. CHR '':'' \<notin> set w" by simp
  moreover have "plain_device (EdifyGenerator_init [] None None) ''/dev/boot''" by code_simp
  ultimately show ?thesis using conjunct2[OF patch_check_exact[of "''EMMC:/dev/boot:10:aa:20:bb''" "EdifyGenerator_init [] None None"]] by metis
qed



end
