(* ===== verification/EventLogTags.thy ===== *)
theory EventLogTags
  imports TextFile
begin

text \<open>
  Event log tags: the reader of \<open>tools/event_log_tags.py\<close> and \<open>tools/merge-event-log-tags.py\<close>, which puts the tag files of
  a build together. A file is the text that decoding gives; lines end at line feeds only, because the files are opened in
  binary mode. Messages are kept as values with their arguments, their wording is left out.
\<close>

section \<open>Reading a tag file\<close>

datatype tag_msg = OpenFailed | FailedToParse string | NotInteger string | UnparseableDescription string
  | DuplicatedTag string int string int | NameConflict string int string int | NumberConflict int string string int

record event_tag =
  tagnum :: int
  tagname :: string
  description :: "string option"
  tag_filename :: string
  tag_linenum :: int

type_synonym tag_report = "string \<times> int \<times> tag_msg"

record tag_file =
  tf_errors :: "tag_report list"
  tf_warnings :: "tag_report list"
  tf_tags :: "event_tag list"
  tf_options :: "(string, string list) odict"
  tf_filename :: string
  tf_linenum :: int

definition AddError :: "tag_msg \<Rightarrow> int option \<Rightarrow> tag_file \<Rightarrow> tag_file" where
  "AddError msg n f = f\<lparr>tf_errors := tf_errors f @ [(tf_filename f, case n of None \<Rightarrow> tf_linenum f | Some k \<Rightarrow> k, msg)]\<rparr>"

definition AddWarning :: "tag_msg \<Rightarrow> int option \<Rightarrow> tag_file \<Rightarrow> tag_file" where
  "AddWarning msg n f = f\<lparr>tf_warnings := tf_warnings f @ [(tf_filename f, case n of None \<Rightarrow> tf_linenum f | Some k \<Rightarrow> k, msg)]\<rparr>"

text \<open>The regular expressions: \<open>#.*$\<close> replaced by nothing, splitting at most \<open>n\<close> times on white space, and a text in parentheses.\<close>

definition strip_comment :: "string \<Rightarrow> string" where
  "strip_comment line = takeWhile (\<lambda>c. c \<noteq> CHR ''#'') line @ dropWhile (\<lambda>c. c \<noteq> nl) (dropWhile (\<lambda>c. c \<noteq> CHR ''#'') line)"

fun split_max :: "nat \<Rightarrow> string \<Rightarrow> string list" where
  "split_max 0 s = [s]"
| "split_max (Suc n) s = (if \<exists>c\<in>set s. is_space c
     then takeWhile (\<lambda>c. \<not> is_space c) s # split_max n (dropWhile is_space (dropWhile (\<lambda>c. \<not> is_space c) s)) else [s])"

definition in_parens :: "string \<Rightarrow> bool" where
  "in_parens d = (let e = rstrip d in 2 \<le> length e \<and> hd e = CHR ''('' \<and> last e = CHR '')'' \<and> nl \<notin> set e)"

definition read_tag_line :: "string \<Rightarrow> tag_file \<Rightarrow> tag_file" where
  "read_tag_line raw f =
     (let line = strip (strip_comment raw) in
      if line = [] then f
      else case split_max 2 line of
        p0 # p1 # rest \<Rightarrow>
          if p0 = ''option'' then f\<lparr>tf_options := dict_set p1 rest (tf_options f)\<rparr>
          else (case py_int p0 of
              Inl _ \<Rightarrow> AddError (NotInteger p0) None f
            | Inr tag \<Rightarrow>
                let d = (case rest of [x] \<Rightarrow> Some x | _ \<Rightarrow> None) in
                if (case d of None \<Rightarrow> False | Some x \<Rightarrow> x \<noteq> [] \<and> \<not> in_parens x) then AddError (UnparseableDescription p1) None f
                else f\<lparr>tf_tags := tf_tags f @ [\<lparr>tagnum = tag, tagname = p1, description = d, tag_filename = tf_filename f, tag_linenum = tf_linenum f\<rparr>]\<rparr>)
      | _ \<Rightarrow> AddError (FailedToParse line) None f)"

definition TagFile_init :: "(string \<Rightarrow> string option) \<Rightarrow> string \<Rightarrow> tag_file" where
  "TagFile_init files fn =
     (let f = \<lparr>tf_errors = [], tf_warnings = [], tf_tags = [], tf_options = [], tf_filename = fn, tf_linenum = 0\<rparr> in
      case files fn of
        None \<Rightarrow> AddError OpenFailed None f
      | Some content \<Rightarrow> foldl (\<lambda>f line. read_tag_line line (f\<lparr>tf_linenum := tf_linenum f + 1\<rparr>)) f (readlines_from [] content))"

section \<open>Merging\<close>

record tag_tables =
  by_tagname :: "(string, event_tag) odict"
  by_tagnum :: "(int, event_tag) odict"

definition merge_tag :: "tag_file \<times> tag_tables \<Rightarrow> event_tag \<Rightarrow> tag_file \<times> tag_tables" where
  "merge_tag = (\<lambda>(f, st) t.
     case map_of (by_tagname st) (tagname t) of
       Some orig \<Rightarrow>
         (if tagnum t = tagnum orig \<and> description t = description orig
          then AddWarning (DuplicatedTag (tagname t) (tagnum t) (tag_filename orig) (tag_linenum orig)) (Some (tag_linenum t)) f
          else AddError (NameConflict (tagname t) (tagnum orig) (tag_filename orig) (tag_linenum orig)) (Some (tag_linenum t)) f, st)
     | None \<Rightarrow>
         let st' = st\<lparr>by_tagname := dict_set (tagname t) t (by_tagname st), by_tagnum := dict_set (tagnum t) t (by_tagnum st)\<rparr> in
         (case map_of (by_tagnum st) (tagnum t) of
            Some orig \<Rightarrow>
              if tagname t \<noteq> tagname orig
              then (AddError (NumberConflict (tagnum t) (tagname orig) (tag_filename orig) (tag_linenum orig)) (Some (tag_linenum t)) f, st)
              else (f, st')
          | None \<Rightarrow> (f, st')))"

definition merge_file :: "(string \<Rightarrow> string option) \<Rightarrow> tag_report list \<times> tag_report list \<times> tag_tables \<Rightarrow> string
    \<Rightarrow> tag_report list \<times> tag_report list \<times> tag_tables" where
  "merge_file files = (\<lambda>(errors, warnings, st) fn.
     let f = TagFile_init files fn; (f', st') = foldl merge_tag (f, st) (tf_tags f) in
     (errors @ tf_errors f', warnings @ tf_warnings f', st'))"

definition write_tag :: "event_tag \<Rightarrow> string" where
  "write_tag t = (case description t of
      None \<Rightarrow> str_int (tagnum t) @ '' '' @ tagname t @ [nl]
    | Some d \<Rightarrow> if d \<noteq> [] then str_int (tagnum t) @ '' '' @ tagname t @ '' '' @ d @ [nl] else str_int (tagnum t) @ '' '' @ tagname t @ [nl])"

text \<open>The run of the script: the errors it exits with, or the warnings and the text it writes.\<close>

definition merge_event_log_tags :: "(string \<Rightarrow> string option) \<Rightarrow> string list \<Rightarrow> tag_report list + tag_report list \<times> string" where
  "merge_event_log_tags files fns =
     (case foldl (merge_file files) ([], [], \<lparr>by_tagname = [], by_tagnum = []\<rparr>) fns of
        (errors, warnings, st) \<Rightarrow>
          if errors \<noteq> [] then Inl errors
          else Inr (warnings, concat (map (\<lambda>(n, t). write_tag t) (sort_key fst (by_tagnum st)))))"

section \<open>The tables\<close>

definition tag_sig :: "event_tag \<Rightarrow> int \<times> string \<times> string option" where
  "tag_sig t = (tagnum t, tagname t, description t)"

definition consistent :: "event_tag set \<Rightarrow> bool" where
  "consistent T = (\<forall>t\<in>T. \<forall>u\<in>T. (tagname t = tagname u \<longrightarrow> tag_sig t = tag_sig u) \<and> (tagnum t = tagnum u \<longrightarrow> tagname t = tagname u))"

definition tables_ok :: "event_tag set \<Rightarrow> tag_tables \<Rightarrow> bool" where
  "tables_ok T st = ((\<forall>n t. map_of (by_tagname st) n = Some t \<longrightarrow> tagname t = n \<and> t \<in> T \<and> map_of (by_tagnum st) (tagnum t) = Some t) \<and>
     (\<forall>n t. map_of (by_tagnum st) n = Some t \<longrightarrow> tagnum t = n \<and> map_of (by_tagname st) (tagname t) = Some t) \<and>
     distinct (map fst (by_tagnum st)))"

definition covered :: "event_tag set \<Rightarrow> tag_tables \<Rightarrow> bool" where
  "covered T st = (\<forall>t\<in>T. \<exists>u. map_of (by_tagname st) (tagname t) = Some u \<and> tag_sig u = tag_sig t)"

definition merge_inv :: "bool \<Rightarrow> event_tag list \<Rightarrow> tag_report list \<Rightarrow> tag_report list \<Rightarrow> tag_tables \<Rightarrow> bool" where
  "merge_inv failed ts errors warnings st = (tables_ok (set ts) st \<and>
     (if errors = [] then \<not> failed \<and> covered (set ts) st \<and> (warnings = [] \<longleftrightarrow> distinct (map tag_sig ts))
      else failed \<or> \<not> consistent (set ts)))"

lemma tables_name: "tables_ok T st \<Longrightarrow> map_of (by_tagname st) n = Some t \<Longrightarrow> tagname t = n \<and> t \<in> T \<and> map_of (by_tagnum st) (tagnum t) = Some t"
  unfolding tables_ok_def by blast

lemma tables_num: "tables_ok T st \<Longrightarrow> map_of (by_tagnum st) n = Some t \<Longrightarrow> tagnum t = n \<and> map_of (by_tagname st) (tagname t) = Some t"
  unfolding tables_ok_def by blast

lemma tag_sig_eq: "tag_sig t = tag_sig u \<longleftrightarrow> tagnum t = tagnum u \<and> tagname t = tagname u \<and> description t = description u"
  unfolding tag_sig_def by simp

lemma covered_consistent:
  assumes "covered T st" "tables_ok T st"
  shows "consistent T"
proof -
  have rep: "\<exists>u. map_of (by_tagname st) (tagname t) = Some u \<and> tag_sig u = tag_sig t" if "t \<in> T" for t
    using assms(1) that unfolding covered_def by blast
  have "tagname t = tagname u" if tu: "t \<in> T" "u \<in> T" and num: "tagnum t = tagnum u" for t u
  proof -
    obtain t' where t': "map_of (by_tagname st) (tagname t) = Some t'" "tag_sig t' = tag_sig t" using rep[OF tu(1)] by blast
    obtain u' where u': "map_of (by_tagname st) (tagname u) = Some u'" "tag_sig u' = tag_sig u" using rep[OF tu(2)] by blast
    have "map_of (by_tagnum st) (tagnum t') = Some t'" "map_of (by_tagnum st) (tagnum u') = Some u'"
      using tables_name[OF assms(2) t'(1)] tables_name[OF assms(2) u'(1)] by blast+
    moreover have "tagnum t' = tagnum u'" using t'(2) u'(2) num unfolding tag_sig_eq by argo
    ultimately have "t' = u'" by (metis option.inject)
    then show ?thesis using t'(2) u'(2) unfolding tag_sig_eq by argo
  qed
  moreover have "tag_sig t = tag_sig u" if tu: "t \<in> T" "u \<in> T" and name: "tagname t = tagname u" for t u
  proof -
    obtain t' where t': "map_of (by_tagname st) (tagname t) = Some t'" "tag_sig t' = tag_sig t" using rep[OF tu(1)] by blast
    obtain u' where u': "map_of (by_tagname st) (tagname u) = Some u'" "tag_sig u' = tag_sig u" using rep[OF tu(2)] by blast
    have "t' = u'" using t'(1) u'(1) unfolding name by (metis option.inject)
    from t'(2)[symmetric] u'(2)[folded this] show ?thesis by (rule trans)
  qed
  ultimately show ?thesis unfolding consistent_def by (intro ballI conjI impI)
qed

lemma consistent_mono: "consistent T \<Longrightarrow> S \<subseteq> T \<Longrightarrow> consistent S"
  unfolding consistent_def by blast

lemma merge_inv_error:
  "tables_ok (set ts) st \<Longrightarrow> u \<in> set ts \<Longrightarrow> t \<in> set ts \<Longrightarrow>
     tagname u = tagname t \<and> tag_sig u \<noteq> tag_sig t \<or> tagnum u = tagnum t \<and> tagname u \<noteq> tagname t \<Longrightarrow> es \<noteq> [] \<Longrightarrow> merge_inv failed ts es ws st"
  unfolding merge_inv_def consistent_def by (simp only: if_False) blast

lemma merge_inv_warning:
  assumes inv: "merge_inv failed ts es ws st" and orig: "map_of (by_tagname st) (tagname t) = Some u" "tag_sig u = tag_sig t" and "ws' \<noteq> []"
  shows "merge_inv failed (ts @ [t]) es ws' st"
proof -
  have ok: "tables_ok (set ts) st" using inv unfolding merge_inv_def by blast
  have "u \<in> set ts" using tables_name[OF ok orig(1)] by blast
  then have "tag_sig t \<in> tag_sig ` set ts" using orig(2) by (metis imageI)
  then have "\<not> distinct (map tag_sig (ts @ [t]))" by simp
  moreover have "covered (set ts) st \<Longrightarrow> covered (set (ts @ [t])) st" using orig unfolding covered_def by simp
  moreover have "consistent (set (ts @ [t])) \<Longrightarrow> consistent (set ts)" by (erule consistent_mono) auto
  moreover have "tables_ok (set (ts @ [t])) st" using ok unfolding tables_ok_def by simp
  ultimately show ?thesis using inv \<open>ws' \<noteq> []\<close> unfolding merge_inv_def by (cases "es = []"; simp only: if_True if_False simp_thms; blast)
qed

lemma merge_inv_new:
  assumes inv: "merge_inv failed ts es ws st" and new: "map_of (by_tagname st) (tagname t) = None" "map_of (by_tagnum st) (tagnum t) = None"
    and st': "st' = st\<lparr>by_tagname := dict_set (tagname t) t (by_tagname st), by_tagnum := dict_set (tagnum t) t (by_tagnum st)\<rparr>"
  shows "merge_inv failed (ts @ [t]) es ws st'"
proof -
  have ok: "tables_ok (set ts) st" using inv unfolding merge_inv_def by blast
  have look: "map_of (by_tagname st') = (map_of (by_tagname st))(tagname t \<mapsto> t)" "map_of (by_tagnum st') = (map_of (by_tagnum st))(tagnum t \<mapsto> t)"
    unfolding st' by simp_all
  have "tagname u = n \<and> u \<in> set (ts @ [t]) \<and> map_of (by_tagnum st') (tagnum u) = Some u" if "map_of (by_tagname st') n = Some u" for n u
    using that tables_name[OF ok, of n u] new(2) unfolding look by (cases "n = tagname t") auto
  moreover have "tagnum u = n \<and> map_of (by_tagname st') (tagname u) = Some u" if "map_of (by_tagnum st') n = Some u" for n u
    using that tables_num[OF ok, of n u] new(1) unfolding look by (cases "n = tagnum t") auto
  moreover have "distinct (keys (by_tagnum st'))" using ok unfolding tables_ok_def st' by simp
  ultimately have ok': "tables_ok (set (ts @ [t])) st'" unfolding tables_ok_def by blast
  have cov: "covered (set (ts @ [t])) st' \<and> tag_sig t \<notin> tag_sig ` set ts" if c: "covered (set ts) st"
  proof -
    have old: "\<exists>v. map_of (by_tagname st) (tagname u) = Some v \<and> tag_sig v = tag_sig u" if "u \<in> set ts" for u using c that unfolding covered_def by blast
    then have "tagname u \<noteq> tagname t" if "u \<in> set ts" for u using that new(1) by force
    then have "tag_sig t \<notin> tag_sig ` set ts" unfolding image_iff tag_sig_eq by metis
    moreover have "\<exists>v. map_of (by_tagname st') (tagname u) = Some v \<and> tag_sig v = tag_sig u" if "u \<in> set (ts @ [t])" for u
      using old[of u] that \<open>\<And>u. u \<in> set ts \<Longrightarrow> tagname u \<noteq> tagname t\<close> unfolding look by auto
    ultimately show ?thesis unfolding covered_def by blast
  qed
  have "consistent (set (ts @ [t])) \<Longrightarrow> consistent (set ts)" by (erule consistent_mono) auto
  moreover have "distinct (map tag_sig (ts @ [t])) \<longleftrightarrow> distinct (map tag_sig ts) \<and> tag_sig t \<notin> tag_sig ` set ts" by auto
  ultimately show ?thesis using inv ok' cov unfolding merge_inv_def by (cases "es = []"; simp only: if_True if_False simp_thms; blast)
qed

lemma merge_tag_inv:
  assumes inv: "merge_inv failed ts (es @ tf_errors f) (ws @ tf_warnings f) st" and step: "merge_tag (f, st) t = (f', st')"
  shows "merge_inv failed (ts @ [t]) (es @ tf_errors f') (ws @ tf_warnings f') st'"
proof -
  have ok: "tables_ok (set ts) st" using inv unfolding merge_inv_def by blast
  then have ok': "tables_ok (set (ts @ [t])) st" unfolding tables_ok_def by simp
  show ?thesis
  proof (cases "map_of (by_tagname st) (tagname t)")
    case (Some u)
    note u = tables_name[OF ok Some]
    show ?thesis
    proof (cases "tag_sig u = tag_sig t")
      case True
      with step Some u have "st' = st" "tf_errors f' = tf_errors f" "tf_warnings f' \<noteq> []" unfolding tag_sig_eq merge_tag_def AddWarning_def by auto
      then show ?thesis using merge_inv_warning[OF inv Some True, of "ws @ tf_warnings f'"] by simp
    next
      case False
      with step Some u have "st' = st" "tf_errors f' \<noteq> []" unfolding tag_sig_eq merge_tag_def AddError_def by auto
      then show ?thesis using merge_inv_error[OF ok', of u t] u False by simp
    qed
  next
    case None
    show ?thesis
    proof (cases "map_of (by_tagnum st) (tagnum t)")
      case (Some u)
      note u = tables_num[OF ok Some]
      then have ne: "tagname t \<noteq> tagname u" using None by force
      moreover have "u \<in> set ts" using tables_name[OF ok] u by blast
      moreover have "st' = st" "tf_errors f' \<noteq> []" using step None Some ne unfolding merge_tag_def AddError_def by auto
      ultimately show ?thesis using merge_inv_error[OF ok', of u t] u by simp
    next
      case new: None
      have "f' = f" "st' = st\<lparr>by_tagname := dict_set (tagname t) t (by_tagname st), by_tagnum := dict_set (tagnum t) t (by_tagnum st)\<rparr>"
        using step None new unfolding merge_tag_def by auto
      then show ?thesis using merge_inv_new[OF inv None new] by simp
    qed
  qed
qed

lemma merge_tags_inv:
  assumes "merge_inv failed ts (es @ tf_errors f) (ws @ tf_warnings f) st" "foldl merge_tag (f, st) us = (f', st')"
  shows "merge_inv failed (ts @ us) (es @ tf_errors f') (ws @ tf_warnings f') st'"
  using assms
proof (induction us arbitrary: ts f st)
  case (Cons u us)
  obtain f1 st1 where "merge_tag (f, st) u = (f1, st1)" by fastforce
  with Cons.IH[OF merge_tag_inv[OF Cons.prems(1) this]] Cons.prems(2) show ?case by simp
qed simp

lemma read_line_warnings [simp]: "tf_warnings (read_tag_line raw f) = tf_warnings f"
  by (auto simp: read_tag_line_def AddError_def Let_def split: list.split sum.split option.split)

lemma fold_warnings: "tf_warnings (foldl (\<lambda>f line. read_tag_line line (f\<lparr>tf_linenum := tf_linenum f + 1\<rparr>)) f ls) = tf_warnings f"
  by (induction ls arbitrary: f) simp_all

lemma parse_warnings [simp]: "tf_warnings (TagFile_init files fn) = []"
  by (simp add: TagFile_init_def Let_def AddError_def fold_warnings split: option.split)

definition all_tags :: "(string \<Rightarrow> string option) \<Rightarrow> string list \<Rightarrow> event_tag list" where
  "all_tags files fns = concat (map (\<lambda>fn. tf_tags (TagFile_init files fn)) fns)"

definition parse_failed :: "(string \<Rightarrow> string option) \<Rightarrow> string list \<Rightarrow> bool" where
  "parse_failed files fns = (\<exists>fn\<in>set fns. tf_errors (TagFile_init files fn) \<noteq> [])"

lemma merge_files_inv:
  assumes "merge_inv failed ts es ws st" "foldl (merge_file files) (es, ws, st) fns = (es', ws', st')"
  shows "merge_inv (failed \<or> parse_failed files fns) (ts @ all_tags files fns) es' ws' st'"
  using assms
proof (induction fns arbitrary: failed ts es ws st)
  case (Cons fn fns)
  define f where "f = TagFile_init files fn"
  have start: "merge_inv (failed \<or> tf_errors f \<noteq> []) ts (es @ tf_errors f) (ws @ tf_warnings f) st"
    using Cons.prems(1) unfolding merge_inv_def f_def by (cases "es = []"; cases "tf_errors (TagFile_init files fn) = []") auto
  obtain f1 st1 where "foldl merge_tag (f, st) (tf_tags f) = (f1, st1)" by fastforce
  then have "merge_file files (es, ws, st) fn = (es @ tf_errors f1, ws @ tf_warnings f1, st1)" unfolding merge_file_def f_def by simp
  with Cons.IH[OF merge_tags_inv[OF start \<open>foldl merge_tag (f, st) (tf_tags f) = (f1, st1)\<close>]] Cons.prems(2)
  show ?case unfolding all_tags_def parse_failed_def f_def by (simp add: disj_assoc)
qed (simp add: all_tags_def parse_failed_def)

section \<open>What a line can contain\<close>

definition clean_word :: "string \<Rightarrow> bool" where
  "clean_word w = (w \<noteq> [] \<and> (\<forall>c\<in>set w. \<not> is_space c \<and> c \<noteq> CHR ''#''))"

definition clean_tag :: "event_tag \<Rightarrow> bool" where
  "clean_tag t = (clean_word (tagname t) \<and> (case description t of None \<Rightarrow> True
     | Some d \<Rightarrow> 2 \<le> length d \<and> hd d = CHR ''('' \<and> last d = CHR '')'' \<and> nl \<notin> set d \<and> CHR ''#'' \<notin> set d))"

lemma is_space_simps [simp]: "is_space nl" "is_space CHR '' ''" "\<not> is_space CHR ''(''" "\<not> is_space CHR '')''"
  by (simp_all add: is_space_def)

lemma readlines_nl: "nl \<notin> set w \<Longrightarrow> r \<in> set (readlines_from w s) \<Longrightarrow> \<exists>l. nl \<notin> set l \<and> (r = l \<or> r = l @ [nl])"
  by (induction w s rule: readlines_from.induct) (auto split: if_splits)

lemma strip_comment_plain: "CHR ''#'' \<notin> set s \<Longrightarrow> strip_comment s = s"
proof -
  assume a: "CHR ''#'' \<notin> set s"
  then have "takeWhile (\<lambda>c. c \<noteq> CHR ''#'') s = s" by (subst takeWhile_eq_all_conv) auto
  moreover have "dropWhile (\<lambda>c. c \<noteq> CHR ''#'') s = []" using a by (subst dropWhile_eq_Nil_conv) auto
  ultimately show ?thesis unfolding strip_comment_def by (simp only: dropWhile.simps append_Nil2)
qed

lemma strip_comment_at: "CHR ''#'' \<notin> set a \<Longrightarrow> strip_comment (a @ CHR ''#'' # x) = a @ dropWhile (\<lambda>c. c \<noteq> nl) x"
  unfolding strip_comment_def by (induction a) auto

lemma drop_to_nl: "nl \<notin> set b \<Longrightarrow> dropWhile (\<lambda>c. c \<noteq> nl) b = [] \<and> dropWhile (\<lambda>c. c \<noteq> nl) (b @ [nl]) = [nl]"
  by (induction b) auto

lemma strip_comment_chars:
  assumes l: "nl \<notin> set l" and r: "r = l \<or> r = l @ [nl]"
  shows "\<exists>k. nl \<notin> set k \<and> CHR ''#'' \<notin> set k \<and> (strip_comment r = k \<or> strip_comment r = k @ [nl])"
proof (cases "CHR ''#'' \<in> set l")
  case True
  then obtain a b where ab: "l = a @ CHR ''#'' # b" "CHR ''#'' \<notin> set a" using split_list_first by metis
  then have "nl \<notin> set a" "nl \<notin> set b" using l by auto
  moreover have "strip_comment r = a \<or> strip_comment r = a @ [nl]"
    using r strip_comment_at[OF ab(2), of b] strip_comment_at[OF ab(2), of "b @ [nl]"] drop_to_nl[OF \<open>nl \<notin> set b\<close>] unfolding ab(1) append_assoc append_Cons by (metis append_Nil2)
  ultimately show ?thesis using ab(2) by blast
next
  case False
  then have "CHR ''#'' \<notin> set r" using r by auto
  from strip_comment_plain[OF this] show ?thesis using l r False by blast
qed

lemma strip_ends: "strip s \<noteq> [] \<Longrightarrow> \<not> is_space (hd (strip s)) \<and> \<not> is_space (last (strip s))"
proof -
  assume ne: "strip s \<noteq> []"
  let ?l = "dropWhile is_space s"
  have r: "strip s = rev (dropWhile is_space (rev ?l))" unfolding strip_defs ..
  then have ne': "dropWhile is_space (rev ?l) \<noteq> []" using ne by auto
  then have last: "\<not> is_space (last (strip s))" unfolding r last_rev by (rule hd_dropWhile)
  have "?l \<noteq> []"
  proof
    assume "?l = []"
    then show False using ne' by (simp only: rev.simps dropWhile.simps)
  qed
  have "rev ?l = takeWhile is_space (rev ?l) @ dropWhile is_space (rev ?l)" by simp
  then have "?l = strip s @ rev (takeWhile is_space (rev ?l))" unfolding r by (metis rev_append rev_rev_ident)
  then have "hd (strip s) = hd ?l" using ne by (metis hd_append2)
  then show ?thesis using last hd_dropWhile[OF \<open>?l \<noteq> []\<close>] by simp
qed

lemma strip_chars: "set (strip s) \<subseteq> set s"
  unfolding strip_defs by (auto dest!: set_dropWhileD)

lemma strip_drops_nl: "strip (k @ [nl]) = strip k"
proof (cases "\<exists>c\<in>set k. \<not> is_space c")
  case True
  then have "dropWhile is_space (k @ [nl]) = dropWhile is_space k @ [nl]" by (auto simp: dropWhile_append1)
  then show ?thesis unfolding strip_defs by simp
next
  case False
  then have "strip (k @ [nl]) = []" "strip k = []" using strip_nonblank[of "k @ [nl]"] strip_nonblank[of k] by auto
  then show ?thesis by simp
qed

lemma line_chars:
  assumes "r \<in> set (readlines_from [] content)"
  shows "nl \<notin> set (strip (strip_comment r)) \<and> CHR ''#'' \<notin> set (strip (strip_comment r))"
proof -
  obtain l where "nl \<notin> set l" "r = l \<or> r = l @ [nl]" using readlines_nl[OF _ assms] by auto
  from strip_comment_chars[OF this] obtain k where k: "nl \<notin> set k" "CHR ''#'' \<notin> set k" "strip_comment r = k \<or> strip_comment r = k @ [nl]" by blast
  then have "strip (strip_comment r) = strip k" using strip_drops_nl[of k] by metis
  then show ?thesis using k(1,2) strip_chars[of k] by auto
qed

lemma last_dropWhile: "dropWhile P s \<noteq> [] \<Longrightarrow> last (dropWhile P s) = last s"
  by (induction s) (auto split: if_splits)

lemma after_word:
  assumes "s \<noteq> []" "\<not> is_space (last s)" "\<exists>c\<in>set s. is_space c" and b: "b = dropWhile is_space (dropWhile (\<lambda>c. \<not> is_space c) s)"
  shows "b \<noteq> [] \<and> \<not> is_space (hd b) \<and> last b = last s \<and> set b \<subseteq> set s"
proof -
  define u where "u = dropWhile (\<lambda>c. \<not> is_space c) s"
  have u: "u \<noteq> []" using assms(3) unfolding u_def dropWhile_eq_Nil_conv by blast
  then have last_u: "last u = last s" unfolding u_def by (rule last_dropWhile)
  have "last u \<in> set u" using u by (rule last_in_set)
  then have ne: "b \<noteq> []" unfolding b u_def[symmetric] dropWhile_eq_Nil_conv using assms(2) last_u by auto
  then have "last b = last s" "\<not> is_space (hd b)" unfolding b u_def[symmetric] last_u[symmetric] by (rule last_dropWhile, rule hd_dropWhile)
  moreover have "set b \<subseteq> set s" unfolding b by (auto dest!: set_dropWhileD)
  ultimately show ?thesis using ne by blast
qed

lemma first_word: "s \<noteq> [] \<Longrightarrow> \<not> is_space (hd s) \<Longrightarrow> takeWhile (\<lambda>c. \<not> is_space c) s \<noteq> []"
  by (cases s) simp_all

lemma word_chars: "c \<in> set (takeWhile (\<lambda>c. \<not> is_space c) s) \<Longrightarrow> \<not> is_space c \<and> c \<in> set s"
  by (auto dest: set_takeWhileD)

lemma split_max_parts:
  assumes ends: "line \<noteq> []" "\<not> is_space (last line)" and parts: "split_max 2 line = p0 # p1 # rest"
  shows "p1 \<noteq> [] \<and> (\<forall>c\<in>set p1. \<not> is_space c \<and> c \<in> set line) \<and>
    (rest = [] \<or> (\<exists>d. rest = [d] \<and> d \<noteq> [] \<and> \<not> is_space (last d) \<and> set d \<subseteq> set line))"
proof -
  define b where "b = dropWhile is_space (dropWhile (\<lambda>c. \<not> is_space c) line)"
  have sp: "\<exists>c\<in>set line. is_space c" using parts unfolding numeral_2_eq_2 by (simp split: if_splits)
  then have b: "b \<noteq> []" "\<not> is_space (hd b)" "last b = last line" "set b \<subseteq> set line" using after_word[OF ends _ b_def] by blast+
  have p: "p1 # rest = split_max (Suc 0) b" using parts sp unfolding numeral_2_eq_2 b_def by simp
  show ?thesis
  proof (cases "\<exists>c\<in>set b. is_space c")
    case True
    define d where "d = dropWhile is_space (dropWhile (\<lambda>c. \<not> is_space c) b)"
    have d: "d \<noteq> []" "last d = last b" "set d \<subseteq> set b" using after_word[OF b(1) _ True d_def] b(3) ends(2) by simp_all
    moreover have "p1 = takeWhile (\<lambda>c. \<not> is_space c) b" "rest = [d]" using p True unfolding d_def by simp_all
    ultimately show ?thesis using first_word[OF b(1,2)] word_chars[of _ b] b(3,4) ends(2) by (metis subset_trans subset_iff)
  next
    case False
    then have "p1 = b" "rest = []" using p by simp_all
    then show ?thesis using b False by blast
  qed
qed

lemma read_line_clean:
  assumes "\<forall>t\<in>set (tf_tags f). clean_tag t" "nl \<notin> set (strip (strip_comment r))" "CHR ''#'' \<notin> set (strip (strip_comment r))"
  shows "\<forall>t\<in>set (tf_tags (read_tag_line r f)). clean_tag t"
proof -
  define line where "line = strip (strip_comment r)"
  have clean: "clean_tag \<lparr>tagnum = n, tagname = p1, description = (case rest of [x] \<Rightarrow> Some x | _ \<Rightarrow> None), tag_filename = fn, tag_linenum = k\<rparr>"
    if ne: "line \<noteq> []" and parts: "split_max 2 line = p0 # p1 # rest" and ok: "\<And>x. rest = [x] \<Longrightarrow> in_parens x" for n p0 p1 rest fn k
  proof -
    have "\<not> is_space (last line)" using strip_ends[of "strip_comment r"] ne unfolding line_def by blast
    note * = split_max_parts[OF ne this parts]
    then have "clean_word p1" using assms(3) unfolding clean_word_def line_def by blast
    moreover have "2 \<le> length d \<and> hd d = CHR ''('' \<and> last d = CHR '')'' \<and> nl \<notin> set d \<and> CHR ''#'' \<notin> set d" if d: "rest = [d]" for d
    proof -
      have "d \<noteq> []" "\<not> is_space (last d)" "set d \<subseteq> set line" using * d by auto
      moreover from this have "rstrip d = d" unfolding rstrip_def by (cases d rule: rev_cases) simp_all
      ultimately show ?thesis using ok[OF d] assms(2,3) unfolding in_parens_def line_def by (auto simp: Let_def)
    qed
    moreover have "rest = [] \<or> (\<exists>d. rest = [d])" using * by blast
    ultimately show ?thesis unfolding clean_tag_def by auto
  qed
  show ?thesis
  proof (cases "line = [] \<or> length (split_max 2 line) < 2")
    case True
    then show ?thesis using assms(1) unfolding read_tag_line_def Let_def line_def[symmetric] AddError_def by (auto split: list.split)
  next
    case False
    then obtain p0 p1 rest where parts: "split_max 2 line = p0 # p1 # rest" by (cases "split_max 2 line" rule: remdups_adj.cases) auto
    have "rest = [x] \<Longrightarrow> x \<noteq> []" for x using split_max_parts[of line p0 p1 rest] strip_ends[of "strip_comment r"] parts False unfolding line_def by auto
    then show ?thesis using assms(1) clean[OF _ parts] False
      unfolding read_tag_line_def Let_def line_def[symmetric] AddError_def parts by (auto split: list.split sum.split option.split)
  qed
qed

lemma parse_clean: "\<forall>t\<in>set (tf_tags (TagFile_init files fn)). clean_tag t"
proof -
  have "\<forall>t\<in>set (tf_tags (foldl (\<lambda>f line. read_tag_line line (f\<lparr>tf_linenum := tf_linenum f + 1\<rparr>)) f ls)). clean_tag t"
    if "\<forall>t\<in>set (tf_tags f). clean_tag t" "\<forall>r\<in>set ls. nl \<notin> set (strip (strip_comment r)) \<and> CHR ''#'' \<notin> set (strip (strip_comment r))" for f ls
    using that
  proof (induction ls arbitrary: f)
    case (Cons l ls)
    have "\<forall>t\<in>set (tf_tags (read_tag_line l (f\<lparr>tf_linenum := tf_linenum f + 1\<rparr>))). clean_tag t"
      by (rule read_line_clean) (use Cons.prems in auto)
    from Cons.IH[OF this] Cons.prems(2) show ?case by simp
  qed simp
  from this[of "\<lparr>tf_errors = [], tf_warnings = [], tf_tags = [], tf_options = [], tf_filename = fn, tf_linenum = 0\<rparr>"] line_chars
  show ?thesis unfolding TagFile_init_def Let_def AddError_def by (auto split: option.split)
qed

lemma all_tags_clean: "t \<in> set (all_tags files fns) \<Longrightarrow> clean_tag t"
  unfolding all_tags_def using parse_clean by auto

section \<open>Reading what was written\<close>

lemma split_max_word:
  assumes "\<forall>c\<in>set a. \<not> is_space c" "r \<noteq> []" "\<not> is_space (hd r)"
  shows "split_max (Suc n) (a @ CHR '' '' # r) = a # split_max n r"
proof -
  have "takeWhile (\<lambda>c. \<not> is_space c) (a @ CHR '' '' # r) = a" using assms(1) by (simp add: takeWhile_append2)
  moreover have "dropWhile (\<lambda>c. \<not> is_space c) (a @ CHR '' '' # r) = CHR '' '' # r" using assms(1) by (simp add: dropWhile_append2)
  moreover have "dropWhile is_space (CHR '' '' # r) = r" using assms(2,3) by (cases r) simp_all
  moreover have "\<exists>c\<in>set (a @ CHR '' '' # r). is_space c" by simp
  ultimately show ?thesis by (simp only: split_max.simps if_True)
qed

lemma split_max_one: "\<forall>c\<in>set a. \<not> is_space c \<Longrightarrow> split_max n a = [a]"
  by (cases n) auto

definition tag_line :: "event_tag \<Rightarrow> string" where
  "tag_line t = str_int (tagnum t) @ CHR '' '' # tagname t @ (case description t of None \<Rightarrow> [] | Some d \<Rightarrow> CHR '' '' # d)"

lemma write_tag_line: "clean_tag t \<Longrightarrow> write_tag t = tag_line t @ [nl]"
  unfolding clean_tag_def write_tag_def tag_line_def by (auto split: option.splits)

lemma str_int_clean: "c \<in> set (str_int i) \<Longrightarrow> \<not> is_space c \<and> c \<noteq> nl \<and> c \<noteq> CHR ''#''"
  using str_int_chars[of c i] by (auto simp: is_digit_def is_space_def)

lemma hd_str_int: "\<not> is_space (hd (str_int i))"
  using str_int_clean[of "hd (str_int i)" i] by simp

lemma tag_line_chars:
  assumes "clean_tag t" "c \<in> set (tag_line t)"
  shows "c \<noteq> nl \<and> c \<noteq> CHR ''#''"
proof -
  consider "c \<in> set (str_int (tagnum t))" | "c = CHR '' ''" | "c \<in> set (tagname t)" | d where "description t = Some d" "c \<in> set d"
    using assms(2) unfolding tag_line_def by (cases "description t") auto
  then show ?thesis
  proof cases
    case 1
    then show ?thesis using str_int_clean by blast
  next
    case 3
    then have "\<not> is_space c" "c \<noteq> CHR ''#''" using assms(1) unfolding clean_tag_def clean_word_def by blast+
    then show ?thesis using is_space_simps(1) by metis
  next
    case 4
    then have "nl \<notin> set d" "CHR ''#'' \<notin> set d" using assms(1) unfolding clean_tag_def by simp_all
    then show ?thesis using 4(2) by metis
  qed simp
qed

lemma tag_line_parts:
  assumes "clean_tag t"
  shows "split_max 2 (tag_line t) = str_int (tagnum t) # tagname t # (case description t of None \<Rightarrow> [] | Some d \<Rightarrow> [d])"
proof -
  have name: "tagname t \<noteq> []" "\<forall>c\<in>set (tagname t). \<not> is_space c" using assms unfolding clean_tag_def clean_word_def by auto
  have d: "d \<noteq> [] \<and> \<not> is_space (hd d)" if "description t = Some d" for d using assms that unfolding clean_tag_def by auto
  have "split_max (Suc (Suc 0)) (tag_line t) = str_int (tagnum t) # split_max (Suc 0) (tagname t @ (case description t of None \<Rightarrow> [] | Some d \<Rightarrow> CHR '' '' # d))"
    unfolding tag_line_def by (rule split_max_word) (use str_int_clean name in auto)
  moreover have "split_max (Suc 0) (tagname t @ (case description t of None \<Rightarrow> [] | Some d \<Rightarrow> CHR '' '' # d)) = tagname t # (case description t of None \<Rightarrow> [] | Some d \<Rightarrow> [d])"
  proof (cases "description t")
    case None
    then show ?thesis using split_max_one[OF name(2), of "Suc 0"] by (simp only: option.case append_Nil2)
  next
    case (Some x)
    then show ?thesis using split_max_word[OF name(2), of x 0] d[OF Some] by (simp only: option.case split_max.simps(1) simp_thms)
  qed
  ultimately show ?thesis unfolding numeral_2_eq_2 by (simp only:)
qed

lemma dropWhile_hd: "l \<noteq> [] \<Longrightarrow> \<not> P (hd l) \<Longrightarrow> dropWhile P l = l"
  by (cases l) simp_all

lemma strip_nl_line: "l \<noteq> [] \<Longrightarrow> \<not> is_space (hd l) \<Longrightarrow> \<not> is_space (last l) \<Longrightarrow> strip (l @ [nl]) = l"
  unfolding strip_drops_nl unfolding strip_defs
  using dropWhile_hd[of l is_space] dropWhile_hd[of "rev l" is_space] by (simp add: hd_rev)

lemma tag_line_ends:
  assumes "clean_tag t"
  shows "tag_line t \<noteq> [] \<and> \<not> is_space (hd (tag_line t)) \<and> \<not> is_space (last (tag_line t))"
proof -
  have "hd (tag_line t) = hd (str_int (tagnum t))" unfolding tag_line_def by simp
  moreover have name: "tagname t \<noteq> []" "\<not> is_space (last (tagname t))" using assms unfolding clean_tag_def clean_word_def by simp_all
  have "\<not> is_space (last (tag_line t))"
  proof (cases "description t")
    case None
    then show ?thesis using name unfolding tag_line_def by simp
  next
    case (Some d)
    then have "d \<noteq> []" "last d = CHR '')''" using assms unfolding clean_tag_def by auto
    then show ?thesis using Some unfolding tag_line_def by simp
  qed
  ultimately show ?thesis using hd_str_int[of "tagnum t"] unfolding tag_line_def by simp
qed

lemma str_int_option: "str_int i \<noteq> ''option''"
proof
  assume "str_int i = ''option''"
  moreover have "py_int ''option'' = Inl ValueError" by code_simp
  ultimately show False using py_int_str_int[of i] by simp
qed

lemma clean_in_parens: "clean_tag t \<Longrightarrow> description t = Some d \<Longrightarrow> in_parens d"
  unfolding clean_tag_def in_parens_def rstrip_def by (cases d rule: rev_cases) (auto simp: Let_def)

lemma read_written_line:
  assumes "clean_tag t"
  shows "read_tag_line (write_tag t) f = f\<lparr>tf_tags := tf_tags f @ [t\<lparr>tag_filename := tf_filename f, tag_linenum := tf_linenum f\<rparr>]\<rparr>"
proof -
  have "CHR ''#'' \<notin> set (tag_line t @ [nl])" using tag_line_chars[OF assms] by auto
  from strip_comment_plain[OF this] have line: "strip (strip_comment (write_tag t)) = tag_line t"
    using strip_nl_line tag_line_ends[OF assms] write_tag_line[OF assms] by simp
  have d: "(case (case description t of None \<Rightarrow> [] | Some d \<Rightarrow> [d]) of [x] \<Rightarrow> Some x | _ \<Rightarrow> None) = description t" by (cases "description t") simp_all
  have t: "t\<lparr>tag_filename := fn, tag_linenum := k\<rparr> = \<lparr>tagnum = tagnum t, tagname = tagname t, description = description t, tag_filename = fn, tag_linenum = k\<rparr>" for fn k
    by (cases t) simp
  have "\<not> (case description t of None \<Rightarrow> False | Some x \<Rightarrow> x \<noteq> [] \<and> \<not> in_parens x)" using clean_in_parens[OF assms] by (cases "description t") simp_all
  then show ?thesis using tag_line_ends[OF assms] str_int_option
    unfolding read_tag_line_def Let_def line tag_line_parts[OF assms] py_int_str_int t by (simp add: d)
qed

lemma read_written:
  assumes "\<forall>t\<in>set ts. clean_tag t"
  shows "let f = TagFile_init (\<lambda>_. Some (concat (map write_tag ts))) fn in tf_errors f = [] \<and> tf_options f = [] \<and> map tag_sig (tf_tags f) = map tag_sig ts"
proof -
  have "map write_tag ts = map (\<lambda>l. l @ [nl]) (map tag_line ts)" using assms write_tag_line by simp
  moreover have "\<forall>l\<in>set (map tag_line ts). nl \<notin> set l" using assms tag_line_chars by auto
  ultimately have lines: "readlines_from [] (concat (map write_tag ts)) = map write_tag ts" using readlines_lines by metis
  have "let f' = foldl (\<lambda>f line. read_tag_line line (f\<lparr>tf_linenum := tf_linenum f + 1\<rparr>)) f (map write_tag ts) in
      tf_errors f' = tf_errors f \<and> tf_options f' = tf_options f \<and> map tag_sig (tf_tags f') = map tag_sig (tf_tags f) @ map tag_sig ts" for f
    using assms
  proof (induction ts arbitrary: f)
    case (Cons t ts)
    then show ?case by (simp add: read_written_line Let_def) (simp add: tag_sig_def)
  qed simp
  from this[of "\<lparr>tf_errors = [], tf_warnings = [], tf_tags = [], tf_options = [], tf_filename = fn, tf_linenum = 0\<rparr>"]
  show ?thesis unfolding TagFile_init_def Let_def option.case lines by simp
qed

section \<open>The result of the merge\<close>

text \<open>The tags of the output, in the order of their numbers.\<close>

definition sorted_tags :: "event_tag list \<Rightarrow> bool" where
  "sorted_tags ts = (sorted (map tagnum ts) \<and> distinct (map tagnum ts))"

lemma table_output:
  assumes ok: "tables_ok T st" and cov: "covered T st"
  defines "ts \<equiv> map snd (sort_key fst (by_tagnum st))"
  shows "concat (map (\<lambda>(n, t). write_tag t) (sort_key fst (by_tagnum st))) = concat (map write_tag ts) \<and>
    sorted_tags ts \<and> set ts \<subseteq> T \<and> tag_sig ` set ts = tag_sig ` T"
proof (intro conjI)
  have entry: "tagnum t = n \<and> t \<in> T" if "(n, t) \<in> set (by_tagnum st)" for n t
  proof -
    have "map_of (by_tagnum st) n = Some t" using ok that unfolding tables_ok_def by simp
    from tables_num[OF ok this] show ?thesis using tables_name[OF ok] by blast
  qed
  show "concat (map (\<lambda>(n, t). write_tag t) (sort_key fst (by_tagnum st))) = concat (map write_tag ts)"
    unfolding ts_def map_map by (rule arg_cong[where f = concat], rule map_cong) auto
  have "map tagnum ts = map fst (sort_key fst (by_tagnum st))" unfolding ts_def using entry by auto
  moreover have "distinct (map fst (sort_key fst (by_tagnum st)))"
    using ok unfolding tables_ok_def by (metis mset_map mset_sort mset_eq_imp_distinct_iff)
  ultimately show "sorted_tags ts" unfolding sorted_tags_def by simp
  show sub: "set ts \<subseteq> T" unfolding ts_def using entry by auto
  show "tag_sig ` set ts = tag_sig ` T"
  proof
    show "tag_sig ` T \<subseteq> tag_sig ` set ts"
    proof
      fix x assume "x \<in> tag_sig ` T"
      then obtain t where "t \<in> T" "x = tag_sig t" by blast
      then obtain u where u: "map_of (by_tagname st) (tagname t) = Some u" "tag_sig u = x" using cov unfolding covered_def by blast
      then have "(tagnum u, u) \<in> set (by_tagnum st)" using tables_name[OF ok u(1)] map_of_SomeD by metis
      then have "u \<in> set ts" unfolding ts_def by force
      then show "x \<in> tag_sig ` set ts" using u(2) by blast
    qed
  qed (use sub in blast)
qed

lemma merge_result:
  "if parse_failed files fns \<or> \<not> consistent (set (all_tags files fns)) then \<exists>errors. merge_event_log_tags files fns = Inl errors
   else \<exists>warnings ts. merge_event_log_tags files fns = Inr (warnings, concat (map write_tag ts)) \<and> sorted_tags ts \<and>
     set ts \<subseteq> set (all_tags files fns) \<and> tag_sig ` set ts = tag_sig ` set (all_tags files fns) \<and>
     (warnings = [] \<longleftrightarrow> distinct (map tag_sig (all_tags files fns)))"
proof -
  obtain es ws st where run: "foldl (merge_file files) ([], [], \<lparr>by_tagname = [], by_tagnum = []\<rparr>) fns = (es, ws, st)" using prod_cases3 by blast
  have "merge_inv False [] [] [] \<lparr>by_tagname = [], by_tagnum = []\<rparr>" unfolding merge_inv_def tables_ok_def covered_def by simp
  from merge_files_inv[OF this run] have inv: "merge_inv (parse_failed files fns) (all_tags files fns) es ws st" by simp
  show ?thesis
  proof (cases "es = []")
    case True
    then have *: "tables_ok (set (all_tags files fns)) st" "covered (set (all_tags files fns)) st" "\<not> parse_failed files fns"
      "ws = [] \<longleftrightarrow> distinct (map tag_sig (all_tags files fns))" using inv unfolding merge_inv_def by simp_all
    have con: "consistent (set (all_tags files fns))" using covered_consistent *(1,2) by blast
    note out = table_output[OF *(1,2)]
    have "merge_event_log_tags files fns = Inr (ws, concat (map write_tag (map snd (sort_key fst (by_tagnum st)))))"
      unfolding merge_event_log_tags_def run prod.case True using out by simp
    moreover have ok: "(parse_failed files fns \<or> \<not> consistent (set (all_tags files fns))) = False" using *(3) con by blast
    ultimately show ?thesis using out *(4) unfolding ok if_False
      by (intro exI[of _ ws] exI[of _ "map snd (sort_key fst (by_tagnum st))"]) (elim conjE, intro conjI, assumption+)
  next
    case False
    then have "parse_failed files fns \<or> \<not> consistent (set (all_tags files fns))" using inv unfolding merge_inv_def by simp
    then show ?thesis unfolding merge_event_log_tags_def run prod.case using False by (simp only: if_True not_False_eq_True) blast
  qed
qed

definition write_sig :: "int \<times> string \<times> string option \<Rightarrow> string" where
  "write_sig = (\<lambda>(n, name, d). write_tag \<lparr>tagnum = n, tagname = name, description = d, tag_filename = [], tag_linenum = 0\<rparr>)"

lemma write_tag_sig: "write_tag = write_sig \<circ> tag_sig"
  by (rule ext) (simp add: write_sig_def tag_sig_def write_tag_def split: option.split)

lemma sorted_tags_unique:
  assumes "sorted_tags ts" "sorted_tags us" "tag_sig ` set ts = tag_sig ` set us"
  shows "concat (map write_tag ts) = concat (map write_tag us)"
proof -
  have num: "map fst (map tag_sig xs) = map tagnum xs" for xs by (simp add: tag_sig_def)
  have "inj_on fst (set (map tag_sig ts) \<union> set (map tag_sig us))"
    using assms unfolding sorted_tags_def num[symmetric] distinct_map by (metis Un_absorb list.set_map)
  then have "map tag_sig ts = map tag_sig us"
    using assms unfolding sorted_tags_def num[symmetric] by (intro map_sorted_distinct_set_unique[where f = fst]) (simp_all only: list.set_map)
  then show ?thesis unfolding write_tag_sig map_map[symmetric] by (simp only:)
qed

lemma sorted_tags_consistent:
  assumes sorted: "sorted_tags ts" and con: "consistent T" "set ts \<subseteq> T"
  shows "consistent (set ts) \<and> distinct (map tag_sig ts)"
proof
  show "consistent (set ts)" using con by (rule consistent_mono)
  have "map tagnum ts = map fst (map tag_sig ts)" by (simp add: tag_sig_def)
  then show "distinct (map tag_sig ts)" using sorted unfolding sorted_tags_def by (metis distinct_map)
qed

lemma consistent_by_sig:
  "consistent T = (\<forall>x\<in>tag_sig ` T. \<forall>y\<in>tag_sig ` T. (fst (snd x) = fst (snd y) \<longrightarrow> x = y) \<and> (fst x = fst y \<longrightarrow> fst (snd x) = fst (snd y)))"
  unfolding consistent_def by (simp add: tag_sig_def)

lemma consistent_sig: "tag_sig ` S = tag_sig ` T \<Longrightarrow> consistent T \<Longrightarrow> consistent S"
  unfolding consistent_by_sig by (simp only:)

lemma remerge_output:
  assumes ts: "sorted_tags ts" "\<forall>t\<in>set ts. clean_tag t" "consistent (set ts)" "distinct (map tag_sig ts)"
  shows "merge_event_log_tags (\<lambda>_. Some (concat (map write_tag ts))) [fn] = Inr ([], concat (map write_tag ts))"
proof -
  let ?files = "\<lambda>_ :: string. Some (concat (map write_tag ts))"
  note f = read_written[OF ts(2), of fn, unfolded Let_def]
  have fails: "\<not> parse_failed ?files [fn]" unfolding parse_failed_def using f by simp
  have tags: "map tag_sig (all_tags ?files [fn]) = map tag_sig ts" unfolding all_tags_def using f by simp
  then have sigs: "tag_sig ` set (all_tags ?files [fn]) = tag_sig ` set ts" by (metis list.set_map)
  have "consistent (set (all_tags ?files [fn]))" using sigs ts(3) by (rule consistent_sig)
  with fails have "(parse_failed ?files [fn] \<or> \<not> consistent (set (all_tags ?files [fn]))) = False" by blast
  from merge_result[of ?files "[fn]", unfolded this if_False] obtain ws us where
    us: "merge_event_log_tags ?files [fn] = Inr (ws, concat (map write_tag us))" "sorted_tags us" "tag_sig ` set us = tag_sig ` set (all_tags ?files [fn])"
    "ws = [] \<longleftrightarrow> distinct (map tag_sig (all_tags ?files [fn]))" by (elim exE conjE) (rule that)
  have "concat (map write_tag us) = concat (map write_tag ts)" using us(2) ts(1) us(3)[unfolded sigs] by (rule sorted_tags_unique)
  moreover have "ws = []" using us(4) ts(4) unfolding tags by (rule iffD2)
  ultimately show ?thesis using us(1) by (simp only:)
qed

text \<open>C30: merging tag files fails exactly if a file cannot be opened or read without errors, or two tags of the files have the same name and
  different numbers or descriptions, or the same number and different names. Otherwise the output, read back, has no errors and no
  options, lists exactly the tags of the files, each once, by increasing numbers; there are warnings exactly if a tag occurs more than
  once; and merging the output again gives the same output without warnings.\<close>

theorem merged_tags_roundtrip:
  "(let tags = all_tags files fns in
    ((\<exists>errors. merge_event_log_tags files fns = Inl errors) \<longleftrightarrow> parse_failed files fns \<or> \<not> consistent (set tags)) \<and>
    (\<forall>warnings out. merge_event_log_tags files fns = Inr (warnings, out) \<longrightarrow>
       (let f = TagFile_init (\<lambda>_. Some out) fn in
          tf_errors f = [] \<and> tf_options f = [] \<and> sorted_tags (tf_tags f) \<and> tag_sig ` set (tf_tags f) = tag_sig ` set tags) \<and>
       (warnings = [] \<longleftrightarrow> distinct (map tag_sig tags)) \<and>
       merge_event_log_tags (\<lambda>_. Some out) [fn] = Inr ([], out)))"
proof (cases "parse_failed files fns \<or> \<not> consistent (set (all_tags files fns))")
  case True
  with merge_result[of files fns] obtain errors where "merge_event_log_tags files fns = Inl errors" by (simp only: if_True) blast
  then show ?thesis using True unfolding Let_def by auto
next
  case False
  with merge_result[of files fns] have "\<exists>warnings ts. merge_event_log_tags files fns = Inr (warnings, concat (map write_tag ts)) \<and> sorted_tags ts \<and>
     set ts \<subseteq> set (all_tags files fns) \<and> tag_sig ` set ts = tag_sig ` set (all_tags files fns) \<and>
     (warnings = [] \<longleftrightarrow> distinct (map tag_sig (all_tags files fns)))" by (simp only: if_False)
  then obtain ws ts where ts: "merge_event_log_tags files fns = Inr (ws, concat (map write_tag ts))" "sorted_tags ts"
     "set ts \<subseteq> set (all_tags files fns)" "tag_sig ` set ts = tag_sig ` set (all_tags files fns)"
     "ws = [] \<longleftrightarrow> distinct (map tag_sig (all_tags files fns))" by (elim exE conjE) (rule that)
  have clean: "\<forall>t\<in>set ts. clean_tag t" using ts(3) all_tags_clean by blast
  have *: "consistent (set ts) \<and> distinct (map tag_sig ts)" using sorted_tags_consistent[OF ts(2) _ ts(3)] False by blast
  define f where "f = TagFile_init (\<lambda>_. Some (concat (map write_tag ts))) fn"
  have f: "tf_errors f = []" "tf_options f = []" "map tag_sig (tf_tags f) = map tag_sig ts" using read_written[OF clean, of fn] unfolding f_def Let_def by blast+
  have "map tagnum (tf_tags f) = map tagnum ts" using arg_cong[OF f(3), of "map fst"] by (simp add: tag_sig_def comp_def)
  then have "sorted_tags (tf_tags f)" using ts(2) unfolding sorted_tags_def by simp
  moreover have "tag_sig ` set (tf_tags f) = tag_sig ` set (all_tags files fns)" using arg_cong[OF f(3), of set] ts(4) by (simp only: list.set_map)
  moreover have "merge_event_log_tags (\<lambda>_. Some (concat (map write_tag ts))) [fn] = Inr ([], concat (map write_tag ts))" using remerge_output[OF ts(2) clean] * by blast
  ultimately show ?thesis using False ts(1,5) f(1,2) unfolding Let_def ts(1) f_def by simp
qed

definition sample_tag_files :: "string \<Rightarrow> string option" where
  "sample_tag_files fn = (if fn = ''a'' then Some (''42 answer (to life|3)  # comment'' @ [nl] @ ''option java_package x'' @ [nl] @ ''7 plain'')
     else if fn = ''b'' then Some (''42 answer (to life|3)'' @ [nl]) else None)"

theorem merged_tags_roundtrip_witness:
  "merge_event_log_tags (\<lambda>_. Some (''7 plain'' @ [nl] @ ''42 answer (to life|3)'' @ [nl])) [''m''] =
     Inr ([], ''7 plain'' @ [nl] @ ''42 answer (to life|3)'' @ [nl])"
proof -
  have "merge_event_log_tags sample_tag_files [''a'', ''b''] =
      Inr ([(''b'', 1, DuplicatedTag ''answer'' 42 ''a'' 1)], ''7 plain'' @ [nl] @ ''42 answer (to life|3)'' @ [nl])" by code_simp
  then show ?thesis using merged_tags_roundtrip[of sample_tag_files "[''a'', ''b'']" "''m''", unfolded Let_def] by blast
qed

end
