(* ===== verification/AidHeader.thy ===== *)
theory AidHeader
  imports TextFile
begin

text \<open>
  The first part of \<open>tools/fs_config/fs_config_generator.py\<close>: \<open>int\<close> with a base, the class \<open>AID\<close>, and the readers of the C headers
  that define capabilities and Android ids. \<open>sys.exit\<close> with a message is \<open>SystemExit 1\<close>. The contents of files are a parameter.
\<close>

section \<open>Integers with a base\<close>

definition digit_of :: "char \<Rightarrow> nat option" where
  "digit_of c = (let n = of_char c :: nat in
     if 48 \<le> n \<and> n \<le> 57 then Some (n - 48) else if 97 \<le> n \<and> n \<le> 122 then Some (n - 87)
     else if 65 \<le> n \<and> n \<le> 90 then Some (n - 55) else None)"

definition base_digit :: "nat \<Rightarrow> char \<Rightarrow> nat option" where
  "base_digit b c = (case digit_of c of None \<Rightarrow> None | Some d \<Rightarrow> if d < b then Some d else None)"

fun base_digits :: "nat \<Rightarrow> nat \<Rightarrow> string \<Rightarrow> nat option" where
  "base_digits b acc [] = Some acc"
| "base_digits b acc (c # cs) =
     (case base_digit b c of
        Some d \<Rightarrow> base_digits b (acc * b + d) cs
      | None \<Rightarrow> if c = CHR ''_'' then (case cs of [] \<Rightarrow> None
          | c' # cs' \<Rightarrow> (case base_digit b c' of None \<Rightarrow> None | Some d \<Rightarrow> base_digits b (acc * b + d) cs')) else None)"

definition base_nat :: "nat \<Rightarrow> string \<Rightarrow> nat option" where
  "base_nat b s = (case s of [] \<Rightarrow> None | c # _ \<Rightarrow> if base_digit b c = None then None else base_digits b 0 s)"

text \<open>The base a prefix stands for; after a prefix one underscore is allowed.\<close>

definition prefix_base :: "string \<Rightarrow> nat option" where
  "prefix_base s = (case s of
       a # x # _ \<Rightarrow> if a \<noteq> CHR ''0'' then None
         else if x = CHR ''x'' \<or> x = CHR ''X'' then Some 16
         else if x = CHR ''o'' \<or> x = CHR ''O'' then Some 8
         else if x = CHR ''b'' \<or> x = CHR ''B'' then Some 2 else None
     | _ \<Rightarrow> None)"

definition skip_prefix :: "string \<Rightarrow> string" where
  "skip_prefix s = (let t = drop 2 s in if prefix ''_'' t then drop 1 t else t)"

text \<open>Base 0: a prefix decides, and a decimal number that starts with 0 has to be zero. Otherwise the prefix of the base is allowed.\<close>

definition unsigned_base :: "nat \<Rightarrow> string \<Rightarrow> nat option" where
  "unsigned_base b s =
     (if b = 0 then
        (case prefix_base s of
           Some p \<Rightarrow> base_nat p (skip_prefix s)
         | None \<Rightarrow> (case base_nat 10 s of None \<Rightarrow> None | Some n \<Rightarrow> if prefix ''0'' s \<and> n \<noteq> 0 then None else Some n))
      else if prefix_base s = Some b then base_nat b (skip_prefix s) else base_nat b s)"

definition py_int_base :: "nat \<Rightarrow> string \<Rightarrow> int res" where
  "py_int_base b s = (case strip s of
       [] \<Rightarrow> Inl ValueError
     | c # cs \<Rightarrow>
         (case (if c = CHR ''-'' \<or> c = CHR ''+'' then unsigned_base b cs else unsigned_base b (c # cs)) of
            None \<Rightarrow> Inl ValueError
          | Some n \<Rightarrow> Inr (if c = CHR ''-'' then - int n else int n)))"

text \<open>\<open>str.lower\<close> below code point 256, and \<open>str.upper\<close> on ASCII.\<close>

definition lower_text :: "string \<Rightarrow> string" where
  "lower_text = map (\<lambda>c. let n = of_char c :: nat in
     if 65 \<le> n \<and> n \<le> 90 \<or> 192 \<le> n \<and> n \<le> 222 \<and> n \<noteq> 215 then char_of (n + 32) else c)"

definition upper_text :: "string \<Rightarrow> string" where
  "upper_text = map (\<lambda>c. let n = of_char c :: nat in if 97 \<le> n \<and> n \<le> 122 then char_of (n - 32) else c)"

section \<open>Android ids\<close>

record aid =
  aid_identifier :: string
  aid_value :: string
  aid_found :: string
  aid_login_shell :: string
  aid_normalized_value :: string
  aid_friendly :: string

definition fixup_friendly :: "string \<Rightarrow> string" where
  "fixup_friendly friendly =
     (case map_of [(''media_drm'', ''mediadrm''), (''media_ex'', ''mediaex''), (''media_codec'', ''mediacodec'')] friendly of
        Some s \<Rightarrow> s | None \<Rightarrow> friendly)"

definition AID_init :: "string \<Rightarrow> string \<Rightarrow> string \<Rightarrow> string \<Rightarrow> aid res" where
  "AID_init identifier val found login_shell =
     try_bind (py_int_base 0 val) (\<lambda>n.
       let friendly = fixup_friendly (lower_text (drop 4 identifier)) in
       if 31 < length friendly then Inl ValueError
       else Inr \<lparr>aid_identifier = identifier, aid_value = val, aid_found = found, aid_login_shell = login_shell,
                 aid_normalized_value = str_int n, aid_friendly = friendly\<rparr>)"

definition is_friendly :: "string \<Rightarrow> bool" where
  "is_friendly name = (\<not> prefix ''AID_'' name)"

definition in_any_range :: "int \<Rightarrow> (int \<times> int) list \<Rightarrow> bool" where
  "in_any_range v ranges = list_ex (\<lambda>(lower, upper). lower \<le> v \<and> v \<le> upper) ranges"

section \<open>Capabilities\<close>

text \<open>The rest of a line after \<open>\s*#define\s+\<close>.\<close>

definition after_define :: "string \<Rightarrow> string option" where
  "after_define line = (let a = lstrip line; b = drop 7 a in
     if prefix ''#define'' a \<and> b \<noteq> [] \<and> is_space (hd b) then Some (lstrip b) else None)"

text \<open>\<open>\s*#define\s+(CAP_\S+)\s+(\S+)\<close>.\<close>

definition cap_define :: "string \<Rightarrow> (string \<times> string) option" where
  "cap_define line = (case after_define line of
       None \<Rightarrow> None
     | Some c \<Rightarrow>
         let w = takeWhile (\<lambda>c. \<not> is_space c) c; v = takeWhile (\<lambda>c. \<not> is_space c) (lstrip (dropWhile (\<lambda>c. \<not> is_space c) c)) in
         if prefix ''CAP_'' w \<and> 4 < length w \<and> v \<noteq> [] then Some (w, v) else None)"

definition read_cap :: "(string, int) odict \<Rightarrow> string \<Rightarrow> (string, int) odict res" where
  "read_cap caps line = (case cap_define line of
       None \<Rightarrow> Inr caps
     | Some (cap, v) \<Rightarrow>
         if cap \<in> {''CAP_LAST_CAP'', ''CAP_TO_INDEX(x)'', ''CAP_TO_MASK(x)''} then Inr caps
         else (case py_int_base 0 v of Inl _ \<Rightarrow> Inl (SystemExit 1) | Inr n \<Rightarrow> Inr (dict_set cap n caps)))"

definition CapabilityHeaderParser_init :: "(string \<Rightarrow> string option) \<Rightarrow> string \<Rightarrow> (string, int) odict res" where
  "CapabilityHeaderParser_init files path = (case files path of None \<Rightarrow> Inl OSError | Some content \<Rightarrow> for_each read_cap [] (readlines content))"

section \<open>The header of Android ids\<close>

type_synonym range_table = "(string, (int \<times> int) list) odict"
type_synonym partial_ranges = "(string, (string, int option \<times> int option) odict) odict"

record aid_header =
  hd_name_to_value :: "(string, aid) odict"
  hd_value_to_name :: "(string, string) odict"
  hd_ranges :: range_table

text \<open>\<open>(?:(\d+)_)?(START|END)\s+(\d+)\<close>: the name of the range, whether it is a start, and the digits.\<close>

definition range_bound :: "string \<Rightarrow> (bool \<times> string) option" where
  "range_bound s =
     (let start = prefix ''START'' s; t = (if start then drop 5 s else drop 3 s); v = takeWhile is_digit (lstrip t) in
      if (start \<or> prefix ''END'' s) \<and> t \<noteq> [] \<and> is_space (hd t) \<and> v \<noteq> [] then Some (start, v) else None)"

definition range_tail :: "string \<Rightarrow> (string option \<times> bool \<times> string) option" where
  "range_tail s =
     (let ds = takeWhile is_digit s; t = dropWhile is_digit s in
      if ds \<noteq> [] then (if prefix ''_'' t then map_option (\<lambda>r. (Some ds, r)) (range_bound (drop 1 t)) else None)
      else map_option (\<lambda>r. (None, r)) (range_bound s))"

text \<open>\<open>(.+)_RESERVED_\<close> before such a tail: the longest prefix of \<open>n\<close> or fewer characters that fits.\<close>

fun reserved_at :: "nat \<Rightarrow> string \<Rightarrow> (string \<times> string option \<times> bool \<times> string) option" where
  "reserved_at 0 s = None"
| "reserved_at (Suc n) s =
     (let p = take (Suc n) s; t = drop (Suc n) s in
      if nl \<notin> set p \<and> length p = Suc n \<and> prefix ''_RESERVED_'' t
      then (case range_tail (drop 10 t) of Some r \<Rightarrow> Some (p, r) | None \<Rightarrow> reserved_at n s) else reserved_at n s)"

definition reserved_range :: "string \<Rightarrow> (string \<times> string option \<times> bool \<times> string) option" where
  "reserved_range line = (if prefix ''#define AID_'' line then reserved_at (length (drop 12 line)) (drop 12 line) else None)"

definition set_bound :: "bool \<Rightarrow> int \<Rightarrow> int option \<times> int option \<Rightarrow> (int option \<times> int option) res" where
  "set_bound start v = (\<lambda>(a, b).
     if start then (if a \<noteq> None then Inl (SystemExit 1) else Inr (Some v, b))
     else (if b \<noteq> None then Inl (SystemExit 1) else Inr (a, Some v)))"

definition add_bound :: "partial_ranges \<Rightarrow> string \<times> string option \<times> bool \<times> string \<Rightarrow> partial_ranges res" where
  "add_bound rs = (\<lambda>(part, name, start, digits).
     try_bind (py_int_base 0 digits) (\<lambda>v.
       let part' = (if lower_text part = ''oem'' then ''vendor'' else lower_text part);
           name' = (case name of None \<Rightarrow> ''unnamed'' | Some n \<Rightarrow> n);
           by_name = (case map_of rs part' of None \<Rightarrow> [] | Some d \<Rightarrow> d);
           bounds = (case map_of by_name name' of None \<Rightarrow> (None, None) | Some p \<Rightarrow> p) in
       try_bind (set_bound start v bounds) (\<lambda>bounds'. Inr (dict_set part' (dict_set name' bounds' by_name) rs))))"

definition skip_aid :: "string \<Rightarrow> bool" where
  "skip_aid identifier = (prefix ''AID_UNUSED'' identifier \<and> 10 < length identifier \<and> is_digit (identifier ! 10) \<or>
     prefix ''AID_APP'' identifier \<or> prefix ''AID_USER'' identifier)"

text \<open>\<open>AIDHeaderParser._handle_aid\<close>.\<close>

definition handle_header_aid :: "string \<Rightarrow> string \<Rightarrow> string \<Rightarrow> aid_header \<Rightarrow> aid_header res" where
  "handle_header_aid path identifier val h =
     try_bind (AID_init identifier val path ''/system/bin/sh'') (\<lambda>a.
       if map_of (hd_name_to_value h) (aid_friendly a) \<noteq> None then Inl ValueError
       else if map_of (hd_value_to_name h) val \<noteq> None \<and> aid_identifier a \<notin> {''AID_APP'', ''AID_APP_START'', ''AID_USER'', ''AID_USER_OFFSET''} then Inl ValueError
       else Inr (h\<lparr>hd_name_to_value := dict_set (aid_friendly a) a (hd_name_to_value h),
                   hd_value_to_name := dict_set val (aid_friendly a) (hd_value_to_name h)\<rparr>))"

text \<open>\<open>\s*#define\s+AID_.*\<close>, and the part of the loop body for such lines.\<close>

definition is_aid_define :: "string \<Rightarrow> bool" where
  "is_aid_define line = (case after_define line of None \<Rightarrow> False | Some c \<Rightarrow> prefix ''AID_'' c)"

definition read_aid :: "string \<Rightarrow> aid_header \<Rightarrow> string \<Rightarrow> aid_header res" where
  "read_aid path h line =
     (if \<not> is_aid_define line then Inr h
      else case split_ws line of
        _ # identifier # val # _ \<Rightarrow>
          if skip_aid identifier \<or> suffix ''_START'' identifier \<or> suffix ''_END'' identifier then Inr h
          else (case handle_header_aid path identifier val h of
              Inl ValueError \<Rightarrow> Inl (SystemExit 1)
            | r \<Rightarrow> r)
      | _ \<Rightarrow> Inl IndexError)"

definition read_header_line :: "string \<Rightarrow> partial_ranges \<times> aid_header \<Rightarrow> string \<Rightarrow> (partial_ranges \<times> aid_header) res" where
  "read_header_line path = (\<lambda>(rs, h) line.
     try_bind (case reserved_range line of None \<Rightarrow> Inr rs | Some m \<Rightarrow> add_bound rs m) (\<lambda>rs'.
       try_bind (read_aid path h line) (\<lambda>h'. Inr (rs', h'))))"

definition close_range :: "string \<Rightarrow> range_table \<Rightarrow> string \<times> int option \<times> int option \<Rightarrow> range_table res" where
  "close_range part t = (\<lambda>(name, bounds).
     case bounds of
       (Some a, Some b) \<Rightarrow> if a > b then Inl (SystemExit 1)
         else Inr (dict_set part ((case map_of t part of None \<Rightarrow> [] | Some l \<Rightarrow> l) @ [(a, b)]) t)
     | _ \<Rightarrow> Inl (SystemExit 1))"

definition close_ranges :: "partial_ranges \<Rightarrow> range_table res" where
  "close_ranges rs = for_each (\<lambda>t (part, by_name). for_each (close_range part) t by_name) [] rs"

definition is_overlap :: "int \<times> int \<Rightarrow> int \<times> int \<Rightarrow> bool" where
  "is_overlap a b = (max (fst a) (fst b) \<le> min (snd a) (snd b))"

fun some_overlap :: "(int \<times> int) list \<Rightarrow> bool" where
  "some_overlap [] = False"
| "some_overlap (r # rs) = (list_ex (is_overlap r) rs \<or> some_overlap rs)"

text \<open>\<open>_process_and_check\<close>. The message for an id inside a range formats the string \<open>aid\<close> with \<open>%u\<close>, which raises \<open>TypeError\<close>.\<close>

definition check_core :: "range_table \<Rightarrow> unit \<Rightarrow> string \<Rightarrow> unit res" where
  "check_core ranges = (\<lambda>_ v. for_each (\<lambda>_ (part, rs). try_bind (py_int_base 0 v) (\<lambda>n. if in_any_range n rs then Inl TypeError else Inr ())) () ranges)"

definition process_and_check :: "aid_header \<Rightarrow> unit res" where
  "process_and_check h =
     (if list_ex (\<lambda>(part, rs). some_overlap rs) (hd_ranges h) then Inl ValueError
      else for_each (check_core (hd_ranges h)) () (keys (hd_value_to_name h)))"

definition AIDHeaderParser_init :: "(string \<Rightarrow> string option) \<Rightarrow> string \<Rightarrow> aid_header res" where
  "AIDHeaderParser_init files path = (case files path of
       None \<Rightarrow> Inl OSError
     | Some content \<Rightarrow>
         try_bind (for_each (read_header_line path) ([], \<lparr>hd_name_to_value = [], hd_value_to_name = [], hd_ranges = []\<rparr>) (readlines content)) (\<lambda>(rs, h).
         try_bind (close_ranges rs) (\<lambda>ranges.
           let h' = h\<lparr>hd_ranges := ranges\<rparr> in
           (case process_and_check h' of Inl ValueError \<Rightarrow> Inl (SystemExit 1) | Inl e \<Rightarrow> Inl e | Inr _ \<Rightarrow> Inr h'))))"

definition header_aids :: "aid_header \<Rightarrow> aid list" where
  "header_aids h = map snd (hd_name_to_value h)"

section \<open>What a header that is accepted contains\<close>

definition header_ok :: "aid_header \<Rightarrow> bool" where
  "header_ok h = (distinct (keys (hd_name_to_value h)) \<and>
     (\<forall>(k, a)\<in>set (hd_name_to_value h). aid_friendly a = k \<and> aid_value a \<in> kset (hd_value_to_name h) \<and>
        (\<exists>n. py_int_base 0 (aid_value a) = Inr n \<and> aid_normalized_value a = str_int n)))"

lemma AID_init_fields:
  "AID_init s v fn sh = Inr a \<Longrightarrow> aid_identifier a = s \<and> aid_value a = v \<and> (\<exists>n. py_int_base 0 v = Inr n \<and> aid_normalized_value a = str_int n)"
  unfolding AID_init_def by (auto simp: Let_def split: if_splits)

lemma ball_subset: "\<forall>x\<in>B. P x \<Longrightarrow> A \<subseteq> B \<Longrightarrow> \<forall>x\<in>A. P x"
  by blast

lemma handle_header_aid_ok:
  assumes "header_ok h" "handle_header_aid path s v h = Inr h'"
  shows "header_ok h'"
proof -
  obtain a where a: "AID_init s v path ''/system/bin/sh'' = Inr a"
    and h': "h' = h\<lparr>hd_name_to_value := dict_set (aid_friendly a) a (hd_name_to_value h), hd_value_to_name := dict_set v (aid_friendly a) (hd_value_to_name h)\<rparr>"
    using assms(2) unfolding handle_header_aid_def by (auto split: if_splits)
  have "\<forall>(k, b)\<in>insert (aid_friendly a, a) (set (hd_name_to_value h)). aid_friendly b = k \<and> aid_value b \<in> insert v (kset (hd_value_to_name h)) \<and>
        (\<exists>n. py_int_base 0 (aid_value b) = Inr n \<and> aid_normalized_value b = str_int n)"
    using assms(1) AID_init_fields[OF a] unfolding header_ok_def by auto
  moreover have "set (hd_name_to_value h') \<subseteq> insert (aid_friendly a, a) (set (hd_name_to_value h))" unfolding h' by (simp add: set_dict_set)
  moreover have "distinct (keys (hd_name_to_value h'))" using assms(1) unfolding header_ok_def h' by simp
  moreover have "kset (hd_value_to_name h') = insert v (kset (hd_value_to_name h))" unfolding h' by simp
  ultimately show ?thesis unfolding header_ok_def by (intro conjI) (assumption, simp only:, erule (1) ball_subset)
qed

lemma read_header_line_ok:
  assumes "header_ok (snd st)" "read_header_line path st line = Inr st'"
  shows "header_ok (snd st')"
proof -
  obtain rs h where st: "st = (rs, h)" by fastforce
  obtain rs' h' where "read_aid path h line = Inr h'" "st' = (rs', h')" using assms(2) unfolding read_header_line_def st by auto
  moreover from this have "h' = h \<or> (\<exists>s v. handle_header_aid path s v h = Inr h')"
    unfolding read_aid_def by (auto split: if_splits list.splits sum.splits py_error.splits)
  ultimately show ?thesis using assms(1) handle_header_aid_ok unfolding st by auto
qed

definition ranges_ok :: "range_table \<Rightarrow> bool" where
  "ranges_ok t = (\<forall>(part, rs)\<in>set t. \<forall>(a, b)\<in>set rs. a \<le> b)"

lemma close_range_ok:
  assumes "ranges_ok t" "close_range part t nb = Inr t'"
  shows "ranges_ok t'"
proof -
  have "\<exists>name a b. nb = (name, Some a, Some b) \<and> a \<le> b \<and> t' = dict_set part ((case map_of t part of None \<Rightarrow> [] | Some l \<Rightarrow> l) @ [(a, b)]) t"
    using assms(2) unfolding close_range_def by (auto simp: not_less split: if_splits prod.splits option.splits)
  then obtain a b where "a \<le> b" and t': "t' = dict_set part ((case map_of t part of None \<Rightarrow> [] | Some l \<Rightarrow> l) @ [(a, b)]) t" by blast
  have old: "\<forall>(a, b)\<in>set rs. a \<le> b" if "(q, rs) \<in> set t" for q rs using assms(1) that unfolding ranges_ok_def by blast
  have "\<forall>(a, b)\<in>set (case map_of t part of None \<Rightarrow> [] | Some l \<Rightarrow> l). a \<le> b"
  proof (cases "map_of t part")
    case (Some l)
    then show ?thesis using old[OF map_of_SomeD[OF Some]] by (simp only: option.case)
  qed simp
  then have new: "\<forall>(a, b)\<in>set ((case map_of t part of None \<Rightarrow> [] | Some l \<Rightarrow> l) @ [(a, b)]). a \<le> b" using \<open>a \<le> b\<close> by simp
  show ?thesis unfolding ranges_ok_def
  proof (intro ballI, clarify)
    fix q rs c d assume "(q, rs) \<in> set t'" "(c, d) \<in> set rs"
    moreover from this have "(q, rs) \<in> set t \<or> rs = (case map_of t part of None \<Rightarrow> [] | Some l \<Rightarrow> l) @ [(a, b)]" using set_dict_set[of part _ t] unfolding t' by blast
    ultimately show "c \<le> d" using old new by blast
  qed
qed

lemma close_ranges_ok: "close_ranges rs = Inr t \<Longrightarrow> ranges_ok t"
  unfolding close_ranges_def
  by (erule for_each_partial_invariant) (auto simp: ranges_ok_def[of "[]"] elim!: for_each_partial_invariant intro: close_range_ok)

lemma check_core_ok:
  assumes "check_core ranges u v = Inr u'"
  shows "\<forall>(part, rs)\<in>set ranges. \<exists>n. py_int_base 0 v = Inr n \<and> \<not> in_any_range n rs"
  using assms unfolding check_core_def
proof (induction ranges)
  case (Cons r ranges)
  then show ?case by (cases r) (auto split: if_splits)
qed simp

lemma for_each_unit: "for_each f () xs = Inr u \<Longrightarrow> x \<in> set xs \<Longrightarrow> \<exists>u'. f () x = Inr u'"
  by (induction xs) auto

lemma no_overlap_disjoint:
  "\<not> some_overlap rs \<Longrightarrow> \<forall>(a, b)\<in>set rs. a \<le> b \<Longrightarrow> i < j \<Longrightarrow> j < length rs \<Longrightarrow> {fst (rs ! i)..snd (rs ! i)} \<inter> {fst (rs ! j)..snd (rs ! j)} = {}"
proof (induction rs arbitrary: i j)
  case (Cons r rs)
  show ?case
  proof (cases i)
    case 0
    then obtain k where k: "j = Suc k" "k < length rs" using Cons.prems(3,4) by (cases j) auto
    then have "\<not> is_overlap r (rs ! k)" using Cons.prems(1) by (auto simp: list_ex_iff)
    then show ?thesis using 0 k unfolding is_overlap_def by auto
  next
    case (Suc m)
    then obtain k where "j = Suc k" "m < k" "k < length rs" using Cons.prems(3,4) by (cases j) auto
    then show ?thesis using Suc Cons.IH[of m k] Cons.prems(1,2) by auto
  qed
qed simp

lemma header_accepted:
  assumes "AIDHeaderParser_init files path = Inr h"
  shows "header_ok h \<and> ranges_ok (hd_ranges h) \<and> (\<forall>(part, rs)\<in>set (hd_ranges h). \<not> some_overlap rs) \<and>
    (\<forall>v\<in>kset (hd_value_to_name h). \<forall>(part, rs)\<in>set (hd_ranges h). \<exists>n. py_int_base 0 v = Inr n \<and> \<not> in_any_range n rs)"
proof -
  obtain content rs h0 ranges u where
    lines: "for_each (read_header_line path) ([], \<lparr>hd_name_to_value = [], hd_value_to_name = [], hd_ranges = []\<rparr>) (readlines content) = Inr (rs, h0)"
    and close: "close_ranges rs = Inr ranges" and h: "h = h0\<lparr>hd_ranges := ranges\<rparr>" and check: "process_and_check h = Inr u"
    using assms unfolding AIDHeaderParser_init_def by (auto simp: Let_def split: option.splits sum.splits py_error.splits)
  have "header_ok (snd (rs, h0))" using lines
    by (rule for_each_partial_invariant) (use read_header_line_ok in \<open>auto simp: header_ok_def[of "\<lparr>hd_name_to_value = [], hd_value_to_name = [], hd_ranges = []\<rparr>"]\<close>)
  then have "header_ok h" unfolding h header_ok_def by simp
  moreover have "ranges_ok (hd_ranges h)" using close_ranges_ok[OF close] unfolding h by simp
  moreover have no: "\<not> list_ex (\<lambda>(part, rs). some_overlap rs) (hd_ranges h)" and core: "for_each (check_core (hd_ranges h)) () (keys (hd_value_to_name h)) = Inr u"
    using check unfolding process_and_check_def by (auto split: if_splits)
  have "\<forall>(part, rs)\<in>set (hd_ranges h). \<exists>n. py_int_base 0 v = Inr n \<and> \<not> in_any_range n rs" if "v \<in> kset (hd_value_to_name h)" for v
    using for_each_unit[OF core] that check_core_ok unfolding kset_iff by blast
  moreover have "\<forall>(part, rs)\<in>set (hd_ranges h). \<not> some_overlap rs" using no by (auto simp: list_ex_iff)
  ultimately show ?thesis by blast
qed

end
