(* ===== verification/FsConfig.thy ===== *)
theory FsConfig
  imports AidHeader ByteFormat "HOL-Library.Word"
begin

unbundle bit_operations_syntax

text \<open>
  The rest of \<open>tools/fs_config/fs_config_generator.py\<close>: the reader of \<open>config.fs\<close> files and the generators of the binary file system
  configuration, the C headers and the \<open>passwd\<close> and \<open>group\<close> files. Reading the ini format is the job of \<open>configparser\<close>: the model
  gets the sections of a file with their options, those of the default section included, as \<open>sections\<close> and \<open>get\<close> return them. What a generator prints or writes is its result.
\<close>

section \<open>Sections\<close>

type_synonym config = "(string, (string, string) odict) odict"

record fs_config =
  fs_mode :: string
  fs_user :: string
  fs_group :: string
  fs_caps :: string
  fs_path :: string
  fs_filename :: string

record file_parser =
  fp_files :: "fs_config list"
  fp_dirs :: "fs_config list"
  fp_aids :: "aid list"
  fp_seen_paths :: "(string, string) odict"
  fp_seen_names :: "(string, string) odict"
  fp_seen_values :: "(string, string) odict"

definition handle_dup_and_add :: "string \<Rightarrow> string \<Rightarrow> (string, string) odict \<Rightarrow> (string, string) odict res" where
  "handle_dup_and_add file_name section_name seen =
     (if map_of seen section_name \<noteq> None then Inl (SystemExit 1) else Inr (dict_set section_name file_name seen))"

text \<open>Partition names, longest first; sorting is stable, also in reverse.\<close>

definition by_length :: "range_table \<Rightarrow> string list" where
  "by_length ranges = sort_key (\<lambda>p. - int (length p)) (keys ranges)"

definition partition_of :: "range_table \<Rightarrow> string \<Rightarrow> string option" where
  "partition_of ranges friendly = find (\<lambda>p. prefix p friendly) (by_length ranges)"

definition verify_valid_range :: "range_table \<Rightarrow> aid \<Rightarrow> unit res" where
  "verify_valid_range ranges a = (case partition_of ranges (aid_friendly a) of
       None \<Rightarrow> Inl (SystemExit 1)
     | Some p \<Rightarrow> try_bind (dict_get ranges p) (\<lambda>rs. try_bind (py_int_base 0 (aid_value a)) (\<lambda>n.
         if in_any_range n rs then Inr () else Inl (SystemExit 1))))"

text \<open>The end of the match of \<open>AID_[A-Z0-9_]+\<close>.\<close>

definition aid_char :: "char \<Rightarrow> bool" where
  "aid_char c = (let n = of_char c :: nat in 65 \<le> n \<and> n \<le> 90 \<or> 48 \<le> n \<and> n \<le> 57 \<or> n = 95)"

definition aid_match_end :: "string \<Rightarrow> nat" where
  "aid_match_end s = (let w = takeWhile aid_char (drop 4 s) in if prefix ''AID_'' s \<and> w \<noteq> [] then 4 + length w else 4)"

definition config_get :: "config \<Rightarrow> string \<Rightarrow> string \<Rightarrow> string res" where
  "config_get config sect item = try_bind (dict_get config sect) (\<lambda>d. dict_get d item)"

definition handle_aid :: "range_table \<Rightarrow> string \<Rightarrow> string \<Rightarrow> config \<Rightarrow> file_parser \<Rightarrow> file_parser res" where
  "handle_aid ranges file_name section_name config fp =
     try_bind (handle_dup_and_add file_name section_name (fp_seen_names fp)) (\<lambda>names.
     if aid_match_end section_name \<noteq> length section_name then Inl (SystemExit 1)
     else try_bind (config_get config section_name ''value'') (\<lambda>val.
     if val = [] then Inl (SystemExit 1)
     else case AID_init section_name val file_name ''/bin/sh'' of
         Inl _ \<Rightarrow> Inl (SystemExit 1)
       | Inr a \<Rightarrow>
           try_bind (verify_valid_range ranges a) (\<lambda>_.
           try_bind (handle_dup_and_add file_name (aid_normalized_value a) (fp_seen_values fp)) (\<lambda>vals.
             Inr (fp\<lparr>fp_seen_names := names, fp_seen_values := vals, fp_aids := fp_aids fp @ [a]\<rparr>)))))"

definition cap_name :: "string \<Rightarrow> string" where
  "cap_name cap = (case py_int_base 0 cap of Inr _ \<Rightarrow> cap | Inl _ \<Rightarrow> ''CAP_'' @ upper_text cap)"

definition pad_mode :: "string \<Rightarrow> string" where
  "pad_mode mode = (if length mode = 3 then CHR ''0'' # mode else mode)"

definition handle_path :: "string \<Rightarrow> string \<Rightarrow> config \<Rightarrow> file_parser \<Rightarrow> file_parser res" where
  "handle_path file_name section_name config fp =
     try_bind (handle_dup_and_add file_name section_name (fp_seen_paths fp)) (\<lambda>paths.
     try_bind (config_get config section_name ''mode'') (\<lambda>mode.
     try_bind (config_get config section_name ''user'') (\<lambda>user.
     try_bind (config_get config section_name ''group'') (\<lambda>grp.
     try_bind (config_get config section_name ''caps'') (\<lambda>caps.
     if mode = [] \<or> user = [] \<or> grp = [] \<or> caps = [] then Inl (SystemExit 1)
     else
       let caps' = map cap_name (split_ws caps); mode' = pad_mode mode in
       case py_int_base 8 mode' of
         Inl _ \<Rightarrow> Inl (SystemExit 1)
       | Inr _ \<Rightarrow>
           if length mode' \<noteq> 4 then Inl (SystemExit 1)
           else
             let entry = \<lparr>fs_mode = mode', fs_user = user, fs_group = grp, fs_caps = join '','' caps', fs_path = section_name, fs_filename = file_name\<rparr>;
                 fp' = fp\<lparr>fp_seen_paths := paths\<rparr> in
             if section_name = [] then Inl IndexError
             else if last section_name = CHR ''/'' then Inr (fp'\<lparr>fp_dirs := fp_dirs fp @ [entry]\<rparr>)
             else Inr (fp'\<lparr>fp_files := fp_files fp @ [entry]\<rparr>))))))"

section \<open>The order of the files\<close>

text \<open>\<open>StringWrapper\<close>: whether the path is a prefix, and the path without the star.\<close>

definition is_prefix :: "fs_config \<Rightarrow> bool" where
  "is_prefix e = (last (fs_path e) = CHR ''*'')"

definition wrapped_path :: "fs_config \<Rightarrow> string" where
  "wrapped_path e = (if is_prefix e then butlast (fs_path e) else fs_path e)"

definition wrapper_lt :: "fs_config \<Rightarrow> fs_config \<Rightarrow> bool" where
  "wrapper_lt a b =
     (if is_prefix a \<and> is_prefix b then length (wrapped_path b) < length (wrapped_path a)
      else if is_prefix a then False
      else if is_prefix b then True
      else wrapped_path a < wrapped_path b)"

text \<open>A stable sort that only compares with \<open>__lt__\<close>.\<close>

fun insert_by :: "('a \<Rightarrow> 'a \<Rightarrow> bool) \<Rightarrow> 'a \<Rightarrow> 'a list \<Rightarrow> 'a list" where
  "insert_by lt x [] = [x]"
| "insert_by lt x (y # ys) = (if lt y x then y # insert_by lt x ys else x # y # ys)"

definition sort_by :: "('a \<Rightarrow> 'a \<Rightarrow> bool) \<Rightarrow> 'a list \<Rightarrow> 'a list" where
  "sort_by lt xs = foldr (insert_by lt) xs []"

definition has_options :: "(string, string) odict \<Rightarrow> string list \<Rightarrow> bool" where
  "has_options d items = list_all (\<lambda>i. map_of d i \<noteq> None) items"

definition parse_section :: "range_table \<Rightarrow> string \<Rightarrow> config \<Rightarrow> file_parser \<Rightarrow> string \<times> (string, string) odict \<Rightarrow> file_parser res" where
  "parse_section ranges file_name config fp = (\<lambda>(sect, d).
     try_bind (if has_options d [''value''] then handle_aid ranges file_name sect config fp
               else if has_options d [''mode'', ''user'', ''group'', ''caps''] then handle_path file_name sect config fp
               else Inl (SystemExit 1)) (\<lambda>fp'.
       Inr (fp'\<lparr>fp_files := sort_by wrapper_lt (fp_files fp'), fp_aids := sort_key aid_normalized_value (fp_aids fp')\<rparr>)))"

definition parse_config :: "(string \<Rightarrow> config res) \<Rightarrow> range_table \<Rightarrow> file_parser \<Rightarrow> string \<Rightarrow> file_parser res" where
  "parse_config read_config ranges fp file_name =
     try_bind (read_config file_name) (\<lambda>config. for_each (parse_section ranges file_name config) fp config)"

definition FSConfigFileParser_init :: "(string \<Rightarrow> config res) \<Rightarrow> string list \<Rightarrow> range_table \<Rightarrow> file_parser res" where
  "FSConfigFileParser_init read_config config_files ranges =
     for_each (parse_config read_config ranges)
       \<lparr>fp_files = [], fp_dirs = [], fp_aids = [], fp_seen_paths = [], fp_seen_names = [], fp_seen_values = []\<rparr> config_files"

section \<open>The binary configuration\<close>

record fs_args =
  ga_capability_header :: string
  ga_aid_header :: string
  ga_fsconfig :: "string list"
  ga_partition :: string
  ga_all_partitions :: "string option"
  ga_files :: bool
  ga_dirs :: bool

record fs_tables =
  gt_caps :: "(string, int) odict"
  gt_friendly :: "(string, aid) odict"
  gt_id :: "(string, aid) odict"

definition dict_of :: "('a \<Rightarrow> 'k) \<Rightarrow> 'a list \<Rightarrow> ('k, 'a) odict \<Rightarrow> ('k, 'a) odict" where
  "dict_of key xs d = foldl (\<lambda>d x. dict_set (key x) x d) d xs"

definition resolve_id :: "fs_tables \<Rightarrow> string \<Rightarrow> string res" where
  "resolve_id tb name = (case map_of (if is_friendly name then gt_friendly tb else gt_id tb) name of
       None \<Rightarrow> Inl (SystemExit 1) | Some a \<Rightarrow> Inr (aid_value a))"

definition add_cap :: "(string, int) odict \<Rightarrow> int \<Rightarrow> string \<Rightarrow> int res" where
  "add_cap caps v cap = (case map_of caps cap of
       None \<Rightarrow> Inl (SystemExit 1)
     | Some k \<Rightarrow> if k < 0 then Inl ValueError else Inr (v + 2 ^ nat k))"

definition caps_value :: "(string, int) odict \<Rightarrow> string \<Rightarrow> int res" where
  "caps_value caps s = (case py_int_base 0 s of Inr n \<Rightarrow> Inr n | Inl _ \<Rightarrow> for_each (add_cap caps) 0 (split_on CHR '','' s))"

text \<open>\<open>bytearray(ctypes.c_uint16(x))\<close> and \<open>bytearray(ctypes.c_uint64(x))\<close>: the value is cut to the width, little-endian.\<close>

definition c_uint16 :: "int \<Rightarrow> string" where
  "c_uint16 x = le_bytes 2 (unat (word_of_int x :: 16 word))"

definition c_uint64 :: "int \<Rightarrow> string" where
  "c_uint64 x = le_bytes 8 (unat (word_of_int x :: 64 word))"

text \<open>\<open>str.encode\<close> below code point 256, and \<open>ctypes.create_string_buffer\<close>.\<close>

definition encode_utf8 :: "string \<Rightarrow> string" where
  "encode_utf8 s = concat (map (\<lambda>c. let n = of_char c :: nat in
     if n < 128 then [c] else [char_of (192 + n div 64), char_of (128 + n mod 64)]) s)"

definition string_buffer :: "string \<Rightarrow> nat \<Rightarrow> string res" where
  "string_buffer bs n = (if n < length bs then Inl ValueError else Inr (bs @ replicate (n - length bs) (CHR 0x00)))"

definition aligned_64 :: "int \<Rightarrow> int" where
  "aligned_64 n = (n + 7) AND NOT 7"

definition to_fs_entry :: "fs_tables \<Rightarrow> fs_config \<Rightarrow> string res" where
  "to_fs_entry tb e =
     try_bind (py_int_base 8 (fs_mode e)) (\<lambda>mode.
     try_bind (resolve_id tb (fs_user e)) (\<lambda>user.
     try_bind (resolve_id tb (fs_group e)) (\<lambda>grp.
     try_bind (caps_value (gt_caps tb) (fs_caps e)) (\<lambda>caps.
     let path_length = aligned_64 (int (length (fs_path e)) + 1) in
     try_bind (py_int_base 0 user) (\<lambda>uid.
     try_bind (py_int_base 0 grp) (\<lambda>gid.
     try_bind (string_buffer (encode_utf8 (fs_path e)) (nat path_length)) (\<lambda>path.
       Inr (c_uint16 (16 + path_length) @ c_uint16 mode @ c_uint16 uid @ c_uint16 gid @ c_uint64 caps @ path))))))))"

definition emit_entry :: "string \<Rightarrow> string option \<Rightarrow> fs_config \<Rightarrow> bool" where
  "emit_entry part all_partitions e =
     (let path = fs_path e; under = (\<lambda>p. prefix p path \<or> prefix (''system/'' @ p) path) in
      if part = ''system'' then
        (case all_partitions of None \<Rightarrow> True | Some s \<Rightarrow> if s = [] then True else \<not> list_ex under (split_on CHR '','' s))
      else under part)"

definition generate_entries :: "fs_tables \<Rightarrow> string \<Rightarrow> string option \<Rightarrow> fs_config list \<Rightarrow> string res" where
  "generate_entries tb part all_partitions es =
     for_each (\<lambda>out e. if emit_entry part all_partitions e then try_bind (to_fs_entry tb e) (\<lambda>bs. Inr (out @ bs)) else Inr out) [] es"

definition FSConfigGen_call :: "(string \<Rightarrow> string option) \<Rightarrow> (string \<Rightarrow> config res) \<Rightarrow> fs_args \<Rightarrow> string res" where
  "FSConfigGen_call files read_config args =
     try_bind (CapabilityHeaderParser_init files (ga_capability_header args)) (\<lambda>caps.
     try_bind (AIDHeaderParser_init files (ga_aid_header args)) (\<lambda>h.
     try_bind (FSConfigFileParser_init read_config (ga_fsconfig args) (hd_ranges h)) (\<lambda>fp.
     if ga_files args \<and> ga_dirs args then Inl (SystemExit 1)
     else if \<not> ga_files args \<and> \<not> ga_dirs args then Inl (SystemExit 1)
     else
       let base_friendly = dict_of aid_friendly (header_aids h) []; oem_friendly = dict_of aid_friendly (fp_aids fp) [] in
       if kset base_friendly \<inter> kset oem_friendly \<noteq> {} then Inl (SystemExit 1)
       else
         let tb = \<lparr>gt_caps = caps, gt_friendly = foldl (\<lambda>d (k, a). dict_set k a d) oem_friendly base_friendly,
                   gt_id = dict_of aid_identifier (fp_aids fp) (dict_of aid_identifier (header_aids h) [])\<rparr> in
         generate_entries tb (ga_partition args) (ga_all_partitions args) (if ga_files args then fp_files fp else fp_dirs fp))))"

section \<open>The text generators\<close>

definition get_login_and_uid_cleansed :: "aid \<Rightarrow> (string \<times> string) res" where
  "get_login_and_uid_cleansed a =
     (if CHR '':'' \<in> set (aid_normalized_value a) then Inl ValueError
      else if CHR '':'' \<in> set (aid_friendly a) then Inl ValueError
      else Inr (aid_friendly a, aid_normalized_value a))"

definition passwd_line :: "aid \<Rightarrow> string res" where
  "passwd_line a = (case get_login_and_uid_cleansed a of
       Inl _ \<Rightarrow> Inl (SystemExit 1)
     | Inr (logon, uid) \<Rightarrow> Inr (logon @ ''::'' @ uid @ '':'' @ uid @ ''::/:'' @ aid_login_shell a))"

definition group_line :: "aid \<Rightarrow> string res" where
  "group_line a = (case get_login_and_uid_cleansed a of
       Inl _ \<Rightarrow> Inl (SystemExit 1)
     | Inr (logon, uid) \<Rightarrow> Inr (logon @ ''::'' @ uid @ '':''))"

definition add_by_partition :: "range_table \<Rightarrow> (string, aid list) odict \<Rightarrow> aid \<Rightarrow> (string, aid list) odict" where
  "add_by_partition ranges d a = (case partition_of ranges (aid_friendly a) of
       None \<Rightarrow> d
     | Some p \<Rightarrow> dict_set p ((case map_of d p of None \<Rightarrow> [] | Some l \<Rightarrow> l) @ [a]) d)"

text \<open>\<open>PasswdGen.__call__\<close>, which \<open>GroupGen\<close> inherits with another line format; the lines it prints.\<close>

definition PasswdGen_call ::
  "(aid \<Rightarrow> string res) \<Rightarrow> (string \<Rightarrow> string option) \<Rightarrow> (string \<Rightarrow> config res) \<Rightarrow> string \<Rightarrow> string list \<Rightarrow> string \<Rightarrow> string list res" where
  "PasswdGen_call format_line files read_config header fsconfig filter_partition =
     try_bind (AIDHeaderParser_init files header) (\<lambda>h.
     try_bind (FSConfigFileParser_init read_config fsconfig (hd_ranges h)) (\<lambda>fp.
     if fp_aids fp = [] then Inr []
     else
       let aids_by_partition = foldl (add_by_partition (hd_ranges h)) [] (fp_aids fp) in
       (case map_of aids_by_partition filter_partition of
          None \<Rightarrow> Inr []
        | Some l \<Rightarrow> map_res format_line l)))"

definition print_aid :: "string list \<times> string option \<Rightarrow> aid \<Rightarrow> string list \<times> string option" where
  "print_aid = (\<lambda>(out, old_file) a.
     let comment = (if old_file \<noteq> Some (aid_found a) then [''// Defined in file: '' @ [CHR 0x22] @ aid_found a @ [CHR 0x22]] else []) in
     (out @ comment @ [''#define '' @ aid_identifier a @ [CHR 0x09] @ aid_value a] @ [[]], Some (aid_found a)))"

definition OEMAidGen_call :: "(string \<Rightarrow> string option) \<Rightarrow> (string \<Rightarrow> config res) \<Rightarrow> string \<Rightarrow> string list \<Rightarrow> string list res" where
  "OEMAidGen_call files read_config header fsconfig =
     try_bind (AIDHeaderParser_init files header) (\<lambda>h.
     try_bind (FSConfigFileParser_init read_config fsconfig (hd_ranges h)) (\<lambda>fp.
       Inr ([''/*'' @ [nl] @ '' * THIS IS AN AUTOGENERATED FILE! DO NOT MODIFY!'' @ [nl] @ '' */'',
             ''#ifndef GENERATED_OEM_AIDS_H_'' @ [nl] @ ''#define GENERATED_OEM_AIDS_H_'' @ [nl]] @
            fst (foldl print_aid ([], None) (fp_aids fp)) @ [''#endif''])))"

definition AIDArrayGen_call :: "(string \<Rightarrow> string option) \<Rightarrow> string \<Rightarrow> string list res" where
  "AIDArrayGen_call files hdrfile =
     try_bind (AIDHeaderParser_init files hdrfile) (\<lambda>h.
     if header_aids h = [] then Inl ValueError
     else
       let max_name_length = Max ((\<lambda>a. length (aid_friendly a) + 1) ` set (header_aids h)) in
       Inr ([''/*'' @ [nl] @ '' * THIS IS AN AUTOGENERATED FILE! DO NOT MODIFY!'' @ [nl] @ '' */'', [],
             ''#include <private/android_filesystem_config.h>'', [],
             [nl] @ ''struct android_id_info {'' @ [nl] @ ''    const char name['' @ str_int (int max_name_length) @ ''];'' @ [nl] @
               ''    unsigned aid;'' @ [nl] @ ''};'', [],
             ''static const struct android_id_info android_ids[] = {''] @
            map (\<lambda>a. ''    { '' @ [CHR 0x22] @ aid_friendly a @ [CHR 0x22] @ '', '' @ aid_identifier a @ '' },'') (header_aids h) @
            [''};'', [], ''#define android_id_count '' @ [CHR 0x5C] @ [nl] @ ''    (sizeof(android_ids) / sizeof(android_ids[0]))'', []]))"

text \<open>\<open>PrintGen\<close> sorts the view of a dictionary, which has no method \<open>sort\<close>.\<close>

definition PrintGen_call :: "(string \<Rightarrow> string option) \<Rightarrow> string \<Rightarrow> string list res" where
  "PrintGen_call files header = try_bind (AIDHeaderParser_init files header) (\<lambda>h. Inl AttributeError)"

section \<open>The order of the files\<close>

lemma insert_by_mset [simp]: "mset (insert_by lt x xs) = add_mset x (mset xs)"
  by (induction xs) auto

lemma sort_by_mset [simp]: "mset (sort_by lt xs) = mset xs"
  unfolding sort_by_def by (induction xs) auto

lemma sort_by_set [simp]: "set (sort_by lt xs) = set xs"
  by (metis sort_by_mset set_mset_mset)

lemma insert_by_set: "set (insert_by lt x xs) = insert x (set xs)"
  by (induction xs) auto

lemma sort_by_sorted:
  assumes asym: "\<And>a b. lt a b \<Longrightarrow> \<not> lt b a" and trans: "\<And>a b c. \<not> lt b a \<Longrightarrow> \<not> lt c b \<Longrightarrow> \<not> lt c a"
  shows "sorted_wrt (\<lambda>a b. \<not> lt b a) (sort_by lt xs)"
proof -
  have ins: "sorted_wrt (\<lambda>a b. \<not> lt b a) (insert_by lt x ys)" if "sorted_wrt (\<lambda>a b. \<not> lt b a) ys" for x ys
    using that
  proof (induction ys)
    case (Cons y ys)
    show ?case
    proof (cases "lt y x")
      case True
      then have "\<forall>z\<in>set (insert_by lt x ys). \<not> lt z y" using Cons.prems asym unfolding insert_by_set by auto
      then show ?thesis using True Cons by simp
    next
      case False
      then have "\<forall>z\<in>set (y # ys). \<not> lt z x" using Cons.prems trans by auto
      then show ?thesis using False Cons.prems by simp
    qed
  qed simp
  show ?thesis unfolding sort_by_def by (induction xs) (use ins in auto)
qed

lemma wrapper_lt_asym: "wrapper_lt a b \<Longrightarrow> \<not> wrapper_lt b a"
  unfolding wrapper_lt_def by (auto split: if_splits)

lemma wrapper_lt_trans: "\<not> wrapper_lt b a \<Longrightarrow> \<not> wrapper_lt c b \<Longrightarrow> \<not> wrapper_lt c a"
  unfolding wrapper_lt_def by (auto split: if_splits)

lemma files_sorted: "sorted_wrt (\<lambda>a b. \<not> wrapper_lt b a) (sort_by wrapper_lt xs)"
  using wrapper_lt_asym wrapper_lt_trans by (rule sort_by_sorted)

text \<open>How the entries are used: the first entry that matches a path decides.\<close>

definition entry_matches :: "string \<Rightarrow> fs_config \<Rightarrow> bool" where
  "entry_matches path e = (if is_prefix e then prefix (wrapped_path e) path else fs_path e = path)"

lemma find_first: "find P xs = Some x \<Longrightarrow> \<exists>ys zs. xs = ys @ x # zs \<and> P x \<and> (\<forall>y\<in>set ys. \<not> P y)"
proof (induction xs)
  case (Cons a xs)
  show ?case
  proof (cases "P a")
    case True
    then have "a # xs = [] @ x # xs \<and> P x \<and> (\<forall>y\<in>set []. \<not> P y)" using Cons.prems by simp
    then show ?thesis by blast
  next
    case False
    then obtain ys zs where "xs = ys @ x # zs" "P x" "\<forall>y\<in>set ys. \<not> P y" using Cons by auto
    then have "a # xs = (a # ys) @ x # zs \<and> P x \<and> (\<forall>y\<in>set (a # ys). \<not> P y)" using False by simp
    then show ?thesis by blast
  qed
qed simp

lemma first_match_best:
  assumes sorted: "sorted_wrt (\<lambda>a b. \<not> wrapper_lt b a) es" and found: "find (entry_matches path) es = Some e"
    and other: "f \<in> set es" "entry_matches path f"
  shows "(is_prefix e \<longrightarrow> is_prefix f \<and> length (wrapped_path f) \<le> length (wrapped_path e))"
proof -
  obtain ys zs where es: "es = ys @ e # zs" "\<forall>y\<in>set ys. \<not> entry_matches path y" using find_first[OF found] by blast
  then consider "f = e" | "f \<in> set zs" using other by auto
  then show ?thesis
  proof cases
    case 2
    then have "\<not> wrapper_lt f e" using sorted unfolding es(1) by (simp add: sorted_wrt_append)
    then show ?thesis unfolding wrapper_lt_def by (auto split: if_splits)
  qed simp
qed

section \<open>The state of the file parser\<close>

definition valid_aid :: "range_table \<Rightarrow> aid \<Rightarrow> bool" where
  "valid_aid ranges a = (case py_int_base 0 (aid_value a) of Inl _ \<Rightarrow> False | Inr n \<Rightarrow>
     aid_normalized_value a = str_int n \<and> length (aid_friendly a) \<le> 31 \<and> aid_login_shell a = ''/bin/sh'' \<and> CHR '':'' \<notin> set (aid_friendly a) \<and>
     (case partition_of ranges (aid_friendly a) of None \<Rightarrow> False | Some p \<Rightarrow>
        (case map_of ranges p of None \<Rightarrow> False | Some rs \<Rightarrow> in_any_range n rs)))"

definition valid_entry :: "fs_config \<Rightarrow> bool" where
  "valid_entry e = (fs_path e \<noteq> [] \<and> length (fs_mode e) = 4 \<and> (\<exists>n. py_int_base 8 (fs_mode e) = Inr n) \<and> fs_user e \<noteq> [] \<and> fs_group e \<noteq> [])"

definition parser_ok :: "range_table \<Rightarrow> file_parser \<Rightarrow> bool" where
  "parser_ok ranges fp =
     (distinct (map aid_identifier (fp_aids fp)) \<and> set (map aid_identifier (fp_aids fp)) = kset (fp_seen_names fp) \<and>
      distinct (map aid_normalized_value (fp_aids fp)) \<and> set (map aid_normalized_value (fp_aids fp)) = kset (fp_seen_values fp) \<and>
      (\<forall>a\<in>set (fp_aids fp). valid_aid ranges a) \<and>
      distinct (map fs_path (fp_files fp @ fp_dirs fp)) \<and> set (map fs_path (fp_files fp @ fp_dirs fp)) = kset (fp_seen_paths fp) \<and>
      (\<forall>e\<in>set (fp_files fp @ fp_dirs fp). valid_entry e) \<and>
      (\<forall>e\<in>set (fp_dirs fp). last (fs_path e) = CHR ''/'') \<and> (\<forall>e\<in>set (fp_files fp). last (fs_path e) \<noteq> CHR ''/'') \<and>
      sorted_wrt (\<lambda>a b. \<not> wrapper_lt b a) (fp_files fp))"

lemma dup_ok: "handle_dup_and_add fn s seen = Inr seen' \<Longrightarrow> s \<notin> kset seen \<and> kset seen' = insert s (kset seen)"
  unfolding handle_dup_and_add_def by (auto simp: kset_dom split: if_splits)

lemma lower_no_colon: "\<forall>c\<in>set s. aid_char c \<Longrightarrow> CHR '':'' \<notin> set (lower_text s)"
proof
  assume chars: "\<forall>c\<in>set s. aid_char c" and "CHR '':'' \<in> set (lower_text s)"
  then obtain x where x: "x \<in> set s" "CHR '':'' = (let n = of_char x :: nat in if 65 \<le> n \<and> n \<le> 90 \<or> 192 \<le> n \<and> n \<le> 222 \<and> n \<noteq> 215 then char_of (n + 32) else x)"
    unfolding lower_text_def by auto
  define n where "n = (of_char x :: nat)"
  have n: "65 \<le> n \<and> n \<le> 90 \<or> 48 \<le> n \<and> n \<le> 57 \<or> n = 95" using chars x(1) unfolding aid_char_def n_def by (auto simp: Let_def)
  show False
  proof (cases "65 \<le> n \<and> n \<le> 90")
    case True
    then have "CHR '':'' = (char_of (n + 32) :: char)" using x(2) unfolding n_def by (simp add: Let_def)
    from arg_cong[OF this, of "of_char :: char \<Rightarrow> nat"] have "58 = (n + 32) mod 256" by simp
    then show ?thesis using True by simp
  next
    case False
    then have "x = CHR '':''" using x(2) n unfolding n_def by (auto simp: Let_def split: if_splits)
    then show ?thesis using n False unfolding n_def by simp
  qed
qed

lemma fixup_no_colon: "CHR '':'' \<notin> set s \<Longrightarrow> CHR '':'' \<notin> set (fixup_friendly s)"
  unfolding fixup_friendly_def by (auto split: option.split)

lemma match_chars:
  assumes "aid_match_end s = length s"
  shows "\<forall>c\<in>set (drop 4 s). aid_char c"
proof (cases "prefix ''AID_'' s \<and> takeWhile aid_char (drop 4 s) \<noteq> []")
  case True
  then have "4 + length (takeWhile aid_char (drop 4 s)) = length s" using assms unfolding aid_match_end_def by (simp add: Let_def)
  then have "length (takeWhile aid_char (drop 4 s)) = length (drop 4 s)" by simp
  then have "takeWhile aid_char (drop 4 s) = drop 4 s" by (metis take_all_iff order_refl takeWhile_eq_take)
  then show ?thesis by (metis takeWhile_eq_all_conv)
next
  case False
  then have "length s = 4" using assms unfolding aid_match_end_def by (auto simp: Let_def)
  then show ?thesis by simp
qed

lemma valid_from_checks:
  assumes a: "AID_init s val fn ''/bin/sh'' = Inr a" and m: "aid_match_end s = length s" and r: "verify_valid_range ranges a = Inr u"
  shows "valid_aid ranges a \<and> aid_identifier a = s"
proof -
  obtain n where n: "py_int_base 0 val = Inr n" and len: "length (fixup_friendly (lower_text (drop 4 s))) \<le> 31"
    and rec: "a = \<lparr>aid_identifier = s, aid_value = val, aid_found = fn, aid_login_shell = ''/bin/sh'', aid_normalized_value = str_int n,
      aid_friendly = fixup_friendly (lower_text (drop 4 s))\<rparr>"
    using a unfolding AID_init_def by (auto simp: Let_def split: if_splits)
  have "CHR '':'' \<notin> set (aid_friendly a)" unfolding rec using fixup_no_colon[OF lower_no_colon[OF match_chars[OF m]]] by simp
  moreover have "case partition_of ranges (aid_friendly a) of None \<Rightarrow> False | Some p \<Rightarrow> (case map_of ranges p of None \<Rightarrow> False | Some rs \<Rightarrow> in_any_range n rs)"
  proof (cases "partition_of ranges (aid_friendly a)")
    case None
    then show ?thesis using r unfolding verify_valid_range_def by simp
  next
    case (Some p)
    then have "try_bind (dict_get ranges p) (\<lambda>rs. if in_any_range n rs then Inr () else Inl (SystemExit 1)) = Inr u"
      using r n unfolding verify_valid_range_def rec by simp
    then show ?thesis using Some unfolding dict_get_def by (auto split: option.splits if_splits)
  qed
  ultimately show ?thesis unfolding valid_aid_def using n len rec by (simp add: rec)
qed

lemma handle_aid_ok:
  assumes ok: "parser_ok ranges fp" and run: "handle_aid ranges fn s config fp = Inr fp'"
  shows "parser_ok ranges (fp'\<lparr>fp_aids := sort_key aid_normalized_value (fp_aids fp')\<rparr>) \<and> fp_files fp' = fp_files fp"
proof -
  obtain names val a u vals where names: "handle_dup_and_add fn s (fp_seen_names fp) = Inr names" and m: "aid_match_end s = length s"
    and a: "AID_init s val fn ''/bin/sh'' = Inr a" and r: "verify_valid_range ranges a = Inr u"
    and vals: "handle_dup_and_add fn (aid_normalized_value a) (fp_seen_values fp) = Inr vals"
    and fp': "fp' = fp\<lparr>fp_seen_names := names, fp_seen_values := vals, fp_aids := fp_aids fp @ [a]\<rparr>"
    using run unfolding handle_aid_def by (auto split: if_splits sum.splits)
  note v = valid_from_checks[OF a m r] and dn = dup_ok[OF names] and dv = dup_ok[OF vals]
  have ms: "mset (map f (sort_key aid_normalized_value xs)) = mset (map f xs)" for f :: "aid \<Rightarrow> string" and xs by simp
  have "distinct (map aid_identifier (fp_aids fp @ [a])) \<and> set (map aid_identifier (fp_aids fp @ [a])) = kset names"
    using ok v dn unfolding parser_ok_def by auto
  moreover have "distinct (map aid_normalized_value (fp_aids fp @ [a])) \<and> set (map aid_normalized_value (fp_aids fp @ [a])) = kset vals"
    using ok v dv unfolding parser_ok_def by auto
  ultimately show ?thesis using ok v unfolding fp' parser_ok_def
    by (simp add: mset_eq_imp_distinct_iff[OF ms] del: map_append mset_map)
qed

lemma handle_path_ok:
  assumes ok: "parser_ok ranges fp" and run: "handle_path fn s config fp = Inr fp'"
  shows "parser_ok ranges (fp'\<lparr>fp_files := sort_by wrapper_lt (fp_files fp')\<rparr>) \<and> fp_aids fp' = fp_aids fp"
proof -
  obtain paths mode user grp caps n where paths: "handle_dup_and_add fn s (fp_seen_paths fp) = Inr paths" and s: "s \<noteq> []"
    and vals: "user \<noteq> []" "grp \<noteq> []" "length mode = 4" "py_int_base 8 mode = Inr n"
    and fp': "fp' = (let entry = \<lparr>fs_mode = mode, fs_user = user, fs_group = grp, fs_caps = caps, fs_path = s, fs_filename = fn\<rparr> in
       if last s = CHR ''/'' then fp\<lparr>fp_seen_paths := paths, fp_dirs := fp_dirs fp @ [entry]\<rparr> else fp\<lparr>fp_seen_paths := paths, fp_files := fp_files fp @ [entry]\<rparr>)"
    using run unfolding handle_path_def Let_def by (auto split: if_splits sum.splits)
  define entry where "entry = \<lparr>fs_mode = mode, fs_user = user, fs_group = grp, fs_caps = caps, fs_path = s, fs_filename = fn\<rparr>"
  have entry: "valid_entry entry" "fs_path entry = s" unfolding valid_entry_def entry_def using vals s by simp_all
  note fp' = fp'[folded entry_def, unfolded Let_def]
  note d = dup_ok[OF paths]
  have ms: "mset (map fs_path (sort_by wrapper_lt xs @ ys)) = mset (map fs_path (xs @ ys))" for xs ys by simp
  have new: "distinct (map fs_path (fp_files fp' @ fp_dirs fp')) \<and> set (map fs_path (fp_files fp' @ fp_dirs fp')) = kset paths"
    using ok d entry(2) unfolding parser_ok_def fp' by auto
  moreover have "(\<forall>e\<in>set (fp_files fp' @ fp_dirs fp'). valid_entry e) \<and> (\<forall>e\<in>set (fp_dirs fp'). last (fs_path e) = CHR ''/'') \<and> (\<forall>e\<in>set (fp_files fp'). last (fs_path e) \<noteq> CHR ''/'')"
    using ok entry unfolding parser_ok_def fp' by auto
  moreover have "fp_aids fp' = fp_aids fp" "fp_seen_names fp' = fp_seen_names fp" "fp_seen_values fp' = fp_seen_values fp" "fp_seen_paths fp' = paths" unfolding fp' by simp_all
  ultimately show ?thesis using ok unfolding parser_ok_def
    by (simp add: mset_eq_imp_distinct_iff[OF ms] files_sorted del: map_append mset_map)
qed

lemma sorted_files_fixed:
  assumes "sorted_wrt (\<lambda>a b. \<not> lt b a) xs"
  shows "sort_by lt xs = xs"
  using assms
proof (induction xs)
  case (Cons x xs)
  then have "sort_by lt (x # xs) = insert_by lt x xs" unfolding sort_by_def by simp
  then show ?case using Cons.prems by (cases xs) auto
qed (simp add: sort_by_def)

lemma parse_section_ok:
  assumes ok: "parser_ok ranges fp" "sorted (map aid_normalized_value (fp_aids fp))" and run: "parse_section ranges fn config fp sd = Inr fp'"
  shows "parser_ok ranges fp' \<and> sorted (map aid_normalized_value (fp_aids fp'))"
proof -
  obtain s d where sd: "sd = (s, d)" by fastforce
  obtain fp1 where fp': "fp' = fp1\<lparr>fp_files := sort_by wrapper_lt (fp_files fp1), fp_aids := sort_key aid_normalized_value (fp_aids fp1)\<rparr>"
    and h: "handle_aid ranges fn s config fp = Inr fp1 \<or> handle_path fn s config fp = Inr fp1"
    using run unfolding parse_section_def sd by (auto split: if_splits)
  from h have "parser_ok ranges fp'"
  proof
    assume "handle_aid ranges fn s config fp = Inr fp1"
    note * = handle_aid_ok[OF ok(1) this]
    have "sort_by wrapper_lt (fp_files fp1) = fp_files fp1" using * ok(1) by (intro sorted_files_fixed) (simp add: parser_ok_def)
    then have "fp' = fp1\<lparr>fp_aids := sort_key aid_normalized_value (fp_aids fp1)\<rparr>" unfolding fp' by simp
    then show ?thesis using * by simp
  next
    assume "handle_path fn s config fp = Inr fp1"
    note * = handle_path_ok[OF ok(1) this]
    have "sort_key aid_normalized_value (fp_aids fp1) = fp_aids fp1" using * ok(2) sort_key_id_if_sorted by metis
    then have "fp' = fp1\<lparr>fp_files := sort_by wrapper_lt (fp_files fp1)\<rparr>" unfolding fp' by simp
    then show ?thesis using * by simp
  qed
  then show ?thesis unfolding fp' by simp
qed

lemma file_parser_ok:
  assumes "FSConfigFileParser_init read_config config_files ranges = Inr fp"
  shows "parser_ok ranges fp \<and> sorted (map aid_normalized_value (fp_aids fp))"
  using assms unfolding FSConfigFileParser_init_def
proof (rule for_each_partial_invariant)
  show "parser_ok ranges fp \<and> sorted (map aid_normalized_value (fp_aids fp))"
    if ok: "parser_ok ranges fp0 \<and> sorted (map aid_normalized_value (fp_aids fp0))" and run: "parse_config read_config ranges fp0 fn = Inr fp" for fn fp0 fp
  proof -
    obtain config where "for_each (parse_section ranges fn config) fp0 config = Inr fp" using run unfolding parse_config_def by blast
    then show ?thesis by (rule for_each_partial_invariant) (use ok parse_section_ok in blast)+
  qed
qed (simp add: parser_ok_def)

section \<open>Android ids of a build\<close>

lemma partition_of_member: "partition_of ranges f = Some p \<Longrightarrow> p \<in> kset ranges \<and> prefix p f"
proof -
  assume "partition_of ranges f = Some p"
  then obtain ys zs where *: "by_length ranges = ys @ p # zs" "prefix p f" using find_first unfolding partition_of_def by metis
  have "p \<in> set (by_length ranges)" unfolding *(1) by simp
  then show ?thesis using *(2) unfolding by_length_def kset_iff by simp
qed

text \<open>No partition name that the friendly name starts with is longer.\<close>

lemma partition_of_longest:
  assumes "partition_of ranges f = Some p" "q \<in> kset ranges" "prefix q f"
  shows "length q \<le> length p"
proof -
  obtain ys zs where *: "by_length ranges = ys @ p # zs" "\<forall>y\<in>set ys. \<not> prefix y f" using assms(1) find_first unfolding partition_of_def by metis
  have "sorted (map (\<lambda>p. - int (length p)) (by_length ranges))" unfolding by_length_def by simp
  then have "\<forall>z\<in>set zs. length z \<le> length p" unfolding *(1) by (auto simp: sorted_append)
  moreover have "q \<in> set (by_length ranges)" using assms(2) unfolding by_length_def kset_iff by simp
  ultimately show ?thesis using assms(3) *(2) unfolding *(1) by auto
qed

lemma str_int_inject: "str_int a = str_int b \<longleftrightarrow> a = b"
  using py_int_str_int by (metis sum.inject(2))

lemma valid_aid_range:
  assumes "valid_aid ranges a"
  shows "\<exists>n p rs. py_int_base 0 (aid_value a) = Inr n \<and> aid_normalized_value a = str_int n \<and> partition_of ranges (aid_friendly a) = Some p \<and>
    map_of ranges p = Some rs \<and> in_any_range n rs"
  using assms unfolding valid_aid_def by (auto split: sum.splits option.splits)

lemma oem_core_apart:
  assumes h: "AIDHeaderParser_init files header = Inr h" and a: "valid_aid (hd_ranges h) a" and b: "b \<in> set (header_aids h)"
  shows "aid_normalized_value a \<noteq> aid_normalized_value b"
proof -
  obtain n p rs where n: "aid_normalized_value a = str_int n" "map_of (hd_ranges h) p = Some rs" "in_any_range n rs" using valid_aid_range[OF a] by blast
  obtain k where kb: "(k, b) \<in> set (hd_name_to_value h)" using b unfolding header_aids_def by auto
  then obtain m where m: "py_int_base 0 (aid_value b) = Inr m" "aid_normalized_value b = str_int m" "aid_value b \<in> kset (hd_value_to_name h)"
    using header_accepted[OF h] unfolding header_ok_def by blast
  have "(p, rs) \<in> set (hd_ranges h)" using n(2) by (rule map_of_SomeD)
  then have "\<exists>n. py_int_base 0 (aid_value b) = Inr n \<and> \<not> in_any_range n rs" using header_accepted[OF h] m(3) by blast
  then have "\<not> in_any_range m rs" using m(1) by simp
  then show ?thesis using n m(2) by (auto simp: str_int_inject)
qed

text \<open>C36: Android ids. Whenever reading the header and the configuration files succeeds, the ids of the configuration files have distinct
  identifiers and distinct numbers, each number is in a reserved range of the partition with the longest name that the friendly name of
  the id starts with, no id of the header has the number of such an id, the ranges of a partition are disjoint, all paths are distinct
  and directories are those that end with a slash.\<close>

theorem oem_ids_valid:
  assumes h: "AIDHeaderParser_init files header = Inr h" and fp: "FSConfigFileParser_init read_config config_files (hd_ranges h) = Inr fp"
  shows "distinct (map aid_identifier (fp_aids fp)) \<and> distinct (map aid_normalized_value (fp_aids fp)) \<and>
    (\<forall>a\<in>set (fp_aids fp). \<exists>n p rs. py_int_base 0 (aid_value a) = Inr n \<and> aid_normalized_value a = str_int n \<and>
       p \<in> kset (hd_ranges h) \<and> prefix p (aid_friendly a) \<and> (\<forall>q\<in>kset (hd_ranges h). prefix q (aid_friendly a) \<longrightarrow> length q \<le> length p) \<and>
       map_of (hd_ranges h) p = Some rs \<and> in_any_range n rs) \<and>
    (\<forall>a\<in>set (fp_aids fp). \<forall>b\<in>set (header_aids h). aid_normalized_value a \<noteq> aid_normalized_value b) \<and>
    (\<forall>(part, rs)\<in>set (hd_ranges h). \<forall>i j. i < j \<and> j < length rs \<longrightarrow> {fst (rs ! i)..snd (rs ! i)} \<inter> {fst (rs ! j)..snd (rs ! j)} = {}) \<and>
    distinct (map fs_path (fp_files fp @ fp_dirs fp)) \<and> (\<forall>e\<in>set (fp_files fp @ fp_dirs fp). e \<in> set (fp_dirs fp) \<longleftrightarrow> last (fs_path e) = CHR ''/'')"
proof (intro conjI)
  have ok: "parser_ok (hd_ranges h) fp" using file_parser_ok[OF fp] by blast
  then have valid: "valid_aid (hd_ranges h) a" if "a \<in> set (fp_aids fp)" for a using that unfolding parser_ok_def by blast
  show "distinct (map aid_identifier (fp_aids fp))" "distinct (map aid_normalized_value (fp_aids fp))" "distinct (map fs_path (fp_files fp @ fp_dirs fp))"
    using ok unfolding parser_ok_def by blast+
  show "\<forall>a\<in>set (fp_aids fp). \<exists>n p rs. py_int_base 0 (aid_value a) = Inr n \<and> aid_normalized_value a = str_int n \<and>
       p \<in> kset (hd_ranges h) \<and> prefix p (aid_friendly a) \<and> (\<forall>q\<in>kset (hd_ranges h). prefix q (aid_friendly a) \<longrightarrow> length q \<le> length p) \<and>
       map_of (hd_ranges h) p = Some rs \<and> in_any_range n rs"
  proof
    fix a assume "a \<in> set (fp_aids fp)"
    from valid_aid_range[OF valid[OF this]] obtain n p rs where *: "py_int_base 0 (aid_value a) = Inr n" "aid_normalized_value a = str_int n"
      "partition_of (hd_ranges h) (aid_friendly a) = Some p" "map_of (hd_ranges h) p = Some rs" "in_any_range n rs" by blast
    then show "\<exists>n p rs. py_int_base 0 (aid_value a) = Inr n \<and> aid_normalized_value a = str_int n \<and>
       p \<in> kset (hd_ranges h) \<and> prefix p (aid_friendly a) \<and> (\<forall>q\<in>kset (hd_ranges h). prefix q (aid_friendly a) \<longrightarrow> length q \<le> length p) \<and>
       map_of (hd_ranges h) p = Some rs \<and> in_any_range n rs"
      using partition_of_member[OF *(3)] partition_of_longest[OF *(3)] by (intro exI[of _ n] exI[of _ p] exI[of _ rs]) blast
  qed
  show "\<forall>a\<in>set (fp_aids fp). \<forall>b\<in>set (header_aids h). aid_normalized_value a \<noteq> aid_normalized_value b"
    using oem_core_apart[OF h valid] by blast
  show "\<forall>(part, rs)\<in>set (hd_ranges h). \<forall>i j. i < j \<and> j < length rs \<longrightarrow> {fst (rs ! i)..snd (rs ! i)} \<inter> {fst (rs ! j)..snd (rs ! j)} = {}"
    using header_accepted[OF h] no_overlap_disjoint unfolding ranges_ok_def by fast
  show "\<forall>e\<in>set (fp_files fp @ fp_dirs fp). e \<in> set (fp_dirs fp) \<longleftrightarrow> last (fs_path e) = CHR ''/''" using ok unfolding parser_ok_def by auto
qed

definition sample_headers :: "string \<Rightarrow> string option" where
  "sample_headers path = (if path = ''aid.h'' then Some (''#define AID_ROOT 0'' @ [nl] @ ''#define AID_OEM_RESERVED_START 2900'' @ [nl] @ ''#define AID_OEM_RESERVED_END 2999'' @ [nl])
     else if path = ''cap.h'' then Some (''#define CAP_CHOWN 0'' @ [nl] @ ''#define CAP_KILL 5'' @ [nl]) else None)"

definition sample_config :: "string \<Rightarrow> config res" where
  "sample_config fn = Inr [(''AID_VENDOR_FOO'', [(''value'', ''2900'')]),
     (''vendor/bin/*'', [(''mode'', ''0755''), (''user'', ''AID_ROOT''), (''group'', ''AID_ROOT''), (''caps'', ''0'')]),
     (''vendor/bin/foo'', [(''mode'', ''755''), (''user'', ''vendor_foo''), (''group'', ''root''), (''caps'', ''chown kill'')])]"

definition sample_ids :: aid_header where
  "sample_ids = \<lparr>hd_name_to_value = [(''root'', \<lparr>aid_identifier = ''AID_ROOT'', aid_value = ''0'', aid_found = ''aid.h'', aid_login_shell = ''/system/bin/sh'',
       aid_normalized_value = ''0'', aid_friendly = ''root''\<rparr>)],
     hd_value_to_name = [(''0'', ''root'')], hd_ranges = [(''vendor'', [(2900, 2999)])]\<rparr>"

lemma sample_ids_read: "AIDHeaderParser_init sample_headers ''aid.h'' = Inr sample_ids"
  by code_simp

theorem oem_ids_valid_witness:
  "\<exists>fp. FSConfigFileParser_init sample_config [''config.fs''] (hd_ranges sample_ids) = Inr fp \<and> map aid_normalized_value (fp_aids fp) = [''2900''] \<and>
     (\<forall>a\<in>set (fp_aids fp). \<forall>b\<in>set (header_aids sample_ids). aid_normalized_value a \<noteq> aid_normalized_value b)"
proof -
  have "case FSConfigFileParser_init sample_config [''config.fs''] (hd_ranges sample_ids) of Inl _ \<Rightarrow> False | Inr fp \<Rightarrow> map aid_normalized_value (fp_aids fp) = [''2900'']"
    by code_simp
  then obtain fp where fp: "FSConfigFileParser_init sample_config [''config.fs''] (hd_ranges sample_ids) = Inr fp" "map aid_normalized_value (fp_aids fp) = [''2900'']"
    by (cases "FSConfigFileParser_init sample_config [''config.fs''] (hd_ranges sample_ids)") (simp_all only: sum.case)
  have "\<forall>a\<in>set (fp_aids fp). \<forall>b\<in>set (header_aids sample_ids). aid_normalized_value a \<noteq> aid_normalized_value b"
    using oem_ids_valid[OF sample_ids_read fp(1)] by (elim conjE)
  with fp show ?thesis by (intro exI[of _ fp] conjI)
qed

section \<open>Which entry decides\<close>

lemma distinct_map_eq: "distinct (map f xs) \<Longrightarrow> x \<in> set xs \<Longrightarrow> y \<in> set xs \<Longrightarrow> f x = f y \<Longrightarrow> x = y"
  unfolding distinct_map inj_on_def by blast

lemma prefix_path: "fs_path e \<noteq> [] \<Longrightarrow> is_prefix e \<Longrightarrow> fs_path e = wrapped_path e @ ''*''"
  unfolding wrapped_path_def is_prefix_def by (metis append_butlast_last_id)

lemma same_length_prefix: "prefix a p \<Longrightarrow> prefix b p \<Longrightarrow> length a = length b \<Longrightarrow> a = b"
  by (metis prefix_length_prefix prefix_order.antisym order_refl)

text \<open>C37: file order. The tools on the device use the first entry of the files that matches a path. For the order that the parser produces
  this is the best match: the entry with exactly this path if there is one, and otherwise the longest of the prefixes that match; and no
  entry is found only if none matches.\<close>

theorem first_match_is_best:
  assumes fp: "FSConfigFileParser_init read_config config_files ranges = Inr fp"
  shows "case find (entry_matches path) (fp_files fp) of
      None \<Rightarrow> \<forall>f\<in>set (fp_files fp). \<not> entry_matches path f
    | Some e \<Rightarrow> e \<in> set (fp_files fp) \<and> entry_matches path e \<and>
        (\<forall>f\<in>set (fp_files fp). entry_matches path f \<and> f \<noteq> e \<longrightarrow> is_prefix f \<and> (is_prefix e \<longrightarrow> length (wrapped_path f) < length (wrapped_path e)))"
proof -
  have ok: "parser_ok ranges fp" using file_parser_ok[OF fp] by blast
  have sorted: "sorted_wrt (\<lambda>a b. \<not> wrapper_lt b a) (fp_files fp)" and dist: "distinct (map fs_path (fp_files fp))"
    and ne: "f \<in> set (fp_files fp) \<Longrightarrow> fs_path f \<noteq> []" for f using ok unfolding parser_ok_def valid_entry_def by auto
  show ?thesis
  proof (cases "find (entry_matches path) (fp_files fp)")
    case None
    moreover from this have "\<forall>f\<in>set (fp_files fp). \<not> entry_matches path f" unfolding find_None_iff by blast
    ultimately show ?thesis by simp
  next
    case (Some e)
    then obtain ys zs where es: "fp_files fp = ys @ e # zs" and e: "entry_matches path e" using find_first by metis
    then have mem: "e \<in> set (fp_files fp)" by simp
    have "is_prefix f \<and> (is_prefix e \<longrightarrow> length (wrapped_path f) < length (wrapped_path e))"
      if f: "f \<in> set (fp_files fp)" "entry_matches path f" "f \<noteq> e" for f
    proof -
      note best = first_match_best[OF sorted Some f(1,2)]
      have "fs_path f \<noteq> fs_path e" using distinct_map_eq[OF dist f(1) mem] f(3) by blast
      then have "is_prefix e \<or> is_prefix f" using e f(2) unfolding entry_matches_def by (auto split: if_splits)
      moreover have "length (wrapped_path f) \<noteq> length (wrapped_path e)" if pre: "is_prefix e" "is_prefix f"
      proof
        assume len: "length (wrapped_path f) = length (wrapped_path e)"
        have "prefix (wrapped_path f) path" "prefix (wrapped_path e) path" using e f(2) pre unfolding entry_matches_def by simp_all
        from same_length_prefix[OF this len] show False
          using prefix_path[OF ne[OF f(1)] pre(2)] prefix_path[OF ne[OF mem] pre(1)] \<open>fs_path f \<noteq> fs_path e\<close> by simp
      qed
      ultimately show ?thesis using best by force
    qed
    then show ?thesis using Some mem e by simp
  qed
qed

theorem first_match_is_best_witness:
  "\<exists>fp e. FSConfigFileParser_init sample_config [''config.fs''] (hd_ranges sample_ids) = Inr fp \<and>
     find (entry_matches ''vendor/bin/foo'') (fp_files fp) = Some e \<and> fs_path e = ''vendor/bin/foo'' \<and>
     (\<forall>f\<in>set (fp_files fp). entry_matches ''vendor/bin/foo'' f \<and> f \<noteq> e \<longrightarrow> is_prefix f)"
proof -
  let ?r = "FSConfigFileParser_init sample_config [''config.fs''] (hd_ranges sample_ids)"
  have "case ?r of Inl _ \<Rightarrow> False | Inr fp \<Rightarrow> map_option fs_path (find (entry_matches ''vendor/bin/foo'') (fp_files fp)) = Some ''vendor/bin/foo''"
    by code_simp
  then obtain fp where fp: "?r = Inr fp" "map_option fs_path (find (entry_matches ''vendor/bin/foo'') (fp_files fp)) = Some ''vendor/bin/foo''"
    by (cases ?r) (simp_all only: sum.case)
  from fp(2) obtain e where e: "find (entry_matches ''vendor/bin/foo'') (fp_files fp) = Some e" "fs_path e = ''vendor/bin/foo''"
    unfolding map_option_eq_Some by blast
  have "\<forall>f\<in>set (fp_files fp). entry_matches ''vendor/bin/foo'' f \<and> f \<noteq> e \<longrightarrow> is_prefix f"
    using first_match_is_best[OF fp(1), of "''vendor/bin/foo''"] unfolding e(1) option.case by blast
  with fp(1) e show ?thesis by (intro exI[of _ fp] exI[of _ e] conjI)
qed

section \<open>The lines of passwd and group\<close>

definition login_line :: "aid \<Rightarrow> string" where
  "login_line a = join '':'' [aid_friendly a, [], aid_normalized_value a, aid_normalized_value a, [], ''/'', ''/bin/sh'']"

lemma valid_aid_lines:
  assumes "valid_aid ranges a"
  shows "passwd_line a = Inr (login_line a) \<and> group_line a = Inr (join '':'' [aid_friendly a, [], aid_normalized_value a, []]) \<and>
    CHR '':'' \<notin> set (aid_friendly a) \<and> CHR '':'' \<notin> set (aid_normalized_value a)"
proof -
  obtain n where n: "aid_normalized_value a = str_int n" using valid_aid_range[OF assms] by blast
  have "CHR '':'' \<notin> set (aid_normalized_value a)" unfolding n using str_int_chars[of "CHR '':''" n] by (auto simp: is_digit_def)
  moreover have "CHR '':'' \<notin> set (aid_friendly a)" "aid_login_shell a = ''/bin/sh''" using assms unfolding valid_aid_def by (auto split: sum.splits)
  ultimately show ?thesis unfolding passwd_line_def group_line_def get_login_and_uid_cleansed_def login_line_def by simp
qed

lemma by_partition_lookup:
  "map_of (foldl (add_by_partition ranges) d as) p =
     (case filter (\<lambda>a. partition_of ranges (aid_friendly a) = Some p) as of [] \<Rightarrow> map_of d p
      | l \<Rightarrow> Some ((case map_of d p of None \<Rightarrow> [] | Some l0 \<Rightarrow> l0) @ l))"
proof (induction as arbitrary: d)
  case (Cons a as)
  show ?case
  proof (cases "partition_of ranges (aid_friendly a) = Some p")
    case True
    then have "map_of (add_by_partition ranges d a) p = Some ((case map_of d p of None \<Rightarrow> [] | Some l \<Rightarrow> l) @ [a])" unfolding add_by_partition_def by simp
    then show ?thesis using True by (simp add: Cons.IH split: list.split)
  next
    case False
    then have "map_of (add_by_partition ranges d a) p = map_of d p" unfolding add_by_partition_def by (auto split: option.split)
    then show ?thesis using False by (simp add: Cons.IH split: list.split)
  qed
qed simp

text \<open>C39: logins. When the header and the configuration files can be read, the generators of passwd and group raise nothing; they print one
  line for every id of the asked partition, in the order of the parser, where an id belongs to the partition with the longest name that its
  friendly name starts with; and a line splits at its colons into the fields of the format.\<close>

theorem login_lines_exact:
  assumes h: "AIDHeaderParser_init files header = Inr h" and fp: "FSConfigFileParser_init read_config fsconfig (hd_ranges h) = Inr fp"
    and mine: "mine = filter (\<lambda>a. partition_of (hd_ranges h) (aid_friendly a) = Some p) (fp_aids fp)"
  shows "PasswdGen_call passwd_line files read_config header fsconfig p = Inr (map login_line mine) \<and>
    PasswdGen_call group_line files read_config header fsconfig p = Inr (map (\<lambda>a. join '':'' [aid_friendly a, [], aid_normalized_value a, []]) mine) \<and>
    (\<forall>a\<in>set mine. split_on CHR '':'' (login_line a) = [aid_friendly a, [], aid_normalized_value a, aid_normalized_value a, [], ''/'', ''/bin/sh''])"
proof -
  have valid: "valid_aid (hd_ranges h) a" if "a \<in> set mine" for a using that file_parser_ok[OF fp] unfolding parser_ok_def mine by auto
  have lines: "map_res passwd_line mine = Inr (map login_line mine)"
    "map_res group_line mine = Inr (map (\<lambda>a. join '':'' [aid_friendly a, [], aid_normalized_value a, []]) mine)"
    using valid_aid_lines[OF valid] by (intro map_res_Inr; blast)+
  have look: "map_of (foldl (add_by_partition (hd_ranges h)) [] (fp_aids fp)) p = (if mine = [] then None else Some mine)"
    unfolding by_partition_lookup mine[symmetric] by (auto split: list.split)
  have run: "PasswdGen_call f files read_config header fsconfig p = (if mine = [] then Inr [] else map_res f mine)" for f
    unfolding PasswdGen_call_def h fp try_bind_simps Let_def look by (cases "fp_aids fp = []") (simp_all add: mine)
  moreover have "split_on CHR '':'' (login_line a) = [aid_friendly a, [], aid_normalized_value a, aid_normalized_value a, [], ''/'', ''/bin/sh'']" if "a \<in> set mine" for a
    unfolding login_line_def using valid_aid_lines[OF valid[OF that]] by (intro split_on_join) auto
  ultimately show ?thesis using lines by simp
qed

theorem login_lines_exact_witness:
  "\<exists>l. PasswdGen_call passwd_line sample_headers sample_config ''aid.h'' [''config.fs''] ''vendor'' = Inr [l] \<and>
     split_on CHR '':'' l = [''vendor_foo'', [], ''2900'', ''2900'', [], ''/'', ''/bin/sh'']"
proof -
  let ?r = "FSConfigFileParser_init sample_config [''config.fs''] (hd_ranges sample_ids)"
  let ?mine = "\<lambda>fp. filter (\<lambda>a. partition_of (hd_ranges sample_ids) (aid_friendly a) = Some ''vendor'') (fp_aids fp)"
  have "case ?r of Inl _ \<Rightarrow> False | Inr fp \<Rightarrow> map aid_friendly (?mine fp) = [''vendor_foo''] \<and> map aid_normalized_value (?mine fp) = [''2900'']" by code_simp
  then obtain fp where fp: "?r = Inr fp" "map aid_friendly (?mine fp) = [''vendor_foo'']" "map aid_normalized_value (?mine fp) = [''2900'']"
    by (cases ?r) (simp_all only: sum.case)
  then obtain a where a: "?mine fp = [a]" "aid_friendly a = ''vendor_foo''" "aid_normalized_value a = ''2900''" unfolding map_eq_Cons_conv by auto
  note * = login_lines_exact[OF sample_ids_read fp(1), of "[a]" "''vendor''", OF a(1)[symmetric], unfolded list.map]
  have "split_on CHR '':'' (login_line a) = [aid_friendly a, [], aid_normalized_value a, aid_normalized_value a, [], ''/'', ''/bin/sh'']"
    using * by (elim conjE) (erule bspec, rule list.set_intros)
  with * show ?thesis unfolding a(2,3) by (elim conjE) (intro exI conjI)
qed

section \<open>Reading the binary configuration\<close>

text \<open>The format of the device: the length of the entry, mode, user, group (16 bits each), capabilities (64 bits), and the path up to the
  first null character.\<close>

function read_fs_entries :: "string \<Rightarrow> (int \<times> int \<times> int \<times> int \<times> string) list option" where
  "read_fs_entries bs =
     (if bs = [] then Some []
      else let n = le_val (take 2 bs); field = (\<lambda>i k. int (le_val (take k (drop i bs)))) in
        if n < 16 \<or> length bs < n then None
        else map_option ((#) (field 2 2, field 4 2, field 6 2, field 8 8, takeWhile (\<lambda>c. c \<noteq> CHR 0x00) (drop 16 (take n bs))))
               (read_fs_entries (drop n bs)))"
  by auto
termination by (relation "measure length") auto

declare read_fs_entries.simps [simp del]

definition entry_fields :: "fs_tables \<Rightarrow> fs_config \<Rightarrow> (int \<times> int \<times> int \<times> int \<times> string) res" where
  "entry_fields tb e =
     try_bind (py_int_base 8 (fs_mode e)) (\<lambda>mode.
     try_bind (resolve_id tb (fs_user e)) (\<lambda>user.
     try_bind (resolve_id tb (fs_group e)) (\<lambda>grp.
     try_bind (caps_value (gt_caps tb) (fs_caps e)) (\<lambda>caps.
     try_bind (py_int_base 0 user) (\<lambda>uid.
     try_bind (py_int_base 0 grp) (\<lambda>gid.
       Inr (mode mod 2 ^ 16, uid mod 2 ^ 16, gid mod 2 ^ 16, caps mod 2 ^ 64, fs_path e)))))))"

lemma and_not_7: "n AND NOT 7 = n - n mod 8" for n :: int
proof -
  have "n - take_bit 3 n = n AND NOT (take_bit 3 n)" by (rule disjunctive_diff) (simp add: bit_take_bit_iff)
  also have "\<dots> = n AND NOT (mask 3)" by (rule bit_eqI) (auto simp: bit_simps)
  finally show ?thesis by (simp add: take_bit_eq_mod mask_eq_exp_minus_1)
qed

lemma aligned_bounds: "n \<le> aligned_64 n \<and> aligned_64 n < n + 8 \<and> aligned_64 n mod 8 = 0"
proof -
  have "0 \<le> (n + 7) mod 8" "(n + 7) mod 8 < 8" by simp_all
  moreover have "(n + 7 - (n + 7) mod 8) mod 8 = 0" by (simp add: mod_diff_right_eq)
  ultimately show ?thesis unfolding aligned_64_def and_not_7 by linarith
qed

lemma c_uint16_val: "int (le_val (c_uint16 x)) = x mod 2 ^ 16" "length (c_uint16 x) = 2"
proof -
  have "unat (word_of_int x :: 16 word) < 256 ^ 2" using unsigned_less[of "word_of_int x :: 16 word", where 'a = nat] by simp
  then have "le_val (c_uint16 x) = unat (word_of_int x :: 16 word)" unfolding c_uint16_def by (rule le_val_bytes)
  then show "int (le_val (c_uint16 x)) = x mod 2 ^ 16" by (simp add: uint_word_of_int)
qed (simp add: c_uint16_def)

lemma c_uint64_val: "int (le_val (c_uint64 x)) = x mod 2 ^ 64" "length (c_uint64 x) = 8"
proof -
  have "unat (word_of_int x :: 64 word) < 256 ^ 8" using unsigned_less[of "word_of_int x :: 64 word", where 'a = nat] by simp
  then have "le_val (c_uint64 x) = unat (word_of_int x :: 64 word)" unfolding c_uint64_def by (rule le_val_bytes)
  then show "int (le_val (c_uint64 x)) = x mod 2 ^ 64" by (simp add: uint_word_of_int)
qed (simp add: c_uint64_def)

lemma encode_ascii: "\<forall>c\<in>set s. of_char c < (128 :: nat) \<Longrightarrow> encode_utf8 s = s"
  unfolding encode_utf8_def by (induction s) (auto simp: Let_def)

lemma read_entry:
  assumes len: "length path = nat (n - 16)" "16 \<le> n" "n < 2 ^ 16"
  shows "read_fs_entries (c_uint16 n @ c_uint16 m @ c_uint16 u @ c_uint16 g @ c_uint64 c @ path @ rest) =
    map_option ((#) (m mod 2 ^ 16, u mod 2 ^ 16, g mod 2 ^ 16, c mod 2 ^ 64, takeWhile (\<lambda>c. c \<noteq> CHR 0x00) path)) (read_fs_entries rest)"
proof -
  let ?bs = "c_uint16 n @ c_uint16 m @ c_uint16 u @ c_uint16 g @ c_uint64 c @ path @ rest"
  have "int (le_val (take 2 ?bs)) = n" using c_uint16_val[of n] assms by simp
  then have n: "le_val (take 2 ?bs) = nat n" using len(2) by linarith
  have l: "length ?bs = nat n + length rest" "?bs \<noteq> []" using len c_uint16_val(2) c_uint64_val(2) by (auto dest: arg_cong[of _ _ length])
  have d: "drop (nat n) ?bs = rest" "drop 16 (take (nat n) ?bs) = path" using len c_uint16_val(2) c_uint64_val(2) by simp_all
  have f: "take 2 (drop 2 ?bs) = c_uint16 m" "take 2 (drop 4 ?bs) = c_uint16 u" "take 2 (drop 6 ?bs) = c_uint16 g" "take 8 (drop 8 ?bs) = c_uint64 c"
    using c_uint16_val(2) c_uint64_val(2) by simp_all
  have e: "(?bs = []) = False" "(nat n < 16 \<or> length ?bs < nat n) = False" using l len(2) by (simp only: simp_thms, unfold l(1)) auto
  show ?thesis by (subst read_fs_entries.simps) (simp only: Let_def n f d e c_uint16_val(1) c_uint64_val(1) if_False)
qed

lemma entry_bytes:
  assumes fields: "entry_fields tb e = Inr (m, u, g, c, path)"
    and path: "\<forall>c\<in>set (fs_path e). c \<noteq> CHR 0x00 \<and> of_char c < (128 :: nat)" "length (fs_path e) < 65512"
  shows "\<exists>bs. to_fs_entry tb e = Inr bs \<and> length bs mod 8 = 0 \<and> (\<forall>rest. read_fs_entries (bs @ rest) = map_option ((#) (m, u, g, c, path)) (read_fs_entries rest))"
proof -
  define al where "al = aligned_64 (int (length (fs_path e)) + 1)"
  have al: "int (length (fs_path e)) + 1 \<le> al" "al < int (length (fs_path e)) + 9" "al mod 8 = 0" using aligned_bounds[of "int (length (fs_path e)) + 1"] unfolding al_def by simp_all
  define buf where "buf = fs_path e @ replicate (nat al - length (fs_path e)) (CHR 0x00)"
  have enc: "encode_utf8 (fs_path e) = fs_path e" using path(1) by (intro encode_ascii) blast
  have buf: "string_buffer (encode_utf8 (fs_path e)) (nat al) = Inr buf" unfolding string_buffer_def enc buf_def using al(1) by simp
  have len: "length buf = nat ((16 + al) - 16)" unfolding buf_def using al(1) by simp
  have pad: "replicate (nat al - length (fs_path e)) (CHR 0x00) = CHR 0x00 # replicate (nat al - length (fs_path e) - 1) (CHR 0x00)"
    using al(1) by (cases "nat al - length (fs_path e)") auto
  have tw: "takeWhile (\<lambda>c. c \<noteq> CHR 0x00) buf = fs_path e" unfolding buf_def pad using path(1) by (simp add: takeWhile_append2)
  obtain m' user grp c' u' g' where *: "py_int_base 8 (fs_mode e) = Inr m'" "resolve_id tb (fs_user e) = Inr user" "resolve_id tb (fs_group e) = Inr grp"
    "caps_value (gt_caps tb) (fs_caps e) = Inr c'" "py_int_base 0 user = Inr u'" "py_int_base 0 grp = Inr g'"
    and eq: "m = m' mod 2 ^ 16" "u = u' mod 2 ^ 16" "g = g' mod 2 ^ 16" "c = c' mod 2 ^ 64" "path = fs_path e"
    using fields unfolding entry_fields_def by auto
  let ?bs = "c_uint16 (16 + al) @ c_uint16 m' @ c_uint16 u' @ c_uint16 g' @ c_uint64 c' @ buf"
  have "to_fs_entry tb e = Inr ?bs" unfolding to_fs_entry_def * try_bind_simps Let_def al_def[symmetric] buf ..
  moreover have "length ?bs mod 8 = 0"
  proof -
    have "int (length ?bs) = 16 + al" using len al(1) c_uint16_val(2) c_uint64_val(2) by simp
    moreover have "(16 + al) mod 8 = 0" using al(3) by presburger
    ultimately have "int (length ?bs) mod 8 = 0" by (simp only:)
    then show ?thesis by presburger
  qed
  moreover have "read_fs_entries (?bs @ rest) = map_option ((#) (m, u, g, c, path)) (read_fs_entries rest)" for rest
    using read_entry[OF len, of m' u' g' c' rest] al path(2) unfolding append_assoc tw eq by simp
  ultimately show ?thesis by (intro exI[of _ ?bs] conjI allI)
qed

text \<open>C38: binary configuration. When the ids and capabilities of the entries that belong to the partition can be resolved and their paths
  are ASCII without null characters and shorter than 65512, the generator succeeds, the file is aligned to 8 bytes, and a reader of the format of
  the device finds exactly these entries in order, with their paths, the mode, user and group cut to 16 bits and the capabilities cut
  to 64 bits.\<close>

theorem fs_entries_roundtrip:
  assumes "\<forall>e\<in>set es. emit_entry part all_partitions e \<longrightarrow> (\<exists>x. entry_fields tb e = Inr x) \<and>
    (\<forall>c\<in>set (fs_path e). c \<noteq> CHR 0x00 \<and> of_char c < (128 :: nat)) \<and> length (fs_path e) < 65512"
  shows "\<exists>out xs. generate_entries tb part all_partitions es = Inr out \<and> length out mod 8 = 0 \<and>
    map Inr xs = map (entry_fields tb) (filter (emit_entry part all_partitions) es) \<and> read_fs_entries out = Some xs"
proof -
  let ?f = "\<lambda>out e. if emit_entry part all_partitions e then try_bind (to_fs_entry tb e) (\<lambda>bs. Inr (out @ bs)) else Inr out"
  have "\<exists>out xs. for_each ?f pre es = Inr (pre @ out) \<and> length out mod 8 = 0 \<and>
    map Inr xs = map (entry_fields tb) (filter (emit_entry part all_partitions) es) \<and> read_fs_entries out = Some xs" for pre
    using assms
  proof (induction es arbitrary: pre)
    case Nil
    have "read_fs_entries [] = Some []" by (subst read_fs_entries.simps) simp
    then show ?case by (intro exI[of _ "[]"]) simp
  next
    case (Cons e es)
    show ?case
    proof (cases "emit_entry part all_partitions e")
      case False
      then show ?thesis using Cons by simp
    next
      case True
      then obtain x where x: "entry_fields tb e = Inr x" "\<forall>c\<in>set (fs_path e). c \<noteq> CHR 0x00 \<and> of_char c < (128 :: nat)" "length (fs_path e) < 65512"
        using Cons.prems by auto
      obtain m u g c p where xp: "x = (m, u, g, c, p)" by (cases x)
      obtain bs where bs: "to_fs_entry tb e = Inr bs" "length bs mod 8 = 0" "\<forall>rest. read_fs_entries (bs @ rest) = map_option ((#) x) (read_fs_entries rest)"
        using entry_bytes[OF x(1)[unfolded xp] x(2,3), folded xp] by (elim exE conjE) (rule that)
      obtain out xs where *: "for_each ?f (pre @ bs) es = Inr ((pre @ bs) @ out)" "length out mod 8 = 0"
        "map Inr xs = map (entry_fields tb) (filter (emit_entry part all_partitions) es)" "read_fs_entries out = Some xs"
        using Cons.IH[of "pre @ bs"] Cons.prems by auto
      have "for_each ?f pre (e # es) = Inr (pre @ (bs @ out))" using True bs(1) *(1) by simp
      moreover have "length (bs @ out) mod 8 = 0" using bs(2) *(2) by (simp add: mod_add_eq[symmetric])
      moreover have "map Inr (x # xs) = map (entry_fields tb) (filter (emit_entry part all_partitions) (e # es))" using True x(1) *(3) by simp
      moreover have "read_fs_entries (bs @ out) = Some (x # xs)" using bs(3) *(4) by simp
      ultimately show ?thesis by (intro exI[of _ "bs @ out"] exI[of _ "x # xs"] conjI)
    qed
  qed
  from this[of "[]"] show ?thesis unfolding generate_entries_def by simp
qed

definition sample_tables :: fs_tables where
  "sample_tables = \<lparr>gt_caps = [(''CAP_CHOWN'', 0), (''CAP_KILL'', 5)], gt_friendly = hd_name_to_value sample_ids, gt_id = []\<rparr>"

definition sample_entry :: fs_config where
  "sample_entry = \<lparr>fs_mode = ''0755'', fs_user = ''root'', fs_group = ''root'', fs_caps = ''CAP_CHOWN,CAP_KILL'', fs_path = ''vendor/bin/foo'', fs_filename = ''config.fs''\<rparr>"

theorem fs_entries_roundtrip_witness:
  "\<exists>out. generate_entries sample_tables ''vendor'' None [sample_entry] = Inr out \<and> read_fs_entries out = Some [(493, 0, 0, 33, ''vendor/bin/foo'')]"
proof -
  have f: "entry_fields sample_tables sample_entry = Inr (493, 0, 0, 33, ''vendor/bin/foo'')" "emit_entry ''vendor'' None sample_entry" by code_simp+
  have "(\<forall>c\<in>set (fs_path sample_entry). c \<noteq> CHR 0x00 \<and> of_char c < (128 :: nat)) \<and> length (fs_path sample_entry) < 65512"
    unfolding sample_entry_def by simp
  with f have "\<forall>e\<in>set [sample_entry]. emit_entry ''vendor'' None e \<longrightarrow> (\<exists>x. entry_fields sample_tables e = Inr x) \<and>
    (\<forall>c\<in>set (fs_path e). c \<noteq> CHR 0x00 \<and> of_char c < (128 :: nat)) \<and> length (fs_path e) < 65512" by simp
  from fs_entries_roundtrip[OF this] obtain out xs where *: "generate_entries sample_tables ''vendor'' None [sample_entry] = Inr out"
    "map Inr xs = map (entry_fields sample_tables) (filter (emit_entry ''vendor'' None) [sample_entry])" "read_fs_entries out = Some xs"
    by (elim exE conjE) (rule that)
  then have "xs = [(493, 0, 0, 33, ''vendor/bin/foo'')]" using f by (auto simp: map_eq_Cons_conv)
  with * show ?thesis by blast
qed

section \<open>Errors of the header reader\<close>

definition in_range_header :: "string \<Rightarrow> string option" where
  "in_range_header path = Some (''#define AID_FOO 2950'' @ [nl] @ ''#define AID_OEM_RESERVED_START 2900'' @ [nl] @ ''#define AID_OEM_RESERVED_END 2999'' @ [nl])"

definition two_spellings_header :: "string \<Rightarrow> string option" where
  "two_spellings_header path = Some (''#define AID_FOO 16'' @ [nl] @ ''#define AID_BAR 0x10'' @ [nl])"

lemma in_range_header_read: "AIDHeaderParser_init in_range_header ''aid.h'' = Inl TypeError"
  by code_simp

lemma two_spellings_read: "case AIDHeaderParser_init two_spellings_header ''aid.h'' of Inl _ \<Rightarrow> False
    | Inr h \<Rightarrow> map aid_normalized_value (header_aids h) = [''16'', ''16'']"
  by code_simp



end
