(* ===== verification/Spec2Isabelle.thy ===== *)
theory Spec2Isabelle
  imports BlockDiff BuildProps MergeInfo Edify EventLogTags FsConfig
begin

text \<open>
  Verification of the release tools of the Android build system: the Python code under \<open>tools/releasetools\<close> that computes
  block based updates, and smaller tools of \<open>tools/\<close> that read and write the text files of a build.

  \<^bold>\<open>The program.\<close> \<open>blockimgdiff.py\<close> compares a source and a target image and writes a transfer list, a list of commands that turn
  the source into the target in place, together with the data of new blocks (\<open>new.dat\<close>) and the patches (\<open>patch.dat\<close>). Its data are
  sets of block numbers (\<open>rangelib.py\<close>); the images are objects of \<open>images.py\<close> or \<open>sparse_img.py\<close>, which offer the care map,
  the partition of it into files, hashes and contents. \<open>BlockImageDiff.Compute\<close> finds one transfer per file (\<open>FindTransfers\<close>, with the
  splitting of large apks by threads), orders them (\<open>FindSequenceForTransfers\<close>: a graph of conflicts, a feedback arc set heuristic on a
  heap, stashes for the edges that remain backward), keeps the stash within the cache (\<open>ReviseStashSize\<close>,
  \<open>SelectAndConvertDiffTransfersToNew\<close>), checks the order (\<open>AssertSequenceGood\<close>, \<open>AssertSha1Good\<close>), computes the patches with worker
  threads (\<open>ComputePatches\<close>) and prints the list (\<open>WriteTransfers\<close>). The update script around it is made by \<open>edify_generator.py\<close> with
  the fstab of \<open>common.py\<close>. \<open>check_partition_sizes.py\<close> compares the sizes of dynamic partitions, described by info dictionaries that
  \<open>common.py\<close> reads and merges. \<open>post_process_props.py\<close> and the event log tag scripts rewrite text files of the build,
  and \<open>fs_config_generator.py\<close> turns the configured file owners and Android ids into the tables of the device.

  \<^bold>\<open>Style of the model.\<close> Exceptions are values of \<open>py_error\<close> in a sum type, statement sequences are \<open>try_bind\<close>, loops that may raise are
  \<open>for_each\<close>; objects that are shared and mutated (the transfers) live in a store and are named by their index, other objects are
  records. Dictionaries are association lists in insertion order. Threads are step relations over the shared queue, one step per
  access under the lock. Integers are unbounded, as in Python; the widths of binary formats are written out in \<open>struct_pack\<close> and
  \<open>struct_unpack\<close>, and the C integers of \<open>ctypes\<close> are words. The semantics is that of Python 3.

  \<^bold>\<open>Theories.\<close>
  \<^item> \<open>Py_Prelude\<close>: exceptions, loops, lists with Python indexing, strings (strip, split, join, int), ordered dictionaries, \<open>heapq.merge\<close>,
    and the collection \<open>strip_defs\<close>.
  \<^item> \<open>RangeLib\<close> (\<open>rangelib.py\<close>): every method of \<open>RangeSet\<close>. The operations are refined to sets of integers (\<open>blocks\<close>), and the locale
    \<open>block_set\<close> is what the other theories use of them.
  \<^item> \<open>Heapq\<close>: \<open>heapify\<close>, \<open>heappush\<close>, \<open>heappop\<close>, with the locale \<open>work_queue\<close>: no element is lost.
  \<^item> \<open>Transfers\<close>, \<open>DiffGraph\<close>, \<open>VertexSequence\<close>, \<open>TransferOrder\<close> (\<open>blockimgdiff.py\<close>: \<open>Transfer\<close>, \<open>GenerateDigraph\<close>, \<open>FindVertexSequence\<close>,
    \<open>ReverseBackwardEdges\<close>, \<open>ImproveVertexSequence\<close>, \<open>FindSequenceForTransfers\<close>): the ordering ends, raises nothing and returns a
    permutation in which a conflicting pair is in the safe order or stashed.
  \<^item> \<open>SequenceCheck\<close> (\<open>AssertSequenceGood\<close>, \<open>AssertPartition\<close>): what exactly the checks accept, that found sequences pass, and that running
    the sequence in place gives the image that the transfers give on an untouched source.
  \<^item> \<open>StashTable\<close>, \<open>ReviseStash\<close> (\<open>ReviseStashSize\<close>): the reference-counted stash with the locale \<open>slot_table\<close>, and the bound on the blocks
    that are stashed at the same time.
  \<^item> \<open>WriteTransfers\<close> (\<open>WriteTransfers\<close>): the lines of the list and the numbers in its head.
  \<^item> \<open>Images\<close>, \<open>ByteFormat\<close>, \<open>SparseImg\<close> (\<open>images.py\<close>, \<open>sparse_img.py\<close>): the image classes with the locale \<open>block_image\<close> they all interpret; the
    encoding of sparse images is written as an independent reference and reading inverts it.
  \<^item> \<open>ImgdiffStats\<close>, \<open>PatchQueue\<close>, \<open>ComputePatches\<close> (\<open>ImgdiffStats\<close>, \<open>CanUseImgdiff\<close>, \<open>compute_patch\<close>, \<open>ComputePatchesForInputList\<close>,
    \<open>ComputePatches\<close>, \<open>AssertSha1Good\<close>, \<open>SelectAndConvertDiffTransfersToNew\<close>): styles, patch data, and that the threads do not influence it.
  \<^item> \<open>AddTransfers\<close>, \<open>SplitApks\<close>, \<open>FindTransfers\<close> (\<open>FindTransfers\<close> with its nested functions, \<open>AbbreviateSourceNames\<close>,
    \<open>ParseAndValidateSplitInfo\<close>, \<open>SplitLargeApks\<close>): the transfers partition the target.
  \<^item> \<open>BlockDiff\<close> (\<open>BlockImageDiff.__init__\<close>, \<open>Compute\<close>): the composition of the above, from the contract of the images to the end result.
  \<^item> \<open>TextFile\<close>: text mode, \<open>readlines\<close>, \<open>splitlines\<close>. \<open>BuildProps\<close> (\<open>post_process_props.py\<close>): the whole run after option parsing, and
    the round trip between property lists and files.
  \<^item> \<open>InfoDict\<close>, \<open>PartitionSizes\<close> (\<open>LoadDictionaryFromFile\<close> of \<open>common.py\<close>, \<open>check_partition_sizes.py\<close>): the check against a specification of
    the limits. \<open>MergeInfo\<close> (\<open>MergeDynamicPartitionInfoDicts\<close> of \<open>common.py\<close>): where every entry of the merged dictionary comes from.
  \<^item> \<open>Fstab\<close>, \<open>Edify\<close> (\<open>LoadRecoveryFSTab\<close> and its helpers of \<open>common.py\<close>, \<open>edify_generator.py\<close>): reading what describes a list of partitions
    gives it back; the script unmounts what it mounts; the word wrapping ends.
  \<^item> \<open>EventLogTags\<close> (\<open>event_log_tags.py\<close>, \<open>merge-event-log-tags.py\<close>): the merge fails exactly on conflicts, and its output reads back as the
    union of the inputs.
  \<^item> \<open>AidHeader\<close>, \<open>FsConfig\<close> (\<open>fs_config_generator.py\<close>): the readers of C headers and of \<open>config.fs\<close> files and the generators; the ids of a build are
    unique and inside their ranges, the order of the files makes the first match the best one, and the binary output reads back.

  \<^bold>\<open>Parameters and their hypotheses.\<close> Code outside the repository is an argument: \<open>sha1\<close> (a function of the bytes), \<open>bsdiff\<close> and \<open>imgdiff\<close> (a patch
  or a failure for two byte strings, and for splitting the text of the split info), the compressed size by \<open>zlib\<close>, the contents of files, the sections
  \<open>configparser\<close> finds in a file, the kernel version test \<open>should_enable_uffd_gc\<close>, the order in which Python iterates over a set of strings, and percent conversions other than
  \<open>%s\<close> and \<open>%d\<close> in foreign text. Theorems that need their documented behaviour state it as a hypothesis, and the witnesses instantiate it.

  \<^bold>\<open>Loops and bounds.\<close> Recursion is structural or has a measure. Two \<open>while\<close> loops that end only for a positive step get a number of rounds:
  the cutting of zero ranges in \<open>WriteTransfers\<close> and of large files in \<open>AddTransfers\<close>. The number is the number of blocks of the set; each round
  removes at least one, so the value \<open>Diverges\<close> is never reached when the step is positive, which the theorems show, and it is what the code
  does (it does not return) when the step is 0. Thread pools have runs of bounded length, with the bound in the theorem.
  The float arithmetic of the stash threshold is rational arithmetic here.

  \<^bold>\<open>Not modelled.\<close> The text of log and error messages and the progress output; option parsing; writing of result files beyond their content;
  characters above code point 255. Of \<open>common.py\<close> only what is named above: the rest, like the scripts for signing, image building, package
  generation and merging of target files, consists of command lines for external programs and of copying in zip files and directories, so a
  model of it would state little beyond those programs. The readers of binary formats (\<open>fat16copy.py\<close>, \<open>check_elf_file.py\<close>) and
  the report generators (warnings, SBOM, product catalogues) are independent of the parts above and are left for
  later work. The make, Go, Rust, Java and shell parts of the repository are written in other languages.
\<close>

end
